(* ===== verification/Prelude.thy ===== *)
theory Prelude
  imports Main "HOL-Library.Word" "HOL-Library.List_Lexorder" "HOL-Library.Multiset"
    "HOL-Library.Sublist"
begin

text \<open>
  The vocabulary the component theories share: the machine types of the Rust sources, the
  outcomes a call can have besides a value, byte slices, the little- and big-endian codecs of
  the standard library, the slice comparison and the binary search of \<open>core::slice\<close>,
  and the generic lemmas on lists, maps and words that carry the component proofs.

  Conventions. A \<open>u8\<close>, \<open>u16\<close>, \<open>u32\<close>, \<open>u64\<close> is a word of that width, so that \<open>as\<close> casts,
  wrapping arithmetic and shifts are the word operations. Lengths and in-memory offsets
  (\<open>usize\<close> values bounded by the length of an allocated buffer) are \<open>nat\<close>. A \<open>Vec<u8>\<close> or
  a \<open>&[u8]\<close> is a list of bytes. A Rust panic and an out-of-bounds read through a raw
  pointer are outcomes of their own (\<open>Panic\<close>, \<open>Undefined\<close>), and so is a loop over linked nodes that
  has not ended within its bound (\<open>Diverges\<close>).
\<close>

unbundle bit_operations_syntax

section \<open>Types\<close>

type_synonym byte = "8 word"
type_synonym u16 = "16 word"
type_synonym u32 = "32 word"
type_synonym i32 = "32 word"
type_synonym u64 = "64 word"
type_synonym bytes = "byte list"

text \<open>A key, what is stored under it (\<open>None\<close> is a tombstone) and its sequence number.\<close>

type_synonym entry = "bytes \<times> bytes option \<times> u64"

datatype io_kind = NotFound | InvalidInput | UnexpectedEof | InvalidData | WriteZero | OutOfMemory | Other | OsError nat

datatype failure = IoError io_kind | Panic | Undefined | Diverges

type_synonym 'a result = "failure + 'a"

text \<open>Collections for the automation of the component theories.\<close>

named_theorems size_defs \<open>the layout constants of the on-disk formats\<close>
named_theorems byte_simps \<open>lengths and round trips of the byte codecs\<close>

section \<open>Slices\<close>

text \<open>\<open>&buf[a..b]\<close>, first where it is in range, then with the panic of the range check.\<close>

definition subslice :: "'a list \<Rightarrow> nat \<Rightarrow> nat \<Rightarrow> 'a list" where
  "subslice xs a b = take (b - a) (drop a xs)"

definition slice_checked :: "'a list \<Rightarrow> nat \<Rightarrow> nat \<Rightarrow> 'a list result" where
  "slice_checked xs a b = (if a \<le> b \<and> b \<le> length xs then Inr (subslice xs a b) else Inl Panic)"

text \<open>
  \<open>slice::from_raw_parts(ptr.add(a), n)\<close> on a mapping of \<open>length xs\<close> bytes: no check, and
  reading past the mapping is undefined.
\<close>

definition slice_raw :: "'a list \<Rightarrow> nat \<Rightarrow> nat \<Rightarrow> 'a list result" where
  "slice_raw xs a n = (if a + n \<le> length xs then Inr (subslice xs a (a + n)) else Inl Undefined)"

text \<open>\<open>out[i..i + src.len()].copy_from_slice(src)\<close>, in range.\<close>

definition copy_into :: "'a list \<Rightarrow> nat \<Rightarrow> 'a list \<Rightarrow> 'a list" where
  "copy_into out i src = take i out @ src @ drop (i + length src) out"

lemma subslice_self [simp]: "subslice xs 0 (length xs) = xs"
  by (simp add: subslice_def)

lemma subslice_empty [simp]: "subslice xs a a = []"
  by (simp add: subslice_def)

lemma length_subslice: "b \<le> length xs \<Longrightarrow> length (subslice xs a b) = b - a"
  by (simp add: subslice_def)

lemma subslice_append_mid:
  "length xs = a \<Longrightarrow> b = a + length ys \<Longrightarrow> subslice (xs @ ys @ zs) a b = ys"
  by (simp add: subslice_def)

lemma subslice_append_left: "b \<le> length xs \<Longrightarrow> subslice (xs @ ys) a b = subslice xs a b"
  by (simp add: subslice_def)

lemma subslice_drop: "subslice (drop n xs) a b = subslice xs (n + a) (n + b)"
  by (simp add: subslice_def add.commute)

lemma subslice_subslice: "b \<le> d - c \<Longrightarrow> subslice (subslice xs c d) a b = subslice xs (c + a) (c + b)"
  by (simp add: subslice_def drop_take min_def add.commute)

lemma subslice_join: "a \<le> b \<Longrightarrow> b \<le> c \<Longrightarrow> subslice xs a b @ subslice xs b c = subslice xs a c"
proof -
  assume "a \<le> b" "b \<le> c"
  then have "c - a = (b - a) + (c - b)" "b = (b - a) + a" by auto
  then show ?thesis
    unfolding subslice_def by (metis drop_drop take_add)
qed

lemma take_subslice: "take n (subslice xs a b) = subslice xs a (a + min n (b - a))"
  by (simp add: subslice_def min.commute)

lemma drop_subslice: "drop n (subslice xs a b) = subslice xs (a + n) b"
  by (simp add: subslice_def drop_take add.commute)

lemma slice_checked_ok: "a \<le> b \<Longrightarrow> b \<le> length xs \<Longrightarrow> slice_checked xs a b = Inr (subslice xs a b)"
  by (simp add: slice_checked_def)

lemma slice_raw_ok: "a + n \<le> length xs \<Longrightarrow> slice_raw xs a n = Inr (subslice xs a (a + n))"
  by (simp add: slice_raw_def)

lemma length_copy_into [simp]:
  "i + length src \<le> length out \<Longrightarrow> length (copy_into out i src) = length out"
  by (simp add: copy_into_def)

lemma subslice_copy_into_same:
  "i + length src \<le> length out \<Longrightarrow> subslice (copy_into out i src) i (i + length src) = src"
  by (simp add: copy_into_def subslice_def)

lemma take_copy_into: "n \<le> i \<Longrightarrow> i \<le> length out \<Longrightarrow> take n (copy_into out i src) = take n out"
  by (simp add: copy_into_def)

lemma take_copy_into_end:
  "i \<le> length out \<Longrightarrow> n = i + length src \<Longrightarrow> take n (copy_into out i src) = take i out @ src"
  by (simp add: copy_into_def)

lemma drop_copy_into:
  "i + length src \<le> n \<Longrightarrow> i \<le> length out \<Longrightarrow> drop n (copy_into out i src) = drop n out"
  by (simp add: copy_into_def)

lemma subslice_copy_into_disjoint:
  assumes "i + length src \<le> length out" "b \<le> i \<or> i + length src \<le> a"
  shows "subslice (copy_into out i src) a b = subslice out a b"
  using assms(2)
proof
  assume "b \<le> i"
  then have "subslice (copy_into out i src) a b = drop a (take b (take i (copy_into out i src)))"
    by (cases "a \<le> b") (auto simp: subslice_def take_drop min_def)
  also have "take i (copy_into out i src) = take i out" using assms(1) by (intro take_copy_into) auto
  finally show ?thesis using \<open>b \<le> i\<close> by (cases "a \<le> b") (auto simp: subslice_def take_drop min_def)
next
  assume "i + length src \<le> a"
  then show ?thesis using assms(1) by (simp add: subslice_def drop_copy_into)
qed

text \<open>\<open>slice::chunks(n)\<close> for \<open>n > 0\<close>.\<close>

fun chunks :: "nat \<Rightarrow> 'a list \<Rightarrow> 'a list list" where
  "chunks n xs = (if n = 0 \<or> xs = [] then [] else take n xs # chunks n (drop n xs))"

declare chunks.simps [simp del]

section \<open>Byte codecs\<close>

definition to_le_bytes :: "'a::len word \<Rightarrow> bytes" where
  "to_le_bytes w = map (\<lambda>i. ucast (drop_bit (8 * i) w)) [0..<LENGTH('a) div 8]"

fun from_le_bytes :: "bytes \<Rightarrow> 'a::len word" where
  "from_le_bytes [] = 0"
| "from_le_bytes (b # bs) = ucast b OR push_bit 8 (from_le_bytes bs)"

definition to_be_bytes :: "'a::len word \<Rightarrow> bytes" where
  "to_be_bytes w = rev (to_le_bytes w)"

definition from_be_bytes :: "bytes \<Rightarrow> 'a::len word" where
  "from_be_bytes bs = from_le_bytes (rev bs)"

lemma length_to_le_bytes [simp, byte_simps]:
  "length (to_le_bytes (w :: 'a::len word)) = LENGTH('a) div 8"
  by (simp add: to_le_bytes_def)

lemma length_to_be_bytes [simp, byte_simps]:
  "length (to_be_bytes (w :: 'a::len word)) = LENGTH('a) div 8"
  by (simp add: to_be_bytes_def)

lemma bit_from_le_bytes:
  "bit (from_le_bytes bs :: 'a::len word) n \<longleftrightarrow>
     n < LENGTH('a) \<and> n div 8 < length bs \<and> bit (bs ! (n div 8)) (n mod 8)"
proof (induction bs arbitrary: n)
  case Nil
  then show ?case by simp
next
  case (Cons b bs)
  show ?case
  proof (cases "n < 8")
    case True
    then show ?thesis
      by (auto simp: bit_simps dest: bit_imp_le_length)
  next
    case False
    then obtain m where m: "n = m + 8" by (metis add.commute le_Suc_ex not_less)
    have "\<not> bit b n" using False by (auto dest: bit_imp_le_length)
    moreover have "n div 8 = Suc (m div 8)" "n mod 8 = m mod 8" using m by auto
    ultimately show ?thesis
      using Cons.IH[of m] m by (auto simp: bit_simps dest: bit_imp_le_length)
  qed
qed

lemma from_to_le_bytes [simp, byte_simps]:
  fixes w :: "'a::len word"
  assumes "8 dvd LENGTH('a)"
  shows "from_le_bytes (to_le_bytes w) = w"
proof (rule bit_word_eqI)
  fix n assume n: "n < LENGTH('a)"
  obtain k where "LENGTH('a) = 8 * k" using assms by (auto elim: dvdE)
  then have "n div 8 < LENGTH('a) div 8"
    using n by (simp add: less_mult_imp_div_less mult.commute)
  then show "bit (from_le_bytes (to_le_bytes w) :: 'a word) n = bit w n"
    using n by (simp add: bit_from_le_bytes to_le_bytes_def bit_simps)
qed

lemma to_from_le_bytes:
  assumes "length bs = LENGTH('a::len) div 8" "8 dvd LENGTH('a)"
  shows "to_le_bytes (from_le_bytes bs :: 'a word) = bs"
proof (rule nth_equalityI)
  show "length (to_le_bytes (from_le_bytes bs :: 'a word)) = length bs"
    using assms by simp
  fix i assume "i < length (to_le_bytes (from_le_bytes bs :: 'a word))"
  then have i: "i < LENGTH('a) div 8" by simp
  show "to_le_bytes (from_le_bytes bs :: 'a word) ! i = bs ! i"
  proof (rule bit_word_eqI)
    fix n :: nat assume n: "n < LENGTH(8)"
    then have "8 * i + n < LENGTH('a)" using i assms(2) by auto
    then show "bit (to_le_bytes (from_le_bytes bs :: 'a word) ! i) n = bit (bs ! i) n"
      using i n assms by (simp add: to_le_bytes_def bit_simps bit_from_le_bytes)
  qed
qed

lemma from_to_be_bytes [simp, byte_simps]:
  "8 dvd LENGTH('a::len) \<Longrightarrow> from_be_bytes (to_be_bytes (w :: 'a word)) = w"
  by (simp add: from_be_bytes_def to_be_bytes_def)

lemma to_from_be_bytes:
  "length bs = LENGTH('a::len) div 8 \<Longrightarrow> 8 dvd LENGTH('a) \<Longrightarrow>
   to_be_bytes (from_be_bytes bs :: 'a word) = bs"
  by (simp add: from_be_bytes_def to_be_bytes_def to_from_le_bytes)

lemma to_le_bytes_inject:
  "8 dvd LENGTH('a::len) \<Longrightarrow> to_le_bytes (v :: 'a word) = to_le_bytes w \<longleftrightarrow> v = w"
  by (metis from_to_le_bytes)

text \<open>The codecs at the widths the formats use, for evaluation.\<close>

lemma to_le_bytes_u32:
  "to_le_bytes (w :: u32) = [ucast w, ucast (drop_bit 8 w), ucast (drop_bit 16 w), ucast (drop_bit 24 w)]"
  by (simp add: to_le_bytes_def upt_rec)

lemma to_le_bytes_u64:
  "to_le_bytes (w :: u64) =
     [ucast w, ucast (drop_bit 8 w), ucast (drop_bit 16 w), ucast (drop_bit 24 w),
      ucast (drop_bit 32 w), ucast (drop_bit 40 w), ucast (drop_bit 48 w), ucast (drop_bit 56 w)]"
  by (simp add: to_le_bytes_def upt_rec)

lemmas byte_eval = to_le_bytes_u32 to_le_bytes_u64 to_be_bytes_def from_be_bytes_def

lemma from_le_bytes_zero: "(\<forall>b\<in>set bs. b = 0) \<Longrightarrow> from_le_bytes bs = (0 :: 'a::len word)"
  by (induction bs) auto

section \<open>Comparison and binary search\<close>

text \<open>
  The order of byte slices is the one of \<open>HOL-Library.List_Lexorder\<close> on words: lexicographic,
  unsigned bytes, a proper prefix first, as \<open>Ord for [u8]\<close>.
\<close>

datatype rust_ordering = Less | Equal | Greater

definition rust_cmp :: "'a::linorder \<Rightarrow> 'a \<Rightarrow> rust_ordering" where
  "rust_cmp a b = (if a < b then Less else if a = b then Equal else Greater)"

text \<open>\<open>Ok\<close> and \<open>Err\<close> of \<open>binary_search_by\<close>.\<close>

datatype search_result = Found nat | Insert_at nat

text \<open>The branchless loop of \<open>slice::binary_search_by\<close>: \<open>base\<close> stays on an element \<open>\<le>\<close> the target.\<close>

fun bsearch_loop :: "('a \<Rightarrow> rust_ordering) \<Rightarrow> 'a list \<Rightarrow> nat \<Rightarrow> nat \<Rightarrow> nat" where
  "bsearch_loop f xs n base =
     (if n \<le> 1 then base
      else let half = n div 2; mid = base + half in
        bsearch_loop f xs (n - half) (if f (xs ! mid) = Greater then base else mid))"

declare bsearch_loop.simps [simp del]

definition binary_search_by :: "('a \<Rightarrow> rust_ordering) \<Rightarrow> 'a list \<Rightarrow> search_result" where
  "binary_search_by f xs =
     (if xs = [] then Insert_at 0
      else let base = bsearch_loop f xs (length xs) 0 in
        case f (xs ! base) of
          Equal \<Rightarrow> Found base
        | Less \<Rightarrow> Insert_at (base + 1)
        | Greater \<Rightarrow> Insert_at base)"

lemma rust_cmp_simps [simp]:
  "rust_cmp a b = Less \<longleftrightarrow> a < b"
  "rust_cmp a b = Equal \<longleftrightarrow> a = b"
  "rust_cmp a b = Greater \<longleftrightarrow> b < a"
  by (auto simp: rust_cmp_def)

lemma bsearch_loop_spec:
  assumes "sorted (map g xs)" "base + n \<le> length xs" "0 < n"
    and "base = 0 \<or> g (xs ! base) \<le> k"
    and "\<forall>j. base + n \<le> j \<longrightarrow> j < length xs \<longrightarrow> k < g (xs ! j)"
    and "b = bsearch_loop (\<lambda>x. rust_cmp (g x) k) xs n base"
  shows "b < length xs \<and> (b = 0 \<or> g (xs ! b) \<le> k) \<and> (\<forall>j. b < j \<longrightarrow> j < length xs \<longrightarrow> k < g (xs ! j))"
  using assms(2-)
proof (induction n arbitrary: base rule: less_induct)
  case (less n)
  show ?case
  proof (cases "n \<le> 1")
    case True
    with less.prems have "n = 1" "b = base" by (auto simp: bsearch_loop.simps)
    with less.prems show ?thesis by auto
  next
    case False
    define half mid where "half = n div 2" and "mid = base + half"
    define base' where "base' = (if rust_cmp (g (xs ! mid)) k = Greater then base else mid)"
    have h: "0 < half" "half < n" "mid < length xs" using False less.prems(1) by (auto simp: half_def mid_def)
    have b: "b = bsearch_loop (\<lambda>x. rust_cmp (g x) k) xs (n - half) base'"
      using less.prems(5) False by (simp add: bsearch_loop.simps[of _ _ n] Let_def half_def mid_def base'_def)
    have up: "k < g (xs ! j)" if "base' + (n - half) \<le> j" "j < length xs" for j
    proof (cases "rust_cmp (g (xs ! mid)) k = Greater")
      case True
      with that h have "mid \<le> j" by (auto simp: base'_def mid_def half_def)
      with True that sorted_nth_mono[OF assms(1), of mid j] show ?thesis by auto
    next
      case False
      with that h less.prems(4) show ?thesis by (auto simp: base'_def mid_def)
    qed
    have "base' + (n - half) \<le> length xs" "base' = 0 \<or> g (xs ! base') \<le> k"
      using less.prems(1,3) h by (auto simp: base'_def mid_def)
    then show ?thesis using less.IH[of "n - half" base'] up b h by auto
  qed
qed

text \<open>
  What a client may rely on: on a list sorted by \<open>g\<close>, a hit has the key, and a miss gives the
  position that splits the list into smaller and greater keys.
\<close>

locale slice_search =
  fixes search :: "('a \<Rightarrow> rust_ordering) \<Rightarrow> 'a list \<Rightarrow> search_result"
  assumes found: "sorted (map g xs) \<Longrightarrow> search (\<lambda>x. rust_cmp (g x) k) xs = Found i \<Longrightarrow>
      i < length xs \<and> g (xs ! i) = (k :: bytes)"
    and missing: "sorted (map g xs) \<Longrightarrow> search (\<lambda>x. rust_cmp (g x) k) xs = Insert_at i \<Longrightarrow>
      i \<le> length xs \<and> (\<forall>j<i. g (xs ! j) < k) \<and> (\<forall>j. i \<le> j \<longrightarrow> j < length xs \<longrightarrow> k < g (xs ! j))"
begin

text \<open>The first element whose key is at least \<open>k\<close>, when keys are distinct.\<close>

lemma lower_bound:
  fixes g :: "'a \<Rightarrow> bytes"
  assumes "sorted_wrt (<) (map g xs)"
    and "(case search (\<lambda>x. rust_cmp (g x) k) xs of Found i \<Rightarrow> i | Insert_at i \<Rightarrow> i) = i"
  shows "i \<le> length xs" "\<forall>j<i. g (xs ! j) < k" "\<forall>j. i \<le> j \<longrightarrow> j < length xs \<longrightarrow> k \<le> g (xs ! j)"
proof -
  have s: "sorted (map g xs)" using assms(1) strict_sorted_imp_sorted by blast
  have lt: "g (xs ! a) < g (xs ! b)" if "a < b" "b < length xs" for a b
    using assms(1) that by (simp add: sorted_wrt_iff_nth_less)
  show "i \<le> length xs" "\<forall>j<i. g (xs ! j) < k" "\<forall>j. i \<le> j \<longrightarrow> j < length xs \<longrightarrow> k \<le> g (xs ! j)"
    using assms(2) found[OF s] missing[OF s] lt
    by (auto split: search_result.splits simp: le_less) (metis le_neq_implies_less)+
qed

text \<open>The last element whose key is at most \<open>k\<close>: an exact hit, or the one before the insertion point.\<close>

lemma last_at_most:
  fixes g :: "'a \<Rightarrow> bytes"
  assumes "sorted (map g xs)" "j < length xs" "g (xs ! j) \<le> k"
    and "\<And>l. j < l \<Longrightarrow> l < length xs \<Longrightarrow> k < g (xs ! l)" "\<And>l. l < j \<Longrightarrow> g (xs ! l) < k"
  shows "search (\<lambda>x. rust_cmp (g x) k) xs = (if g (xs ! j) = k then Found j else Insert_at (j + 1))"
proof -
  note s = assms(1)
  show ?thesis
  proof (cases "search (\<lambda>x. rust_cmp (g x) k) xs")
    case (Found i)
    with found[OF s] have i: "i < length xs" "g (xs ! i) = k" by auto
    have "\<not> i < j" using assms(5)[of i] i by auto
    moreover have "\<not> j < i" using assms(4)[of i] i by auto
    ultimately have "i = j" by auto
    with i Found show ?thesis by simp
  next
    case (Insert_at i)
    note m = missing[OF s Insert_at]
    have "j < i"
    proof (rule ccontr)
      assume "\<not> j < i"
      then have "k < g (xs ! j)" using m assms(2) by auto
      then show False using assms(3) by auto
    qed
    moreover have "\<not> j + 1 < i"
    proof
      assume "j + 1 < i"
      then have "g (xs ! (j + 1)) < k" "j + 1 < length xs" using m by auto
      then show False using assms(4)[of "j + 1"] by auto
    qed
    moreover have "g (xs ! j) \<noteq> k" using m \<open>j < i\<close> by force
    ultimately show ?thesis using Insert_at by auto
  qed
qed

end

interpretation bs: slice_search binary_search_by
proof
  fix g :: "'a \<Rightarrow> bytes" and xs k i
  assume s: "sorted (map g xs)"
  let ?b = "bsearch_loop (\<lambda>x. rust_cmp (g x) k) xs (length xs) 0"
  have spec: "xs \<noteq> [] \<Longrightarrow> ?b < length xs \<and> (?b = 0 \<or> g (xs ! ?b) \<le> k) \<and>
      (\<forall>j. ?b < j \<longrightarrow> j < length xs \<longrightarrow> k < g (xs ! j))"
    using bsearch_loop_spec[OF s, of 0 "length xs" k ?b] by auto
  {
    assume "binary_search_by (\<lambda>x. rust_cmp (g x) k) xs = Found i"
    then show "i < length xs \<and> g (xs ! i) = k"
      using spec by (auto simp: binary_search_by_def Let_def split: if_splits rust_ordering.splits)
  next
    assume e: "binary_search_by (\<lambda>x. rust_cmp (g x) k) xs = Insert_at i"
    have below: "g (xs ! j) \<le> g (xs ! ?b)" if "j \<le> ?b" "xs \<noteq> []" for j
      using that spec sorted_nth_mono[OF s, of j ?b] by auto
    show "i \<le> length xs \<and> (\<forall>j<i. g (xs ! j) < k) \<and> (\<forall>j. i \<le> j \<longrightarrow> j < length xs \<longrightarrow> k < g (xs ! j))"
    proof (cases "xs = []")
      case True
      with e show ?thesis by (simp add: binary_search_by_def)
    next
      case False
      note sp = spec[OF False]
      show ?thesis
      proof (cases "rust_cmp (g (xs ! ?b)) k")
        case Less
        with e False have "i = ?b + 1" by (auto simp: binary_search_by_def Let_def)
        with sp Less below False show ?thesis by (auto simp: less_Suc_eq_le intro: le_less_trans)
      next
        case Equal
        with e False show ?thesis by (auto simp: binary_search_by_def Let_def)
      next
        case Greater
        with e False have "i = ?b" by (auto simp: binary_search_by_def Let_def)
        with sp Greater show ?thesis by (auto simp: le_less)
      qed
    qed
  }
qed

section \<open>Rings\<close>

text \<open>
  The rings of the program have a power-of-two length, free-running positions that wrap at the width
  of their type, and find a slot with \<open>pos & mask\<close>. The window of a ring is what lies between two
  positions, in order.
\<close>

definition window :: "'a list \<Rightarrow> nat \<Rightarrow> nat \<Rightarrow> 'a list" where
  "window xs h n = map (\<lambda>j. xs ! ((h + j) mod length xs)) [0..<n]"

lemma length_window [simp]: "length (window xs h n) = n"
  by (simp add: window_def)

lemma window_0 [simp]: "window xs h 0 = []"
  by (simp add: window_def)

lemma nth_window [simp]: "j < n \<Longrightarrow> window xs h n ! j = xs ! ((h + j) mod length xs)"
  by (simp add: window_def)

lemma window_Suc: "window xs h (Suc n) = window xs h n @ [xs ! ((h + n) mod length xs)]"
  by (simp add: window_def)

lemma window_Cons: "window xs h (Suc n) = xs ! (h mod length xs) # window xs (Suc h) n"
  by (rule nth_equalityI) (auto simp: nth_Cons split: nat.splits)

lemma drop_window: "drop c (window xs h n) = window xs (h + c) (n - c)"
  by (rule nth_equalityI) (auto simp: add.assoc)

lemma window_mod: "h mod length xs = h' mod length xs \<Longrightarrow> window xs h n = window xs h' n"
  by (rule nth_equalityI) (auto, metis mod_add_cong)

lemma mod_inj_window:
  fixes i j :: nat
  assumes "i < n" "j < n" "n \<le> L" "(h + i) mod L = (h + j) mod L"
  shows "i = j"
proof -
  have le: "a = b" if "a \<le> b" "b < L" "(h + a) mod L = (h + b) mod L" for a b
  proof -
    have "L dvd (h + b) - (h + a)" using that(1) that(3)[symmetric] by (subst mod_eq_dvd_iff_nat[symmetric]) auto
    then show "a = b" using that nat_dvd_not_less[of "b - a" L] by fastforce
  qed
  show ?thesis using assms le[of i j] le[of j i] by (cases "i \<le> j") auto
qed

text \<open>Writing the slot after the window appends to it, as long as the ring is not full.\<close>

lemma window_write:
  assumes "n < length xs"
  shows "window (xs[(h + n) mod length xs := x]) h (Suc n) = window xs h n @ [x]"
proof (rule nth_equalityI)
  fix i assume "i < length (window (xs[(h + n) mod length xs := x]) h (Suc n))"
  then have i: "i < Suc n" by simp
  have l: "(h + i) mod length xs < length xs" using assms by (intro mod_less_divisor) auto
  show "window (xs[(h + n) mod length xs := x]) h (Suc n) ! i = (window xs h n @ [x]) ! i"
  proof (cases "i = n")
    case True
    then show ?thesis using l by (simp add: nth_append)
  next
    case False
    then have "(h + n) mod length xs \<noteq> (h + i) mod length xs"
      using mod_inj_window[of n "Suc n" i "length xs" h] assms i by auto
    then show ?thesis using False i by (simp add: nth_append)
  qed
qed simp

text \<open>\<open>n.is_power_of_two()\<close>.\<close>

definition is_power_of_two :: "'a::len word \<Rightarrow> bool" where
  "is_power_of_two n \<longleftrightarrow> list_ex (\<lambda>k. n = 2 ^ k) [0..<LENGTH('a)]"

lemma unat_and_mask:
  "k < LENGTH('a::len) \<Longrightarrow> unat ((w :: 'a word) AND (2 ^ k - 1)) = unat w mod 2 ^ k"
  by (simp flip: take_bit_eq_mask mask_eq_exp_minus_1 take_bit_eq_mod add: unsigned_take_bit_eq)

lemma unat_add_mod:
  assumes "k \<le> LENGTH('a::len)"
  shows "unat ((w :: 'a word) + of_nat n) mod 2 ^ k = (unat w + n) mod 2 ^ k"
proof -
  have "(2 ^ k :: nat) dvd 2 ^ LENGTH('a)" using assms by (rule le_imp_power_dvd)
  then show ?thesis by (simp add: unat_word_ariths unat_of_nat mod_mod_cancel mod_add_eq mod_add_right_eq)
qed

lemma unat_dist_Suc:
  fixes t h :: "'a::len word"
  assumes "unat (t - h) < 2 ^ LENGTH('a) - 1"
  shows "unat (t + 1 - h) = Suc (unat (t - h))"
proof -
  have "unat ((t - h) + 1) = (unat (t - h) + 1) mod 2 ^ LENGTH('a)" by (simp add: unat_word_ariths mod_simps)
  also have "\<dots> = unat (t - h) + 1" using assms by (intro mod_less) linarith
  finally show ?thesis by (simp add: algebra_simps)
qed

lemma unat_dist_head: "(t :: 'a::len word) \<noteq> h \<Longrightarrow> unat (t - h) = Suc (unat (t - (h + 1)))"
proof -
  assume "t \<noteq> h"
  then have "t - h \<noteq> 0" by simp
  then have "unat (t - h - 1) = unat (t - h) - 1" "0 < unat (t - h)"
    by (auto simp: unat_minus_one unat_gt_0)
  then show ?thesis by (simp add: diff_diff_eq)
qed

section \<open>Streams of encoded records\<close>

text \<open>
  A byte string read record by record with a decoder that gives a value and the length it
  consumed: the reference the offset loops of the block and index readers are compared with.
\<close>

fun decode_all :: "(bytes \<Rightarrow> ('a \<times> nat) option) \<Rightarrow> bytes \<Rightarrow> 'a list" where
  "decode_all dec bs =
     (case dec bs of
        None \<Rightarrow> []
      | Some (x, n) \<Rightarrow> if n = 0 \<or> bs = [] then [] else x # decode_all dec (drop n bs))"

declare decode_all.simps [simp del]

text \<open>The contract of a self-delimiting encoding.\<close>

locale record_codec =
  fixes enc :: "'a \<Rightarrow> bytes" and ok :: "'a \<Rightarrow> bool" and dec :: "bytes \<Rightarrow> ('a \<times> nat) option"
  assumes dec_enc: "ok x \<Longrightarrow> dec (enc x @ rest) = Some (x, length (enc x))"
    and enc_nonempty: "enc x \<noteq> []"
begin

lemma decode_all_enc:
  assumes "\<forall>x\<in>set xs. ok x" "dec rest = None"
  shows "decode_all dec (concat (map enc xs) @ rest) = xs"
  using assms(1)
proof (induction xs)
  case Nil
  then show ?case using assms(2) by (simp add: decode_all.simps)
next
  case (Cons x xs)
  then show ?case
    using dec_enc[of x "concat (map enc xs) @ rest"] enc_nonempty[of x]
    by (simp add: decode_all.simps[of dec "enc x @ _"])
qed

lemma enc_inject:
  assumes "ok x" "ok y" "enc x @ r = enc y @ s"
  shows "x = y \<and> r = s"
  using dec_enc[OF assms(1), of r] dec_enc[OF assms(2), of s] assms(3) by simp

end

end
