(* ===== verification/Block.thy ===== *)
theory Block
  imports Prelude
begin

text \<open>
  The data blocks of an SSTable, \<^verbatim>\<open>src/tier3_storage/src/sstable/block.rs\<close>: the builder, the entry
  iterator and the point search. An entry is two 32-bit lengths, a 64-bit sequence number, the
  key and the value; the value length \<open>u32::MAX\<close> marks a tombstone.
\<close>

section \<open>Builder\<close>

definition TARGET_BLOCK_SIZE :: nat where
  "TARGET_BLOCK_SIZE = 4096"

definition TOMBSTONE_VAL_LEN :: u32 where
  "TOMBSTONE_VAL_LEN = 0xFFFFFFFF"

record block_builder =
  bk_buf :: bytes
  bk_last_key :: bytes

definition block_builder_new :: block_builder where
  "block_builder_new = \<lparr>bk_buf = [], bk_last_key = []\<rparr>"

definition block_add :: "bytes \<Rightarrow> bytes option \<Rightarrow> u64 \<Rightarrow> block_builder \<Rightarrow> block_builder" where
  "block_add key val seq b =
     (let
        k_len = (of_nat (length key) :: u32);
        v_len = (case val of Some v \<Rightarrow> (of_nat (length v) :: u32) | None \<Rightarrow> TOMBSTONE_VAL_LEN);
        buf = bk_buf b @ to_le_bytes k_len;
        buf = buf @ to_le_bytes v_len;
        buf = buf @ to_le_bytes seq;
        buf = buf @ key;
        buf = (case val of Some v \<Rightarrow> buf @ v | None \<Rightarrow> buf)
      in \<lparr>bk_buf = buf, bk_last_key = key\<rparr>)"

definition block_estimated_size :: "block_builder \<Rightarrow> nat" where
  "block_estimated_size b = length (bk_buf b)"

definition block_is_empty :: "block_builder \<Rightarrow> bool" where
  "block_is_empty b \<longleftrightarrow> bk_buf b = []"

definition block_finish :: "block_builder \<Rightarrow> bytes \<times> bytes" where
  "block_finish b = (bk_buf b, bk_last_key b)"

section \<open>Iterator\<close>

record block_iter =
  bi_data :: bytes
  bi_offset :: nat

definition block_iter_new :: "bytes \<Rightarrow> block_iter" where
  "block_iter_new data = \<lparr>bi_data = data, bi_offset = 0\<rparr>"

definition next_entry :: "block_iter \<Rightarrow> entry option \<times> block_iter" where
  "next_entry it =
     (let data = bi_data it; off = bi_offset it in
      if off + 16 > length data then (None, it)
      else let
        k_len = unat (from_le_bytes (subslice data off (off + 4)) :: u32);
        v_len_raw = (from_le_bytes (subslice data (off + 4) (off + 8)) :: u32);
        seq = from_le_bytes (subslice data (off + 8) (off + 16));
        total_val_len = (if v_len_raw = TOMBSTONE_VAL_LEN then 0 else unat v_len_raw);
        total_len = 16 + k_len + total_val_len
      in if off + total_len > length data then (None, it)
      else let
        key = subslice data (off + 16) (off + 16 + k_len);
        val = (if v_len_raw = TOMBSTONE_VAL_LEN then None
               else Some (subslice data (off + 16 + k_len) (off + total_len)))
      in (Some (key, val, seq), it\<lparr>bi_offset := off + total_len\<rparr>))"

lemma next_entry_progress:
  assumes "next_entry it = (Some e, it')"
  shows "bi_data it' = bi_data it" "bi_offset it + 16 \<le> bi_offset it'" "bi_offset it' \<le> length (bi_data it)"
  using assms by (auto simp: next_entry_def Let_def split: if_splits)

lemma next_entry_None: "next_entry it = (None, it') \<Longrightarrow> it' = it"
  by (auto simp: next_entry_def Let_def split: if_splits)

text \<open>\<open>search\<close>: stop at the key, or at the first greater key.\<close>

function block_search :: "block_iter \<Rightarrow> bytes \<Rightarrow> (bytes option \<times> u64) option \<times> block_iter" where
  "block_search it target_key =
     (case next_entry it of
        (None, it') \<Rightarrow> (None, it')
      | (Some (key, val, seq), it') \<Rightarrow>
          if key = target_key then (Some (val, seq), it')
          else if key > target_key then (None, it')
          else block_search it' target_key)"
  by pat_completeness auto
termination
proof (relation "measure (\<lambda>(it, k). length (bi_data it) - bi_offset it)", goal_cases)
  case (2 it k x it' e key vs val seq)
  then have "next_entry it = (Some (key, val, seq), it')" by simp
  from next_entry_progress[OF this] show ?case by simp
qed simp

declare block_search.simps [simp del]

section \<open>The contents of a block\<close>

text \<open>One entry at the head of a byte string, and its encoding.\<close>

definition dec_entry :: "bytes \<Rightarrow> (entry \<times> nat) option" where
  "dec_entry bs =
     (case next_entry (block_iter_new bs) of
        (None, _) \<Rightarrow> None
      | (Some e, it) \<Rightarrow> Some (e, bi_offset it))"

definition enc_entry :: "entry \<Rightarrow> bytes" where
  "enc_entry e =
     (case e of (key, val, seq) \<Rightarrow>
        to_le_bytes (of_nat (length key) :: u32) @
        to_le_bytes (case val of Some v \<Rightarrow> (of_nat (length v) :: u32) | None \<Rightarrow> TOMBSTONE_VAL_LEN) @
        to_le_bytes seq @ key @ (case val of Some v \<Rightarrow> v | None \<Rightarrow> []))"

text \<open>Lengths that fit their fields; a value of \<open>2\<^sup>3\<^sup>2 - 1\<close> bytes would read as a tombstone.\<close>

definition entry_ok :: "entry \<Rightarrow> bool" where
  "entry_ok e = (case e of (key, val, seq) \<Rightarrow>
     length key < 2 ^ 32 \<and> (case val of Some v \<Rightarrow> length v < 2 ^ 32 - 1 | None \<Rightarrow> True))"

definition block_entries :: "bytes \<Rightarrow> entry list" where
  "block_entries data = decode_all dec_entry data"

lemma next_entry_drop:
  assumes "bi_offset it \<le> length (bi_data it)"
  shows "next_entry it =
    (case dec_entry (drop (bi_offset it) (bi_data it)) of
       None \<Rightarrow> (None, it)
     | Some (e, n) \<Rightarrow> (Some e, it\<lparr>bi_offset := bi_offset it + n\<rparr>))"
  using assms
  by (simp add: dec_entry_def next_entry_def block_iter_new_def Let_def subslice_drop add.assoc less_diff_conv
      add.commute) (auto simp: algebra_simps)

lemma val_len_not_tombstone:
  "length v < 2 ^ 32 - 1 \<Longrightarrow> (of_nat (length v) :: u32) \<noteq> TOMBSTONE_VAL_LEN"
  "length v < 2 ^ 32 - 1 \<Longrightarrow> unat (of_nat (length v) :: u32) = length v"
proof -
  assume l: "length v < 2 ^ 32 - 1"
  then show u: "unat (of_nat (length v) :: u32) = length v" by (simp add: unat_of_nat)
  have "unat TOMBSTONE_VAL_LEN = 2 ^ 32 - 1" by (simp add: TOMBSTONE_VAL_LEN_def)
  then show "(of_nat (length v) :: u32) \<noteq> TOMBSTONE_VAL_LEN" using l u by auto
qed

lemma length_enc_entry:
  "length (enc_entry (key, val, seq)) = 16 + length key + (case val of Some v \<Rightarrow> length v | None \<Rightarrow> 0)"
  by (auto simp: enc_entry_def split: option.splits)

lemma enc_entry_fields:
  assumes "bs = enc_entry (key, val, seq) @ rest"
  shows "subslice bs 0 4 = to_le_bytes (of_nat (length key) :: u32)"
    "subslice bs 4 8 = to_le_bytes (case val of Some v \<Rightarrow> (of_nat (length v) :: u32) | None \<Rightarrow> TOMBSTONE_VAL_LEN)"
    "subslice bs 8 16 = to_le_bytes seq" "subslice bs 16 (16 + length key) = key"
    "val = Some v \<Longrightarrow> subslice bs (16 + length key) (16 + length key + length v) = v"
  by (auto simp: assms enc_entry_def subslice_def split: option.splits)

lemma dec_enc_entry:
  assumes "entry_ok e"
  shows "dec_entry (enc_entry e @ rest) = Some (e, length (enc_entry e))"
proof -
  obtain key val seq where e: "e = (key, val, seq)" by (cases e)
  have k: "unat (of_nat (length key) :: u32) = length key"
    using assms by (simp add: e entry_ok_def unat_of_nat)
  note f = enc_entry_fields[of _ key val seq rest, OF refl]
  show ?thesis
  proof (cases val)
    case None
    then show ?thesis
      using f k by (simp add: e dec_entry_def next_entry_def block_iter_new_def Let_def length_enc_entry)
  next
    case (Some v)
    then have "length v < 2 ^ 32 - 1" using assms by (simp add: e entry_ok_def)
    then show ?thesis
      using f(1-4) f(5)[OF Some] k Some val_len_not_tombstone[of v]
      by (simp add: e dec_entry_def next_entry_def block_iter_new_def Let_def length_enc_entry)
  qed
qed

interpretation ec: record_codec enc_entry entry_ok dec_entry
proof
  fix e rest
  show "entry_ok e \<Longrightarrow> dec_entry (enc_entry e @ rest) = Some (e, length (enc_entry e))"
    by (rule dec_enc_entry)
  have "0 < length (enc_entry e)" by (cases e) (simp add: length_enc_entry)
  then show "enc_entry e \<noteq> []" by simp
qed

lemma dec_entry_Nil [simp]: "dec_entry [] = None"
  by (simp add: dec_entry_def next_entry_def block_iter_new_def)

lemma dec_entry_bounds: "dec_entry bs = Some (e, n) \<Longrightarrow> 16 \<le> n \<and> n \<le> length bs"
  using next_entry_progress[of "block_iter_new bs"]
  by (auto simp: dec_entry_def block_iter_new_def split: prod.splits option.splits)

lemma block_entries_enc: "\<forall>e\<in>set es. entry_ok e \<Longrightarrow> block_entries (concat (map enc_entry es)) = es"
  using ec.decode_all_enc[of es "[]"] by (simp add: block_entries_def)

lemma block_entries_rec:
  "block_entries data =
     (case dec_entry data of None \<Rightarrow> [] | Some (e, n) \<Rightarrow> e # block_entries (drop n data))"
  using dec_entry_bounds[of data]
  by (auto simp: block_entries_def decode_all.simps[of dec_entry data] split: option.splits)

lemma dec_entry_sound:
  assumes "dec_entry bs = Some (e, n)"
  shows "take n bs = enc_entry e"
proof -
  define kl vr where "kl = (from_le_bytes (subslice bs 0 4) :: u32)" and "vr = (from_le_bytes (subslice bs 4 8) :: u32)"
  define vl where "vl = (if vr = TOMBSTONE_VAL_LEN then 0 else unat vr)"
  have f: "16 + unat kl + vl \<le> length bs" "n = 16 + unat kl + vl"
    "e = (subslice bs 16 (16 + unat kl),
          if vr = TOMBSTONE_VAL_LEN then None else Some (subslice bs (16 + unat kl) n),
          from_le_bytes (subslice bs 8 16))"
    using assms by (auto simp: dec_entry_def next_entry_def block_iter_new_def Let_def kl_def vr_def vl_def
        split: if_splits)
  have l: "length (subslice bs 16 (16 + unat kl)) = unat kl" "length (subslice bs (16 + unat kl) n) = vl"
    using f by (simp_all add: length_subslice)
  have w: "to_le_bytes kl = subslice bs 0 4" "to_le_bytes vr = subslice bs 4 8"
    "to_le_bytes (from_le_bytes (subslice bs 8 16) :: u64) = subslice bs 8 16"
    using f by (simp_all add: kl_def vr_def to_from_le_bytes length_subslice)
  have "enc_entry e = subslice bs 0 4 @ subslice bs 4 8 @ subslice bs 8 16 @
      subslice bs 16 (16 + unat kl) @ subslice bs (16 + unat kl) n"
    using l w by (auto simp: enc_entry_def f(3) vl_def f(2))
  also have "\<dots> = subslice bs 0 n" using f(2) by (simp add: subslice_join)
  finally show ?thesis by (simp add: subslice_def)
qed

lemma block_entries_sound: "prefix (concat (map enc_entry (block_entries data))) data"
proof (induction data rule: length_induct)
  case (1 data)
  show ?case
  proof (cases "dec_entry data")
    case (Some en)
    then obtain e n where d: "dec_entry data = Some (e, n)" by (cases en) auto
    then have "prefix (concat (map enc_entry (block_entries (drop n data)))) (drop n data)"
      using 1 dec_entry_bounds[OF d] by auto
    then show ?thesis
      using dec_entry_sound[OF d] append_take_drop_id[of n data]
      by (simp add: block_entries_rec[of data] d) (metis same_prefix_prefix)
  qed (simp add: block_entries_rec[of data])
qed

text \<open>\<open>search\<close> over the decoded entries.\<close>

fun scan_entries :: "bytes \<Rightarrow> entry list \<Rightarrow> (bytes option \<times> u64) option" where
  "scan_entries target [] = None"
| "scan_entries target ((key, val, seq) # es) =
     (if key = target then Some (val, seq) else if key > target then None else scan_entries target es)"

lemma block_search_scan:
  assumes "bi_offset it \<le> length (bi_data it)"
  shows "fst (block_search it target) = scan_entries target (block_entries (drop (bi_offset it) (bi_data it)))"
  using assms
proof (induction it target rule: block_search.induct)
  case (1 it target)
  let ?d = "drop (bi_offset it) (bi_data it)"
  show ?case
  proof (cases "dec_entry ?d")
    case None
    then show ?thesis
      using "1.prems" by (simp add: block_search.simps[of it] next_entry_drop block_entries_rec[of ?d])
  next
    case (Some en)
    then obtain key val seq n where d: "dec_entry ?d = Some ((key, val, seq), n)" by (cases en) auto
    let ?it = "it\<lparr>bi_offset := bi_offset it + n\<rparr>"
    have ne: "next_entry it = (Some (key, val, seq), ?it)" using d "1.prems" by (simp add: next_entry_drop)
    have "bi_offset ?it \<le> length (bi_data ?it)" using dec_entry_bounds[OF d] "1.prems" by auto
    then have IH: "key \<noteq> target \<Longrightarrow> \<not> target < key \<Longrightarrow>
        fst (block_search ?it target) = scan_entries target (block_entries (drop n ?d))"
      using "1.IH"[OF ne[symmetric] refl refl refl] by (simp add: add.commute)
    show ?thesis
      using IH by (simp add: block_search.simps[of it] ne block_entries_rec[of ?d] d)
  qed
qed

lemma scan_sorted: "sorted (map fst es) \<Longrightarrow> scan_entries target es = map_of es target"
proof (induction target es rule: scan_entries.induct)
  case (2 target key val seq es)
  have "target < key \<Longrightarrow> map_of es target = None"
    using 2 by (auto simp: map_of_eq_None_iff)
  with 2 show ?case by auto
qed simp

lemma block_search_enc:
  assumes "\<forall>e\<in>set es. entry_ok e" "sorted (map fst es)"
  shows "fst (block_search (block_iter_new (concat (map enc_entry es))) key) = map_of es key"
  using block_search_scan[of "block_iter_new (concat (map enc_entry es))" key] block_entries_enc[OF assms(1)]
    scan_sorted[OF assms(2)] by (simp add: block_iter_new_def)

text \<open>The builder appends the encoding of its argument.\<close>

lemma block_add_enc:
  "block_add key val seq b = \<lparr>bk_buf = bk_buf b @ enc_entry (key, val, seq), bk_last_key = key\<rparr>"
  by (auto simp: block_add_def enc_entry_def Let_def split: option.splits)

section \<open>Properties\<close>

definition block_of :: "entry list \<Rightarrow> block_builder" where
  "block_of es = fold (\<lambda>(key, val, seq). block_add key val seq) es block_builder_new"

lemma bk_buf_block_of: "bk_buf (block_of es) = concat (map enc_entry es)"
proof -
  have "bk_buf (fold (\<lambda>(key, val, seq). block_add key val seq) es b) = bk_buf b @ concat (map enc_entry es)" for b
    by (induction es arbitrary: b) (auto simp: block_add_enc)
  then show ?thesis by (simp add: block_of_def block_builder_new_def)
qed

text \<open>
  A block built from entries with keys in order answers point lookups as the map of those
  entries, tombstones included: the value stored, \<open>None\<close> for a tombstone, and no answer for a
  key that was not added.
\<close>

theorem block_build_search:
  assumes "\<forall>e\<in>set es. entry_ok e" "sorted (map fst es)"
  shows "fst (block_search (block_iter_new (fst (block_finish
      (fold (\<lambda>(key, val, seq). block_add key val seq) es block_builder_new)))) key) = map_of es key"
  using block_search_enc[OF assms] bk_buf_block_of[of es] by (simp add: block_finish_def block_of_def)

theorem block_build_search_witness:
  "fst (block_search (block_iter_new (fst (block_finish
      (fold (\<lambda>(key, val, seq). block_add key val seq)
        [([1], Some [9], 1), ([1, 2], None, 2), ([3], Some [], 3)] block_builder_new)))) [1, 2]) = Some (None, 2)"
  using block_build_search[of "[([1], Some [9], 1), ([1, 2], None, 2), ([3], Some [], 3)]" "[1, 2]"]
  by (simp add: entry_ok_def)

text \<open>
  Reading a block of arbitrary bytes is sound: the entries decoded re-encode to a prefix of
  the bytes, and \<open>search\<close> returns the first of them with the key, unless a greater key comes
  before it.
\<close>

theorem block_search_any_bytes:
  "fst (block_search (block_iter_new data) key) = scan_entries key (block_entries data) \<and>
   prefix (concat (map enc_entry (block_entries data))) data"
  using block_search_scan[of "block_iter_new data" key] block_entries_sound[of data]
  by (simp add: block_iter_new_def)

end
