(* ===== verification/Footer.thy ===== *)
theory Footer
  imports Prelude
begin

text \<open>
  The 40-byte trailer of an SSTable, \<^verbatim>\<open>src/tier3_storage/src/sstable/footer.rs\<close>: where the index
  and the filter lie, and the magic number.
\<close>

definition FOOTER_SIZE :: nat where
  "FOOTER_SIZE = 40"

definition SSTABLE_MAGIC :: u64 where
  "SSTABLE_MAGIC = 0x53535441424C4531"

record footer =
  index_offset :: u64
  index_len :: u64
  filter_offset :: u64
  filter_len :: u64
  magic :: u64

definition footer_new :: "u64 \<Rightarrow> u64 \<Rightarrow> u64 \<Rightarrow> u64 \<Rightarrow> footer" where
  "footer_new io il fo fl =
     \<lparr>index_offset = io, index_len = il, filter_offset = fo, filter_len = fl, magic = SSTABLE_MAGIC\<rparr>"

text \<open>The \<open>assert!\<close> on the output length is the panic.\<close>

definition footer_encode :: "footer \<Rightarrow> bytes \<Rightarrow> bytes result" where
  "footer_encode f out =
     (if length out < FOOTER_SIZE then Inl Panic
      else let
        out = copy_into out 0 (to_le_bytes (index_offset f));
        out = copy_into out 8 (to_le_bytes (index_len f));
        out = copy_into out 16 (to_le_bytes (filter_offset f));
        out = copy_into out 24 (to_le_bytes (filter_len f));
        out = copy_into out 32 (to_le_bytes (magic f))
      in Inr out)"

definition footer_decode :: "bytes \<Rightarrow> footer result" where
  "footer_decode buf =
     (if length buf < FOOTER_SIZE then Inl (IoError UnexpectedEof)
      else let m = from_le_bytes (subslice buf 32 40) in
        if m \<noteq> SSTABLE_MAGIC then Inl (IoError InvalidData)
        else Inr \<lparr>index_offset = from_le_bytes (subslice buf 0 8),
                  index_len = from_le_bytes (subslice buf 8 16),
                  filter_offset = from_le_bytes (subslice buf 16 24),
                  filter_len = from_le_bytes (subslice buf 24 32), magic = m\<rparr>)"

definition footer_bytes :: "footer \<Rightarrow> bytes" where
  "footer_bytes f = to_le_bytes (index_offset f) @ to_le_bytes (index_len f) @
     to_le_bytes (filter_offset f) @ to_le_bytes (filter_len f) @ to_le_bytes (magic f)"

lemma length_footer_bytes [simp]: "length (footer_bytes f) = FOOTER_SIZE"
  by (simp add: footer_bytes_def FOOTER_SIZE_def)

lemma footer_encode_bytes:
  "FOOTER_SIZE \<le> length out \<Longrightarrow> footer_encode f out = Inr (footer_bytes f @ drop FOOTER_SIZE out)"
  by (simp add: footer_encode_def Let_def copy_into_def footer_bytes_def FOOTER_SIZE_def)

lemma footer_bytes_fields:
  "subslice (footer_bytes f @ rest) 0 8 = to_le_bytes (index_offset f)"
  "subslice (footer_bytes f @ rest) 8 16 = to_le_bytes (index_len f)"
  "subslice (footer_bytes f @ rest) 16 24 = to_le_bytes (filter_offset f)"
  "subslice (footer_bytes f @ rest) 24 32 = to_le_bytes (filter_len f)"
  "subslice (footer_bytes f @ rest) 32 40 = to_le_bytes (magic f)"
  by (simp_all add: footer_bytes_def subslice_def)

lemma footer_decode_encoded:
  "footer_decode (footer_bytes f @ rest) = (if magic f = SSTABLE_MAGIC then Inr f else Inl (IoError InvalidData))"
  by (simp add: footer_decode_def footer_bytes_fields)

lemma footer_decode_bytes:
  "magic f = SSTABLE_MAGIC \<Longrightarrow> footer_decode (footer_bytes f @ rest) = Inr f"
  by (simp add: footer_decode_encoded)

lemma footer_decode_sound:
  assumes "footer_decode out = Inr f"
  shows "take FOOTER_SIZE out = footer_bytes f \<and> magic f = SSTABLE_MAGIC"
proof
  show "magic f = SSTABLE_MAGIC" using assms by (auto simp: footer_decode_def Let_def split: if_splits)
  have len: "FOOTER_SIZE \<le> length out" using assms by (auto simp: footer_decode_def split: if_splits)
  have l: "length (subslice out a b) = b - a" if "b \<le> 40" for a b
    using len that by (simp add: length_subslice FOOTER_SIZE_def)
  have "f = \<lparr>index_offset = from_le_bytes (subslice out 0 8), index_len = from_le_bytes (subslice out 8 16),
      filter_offset = from_le_bytes (subslice out 16 24), filter_len = from_le_bytes (subslice out 24 32),
      magic = from_le_bytes (subslice out 32 40)\<rparr>"
    using assms by (simp add: footer_decode_def Let_def split: if_splits)
  then have "footer_bytes f = subslice out 0 8 @ subslice out 8 16 @ subslice out 16 24 @ subslice out 24 32 @ subslice out 32 40"
    using l by (simp add: footer_bytes_def to_from_le_bytes)
  also have "\<dots> = subslice out 0 40" by (simp add: subslice_join)
  finally show "take FOOTER_SIZE out = footer_bytes f" by (simp add: subslice_def FOOTER_SIZE_def)
qed

section \<open>Properties\<close>

text \<open>
  Footer round trip and validation: what \<open>encode\<close> writes for a footer made with
  \<open>Footer::new\<close> decodes to the same footer, and every buffer that decodes is, in its first 40
  bytes, the encoding of the footer returned, magic number included.
\<close>

theorem footer_roundtrip:
  assumes "FOOTER_SIZE \<le> length out"
  shows "(\<exists>out'. footer_encode (footer_new io il fo fl) out = Inr out' \<and>
      footer_decode out' = Inr (footer_new io il fo fl)) \<and>
    (\<forall>f. footer_decode out = Inr f \<longrightarrow> take FOOTER_SIZE out = footer_bytes f \<and> magic f = SSTABLE_MAGIC)"
  using assms footer_decode_sound by (auto simp: footer_encode_bytes footer_decode_bytes footer_new_def)

theorem footer_roundtrip_witness:
  "\<exists>out'. footer_encode (footer_new 100 20 120 32) (replicate 40 0) = Inr out' \<and>
     footer_decode out' = Inr (footer_new 100 20 120 32)"
  using footer_roundtrip[of "replicate 40 0" 100 20 120 32] by (simp add: FOOTER_SIZE_def)

end
