(* ===== verification/Bloom.thy ===== *)
theory Bloom
  imports Prelude
begin

text \<open>
  The split-block Bloom filter, \<^verbatim>\<open>src/tier3_storage/src/bloom/filter.rs\<close>: the hash, the builder,
  and the membership test in its scalar and its AVX2 form. A 256-bit register is the list of its
  eight 32-bit lanes, and each intrinsic is its lane-wise meaning.
\<close>

section \<open>Hash\<close>

definition BITS_PER_KEY :: nat where
  "BITS_PER_KEY = 10"

definition BYTES_PER_BLOCK :: nat where
  "BYTES_PER_BLOCK = 32"

definition SALTS :: "u32 list" where
  "SALTS = [0x47b6137b, 0x44974d91, 0x8824ad5b, 0xa2b7289d,
            0x705495c7, 0x2df1424b, 0x9efc4947, 0x5c6bfb31]"

definition chunk_val :: "bytes \<Rightarrow> u64" where
  "chunk_val chunk = fold (\<lambda>(i, b) val. val OR push_bit (i * 8) (ucast b)) (enumerate 0 chunk) 0"

definition hash_step :: "bytes \<Rightarrow> u64 \<Rightarrow> u64" where
  "hash_step chunk h =
     (let h = h XOR chunk_val chunk;
          h = h * 0x5bd1e9955bd1e995
      in h XOR drop_bit 47 h)"

definition hash64 :: "bytes \<Rightarrow> u64" where
  "hash64 data = fold hash_step (chunks 8 data) 0xc6a4a7935bd1e995"

section \<open>Builder\<close>

record bloom_builder =
  bb_keys :: "u64 list"

definition bloom_builder_new :: bloom_builder where
  "bloom_builder_new = \<lparr>bb_keys = []\<rparr>"

definition bloom_add :: "bytes \<Rightarrow> bloom_builder \<Rightarrow> bloom_builder" where
  "bloom_add key b = b\<lparr>bb_keys := bb_keys b @ [hash64 key]\<rparr>"

definition bit_mask :: "u32 \<Rightarrow> nat \<Rightarrow> u32" where
  "bit_mask h i = (let rot = drop_bit 27 (h * SALTS ! i) in push_bit (unat rot) 1)"

definition lane :: "bytes \<Rightarrow> nat \<Rightarrow> u32" where
  "lane block i = from_le_bytes (subslice block (i * 4) (i * 4 + 4))"

definition insert_block :: "bytes \<Rightarrow> u32 \<Rightarrow> bytes" where
  "insert_block block h =
     fold (\<lambda>i block. copy_into block (i * 4) (to_le_bytes (lane block i OR bit_mask h i))) [0..<8] block"

definition block_offset :: "nat \<Rightarrow> u64 \<Rightarrow> nat" where
  "block_offset num_blocks h = (unat (drop_bit 32 h) mod num_blocks) * BYTES_PER_BLOCK"

definition build_step :: "nat \<Rightarrow> u64 \<Rightarrow> bytes \<Rightarrow> bytes" where
  "build_step num_blocks h data =
     (let off = block_offset num_blocks h in
      copy_into data off (insert_block (subslice data off (off + BYTES_PER_BLOCK)) (ucast h)))"

definition bloom_build :: "bloom_builder \<Rightarrow> bytes" where
  "bloom_build b =
     (let n_keys = length (bb_keys b) in
      if n_keys = 0 then []
      else let num_blocks = max ((n_keys * BITS_PER_KEY + 255) div 256) 1 in
        fold (build_step num_blocks) (bb_keys b) (replicate (num_blocks * BYTES_PER_BLOCK) 0))"

section \<open>Filter\<close>

record bloom_filter =
  bf_data :: bytes
  bf_num_blocks :: nat

definition bloom_filter_new :: "bytes \<Rightarrow> bloom_filter option" where
  "bloom_filter_new data =
     (if data = [] \<or> length data mod BYTES_PER_BLOCK \<noteq> 0 then None
      else Some \<lparr>bf_data = data, bf_num_blocks = length data div BYTES_PER_BLOCK\<rparr>)"

definition contains_scalar :: "bytes \<Rightarrow> u32 \<Rightarrow> bool" where
  "contains_scalar block h = list_all (\<lambda>i. lane block i AND bit_mask h i = bit_mask h i) [0..<8]"

definition mm256_loadu :: "bytes \<Rightarrow> u32 list" where
  "mm256_loadu bs = map (lane bs) [0..<8]"

definition mm256_set1_epi32 :: "u32 \<Rightarrow> u32 list" where
  "mm256_set1_epi32 x = replicate 8 x"

definition mm256_mullo_epi32 :: "u32 list \<Rightarrow> u32 list \<Rightarrow> u32 list" where
  "mm256_mullo_epi32 = map2 (*)"

definition mm256_srli_epi32 :: "u32 list \<Rightarrow> nat \<Rightarrow> u32 list" where
  "mm256_srli_epi32 xs n = map (drop_bit n) xs"

text \<open>A lane shifted by its own count; counts above 31 give 0, as \<open>push_bit\<close> on a word does.\<close>

definition mm256_sllv_epi32 :: "u32 list \<Rightarrow> u32 list \<Rightarrow> u32 list" where
  "mm256_sllv_epi32 = map2 (\<lambda>x c. push_bit (unat c) x)"

text \<open>\<open>VPTEST\<close>'s carry flag: set when no bit of the second operand is clear in the first.\<close>

definition mm256_testc :: "u32 list \<Rightarrow> u32 list \<Rightarrow> bool" where
  "mm256_testc a b = list_all (\<lambda>(x, y). NOT x AND y = 0) (zip a b)"

definition contains_avx2 :: "bytes \<Rightarrow> u32 \<Rightarrow> bool" where
  "contains_avx2 block h =
     (let block_vec = mm256_loadu block;
          hash_vec = mm256_set1_epi32 h;
          salts_vec = mm256_loadu (concat (map to_le_bytes SALTS));
          multiplied = mm256_mullo_epi32 hash_vec salts_vec;
          shifted = mm256_srli_epi32 multiplied 27;
          ones = mm256_set1_epi32 1;
          mask = mm256_sllv_epi32 ones shifted
      in mm256_testc block_vec mask)"

text \<open>\<open>avx2\<close> is what \<open>is_x86_feature_detected!\<close> answers on the machine.\<close>

definition bloom_contains :: "bool \<Rightarrow> bloom_filter \<Rightarrow> bytes \<Rightarrow> bool" where
  "bloom_contains avx2 f key =
     (let h = hash64 key;
          off = block_offset (bf_num_blocks f) h;
          block = subslice (bf_data f) off (off + BYTES_PER_BLOCK);
          h32 = ucast h
      in if avx2 then contains_avx2 block h32 else contains_scalar block h32)"

section \<open>Lanes\<close>

lemma to_le_bytes_lane: "subslice (to_le_bytes (w :: u32)) 0 4 = to_le_bytes w"
  using subslice_self[of "to_le_bytes w"] by simp

lemma lane_copy_into:
  assumes "length block = 32" "i < 8" "j < 8"
  shows "lane (copy_into block (j * 4) (to_le_bytes w)) i = (if i = j then w else lane block i)"
proof (cases "i = j")
  case True
  have "subslice (copy_into block (j * 4) (to_le_bytes w)) (j * 4) (j * 4 + length (to_le_bytes w)) = to_le_bytes w"
    using assms by (intro subslice_copy_into_same) simp
  then show ?thesis using True by (simp add: lane_def)
next
  case False
  then have "subslice (copy_into block (j * 4) (to_le_bytes w)) (i * 4) (i * 4 + 4) = subslice block (i * 4) (i * 4 + 4)"
    using assms by (intro subslice_copy_into_disjoint) auto
  then show ?thesis using False by (simp add: lane_def)
qed

lemma insert_block_fold:
  fixes h :: u32
  assumes "length block = 32" "n \<le> 8"
  defines "f \<equiv> \<lambda>i block. copy_into block (i * 4) (to_le_bytes (lane block i OR bit_mask h i))"
  shows "length (fold f [0..<n] block) = 32 \<and>
    (\<forall>i<8. lane (fold f [0..<n] block) i = (if i < n then lane block i OR bit_mask h i else lane block i))"
  using assms(2)
proof (induction n)
  case (Suc n)
  then have "length (fold f [0..<n] block) = 32" 
    "\<forall>i<8. lane (fold f [0..<n] block) i = (if i < n then lane block i OR bit_mask h i else lane block i)"
    by auto
  then show ?case using Suc.prems by (auto simp: f_def lane_copy_into)
qed (use assms(1) in auto)

lemma insert_block:
  assumes "length block = 32"
  shows "length (insert_block block h) = 32"
    and "i < 8 \<Longrightarrow> lane (insert_block block h) i = lane block i OR bit_mask h i"
  using insert_block_fold[OF assms, of 8 h] by (auto simp: insert_block_def)

lemma contains_scalar_iff:
  "contains_scalar block h \<longleftrightarrow> (\<forall>i<8. lane block i AND bit_mask h i = bit_mask h i)"
  by (auto simp: contains_scalar_def list_all_iff)

lemma and_absorb_or: "x AND m = m \<Longrightarrow> (x OR y) AND m = (m :: 'a::len word)"
  by (auto simp: bit_eq_iff bit_simps)

lemma insert_block_contains: "length block = 32 \<Longrightarrow> contains_scalar (insert_block block h) h"
  by (auto simp: contains_scalar_iff insert_block and_absorb_or or.commute)

lemma insert_block_keeps:
  "length block = 32 \<Longrightarrow> contains_scalar block h \<Longrightarrow> contains_scalar (insert_block block h') h"
  by (auto simp: contains_scalar_iff insert_block and_absorb_or)

section \<open>No false negatives\<close>

definition data_has :: "nat \<Rightarrow> bytes \<Rightarrow> u64 \<Rightarrow> bool" where
  "data_has num_blocks data h \<longleftrightarrow>
     contains_scalar (subslice data (block_offset num_blocks h) (block_offset num_blocks h + BYTES_PER_BLOCK)) (ucast h)"

lemma block_offset_in_range:
  assumes "0 < num_blocks" "length data = num_blocks * BYTES_PER_BLOCK"
  shows "block_offset num_blocks h + BYTES_PER_BLOCK \<le> length data"
proof -
  have "unat (drop_bit 32 h) mod num_blocks + 1 \<le> num_blocks" using assms(1) by (simp add: Suc_leI)
  then have "(unat (drop_bit 32 h) mod num_blocks + 1) * BYTES_PER_BLOCK \<le> num_blocks * BYTES_PER_BLOCK"
    by (rule mult_le_mono1)
  then show ?thesis using assms(2) by (simp add: block_offset_def)
qed

lemma block_offsets_disjoint:
  "block_offset n h = block_offset n h' \<or> block_offset n h + BYTES_PER_BLOCK \<le> block_offset n h' \<or>
   block_offset n h' + BYTES_PER_BLOCK \<le> block_offset n h"
proof -
  let ?a = "unat (drop_bit 32 h) mod n" and ?b = "unat (drop_bit 32 h') mod n"
  have "x + 1 \<le> y \<Longrightarrow> x * BYTES_PER_BLOCK + BYTES_PER_BLOCK \<le> y * BYTES_PER_BLOCK" for x y :: nat
    using mult_le_mono1[of "x + 1" y BYTES_PER_BLOCK] by simp
  then show ?thesis
    unfolding block_offset_def by (metis Suc_eq_plus1 Suc_leI linorder_neqE_nat)
qed

lemma build_step:
  assumes "0 < n" "length data = n * BYTES_PER_BLOCK"
  shows "length (build_step n h data) = n * BYTES_PER_BLOCK"
    and "data_has n (build_step n h data) h"
    and "data_has n data h' \<Longrightarrow> data_has n (build_step n h data) h'"
proof -
  let ?o = "block_offset n h" and ?o' = "block_offset n h'"
  let ?blk = "subslice data ?o (?o + BYTES_PER_BLOCK)"
  note r = block_offset_in_range[OF assms, of h]
  have l: "length ?blk = 32" using r by (simp add: length_subslice BYTES_PER_BLOCK_def)
  note il = insert_block(1)[OF l, of "ucast h"]
  have range: "?o + length (insert_block ?blk (ucast h)) \<le> length data" using r il by (simp add: BYTES_PER_BLOCK_def)
  show "length (build_step n h data) = n * BYTES_PER_BLOCK"
    using range assms(2) by (simp add: build_step_def Let_def)
  have same: "subslice (build_step n h data) ?o (?o + BYTES_PER_BLOCK) = insert_block ?blk (ucast h)"
    using subslice_copy_into_same[OF range] il by (simp add: build_step_def Let_def BYTES_PER_BLOCK_def)
  then show "data_has n (build_step n h data) h"
    by (simp add: data_has_def insert_block_contains[OF l])
  assume h': "data_has n data h'"
  show "data_has n (build_step n h data) h'"
  proof (cases "?o' = ?o")
    case True
    then show ?thesis using same h' insert_block_keeps[OF l] by (simp add: data_has_def)
  next
    case False
    then have "subslice (build_step n h data) ?o' (?o' + BYTES_PER_BLOCK) = subslice data ?o' (?o' + BYTES_PER_BLOCK)"
      unfolding build_step_def Let_def using range il block_offsets_disjoint[of n h h']
      by (intro subslice_copy_into_disjoint) (auto simp: BYTES_PER_BLOCK_def)
    then show ?thesis using h' by (simp add: data_has_def)
  qed
qed

lemma build_fold:
  assumes "0 < n" "length data = n * BYTES_PER_BLOCK"
  shows "length (fold (build_step n) hs data) = n * BYTES_PER_BLOCK \<and>
    (\<forall>h. h \<in> set hs \<or> data_has n data h \<longrightarrow> data_has n (fold (build_step n) hs data) h)"
  using assms(2)
proof (induction hs arbitrary: data)
  case (Cons h hs)
  then show ?case using Cons.IH[of "build_step n h data"] build_step[OF assms(1) Cons.prems] by auto
qed simp

definition num_blocks_for :: "nat \<Rightarrow> nat" where
  "num_blocks_for n_keys = max ((n_keys * BITS_PER_KEY + 255) div 256) 1"

lemma length_bloom_build:
  "length (bloom_build b) = (if bb_keys b = [] then 0 else num_blocks_for (length (bb_keys b)) * BYTES_PER_BLOCK)"
  using build_fold[of "num_blocks_for (length (bb_keys b))" "replicate (num_blocks_for (length (bb_keys b)) * BYTES_PER_BLOCK) 0" "bb_keys b"]
  by (simp add: bloom_build_def Let_def num_blocks_for_def)

lemma bloom_build_has:
  assumes "h \<in> set (bb_keys b)"
  shows "data_has (num_blocks_for (length (bb_keys b))) (bloom_build b) h"
  using build_fold[of "num_blocks_for (length (bb_keys b))" "replicate (num_blocks_for (length (bb_keys b)) * BYTES_PER_BLOCK) 0" "bb_keys b"] assms
  by (auto simp: bloom_build_def Let_def num_blocks_for_def)

section \<open>The two membership tests agree\<close>

lemma lane_SALTS: "i < 8 \<Longrightarrow> lane (concat (map to_le_bytes SALTS)) i = SALTS ! i"
proof -
  assume "i < 8"
  then consider "i = 0" | "i = 1" | "i = 2" | "i = 3" | "i = 4" | "i = 5" | "i = 6" | "i = 7" by linarith
  then show ?thesis
    by cases (simp_all add: lane_def SALTS_def subslice_def)
qed

lemma avx2_mask:
  "mm256_sllv_epi32 (mm256_set1_epi32 1)
     (mm256_srli_epi32 (mm256_mullo_epi32 (mm256_set1_epi32 h) (mm256_loadu (concat (map to_le_bytes SALTS)))) 27) =
   map (bit_mask h) [0..<8]"
  by (rule nth_equalityI)
    (auto simp: mm256_sllv_epi32_def mm256_set1_epi32_def mm256_srli_epi32_def mm256_mullo_epi32_def
      mm256_loadu_def lane_SALTS bit_mask_def Let_def)

lemma testc_lane: "NOT x AND m = 0 \<longleftrightarrow> x AND m = (m :: 'a::len word)"
  by (auto simp: bit_eq_iff bit_simps)

lemma contains_avx2_eq: "contains_avx2 block h = contains_scalar block h"
  unfolding contains_avx2_def Let_def avx2_mask
  by (auto simp: contains_scalar_iff mm256_testc_def mm256_loadu_def list_all_iff zip_map_map
      zip_same_conv_map testc_lane)

section \<open>The filter as an interface\<close>

text \<open>
  What a reader needs of a filter: a key that was added is never denied. Then asking the filter
  before a lookup changes nothing.
\<close>

locale membership_filter =
  fixes make :: "bytes list \<Rightarrow> 'f" and member :: "'f \<Rightarrow> bytes \<Rightarrow> bool"
  assumes complete: "k \<in> set ks \<Longrightarrow> member (make ks) k"
begin

lemma filtered_lookup:
  assumes "\<And>k. k \<notin> set ks \<Longrightarrow> look k = None"
  shows "(if member (make ks) k then look k else None) = look k"
  using assms complete by (cases "k \<in> set ks") auto

end

definition bloom_of_keys :: "bytes list \<Rightarrow> bloom_builder" where
  "bloom_of_keys ks = fold bloom_add ks bloom_builder_new"

text \<open>The check a reader makes: no filter block, or one of the wrong size, admits every key.\<close>

definition filter_admits :: "bool \<Rightarrow> bytes \<Rightarrow> bytes \<Rightarrow> bool" where
  "filter_admits avx2 data key =
     (case bloom_filter_new data of None \<Rightarrow> True | Some f \<Rightarrow> bloom_contains avx2 f key)"

lemma bb_keys_bloom_of_keys: "bb_keys (bloom_of_keys ks) = map hash64 ks"
proof -
  have "bb_keys (fold bloom_add ks b) = bb_keys b @ map hash64 ks" for b
    by (induction ks arbitrary: b) (auto simp: bloom_add_def)
  then show ?thesis by (simp add: bloom_of_keys_def bloom_builder_new_def)
qed

lemma bloom_complete:
  assumes "k \<in> set ks"
  shows "filter_admits avx2 (bloom_build (bloom_of_keys ks)) k"
proof -
  let ?b = "bloom_of_keys ks"
  let ?n = "num_blocks_for (length (bb_keys ?b))"
  have ne: "bb_keys ?b \<noteq> []" using assms by (auto simp: bb_keys_bloom_of_keys)
  have len: "length (bloom_build ?b) = ?n * BYTES_PER_BLOCK" using ne by (simp add: length_bloom_build)
  have "0 < ?n" by (simp add: num_blocks_for_def)
  then have "bloom_filter_new (bloom_build ?b) = Some \<lparr>bf_data = bloom_build ?b, bf_num_blocks = ?n\<rparr>"
    using len by (auto simp: bloom_filter_new_def BYTES_PER_BLOCK_def)
  moreover have "data_has ?n (bloom_build ?b) (hash64 k)"
    using assms by (intro bloom_build_has) (simp add: bb_keys_bloom_of_keys)
  ultimately show ?thesis
    by (simp add: filter_admits_def bloom_contains_def Let_def contains_avx2_eq data_has_def)
qed

interpretation bloom: membership_filter "\<lambda>ks. bloom_build (bloom_of_keys ks)" "filter_admits avx2" for avx2
  by unfold_locales (rule bloom_complete)

section \<open>Properties\<close>

text \<open>
  C29. The Bloom filter has no false negatives: a filter built from any keys, read back with
  \<open>BloomFilter::new\<close>, is valid and contains every one of those keys, on either code path.
\<close>

theorem bloom_no_false_negatives:
  assumes "key \<in> set ks"
  shows "\<exists>f. bloom_filter_new (bloom_build (fold bloom_add ks bloom_builder_new)) = Some f \<and>
    bloom_contains avx2 f key"
proof -
  let ?b = "bloom_of_keys ks"
  have ne: "bb_keys ?b \<noteq> []" using assms by (auto simp: bb_keys_bloom_of_keys)
  then have "bloom_filter_new (bloom_build ?b) \<noteq> None"
    using length_bloom_build[of ?b] by (auto simp: bloom_filter_new_def num_blocks_for_def BYTES_PER_BLOCK_def)
  then show ?thesis
    using bloom.complete[OF assms, of avx2] by (auto simp: filter_admits_def bloom_of_keys_def split: option.splits)
qed

theorem bloom_no_false_negatives_witness:
  "\<exists>f. bloom_filter_new (bloom_build (fold bloom_add [[107, 49], [107, 50]] bloom_builder_new)) = Some f \<and>
     bloom_contains True f [107, 50]"
  by (rule bloom_no_false_negatives) simp

text \<open>
  C33. The AVX2 membership test is equivalent to the scalar one, for every block and hash.
\<close>

theorem bloom_avx2_equals_scalar: "contains_avx2 block h = contains_scalar block h"
  by (rule contains_avx2_eq)

text \<open>
  The size of a filter: a whole number of 32-byte blocks, at least 10 bits per key and
  less than one block more than that.
\<close>

theorem bloom_size:
  assumes "bb_keys b \<noteq> []"
  shows "BYTES_PER_BLOCK dvd length (bloom_build b) \<and>
    length (bb_keys b) * BITS_PER_KEY \<le> 8 * length (bloom_build b) \<and>
    8 * length (bloom_build b) < length (bb_keys b) * BITS_PER_KEY + 256"
proof -
  let ?n = "length (bb_keys b)"
  have "0 < ?n" using assms by simp
  moreover have "(?n * 10 + 255) div 256 * 256 + (?n * 10 + 255) mod 256 = ?n * 10 + 255" by simp
  moreover have "(?n * 10 + 255) mod 256 < 256" by simp
  ultimately show ?thesis
    using assms by (auto simp: length_bloom_build num_blocks_for_def BYTES_PER_BLOCK_def BITS_PER_KEY_def max_def)
qed

theorem bloom_size_witness:
  "8 * length (bloom_build \<lparr>bb_keys = [1, 2, 3]\<rparr>) < 3 * BITS_PER_KEY + 256"
  using bloom_size[of "\<lparr>bb_keys = [1, 2, 3]\<rparr>"] by simp

end
