(* ===== verification/SSTable_Writer.thy ===== *)
theory SSTable_Writer
  imports Block Footer Bloom
begin

text \<open>
  The SSTable writer, \<^verbatim>\<open>src/tier3_storage/src/sstable/writer.rs\<close>: entries go to the current
  block, full blocks to the file, and \<open>finish\<close> writes the index, the Bloom filter and the footer.
  The file is its contents so far. The answers of the file system to the coming \<open>write_all\<close> and
  \<open>sync_all\<close> calls are a list in the state, \<open>None\<close> for success; an exhausted list is success.
\<close>

section \<open>State\<close>

record index_entry =
  ie_last_key :: bytes
  ie_offset :: u64
  ie_len :: u64

record sst_writer =
  sw_file :: bytes
  sw_io :: "io_kind option list"
  sw_block :: block_builder
  sw_index :: "index_entry list"
  sw_bloom :: bloom_builder
  sw_offset :: u64

section \<open>Operations\<close>

text \<open>\<open>File::create\<close> truncates; its answer is the first argument.\<close>

definition sst_create :: "io_kind option \<Rightarrow> io_kind option list \<Rightarrow> sst_writer result" where
  "sst_create os io =
     (case os of
        Some e \<Rightarrow> Inl (IoError e)
      | None \<Rightarrow> Inr \<lparr>sw_file = [], sw_io = io, sw_block = block_builder_new, sw_index = [],
                     sw_bloom = bloom_builder_new, sw_offset = 0\<rparr>)"

definition write_all :: "bytes \<Rightarrow> sst_writer \<Rightarrow> sst_writer result" where
  "write_all buf w =
     (case sw_io w of
        Some e # _ \<Rightarrow> Inl (IoError e)
      | _ \<Rightarrow> Inr (w\<lparr>sw_file := sw_file w @ buf, sw_io := tl (sw_io w)\<rparr>))"

definition sync_all :: "sst_writer \<Rightarrow> sst_writer result" where
  "sync_all w =
     (case sw_io w of
        Some e # _ \<Rightarrow> Inl (IoError e)
      | _ \<Rightarrow> Inr (w\<lparr>sw_io := tl (sw_io w)\<rparr>))"

definition flush_block :: "sst_writer \<Rightarrow> sst_writer result" where
  "flush_block w =
     (if block_is_empty (sw_block w) then Inr w
      else let
        (buf, last_key) = block_finish (sw_block w);
        w = w\<lparr>sw_block := block_builder_new\<rparr>;
        block_len = (of_nat (length buf) :: u64)
      in case write_all buf w of
          Inl e \<Rightarrow> Inl e
        | Inr w \<Rightarrow> Inr (w\<lparr>sw_index := sw_index w @
              [\<lparr>ie_last_key = last_key, ie_offset = sw_offset w, ie_len = block_len\<rparr>],
            sw_offset := sw_offset w + block_len\<rparr>))"

definition sst_append :: "bytes \<Rightarrow> bytes option \<Rightarrow> u64 \<Rightarrow> sst_writer \<Rightarrow> sst_writer result" where
  "sst_append key val seq w =
     (let w = w\<lparr>sw_bloom := bloom_add key (sw_bloom w),
                sw_block := block_add key val seq (sw_block w)\<rparr>
      in if block_estimated_size (sw_block w) \<ge> TARGET_BLOCK_SIZE then flush_block w else Inr w)"

definition index_entry_bytes :: "index_entry \<Rightarrow> bytes" where
  "index_entry_bytes e =
     to_le_bytes (of_nat (length (ie_last_key e)) :: u32) @ ie_last_key e @
     to_le_bytes (ie_offset e) @ to_le_bytes (ie_len e)"

text \<open>\<open>finish\<close> returns the size it reports and the contents of the finished file.\<close>

definition sst_finish :: "sst_writer \<Rightarrow> (u64 \<times> bytes) result" where
  "sst_finish w =
     (case flush_block w of
        Inl e \<Rightarrow> Inl e
      | Inr w \<Rightarrow> let
          index_offset = sw_offset w;
          index_buf = concat (map index_entry_bytes (sw_index w))
        in case write_all index_buf w of
          Inl e \<Rightarrow> Inl e
        | Inr w \<Rightarrow> let
            index_len = (of_nat (length index_buf) :: u64);
            w = w\<lparr>sw_offset := sw_offset w + index_len\<rparr>;
            filter_data = bloom_build (sw_bloom w);
            filter_offset = sw_offset w;
            filter_len = (of_nat (length filter_data) :: u64)
          in case (if filter_len > 0
                   then (case write_all filter_data w of
                           Inl e \<Rightarrow> Inl e
                         | Inr w \<Rightarrow> Inr (w\<lparr>sw_offset := sw_offset w + filter_len\<rparr>))
                   else Inr w) of
            Inl e \<Rightarrow> Inl e
          | Inr w \<Rightarrow>
            (case footer_encode (footer_new index_offset index_len filter_offset filter_len)
                    (replicate FOOTER_SIZE 0) of
               Inl e \<Rightarrow> Inl e
             | Inr footer_buf \<Rightarrow>
               (case write_all footer_buf w of
                  Inl e \<Rightarrow> Inl e
                | Inr w \<Rightarrow> let w = w\<lparr>sw_offset := sw_offset w + of_nat FOOTER_SIZE\<rparr> in
                  (case sync_all w of
                     Inl e \<Rightarrow> Inl e
                   | Inr w \<Rightarrow> Inr (sw_offset w, sw_file w)))))"

text \<open>The loops over a writer in the flush worker and in the merge: append all, then finish.\<close>

fun sst_append_all :: "entry list \<Rightarrow> sst_writer \<Rightarrow> sst_writer result" where
  "sst_append_all [] w = Inr w"
| "sst_append_all ((key, val, seq) # es) w =
     (case sst_append key val seq w of Inl e \<Rightarrow> Inl e | Inr w \<Rightarrow> sst_append_all es w)"

definition sst_write :: "io_kind option \<Rightarrow> io_kind option list \<Rightarrow> entry list \<Rightarrow> (u64 \<times> bytes) result" where
  "sst_write os io es =
     (case sst_create os io of
        Inl e \<Rightarrow> Inl e
      | Inr w \<Rightarrow> (case sst_append_all es w of Inl e \<Rightarrow> Inl e | Inr w \<Rightarrow> sst_finish w))"

section \<open>The image of a table\<close>

text \<open>
  A finished file as a function of the blocks it was cut into: the reference for the writer and
  the starting point of the readers.
\<close>

definition enc_block :: "entry list \<Rightarrow> bytes" where
  "enc_block es = concat (map enc_entry es)"

fun index_of :: "nat \<Rightarrow> entry list list \<Rightarrow> index_entry list" where
  "index_of off [] = []"
| "index_of off (b # bs) =
     \<lparr>ie_last_key = fst (last b), ie_offset = of_nat off, ie_len = of_nat (length (enc_block b))\<rparr> #
     index_of (off + length (enc_block b)) bs"

definition data_image :: "entry list list \<Rightarrow> bytes" where
  "data_image bs = concat (map enc_block bs)"

definition index_image :: "entry list list \<Rightarrow> bytes" where
  "index_image bs = concat (map index_entry_bytes (index_of 0 bs))"

definition filter_image :: "entry list list \<Rightarrow> bytes" where
  "filter_image bs = bloom_build (bloom_of_keys (map fst (concat bs)))"

definition table_footer :: "entry list list \<Rightarrow> footer" where
  "table_footer bs = footer_new (of_nat (length (data_image bs))) (of_nat (length (index_image bs)))
     (of_nat (length (data_image bs) + length (index_image bs))) (of_nat (length (filter_image bs)))"

definition sst_image :: "entry list list \<Rightarrow> bytes" where
  "sst_image bs = data_image bs @ index_image bs @ filter_image bs @ footer_bytes (table_footer bs)"

text \<open>
  Blocks are not empty, and are closed by the entry that makes them reach the target size; only
  the last one may be smaller.
\<close>

definition block_cut :: "entry list \<Rightarrow> bool" where
  "block_cut b \<longleftrightarrow> b \<noteq> [] \<and> length (enc_block (butlast b)) < TARGET_BLOCK_SIZE"

definition sst_inv :: "entry list list \<Rightarrow> entry list \<Rightarrow> sst_writer \<Rightarrow> bool" where
  "sst_inv bs cur w \<longleftrightarrow>
     sw_file w = data_image bs \<and> sw_index w = index_of 0 bs \<and>
     sw_offset w = of_nat (length (data_image bs)) \<and> bk_buf (sw_block w) = enc_block cur \<and>
     (cur \<noteq> [] \<longrightarrow> bk_last_key (sw_block w) = fst (last cur)) \<and>
     sw_bloom w = bloom_of_keys (map fst (concat bs @ cur)) \<and>
     (\<forall>b\<in>set bs. block_cut b \<and> TARGET_BLOCK_SIZE \<le> length (enc_block b)) \<and>
     length (enc_block cur) < TARGET_BLOCK_SIZE"

lemma enc_block_simps [simp]:
  "enc_block [] = []" "enc_block (es @ es') = enc_block es @ enc_block es'" "enc_block [e] = enc_entry e"
  by (simp_all add: enc_block_def)

lemma enc_block_empty [simp]: "enc_block es = [] \<longleftrightarrow> es = []"
  using ec.enc_nonempty by (cases es) (auto simp: enc_block_def)

lemma data_image_simps [simp]:
  "data_image [] = []" "data_image (b # bs) = enc_block b @ data_image bs"
  "data_image (bs @ bs') = data_image bs @ data_image bs'"
  by (simp_all add: data_image_def)

lemma index_of_append:
  "index_of off (bs @ bs') = index_of off bs @ index_of (off + length (data_image bs)) bs'"
  by (induction bs arbitrary: off) (simp_all add: add.assoc)

lemma length_index_of [simp]: "length (index_of off bs) = length bs"
  by (induction bs arbitrary: off) simp_all

lemma bloom_of_keys_snoc: "bloom_of_keys (ks @ [k]) = bloom_add k (bloom_of_keys ks)"
  by (simp add: bloom_of_keys_def)

lemma write_all_Inr: "write_all buf w = Inr w' \<Longrightarrow> w' = w\<lparr>sw_file := sw_file w @ buf, sw_io := tl (sw_io w)\<rparr>"
  by (auto simp: write_all_def split: list.splits option.splits)

lemma sync_all_Inr: "sync_all w = Inr w' \<Longrightarrow> w' = w\<lparr>sw_io := tl (sw_io w)\<rparr>"
  by (auto simp: sync_all_def split: list.splits option.splits)

text \<open>The state after the current block, if any, has been written out.\<close>

lemma flush_block_Inr:
  assumes "flush_block w = Inr w'" "bk_buf (sw_block w) = enc_block cur"
    "cur \<noteq> [] \<Longrightarrow> bk_last_key (sw_block w) = fst (last cur)"
    "sw_file w = data_image bs" "sw_index w = index_of 0 bs" "sw_offset w = of_nat (length (data_image bs))"
  defines "bs' \<equiv> (if cur = [] then bs else bs @ [cur])"
  shows "sw_file w' = data_image bs' \<and> sw_index w' = index_of 0 bs' \<and>
    sw_offset w' = of_nat (length (data_image bs')) \<and> bk_buf (sw_block w') = [] \<and> sw_bloom w' = sw_bloom w"
proof (cases "cur = []")
  case True
  then show ?thesis using assms by (simp add: flush_block_def block_is_empty_def bs'_def)
next
  case False
  let ?w = "w\<lparr>sw_block := block_builder_new\<rparr>"
  have "\<not> block_is_empty (sw_block w)" using False assms(2) by (simp add: block_is_empty_def)
  then obtain w1 where w1: "write_all (enc_block cur) ?w = Inr w1"
    and w': "w' = w1\<lparr>sw_index := sw_index w1 @ [\<lparr>ie_last_key = fst (last cur), ie_offset = sw_offset w1,
        ie_len = of_nat (length (enc_block cur))\<rparr>],
      sw_offset := sw_offset w1 + of_nat (length (enc_block cur))\<rparr>"
    using assms(1,2) assms(3)[OF False] by (auto simp: flush_block_def block_finish_def Let_def split: sum.splits)
  from write_all_Inr[OF w1] w' False assms(4-6) show ?thesis
    by (simp add: bs'_def index_of_append block_builder_new_def)
qed

lemma sst_append_inv:
  assumes "sst_inv bs cur w" "sst_append key val seq w = Inr w'"
  shows "\<exists>bs' cur'. sst_inv bs' cur' w' \<and> concat bs' @ cur' = concat bs @ cur @ [(key, val, seq)]"
proof -
  let ?cur = "cur @ [(key, val, seq)]"
  let ?w = "w\<lparr>sw_bloom := bloom_add key (sw_bloom w), sw_block := block_add key val seq (sw_block w)\<rparr>"
  have buf: "bk_buf (sw_block ?w) = enc_block ?cur" "bk_last_key (sw_block ?w) = fst (last ?cur)"
    using assms(1) by (simp_all add: sst_inv_def block_add_enc)
  have bloom: "sw_bloom ?w = bloom_of_keys (map fst (concat bs @ ?cur))"
    using assms(1) bloom_of_keys_snoc[of "map fst (concat bs @ cur)" key] by (simp add: sst_inv_def)
  have cut: "block_cut ?cur" using assms(1) by (simp add: block_cut_def sst_inv_def)
  show ?thesis
  proof (cases "TARGET_BLOCK_SIZE \<le> length (enc_block ?cur)")
    case True
    then have "flush_block ?w = Inr w'"
      using assms(2) buf by (simp add: sst_append_def block_estimated_size_def)
    from flush_block_Inr[OF this buf(1), of bs] buf(2) bloom cut True assms(1)
    have "sst_inv (bs @ [?cur]) [] w'" by (auto simp: sst_inv_def TARGET_BLOCK_SIZE_def)
    then show ?thesis by (intro exI[of _ "bs @ [?cur]"] exI[of _ "[]"]) simp
  next
    case False
    then have "w' = ?w" using assms(2) buf by (simp add: sst_append_def block_estimated_size_def)
    then have "sst_inv bs ?cur w'" using False assms(1) buf bloom by (simp add: sst_inv_def)
    then show ?thesis by (intro exI[of _ bs] exI[of _ ?cur]) simp
  qed
qed

lemma sst_append_all_inv:
  "sst_inv bs cur w \<Longrightarrow> sst_append_all es w = Inr w' \<Longrightarrow>
   \<exists>bs' cur'. sst_inv bs' cur' w' \<and> concat bs' @ cur' = concat bs @ cur @ es"
proof (induction es w arbitrary: bs cur rule: sst_append_all.induct)
  case (2 key val seq es w)
  then obtain w1 where w1: "sst_append key val seq w = Inr w1" "sst_append_all es w1 = Inr w'"
    by (auto split: sum.splits)
  obtain bs1 cur1 where 1: "sst_inv bs1 cur1 w1" "concat bs1 @ cur1 = concat bs @ cur @ [(key, val, seq)]"
    using sst_append_inv[OF "2.prems"(1) w1(1)] by blast
  obtain bs' cur' where "sst_inv bs' cur' w'" "concat bs' @ cur' = (concat bs1 @ cur1) @ es"
    using "2.IH"[OF w1(1) 1(1) w1(2)] by auto
  then show ?case using 1(2) by auto
qed auto

text \<open>The filter length is zero as a \<open>u64\<close> only for an empty filter, below \<open>2\<^sup>6\<^sup>0\<close> keys.\<close>

lemma of_nat_u64_pos: "n < 2 ^ 64 \<Longrightarrow> 0 < (of_nat n :: u64) \<longleftrightarrow> 0 < n"
  by (simp add: word_less_nat_alt unat_of_nat)

lemma filter_image_bound:
  assumes "length (concat bs) < 2 ^ 60"
  shows "length (filter_image bs) < 2 ^ 62"
proof -
  let ?n = "length (concat bs)"
  have n: "length (bb_keys (bloom_of_keys (map fst (concat bs)))) = ?n" by (simp add: bb_keys_bloom_of_keys)
  define d where "d = (?n * 10 + 255) div 256"
  have "d * 256 \<le> ?n * 10 + 255" unfolding d_def by (rule div_times_less_eq_dividend)
  then have "max ((?n * 10 + 255) div 256) 1 * 32 < 2 ^ 62"
    using assms unfolding d_def[symmetric] by (simp add: max_def)
  then show ?thesis
    by (auto simp: filter_image_def length_bloom_build num_blocks_for_def BITS_PER_KEY_def
        BYTES_PER_BLOCK_def n simp del: length_concat)
qed

lemma sst_finish_image:
  assumes "sst_inv bs cur w" "sst_finish w = Inr (n, file)" "length (concat bs @ cur) < 2 ^ 60"
  defines "bs' \<equiv> (if cur = [] then bs else bs @ [cur])"
  shows "file = sst_image bs' \<and> n = of_nat (length file)"
proof -
  obtain w1 where w1: "flush_block w = Inr w1" using assms(2) by (auto simp: sst_finish_def split: sum.splits)
  have keys: "concat bs' = concat bs @ cur" by (simp add: bs'_def)
  have s: "sw_file w1 = data_image bs'" "sw_index w1 = index_of 0 bs'"
    "sw_offset w1 = of_nat (length (data_image bs'))" "sw_bloom w1 = bloom_of_keys (map fst (concat bs'))"
    using flush_block_Inr[OF w1, of cur bs] assms(1) keys by (auto simp: sst_inv_def bs'_def)
  have il: "concat (map index_entry_bytes (index_of 0 bs')) = index_image bs'" by (simp add: index_image_def)
  have fl: "bloom_build (bloom_of_keys (map fst (concat bs'))) = filter_image bs'" by (simp add: filter_image_def)
  have fpos: "0 < (of_nat (length (filter_image bs')) :: u64) \<longleftrightarrow> filter_image bs' \<noteq> []"
    using filter_image_bound[of bs'] assms(3) keys by (subst of_nat_u64_pos) auto
  have enc: "footer_encode f (replicate FOOTER_SIZE 0) = Inr (footer_bytes f)" for f
    by (simp add: footer_encode_bytes)
  have fin: "sst_finish w = Inr (n, file)" by (rule assms(2))
  show ?thesis
    using fin fpos unfolding sst_finish_def w1 Let_def
    by (auto simp: s il fl enc sst_image_def table_footer_def dest!: write_all_Inr sync_all_Inr
        split: sum.splits if_splits)
qed

lemma sst_write_image:
  assumes "sst_write os io es = Inr (n, file)" "length es < 2 ^ 60"
  shows "\<exists>bs. concat bs = es \<and> (\<forall>b\<in>set bs. block_cut b) \<and>
    (\<forall>b\<in>set (butlast bs). TARGET_BLOCK_SIZE \<le> length (enc_block b)) \<and>
    file = sst_image bs \<and> n = of_nat (length file)"
proof -
  obtain w0 w where w: "sst_create os io = Inr w0" "sst_append_all es w0 = Inr w" "sst_finish w = Inr (n, file)"
    using assms(1) by (auto simp: sst_write_def split: sum.splits)
  have "sst_inv [] [] w0"
    using w(1) by (auto simp: sst_create_def sst_inv_def block_builder_new_def bloom_of_keys_def TARGET_BLOCK_SIZE_def
        split: option.splits)
  then obtain bs cur where i: "sst_inv bs cur w" "concat bs @ cur = es"
    using sst_append_all_inv[OF _ w(2)] by fastforce
  let ?bs = "if cur = [] then bs else bs @ [cur]"
  have "file = sst_image ?bs \<and> n = of_nat (length file)"
    using sst_finish_image[OF i(1) w(3)] assms(2) i(2) by simp
  moreover have "cur \<noteq> [] \<Longrightarrow> block_cut cur"
  proof -
    assume "cur \<noteq> []"
    then have "length (enc_block (butlast cur)) \<le> length (enc_block cur)"
      by (metis append_butlast_last_id enc_block_simps(2) le_add1 length_append)
    then show "block_cut cur" using i(1) \<open>cur \<noteq> []\<close> by (simp add: block_cut_def sst_inv_def)
  qed
  moreover have "\<forall>b\<in>set bs. block_cut b \<and> TARGET_BLOCK_SIZE \<le> length (enc_block b)"
    using i(1) by (simp add: sst_inv_def)
  ultimately show ?thesis
    using i(2) by (intro exI[of _ ?bs]) (auto dest: in_set_butlastD)
qed

text \<open>With a file system that does not fail, writing a table always succeeds.\<close>

definition no_faults :: "io_kind option list \<Rightarrow> bool" where
  "no_faults io = list_all (\<lambda>a. a = None) io"

lemma no_faults_tl [simp]: "no_faults io \<Longrightarrow> no_faults (tl io)"
  by (cases io) (auto simp: no_faults_def)

lemma write_all_ok [simp]:
  "no_faults (sw_io w) \<Longrightarrow> write_all buf w = Inr (w\<lparr>sw_file := sw_file w @ buf, sw_io := tl (sw_io w)\<rparr>)"
  by (cases "sw_io w") (auto simp: write_all_def no_faults_def)

lemma sync_all_ok [simp]: "no_faults (sw_io w) \<Longrightarrow> sync_all w = Inr (w\<lparr>sw_io := tl (sw_io w)\<rparr>)"
  by (cases "sw_io w") (auto simp: sync_all_def no_faults_def)

lemma flush_block_ok: "no_faults (sw_io w) \<Longrightarrow> \<exists>w'. flush_block w = Inr w' \<and> no_faults (sw_io w')"
  by (auto simp: flush_block_def Let_def block_finish_def)

lemma sst_append_ok: "no_faults (sw_io w) \<Longrightarrow> \<exists>w'. sst_append key val seq w = Inr w' \<and> no_faults (sw_io w')"
  using flush_block_ok[of "w\<lparr>sw_bloom := bloom_add key (sw_bloom w), sw_block := block_add key val seq (sw_block w)\<rparr>"]
  by (auto simp: sst_append_def Let_def)

lemma sst_append_all_ok: "no_faults (sw_io w) \<Longrightarrow> \<exists>w'. sst_append_all es w = Inr w' \<and> no_faults (sw_io w')"
proof (induction es arbitrary: w)
  case (Cons e es)
  obtain key val seq where e: "e = (key, val, seq)" by (cases e)
  from sst_append_ok[OF Cons.prems, of key val seq] Cons.IH show ?case by (auto simp: e)
qed simp

lemma sst_finish_ok: "no_faults (sw_io w) \<Longrightarrow> \<exists>n file. sst_finish w = Inr (n, file)"
  using flush_block_ok[of w] by (auto simp: sst_finish_def Let_def footer_encode_bytes)

lemma sst_write_ok: "no_faults io \<Longrightarrow> \<exists>n file. sst_write None io es = Inr (n, file)"
  using sst_append_all_ok[of "\<lparr>sw_file = [], sw_io = io, sw_block = block_builder_new, sw_index = [],
      sw_bloom = bloom_builder_new, sw_offset = 0\<rparr>" es] sst_finish_ok
  by (auto simp: sst_write_def sst_create_def)

end
