(* ===== verification/SSTable_Reader.thy ===== *)
theory SSTable_Reader
  imports SSTable_Writer
begin

text \<open>
  The memory-mapped reader, \<^verbatim>\<open>src/tier3_storage/src/sstable/reader.rs\<close>. The mapping is the contents
  of the file. Offsets and lengths come from the file as \<open>u64\<close> and are added with wrap-around, as
  in a release build; a block or filter is then read through a raw pointer, which is \<open>Undefined\<close>
  outside the mapping.
\<close>

section \<open>State\<close>

record index_record =
  ir_last_key :: bytes
  ir_offset :: u64
  ir_len :: u64

record sst_reader =
  sr_mmap :: bytes
  sr_index :: "index_record list"
  sr_footer :: footer

section \<open>Operations\<close>

function parse_index_loop :: "bytes \<Rightarrow> nat \<Rightarrow> index_record list result" where
  "parse_index_loop idx pos =
     (if pos + 4 \<le> length idx
      then let
        k_len = unat (from_le_bytes (subslice idx pos (pos + 4)) :: u32);
        pos = pos + 4
      in if pos + k_len + 16 > length idx then Inl (IoError InvalidData)
      else let
        last_key = subslice idx pos (pos + k_len);
        pos = pos + k_len;
        block_offset = from_le_bytes (subslice idx pos (pos + 8));
        pos = pos + 8;
        block_len = from_le_bytes (subslice idx pos (pos + 8));
        pos = pos + 8
      in case parse_index_loop idx pos of
          Inl e \<Rightarrow> Inl e
        | Inr rs \<Rightarrow> Inr (\<lparr>ir_last_key = last_key, ir_offset = block_offset, ir_len = block_len\<rparr> # rs)
      else Inr [])"
  by pat_completeness auto
termination
  by (relation "measure (\<lambda>(idx, pos). length idx - pos)") auto

declare parse_index_loop.simps [simp del]

definition parse_index :: "bytes \<Rightarrow> u64 \<Rightarrow> u64 \<Rightarrow> index_record list result" where
  "parse_index bs off len =
     (if unat (off + len) > length bs then Inl (IoError UnexpectedEof)
      else case slice_checked bs (unat off) (unat (off + len)) of
          Inl e \<Rightarrow> Inl e
        | Inr idx \<Rightarrow> parse_index_loop idx 0)"

text \<open>\<open>open\<close>: what the file system answers (an error, or the file), and the errno of a failed \<open>mmap\<close>.\<close>

definition sst_open :: "io_kind + bytes \<Rightarrow> nat option \<Rightarrow> sst_reader result" where
  "sst_open os mmap =
     (case os of
        Inl e \<Rightarrow> Inl (IoError e)
      | Inr bs \<Rightarrow>
          if length bs < FOOTER_SIZE then Inl (IoError InvalidData)
          else (case mmap of
            Some errno \<Rightarrow> Inl (IoError (OsError errno))
          | None \<Rightarrow>
            (case footer_decode (drop (length bs - FOOTER_SIZE) bs) of
               Inl e \<Rightarrow> Inl e
             | Inr f \<Rightarrow>
               (case parse_index bs (index_offset f) (index_len f) of
                  Inl e \<Rightarrow> Inl e
                | Inr idx \<Rightarrow> Inr \<lparr>sr_mmap = bs, sr_index = idx, sr_footer = f\<rparr>))))"

definition filter_slice :: "sst_reader \<Rightarrow> bytes option result" where
  "filter_slice r =
     (let f = sr_footer r in
      if filter_len f = 0 then Inr None
      else if unat (filter_offset f + filter_len f) > length (sr_mmap r) then Inr None
      else case slice_raw (sr_mmap r) (unat (filter_offset f)) (unat (filter_len f)) of
          Inl e \<Rightarrow> Inl e
        | Inr bs \<Rightarrow> Inr (Some bs))"

definition sst_get_index :: "sst_reader \<Rightarrow> bytes \<Rightarrow> (bytes option \<times> u64) option result" where
  "sst_get_index r key =
     (if sr_index r = [] then Inr None
      else let
        target_idx = (case binary_search_by (\<lambda>e. rust_cmp (ir_last_key e) key) (sr_index r) of
                        Found i \<Rightarrow> i | Insert_at i \<Rightarrow> i)
      in if target_idx \<ge> length (sr_index r) then Inr None
      else let e = sr_index r ! target_idx in
        if unat (ir_offset e + ir_len e) > length (sr_mmap r) then Inr None
        else case slice_raw (sr_mmap r) (unat (ir_offset e)) (unat (ir_len e)) of
            Inl f \<Rightarrow> Inl f
          | Inr block \<Rightarrow> Inr (fst (block_search (block_iter_new block) key)))"

definition sst_get :: "bool \<Rightarrow> sst_reader \<Rightarrow> bytes \<Rightarrow> (bytes option \<times> u64) option result" where
  "sst_get avx2 r key =
     (case filter_slice r of
        Inl e \<Rightarrow> Inl e
      | Inr fs \<Rightarrow>
          if (case fs of
                Some f_slice \<Rightarrow> (case bloom_filter_new f_slice of
                    Some f \<Rightarrow> \<not> bloom_contains avx2 f key
                  | None \<Rightarrow> False)
              | None \<Rightarrow> False)
          then Inr None
          else sst_get_index r key)"

definition sst_get_first_key :: "sst_reader \<Rightarrow> bytes option result" where
  "sst_get_first_key r =
     (case sr_index r of
        [] \<Rightarrow> Inr None
      | e # _ \<Rightarrow> (case slice_raw (sr_mmap r) (unat (ir_offset e)) (unat (ir_len e)) of
            Inl f \<Rightarrow> Inl f
          | Inr block \<Rightarrow> Inr (map_option fst (fst (next_entry (block_iter_new block))))))"

definition sst_get_last_key :: "sst_reader \<Rightarrow> bytes option" where
  "sst_get_last_key r = (if sr_index r = [] then None else Some (ir_last_key (last (sr_index r))))"

section \<open>The index\<close>

definition index_record_of :: "index_entry \<Rightarrow> index_record" where
  "index_record_of e = \<lparr>ir_last_key = ie_last_key e, ir_offset = ie_offset e, ir_len = ie_len e\<rparr>"

lemma length_index_entry_bytes: "length (index_entry_bytes e) = 20 + length (ie_last_key e)"
  by (simp add: index_entry_bytes_def)

lemma index_entry_fields:
  assumes "drop pos idx = index_entry_bytes e @ rest"
  defines "n \<equiv> length (ie_last_key e)"
  shows "subslice idx pos (pos + 4) = to_le_bytes (of_nat n :: u32)"
    "subslice idx (pos + 4) (pos + 4 + n) = ie_last_key e"
    "subslice idx (pos + 4 + n) (pos + 4 + n + 8) = to_le_bytes (ie_offset e)"
    "subslice idx (pos + 4 + n + 8) (pos + 4 + n + 8 + 8) = to_le_bytes (ie_len e)"
proof -
  have s: "subslice idx (pos + a) (pos + b) = subslice (index_entry_bytes e @ rest) a b" for a b
    using assms(1) subslice_drop[of pos idx a b] by simp
  show "subslice idx pos (pos + 4) = to_le_bytes (of_nat n :: u32)"
    using s[of 0 4] by (simp add: index_entry_bytes_def subslice_def n_def)
  show "subslice idx (pos + 4) (pos + 4 + n) = ie_last_key e"
    using s[of 4 "4 + n"] by (simp add: index_entry_bytes_def subslice_def n_def add.assoc)
  show "subslice idx (pos + 4 + n) (pos + 4 + n + 8) = to_le_bytes (ie_offset e)"
    using s[of "4 + n" "4 + n + 8"] by (simp add: index_entry_bytes_def subslice_def n_def add.assoc)
  show "subslice idx (pos + 4 + n + 8) (pos + 4 + n + 8 + 8) = to_le_bytes (ie_len e)"
    using s[of "4 + n + 8" "4 + n + 8 + 8"] by (simp add: index_entry_bytes_def subslice_def n_def add.assoc)
qed

lemma parse_index_loop_enc:
  assumes "drop pos idx = concat (map index_entry_bytes es)" "pos \<le> length idx"
    and "\<forall>e\<in>set es. length (ie_last_key e) < 2 ^ 32"
  shows "parse_index_loop idx pos = Inr (map index_record_of es)"
  using assms
proof (induction es arbitrary: pos)
  case Nil
  then show ?case by (simp add: parse_index_loop.simps)
next
  case (Cons e es)
  let ?n = "length (ie_last_key e)"
  have d: "drop pos idx = index_entry_bytes e @ concat (map index_entry_bytes es)" using Cons.prems(1) by simp
  have len: "pos + 4 + ?n + 16 \<le> length idx"
    using arg_cong[OF d, of length] Cons.prems(2) by (simp add: length_index_entry_bytes)
  have u: "unat (of_nat ?n :: u32) = ?n" using Cons.prems(3) by (simp add: unat_of_nat)
  have "drop (pos + 4 + ?n + 8 + 8) idx = concat (map index_entry_bytes es)"
    using arg_cong[OF d, of "drop (20 + ?n)"] by (simp add: length_index_entry_bytes add.commute add.left_commute)
  then have "parse_index_loop idx (pos + 4 + ?n + 8 + 8) = Inr (map index_record_of es)"
    using Cons.prems(3) len by (intro Cons.IH) auto
  moreover note f = index_entry_fields[OF d]
  have "from_le_bytes (subslice idx (pos + 4 + ?n) (pos + 4 + ?n + 8)) = ie_offset e"
    "from_le_bytes (subslice idx (pos + 4 + ?n + 8) (pos + 4 + ?n + 8 + 8)) = ie_len e"
    using f(3,4) by simp_all
  ultimately show ?case
    using len u f(1,2) by (simp add: parse_index_loop.simps[of idx pos] Let_def index_record_of_def)
qed

section \<open>Reading back a written table\<close>

text \<open>The entry of the index for the \<open>i\<close>-th block, and that the block lies where it says.\<close>

lemma index_of_nth:
  "i < length bs \<Longrightarrow> index_of off bs ! i =
     \<lparr>ie_last_key = fst (last (bs ! i)), ie_offset = of_nat (off + length (data_image (take i bs))),
      ie_len = of_nat (length (enc_block (bs ! i)))\<rparr>"
proof (induction bs arbitrary: off i)
  case (Cons b bs)
  then show ?case by (cases i) (simp_all add: add.assoc)
qed simp

lemma data_image_split:
  "i < length bs \<Longrightarrow> data_image bs = data_image (take i bs) @ enc_block (bs ! i) @ data_image (drop (Suc i) bs)"
  by (metis Cons_nth_drop_Suc append_take_drop_id data_image_simps(2,3))

definition table_reader :: "entry list list \<Rightarrow> sst_reader" where
  "table_reader bs = \<lparr>sr_mmap = sst_image bs, sr_index = map index_record_of (index_of 0 bs), sr_footer = table_footer bs\<rparr>"

text \<open>The sizes that must fit the \<open>u64\<close> and \<open>u32\<close> fields of the file.\<close>

definition table_fits :: "entry list list \<Rightarrow> bool" where
  "table_fits bs \<longleftrightarrow> length (sst_image bs) < 2 ^ 64 \<and> (\<forall>b\<in>set bs. b \<noteq> [] \<and> (\<forall>e\<in>set b. entry_ok e))"

lemma length_sst_image:
  "length (sst_image bs) = length (data_image bs) + length (index_image bs) + length (filter_image bs) + FOOTER_SIZE"
  by (simp add: sst_image_def)

lemma unat_add_of_nat: "a + b < 2 ^ 64 \<Longrightarrow> unat (of_nat a + of_nat b :: u64) = a + b"
  by (simp add: of_nat_add[symmetric] unat_of_nat del: of_nat_add)

lemma unat_of_nat_u64: "a < 2 ^ 64 \<Longrightarrow> unat (of_nat a :: u64) = a"
  by (simp add: unat_of_nat)

lemma index_keys_ok:
  assumes "\<forall>b\<in>set bs. b \<noteq> [] \<and> (\<forall>e\<in>set b. entry_ok e)"
  shows "\<forall>e\<in>set (index_of off bs). length (ie_last_key e) < 2 ^ 32"
  using assms
proof (induction bs arbitrary: off)
  case (Cons b bs)
  then have "entry_ok (last b)" by simp
  then have "length (fst (last b)) < 2 ^ 32" by (cases "last b") (simp add: entry_ok_def)
  then show ?case using Cons by simp
qed simp

lemma parse_index_image:
  assumes "table_fits bs"
  shows "parse_index (sst_image bs) (index_offset (table_footer bs)) (index_len (table_footer bs)) =
    Inr (map index_record_of (index_of 0 bs))"
proof -
  let ?d = "length (data_image bs)" and ?i = "length (index_image bs)"
  have b: "?d + ?i < 2 ^ 64" using assms by (simp add: table_fits_def length_sst_image)
  have "subslice (sst_image bs) ?d (?d + ?i) = index_image bs"
    unfolding sst_image_def by (rule subslice_append_mid) auto
  moreover have "parse_index_loop (index_image bs) 0 = Inr (map index_record_of (index_of 0 bs))"
    using assms index_keys_ok[of bs 0] by (intro parse_index_loop_enc) (auto simp: index_image_def table_fits_def)
  ultimately show ?thesis
    using b unat_add_of_nat[OF b] unat_of_nat_u64[of ?d]
    by (simp add: parse_index_def table_footer_def footer_new_def slice_checked_def length_sst_image)
qed

lemma sst_open_image: "table_fits bs \<Longrightarrow> sst_open (Inr (sst_image bs)) None = Inr (table_reader bs)"
proof -
  assume fits: "table_fits bs"
  have "drop (length (sst_image bs) - FOOTER_SIZE) (sst_image bs) = footer_bytes (table_footer bs)"
    by (simp add: sst_image_def)
  moreover have "footer_decode (footer_bytes (table_footer bs)) = Inr (table_footer bs)"
    using footer_decode_bytes[of "table_footer bs" "[]"] by (simp add: table_footer_def footer_new_def)
  ultimately show ?thesis
    using parse_index_image[OF fits] by (simp add: sst_open_def length_sst_image table_reader_def)
qed

lemma filter_slice_image:
  assumes "table_fits bs"
  shows "filter_slice (table_reader bs) = Inr (if filter_image bs = [] then None else Some (filter_image bs))"
proof -
  let ?a = "length (data_image bs) + length (index_image bs)" and ?f = "length (filter_image bs)"
  have b: "?a + ?f < 2 ^ 64" using assms by (simp add: table_fits_def length_sst_image)
  have "subslice (sst_image bs) ?a (?a + ?f) = filter_image bs"
    using subslice_append_mid[of "data_image bs @ index_image bs" ?a "?a + ?f" "filter_image bs"] by (simp add: sst_image_def)
  moreover have "(of_nat ?f :: u64) = 0 \<longleftrightarrow> filter_image bs = []"
    using unat_of_nat_u64[of ?f] b by (simp add: unat_eq_0[symmetric])
  ultimately show ?thesis
    using unat_add_of_nat[OF b] unat_of_nat_u64[of ?a] unat_of_nat_u64[of ?f] b
    by (simp add: filter_slice_def table_reader_def table_footer_def footer_new_def slice_raw_def length_sst_image Let_def
        del: of_nat_add)
qed

lemma block_slice_image:
  assumes "table_fits bs" "i < length bs"
  defines "r \<equiv> index_record_of (index_of 0 bs ! i)"
  shows "unat (ir_offset r + ir_len r) \<le> length (sst_image bs)"
    "slice_raw (sst_image bs) (unat (ir_offset r)) (unat (ir_len r)) = Inr (enc_block (bs ! i))"
proof -
  let ?o = "length (data_image (take i bs))" and ?n = "length (enc_block (bs ! i))"
  note s = data_image_split[OF assms(2)]
  have len: "?o + ?n \<le> length (sst_image bs)" by (simp add: length_sst_image s)
  have b: "?o + ?n < 2 ^ 64" using len assms(1) by (simp add: table_fits_def)
  have r: "r = \<lparr>ir_last_key = fst (last (bs ! i)), ir_offset = of_nat ?o, ir_len = of_nat ?n\<rparr>"
    using assms(2) by (simp add: r_def index_record_of_def index_of_nth)
  have "subslice (sst_image bs) ?o (?o + ?n) = enc_block (bs ! i)"
    unfolding sst_image_def s by (simp add: subslice_append_mid)
  then show "slice_raw (sst_image bs) (unat (ir_offset r)) (unat (ir_len r)) = Inr (enc_block (bs ! i))"
    using len b unat_of_nat_u64[of ?o] unat_of_nat_u64[of ?n] by (simp add: slice_raw_def r)
  show "unat (ir_offset r + ir_len r) \<le> length (sst_image bs)"
    using len unat_add_of_nat[OF b] by (simp add: r)
qed

text \<open>
  With keys in order, and no key the last of two blocks, only the block found by the lower bound
  on the last keys matters.
\<close>

lemma sorted_concat_block:
  assumes "sorted (map fst (concat bs))" "\<forall>b\<in>set bs. b \<noteq> []" "i < length bs"
  shows "sorted (map fst (bs ! i))"
    "e \<in> set (concat (take i bs)) \<Longrightarrow> e' \<in> set (bs ! i) \<Longrightarrow> fst e \<le> fst e'"
    "e \<in> set (bs ! i) \<Longrightarrow> fst e \<le> fst (last (bs ! i))"
    "e \<in> set (concat (drop (Suc i) bs)) \<Longrightarrow> fst (last (bs ! i)) \<le> fst e"
proof -
  have s: "bs = take i bs @ bs ! i # drop (Suc i) bs" using assms(3) by (simp add: id_take_nth_drop)
  have ne: "bs ! i \<noteq> []" using assms(2,3) by simp
  have *: "sorted (map fst (concat (take i bs) @ bs ! i @ concat (drop (Suc i) bs)))"
    using assms(1) arg_cong[OF s, of concat] by simp
  then show 1: "sorted (map fst (bs ! i))" by (simp add: sorted_append)
  show "e \<in> set (concat (take i bs)) \<Longrightarrow> e' \<in> set (bs ! i) \<Longrightarrow> fst e \<le> fst e'"
    using * unfolding map_append sorted_append by (auto simp del: set_concat)
  have "sorted (map fst (butlast (bs ! i) @ [last (bs ! i)]))" using 1 ne by simp
  then have "\<forall>x\<in>set (butlast (bs ! i)). fst x \<le> fst (last (bs ! i))"
    by (simp add: sorted_append)
  moreover have "set (bs ! i) = insert (last (bs ! i)) (set (butlast (bs ! i)))"
    using ne append_butlast_last_id[OF ne] by (metis list.set(1,2) set_append sup_bot_right Un_insert_right)
  ultimately show "e \<in> set (bs ! i) \<Longrightarrow> fst e \<le> fst (last (bs ! i))" by auto
  show "e \<in> set (concat (drop (Suc i) bs)) \<Longrightarrow> fst (last (bs ! i)) \<le> fst e"
    using * ne unfolding map_append sorted_append by (auto simp del: set_concat)
qed

lemma map_of_concat_lower_bound:
  assumes "sorted (map fst (concat bs))" "\<forall>b\<in>set bs. b \<noteq> []" "i \<le> length bs"
    and below: "\<forall>j<i. fst (last (bs ! j)) < k"
    and above: "i < length bs \<Longrightarrow> k \<le> fst (last (bs ! i))"
  shows "map_of (concat bs) k = (if i < length bs then map_of (bs ! i) k else None)"
proof -
  have before: "map_of (concat (take i bs)) k = None"
  proof -
    have "fst e < k" if "e \<in> set (concat (take i bs))" for e
    proof -
      obtain b where "b \<in> set (take i bs)" "e \<in> set b" using \<open>e \<in> _\<close> by auto
      then obtain j where j: "j < i" "e \<in> set (bs ! j)"
        using assms(3) unfolding in_set_conv_nth[of b] by auto
      then show ?thesis
        using sorted_concat_block(3)[OF assms(1,2), of j e] below assms(3) by (auto intro: le_less_trans)
    qed
    then show ?thesis by (force simp: map_of_eq_None_iff simp del: set_concat)
  qed
  show ?thesis
  proof (cases "i < length bs")
    case True
    have s: "concat bs = concat (take i bs) @ bs ! i @ concat (drop (Suc i) bs)"
      using arg_cong[OF id_take_nth_drop[OF True], of concat] by simp
    have "map_of (concat (drop (Suc i) bs)) k = None" if "map_of (bs ! i) k = None"
    proof -
      have "last (bs ! i) \<in> set (bs ! i)" using assms(2) True by simp
      then have "fst (last (bs ! i)) \<noteq> k" using that by (auto simp: map_of_eq_None_iff)
      then have "k < fst (last (bs ! i))" using above[OF True] by auto
      then have "k < fst e" if "e \<in> set (concat (drop (Suc i) bs))" for e
        using sorted_concat_block(4)[OF assms(1,2) True that] by auto
      then show ?thesis by (force simp: map_of_eq_None_iff simp del: set_concat)
    qed
    then show ?thesis using before True
      unfolding s map_of_append by (auto simp: map_add_def split: option.splits)
  qed (use before assms(3) in auto)
qed

definition last_keys :: "entry list list \<Rightarrow> bytes list" where
  "last_keys bs = map (\<lambda>b. fst (last b)) bs"

lemma table_index_keys: "map ir_last_key (map index_record_of (index_of off bs)) = last_keys bs"
  by (induction bs arbitrary: off) (simp_all add: index_record_of_def last_keys_def)

lemma sst_get_index_image:
  assumes "table_fits bs" "sorted (map fst (concat bs))" "sorted_wrt (<) (last_keys bs)"
  shows "sst_get_index (table_reader bs) k = Inr (map_of (concat bs) k)"
proof -
  let ?ix = "map index_record_of (index_of 0 bs)"
  define i where "i = (case binary_search_by (\<lambda>e. rust_cmp (ir_last_key e) k) ?ix of Found i \<Rightarrow> i | Insert_at i \<Rightarrow> i)"
  have ne: "\<forall>b\<in>set bs. b \<noteq> []" and ok: "\<forall>b\<in>set bs. \<forall>e\<in>set b. entry_ok e"
    using assms(1) by (auto simp: table_fits_def)
  have key: "ir_last_key (?ix ! j) = fst (last (bs ! j))" if "j < length bs" for j
    using that by (simp add: index_of_nth index_record_of_def)
  have "sorted_wrt (<) (map ir_last_key ?ix)" using assms(3) unfolding table_index_keys .
  note lb = bs.lower_bound[OF this i_def[symmetric]]
  have m: "map_of (concat bs) k = (if i < length bs then map_of (bs ! i) k else None)"
    using lb key by (intro map_of_concat_lower_bound[OF assms(2) ne]) auto
  show ?thesis
  proof (cases "i < length bs")
    case True
    have "fst (block_search (block_iter_new (enc_block (bs ! i))) k) = map_of (bs ! i) k"
      unfolding enc_block_def using ok True sorted_concat_block(1)[OF assms(2) ne True] by (intro block_search_enc) auto
    moreover have "index_of 0 bs \<noteq> []" using True length_index_of[of 0 bs] by (auto simp del: length_index_of)
    ultimately show ?thesis
      using True m block_slice_image[OF assms(1) True]
      by (simp add: sst_get_index_def table_reader_def i_def[symmetric] Let_def)
  next
    case False
    then show ?thesis using m by (simp add: sst_get_index_def table_reader_def i_def[symmetric] Let_def)
  qed
qed

lemma sst_get_filtered:
  assumes "table_fits bs"
  shows "sst_get avx2 (table_reader bs) k =
    (if filter_admits avx2 (filter_image bs) k then sst_get_index (table_reader bs) k else Inr None)"
  using filter_slice_image[OF assms]
  by (auto simp: sst_get_def filter_admits_def bloom_filter_new_def split: option.splits)

text \<open>Asking the filter first changes nothing, by the contract of the filter.\<close>

lemma sst_get_image:
  assumes "table_fits bs" "sorted (map fst (concat bs))" "sorted_wrt (<) (last_keys bs)"
  shows "sst_get avx2 (table_reader bs) k = Inr (map_of (concat bs) k)"
proof -
  have "(if filter_admits avx2 (bloom_build (bloom_of_keys (map fst (concat bs)))) k then map_of (concat bs) k else None)
      = map_of (concat bs) k"
    by (rule bloom.filtered_lookup) (auto simp: map_of_eq_None_iff)
  then show ?thesis
    using sst_get_filtered[OF assms(1), of avx2 k] sst_get_index_image[OF assms, of k]
    by (auto simp: filter_image_def split: if_splits)
qed

lemma sst_first_last_image:
  assumes "table_fits bs"
  shows "sst_get_first_key (table_reader bs) = Inr (if bs = [] then None else Some (fst (hd (concat bs))))"
    "sst_get_last_key (table_reader bs) = (if bs = [] then None else Some (fst (last (concat bs))))"
proof -
  show "sst_get_first_key (table_reader bs) = Inr (if bs = [] then None else Some (fst (hd (concat bs))))"
  proof (cases bs)
    case Nil
    then show ?thesis by (simp add: sst_get_first_key_def table_reader_def)
  next
    case (Cons b bs')
    then obtain e es where b: "b = e # es" "entry_ok e" using assms by (cases b) (auto simp: table_fits_def)
    have "dec_entry (enc_block b) = Some (e, length (enc_entry e))"
      using ec.dec_enc[OF b(2), of "enc_block es"] by (simp add: b(1) enc_block_def)
    then have "fst (next_entry (block_iter_new (enc_block b))) = Some e"
      using next_entry_drop[of "block_iter_new (enc_block b)"] by (simp add: block_iter_new_def)
    then show ?thesis
      using block_slice_image(2)[OF assms, of 0] Cons b(1) by (simp add: sst_get_first_key_def table_reader_def)
  qed
  show "sst_get_last_key (table_reader bs) = (if bs = [] then None else Some (fst (last (concat bs))))"
  proof (cases bs rule: rev_cases)
    case Nil
    then show ?thesis by (simp add: sst_get_last_key_def table_reader_def)
  next
    case (snoc bs' b)
    then have "b \<noteq> []" using assms by (simp add: table_fits_def)
    then show ?thesis
      by (simp add: sst_get_last_key_def table_reader_def snoc index_of_append index_record_of_def)
  qed
qed

text \<open>What the writer produced, opened.\<close>

lemma last_keys_strict:
  assumes "sorted_wrt (<) (map fst (concat bs))" "\<forall>b\<in>set bs. b \<noteq> []"
  shows "sorted_wrt (<) (last_keys bs)"
  using assms
proof (induction bs)
  case (Cons b bs)
  have "fst (last b) < fst (last b')" if "b' \<in> set bs" for b'
  proof -
    have "last b \<in> set b" "last b' \<in> set b'" using Cons.prems(2) that by auto
    then show ?thesis using Cons.prems(1) that by (auto simp: sorted_wrt_append)
  qed
  then show ?case using Cons by (simp add: last_keys_def sorted_wrt_append)
qed (simp add: last_keys_def)

lemma enc_block_concat: "data_image bs = enc_block (concat bs)"
  by (induction bs) simp_all

lemma length_enc_block: "16 * length es \<le> length (enc_block es)"
proof (induction es)
  case (Cons e es)
  have "16 \<le> length (enc_entry e)" by (cases e) (simp add: length_enc_entry)
  with Cons show ?case by (simp add: enc_block_def)
qed simp

lemma length_index_image:
  assumes "\<forall>b\<in>set bs. b \<noteq> []"
  shows "length (concat (map index_entry_bytes (index_of off bs))) \<le> 2 * length (data_image bs)"
  using assms
proof (induction bs arbitrary: off)
  case (Cons b bs)
  have "length (enc_entry (last b)) \<le> length (enc_block b)"
    using Cons.prems append_butlast_last_id[of b] enc_block_simps(2)[of "butlast b" "[last b]"]
    by (metis enc_block_simps(3) le_add2 length_append list.set_intros(1))
  moreover have "16 + length (fst (last b)) \<le> length (enc_entry (last b))"
    by (cases "last b") (simp add: length_enc_entry)
  ultimately show ?case
    using Cons.IH[of "off + length (enc_block b)"] Cons.prems by (simp add: length_index_entry_bytes)
qed simp

text \<open>Entries whose lengths fit the \<open>u32\<close> fields, of less than \<open>2\<^sup>6\<^sup>1\<close> bytes in all.\<close>

definition entries_fit :: "entry list \<Rightarrow> bool" where
  "entries_fit es \<longleftrightarrow> list_all entry_ok es \<and> length (enc_block es) < 2 ^ 61"

lemma entries_fit_table:
  assumes "entries_fit (concat bs)" "\<forall>b\<in>set bs. b \<noteq> []"
  shows "table_fits bs"
proof -
  have d: "length (data_image bs) < 2 ^ 61" using assms(1) by (simp add: enc_block_concat entries_fit_def)
  have "length (concat bs) < 2 ^ 60"
    using length_enc_block[of "concat bs"] d unfolding enc_block_concat by simp
  from filter_image_bound[OF this] length_index_image[OF assms(2), of 0] d
  have "length (sst_image bs) < 2 ^ 64" by (simp add: length_sst_image index_image_def FOOTER_SIZE_def)
  then show ?thesis using assms by (auto simp: table_fits_def entries_fit_def list_all_iff)
qed

lemma sst_write_fits:
  assumes "sst_write os io es = Inr (n, f)" "entries_fit es"
  obtains bs where "concat bs = es" "f = sst_image bs" "table_fits bs" "n = of_nat (length f)"
    "sst_open (Inr f) None = Inr (table_reader bs)" "bs = [] \<longleftrightarrow> es = []" "\<forall>b\<in>set bs. block_cut b"
proof -
  have "length es < 2 ^ 60" using assms(2) length_enc_block[of es] by (simp add: entries_fit_def)
  then obtain bs where bs: "concat bs = es" "\<forall>b\<in>set bs. block_cut b" "f = sst_image bs" "n = of_nat (length f)"
    using sst_write_image[OF assms(1)] by auto
  have "table_fits bs" using bs assms(2) by (intro entries_fit_table) (auto simp: block_cut_def)
  moreover have "bs = [] \<longleftrightarrow> es = []" using bs(1,2) by (cases bs) (auto simp: block_cut_def)
  ultimately show thesis using that[OF bs(1,3) _ bs(4)] sst_open_image bs(2,3) by blast
qed

lemma sst_get_strict:
  assumes "table_fits bs" "sorted_wrt (<) (map fst (concat bs))"
  shows "sst_get avx2 (table_reader bs) key = Inr (map_of (concat bs) key)"
  using assms strict_sorted_imp_sorted[OF assms(2)]
  by (intro sst_get_image last_keys_strict) (auto simp: table_fits_def)

text \<open>The bounds test of the index, with the sum of offset and length taken modulo \<open>2\<^sup>6\<^sup>4\<close>.\<close>

lemma unat_u64_bound: "unat (w :: u64) < 2 ^ 64"
  using unsigned_less[of w] by simp

lemma parse_index_loop_no_panic: "parse_index_loop idx pos \<noteq> Inl Panic"
proof (induction "length idx - pos" arbitrary: pos rule: less_induct)
  case less
  let ?n = "unat (from_le_bytes (subslice idx pos (pos + 4)) :: u32)"
  have "20 + (pos + ?n) \<le> length idx \<Longrightarrow> length idx - (20 + (pos + ?n)) < length idx - pos" by arith
  then show ?case
    using less[of "20 + (pos + ?n)"]
    by (auto simp: parse_index_loop.simps[of idx pos] Let_def split: sum.splits)
qed

lemma parse_index_panic:
  "parse_index bs off len = Inl Panic \<longleftrightarrow>
     unat (off + len) \<le> length bs \<and> 2 ^ 64 \<le> unat off + unat len"
  using unat_plus_if'[of off len] parse_index_loop_no_panic unat_u64_bound[of off] unat_u64_bound[of len]
  by (auto simp: parse_index_def slice_checked_def split: if_splits)

lemma parse_index_in_range: "parse_index bs off len = Inr idx \<Longrightarrow> unat off + unat len \<le> length bs"
  using unat_plus_if'[of off len] unat_u64_bound[of off] unat_u64_bound[of len]
  by (auto simp: parse_index_def slice_checked_def split: if_splits)

section \<open>Properties\<close>

text \<open>
  C6. Write a table, read it back: for entries with strictly increasing keys, the file the
  writer finishes opens, a lookup of any key answers as the map of the entries (Bloom filter,
  index search and block scan together, on either filter code path), and the first and last key
  of the reader are those of the entries.
\<close>

theorem sst_write_then_get:
  assumes "sst_write os io es = Inr (n, f)" "sorted_wrt (<) (map fst es)" "entries_fit es"
  shows "\<exists>r. sst_open (Inr f) None = Inr r \<and> (\<forall>key. sst_get avx2 r key = Inr (map_of es key)) \<and>
    sst_get_first_key r = Inr (if es = [] then None else Some (fst (hd es))) \<and>
    sst_get_last_key r = (if es = [] then None else Some (fst (last es)))"
proof -
  obtain bs where bs: "concat bs = es" "table_fits bs"
    "sst_open (Inr f) None = Inr (table_reader bs)" "bs = [] \<longleftrightarrow> es = []"
    using sst_write_fits[OF assms(1,3)] by metis
  have "sst_get avx2 (table_reader bs) key = Inr (map_of es key)" for key
    using sst_get_strict[OF bs(2)] assms(2) bs(1) by simp
  then show ?thesis using sst_first_last_image[OF bs(2)] bs by auto
qed

theorem sst_write_then_get_witness:
  "\<exists>f r n. sst_write None [] [([1], Some [7], 3), ([1, 0], None, 5)] = Inr (n, f) \<and>
     sst_open (Inr f) None = Inr r \<and> sst_get True r [1, 0] = Inr (Some (None, 5)) \<and> sst_get True r [2] = Inr None"
proof -
  let ?es = "[([1], Some [7], 3), ([1, 0], None, 5)] :: entry list"
  obtain n f where w: "sst_write None [] ?es = Inr (n, f)" using sst_write_ok[of "[]" ?es] by (auto simp: no_faults_def)
  have "sorted_wrt (<) (map fst ?es)" "entries_fit ?es"
    by (simp_all add: entries_fit_def entry_ok_def enc_block_def length_enc_entry)
  from sst_write_then_get[OF w this, of True] w show ?thesis by auto
qed

text \<open>
  Two versions of one key, the newer as large as a block, in one table (as a flushed memtable
  holds them, newest first): the lookup returns the older one. Both blocks have the key as their
  last key, and the binary search of the index stops at the second.
\<close>

theorem sst_get_returns_old_version:
  assumes "sst_write os io [(key, Some new, s2), (key, Some old, s1)] = Inr (n, f)"
    and "TARGET_BLOCK_SIZE \<le> length new" "entries_fit [(key, Some new, s2), (key, Some old, s1)]"
  shows "\<exists>r. sst_open (Inr f) None = Inr r \<and> sst_get avx2 r key = Inr (Some (Some old, s1))"
proof -
  obtain bs where bs: "concat bs = [(key, Some new, s2), (key, Some old, s1)]" "table_fits bs"
    "sst_open (Inr f) None = Inr (table_reader bs)" "\<forall>b\<in>set bs. block_cut b"
    using sst_write_fits[OF assms(1,3)] by metis
  then obtain b bs' where c: "bs = b # bs'" "b \<noteq> []" "concat bs' = drop (length b) (concat bs)"
    by (cases bs) (auto simp: block_cut_def)
  have "b \<noteq> [(key, Some new, s2), (key, Some old, s1)]"
    using bs(4) assms(2) c(1) by (auto simp: block_cut_def length_enc_entry)
  then have b: "b = [(key, Some new, s2)]" "concat bs' = [(key, Some old, s1)]"
    using bs(1) c(1,2) by (auto simp: Cons_eq_append_conv append_eq_Cons_conv)
  then obtain b' bs'' where c': "bs' = b' # bs''" "b' \<noteq> []"
    using bs(4) c(1) by (cases bs') (auto simp: block_cut_def)
  then have b': "b' = [(key, Some old, s1)]" "bs'' = []"
    using b(2) bs(4) c(1) by (auto simp: append_eq_Cons_conv block_cut_def dest: in_set_conv_nth[THEN iffD1])
  have two: "bs = [[(key, Some new, s2)], [(key, Some old, s1)]]" using b b' c c' by simp
  have "fst (block_search (block_iter_new (enc_block [(key, Some old, s1)])) key) = Some (Some old, s1)"
    using block_search_enc[of "[(key, Some old, s1)]" key] assms(3) by (simp add: entries_fit_def)
  moreover have "binary_search_by (\<lambda>e. rust_cmp (ir_last_key e) key) (sr_index (table_reader bs)) = Found 1"
    by (simp add: two table_reader_def index_record_of_def binary_search_by_def bsearch_loop.simps Let_def rust_cmp_def)
  ultimately have "sst_get_index (table_reader bs) key = Inr (Some (Some old, s1))"
    using block_slice_image[OF bs(2), of 1] by (simp add: sst_get_index_def two table_reader_def)
  moreover have "filter_admits avx2 (filter_image bs) key"
    unfolding filter_image_def by (rule bloom.complete) (simp add: two)
  ultimately show ?thesis using sst_get_filtered[OF bs(2), of avx2 key] bs(3) by auto
qed

theorem sst_get_returns_old_version_witness:
  "\<exists>n f r. sst_write None [] [([1], Some (replicate 4096 8), 2), ([1], Some [7], 1)] = Inr (n, f) \<and>
     sst_open (Inr f) None = Inr r \<and> sst_get False r [1] = Inr (Some (Some [7], 1))"
proof -
  let ?es = "[([1], Some (replicate 4096 8), 2), ([1], Some [7], 1)] :: entry list"
  obtain n f where w: "sst_write None [] ?es = Inr (n, f)" using sst_write_ok[of "[]" ?es] by (auto simp: no_faults_def)
  have "TARGET_BLOCK_SIZE \<le> length (replicate 4096 (8 :: byte))" "entries_fit ?es"
    by (simp_all add: entries_fit_def entry_ok_def enc_block_def length_enc_entry TARGET_BLOCK_SIZE_def)
  from sst_get_returns_old_version[OF w this, of False] w show ?thesis by auto
qed

text \<open>
  C34. What \<open>open\<close> checks, on any file: a reader is only returned for a file of at least 40 bytes
  whose last 40 are a footer with the magic number, and whose index lies within the file and
  parses; offset and length that overflow 64 bits but sum to a position in the file pass the
  bounds test and panic at the slice instead of giving an error.
\<close>

theorem sst_open_checks:
  "(sst_open (Inr bs) None = Inr r \<longrightarrow>
      FOOTER_SIZE \<le> length bs \<and> sr_mmap r = bs \<and>
      drop (length bs - FOOTER_SIZE) bs = footer_bytes (sr_footer r) \<and> magic (sr_footer r) = SSTABLE_MAGIC \<and>
      unat (index_offset (sr_footer r)) + unat (index_len (sr_footer r)) \<le> length bs) \<and>
   (sst_open (Inr (data @ footer_bytes f)) None = Inl Panic \<longleftrightarrow> magic f = SSTABLE_MAGIC \<and>
      unat (index_offset f + index_len f) \<le> length data + FOOTER_SIZE \<and>
      2 ^ 64 \<le> unat (index_offset f) + unat (index_len f))"
proof (intro conjI impI)
  assume o: "sst_open (Inr bs) None = Inr r"
  then obtain idx where len: "FOOTER_SIZE \<le> length bs" "sr_mmap r = bs"
    and f: "footer_decode (drop (length bs - FOOTER_SIZE) bs) = Inr (sr_footer r)"
    and p: "parse_index bs (index_offset (sr_footer r)) (index_len (sr_footer r)) = Inr idx"
    by (auto simp: sst_open_def split: if_splits sum.splits)
  then show "FOOTER_SIZE \<le> length bs" "sr_mmap r = bs" by auto
  show "drop (length bs - FOOTER_SIZE) bs = footer_bytes (sr_footer r)" "magic (sr_footer r) = SSTABLE_MAGIC"
    using footer_decode_sound[OF f] len by auto
  show "unat (index_offset (sr_footer r)) + unat (index_len (sr_footer r)) \<le> length bs"
    using parse_index_in_range[OF p] .
next
  show "sst_open (Inr (data @ footer_bytes f)) None = Inl Panic \<longleftrightarrow> magic f = SSTABLE_MAGIC \<and>
      unat (index_offset f + index_len f) \<le> length data + FOOTER_SIZE \<and>
      2 ^ 64 \<le> unat (index_offset f) + unat (index_len f)"
    using footer_decode_encoded[of f "[]"] parse_index_panic[of "data @ footer_bytes f" "index_offset f" "index_len f"]
    by (auto simp: sst_open_def split: sum.splits)
qed

theorem sst_open_checks_witness:
  "sst_open (Inr (footer_bytes (footer_new (2 ^ 64 - 8) 16 0 0))) None = Inl Panic"
  using sst_open_checks[of "[]" _ "[]" "footer_new (2 ^ 64 - 8) 16 0 0"]
  by (simp add: footer_new_def FOOTER_SIZE_def)

end
