(* ===== verification/SSTable_Streaming.thy ===== *)
theory SSTable_Streaming
  imports SSTable_Reader
begin

text \<open>
  The sequential reader used by compaction, \<^verbatim>\<open>src/tier3_storage/src/sstable/streaming.rs\<close>: it walks
  the blocks of a table in file order. Its own \<open>parse_index\<close> has no guard on the record length, so
  a damaged index panics; blocks are sliced without any bounds test.
\<close>

section \<open>State and operations\<close>

record sst_stream =
  ss_mmap :: bytes
  ss_index :: "index_record list"
  current_index_idx :: nat
  current_block_iter :: "block_iter option"

function stream_parse_loop :: "bytes \<Rightarrow> nat \<Rightarrow> index_record list result" where
  "stream_parse_loop idx pos =
     (if pos + 4 \<le> length idx
      then let
        k_len = unat (from_le_bytes (subslice idx pos (pos + 4)) :: u32);
        pos = pos + 4
      in case slice_checked idx pos (pos + k_len) of
        Inl e \<Rightarrow> Inl e
      | Inr last_key \<Rightarrow> let pos = pos + k_len in
        (case slice_checked idx pos (pos + 8) of
           Inl e \<Rightarrow> Inl e
         | Inr off_bytes \<Rightarrow> let pos = pos + 8 in
           (case slice_checked idx pos (pos + 8) of
              Inl e \<Rightarrow> Inl e
            | Inr len_bytes \<Rightarrow> let pos = pos + 8 in
              (case stream_parse_loop idx pos of
                 Inl e \<Rightarrow> Inl e
               | Inr rs \<Rightarrow> Inr (\<lparr>ir_last_key = last_key, ir_offset = from_le_bytes off_bytes,
                                 ir_len = from_le_bytes len_bytes\<rparr> # rs))))
      else Inr [])"
  by pat_completeness auto
termination
  by (relation "measure (\<lambda>(idx, pos). length idx - pos)") auto

declare stream_parse_loop.simps [simp del]

definition stream_parse_index :: "bytes \<Rightarrow> u64 \<Rightarrow> u64 \<Rightarrow> index_record list result" where
  "stream_parse_index bs off len =
     (if unat (off + len) > length bs then Inl (IoError UnexpectedEof)
      else case slice_checked bs (unat off) (unat (off + len)) of
          Inl e \<Rightarrow> Inl e
        | Inr idx \<Rightarrow> stream_parse_loop idx 0)"

definition load_next_block :: "sst_stream \<Rightarrow> sst_stream result" where
  "load_next_block st =
     (if current_index_idx st \<ge> length (ss_index st) then Inr (st\<lparr>current_block_iter := None\<rparr>)
      else let
        e = ss_index st ! current_index_idx st;
        st = st\<lparr>current_index_idx := current_index_idx st + 1\<rparr>
      in case slice_raw (ss_mmap st) (unat (ir_offset e)) (unat (ir_len e)) of
          Inl f \<Rightarrow> Inl f
        | Inr block \<Rightarrow> Inr (st\<lparr>current_block_iter := Some (block_iter_new block)\<rparr>))"

definition stream_open :: "io_kind + bytes \<Rightarrow> nat option \<Rightarrow> sst_stream result" where
  "stream_open os mmap =
     (case os of
        Inl e \<Rightarrow> Inl (IoError e)
      | Inr bs \<Rightarrow>
          if length bs < FOOTER_SIZE then Inl (IoError InvalidData)
          else (case mmap of
            Some errno \<Rightarrow> Inl (IoError (OsError errno))
          | None \<Rightarrow>
            (case footer_decode (drop (length bs - FOOTER_SIZE) bs) of
               Inl e \<Rightarrow> Inl e
             | Inr f \<Rightarrow>
               (case stream_parse_index bs (index_offset f) (index_len f) of
                  Inl e \<Rightarrow> Inl e
                | Inr idx \<Rightarrow> load_next_block \<lparr>ss_mmap = bs, ss_index = idx, current_index_idx = 0,
                                              current_block_iter = None\<rparr>))))"

text \<open>One try at the current block: the entry, if it has one left, and the advanced iterator.\<close>

definition block_step :: "sst_stream \<Rightarrow> entry option \<times> sst_stream" where
  "block_step st =
     (case current_block_iter st of
        Some b_iter \<Rightarrow> (let (e, b_iter) = next_entry b_iter in (e, st\<lparr>current_block_iter := Some b_iter\<rparr>))
      | None \<Rightarrow> (None, st))"

lemma block_step_fields [simp]:
  "ss_index (snd (block_step st)) = ss_index st"
  "current_index_idx (snd (block_step st)) = current_index_idx st"
  "ss_mmap (snd (block_step st)) = ss_mmap st"
  by (auto simp: block_step_def split: option.splits prod.splits)

lemma load_next_block_fields:
  "load_next_block st = Inr st' \<Longrightarrow> current_index_idx st < length (ss_index st) \<Longrightarrow>
     ss_index st' = ss_index st \<and> current_index_idx st' = Suc (current_index_idx st) \<and> ss_mmap st' = ss_mmap st"
  by (auto simp: load_next_block_def Let_def split: sum.splits)

function next_kv :: "sst_stream \<Rightarrow> (entry option \<times> sst_stream) result" where
  "next_kv st =
     (let (e, st') = block_step st in
      case e of
        Some kv \<Rightarrow> Inr (Some kv, st')
      | None \<Rightarrow>
          if current_index_idx st' < length (ss_index st')
          then (case load_next_block st' of Inl f \<Rightarrow> Inl f | Inr st'' \<Rightarrow> next_kv st'')
          else Inr (None, st'))"
  by pat_completeness auto
termination
proof (relation "measure (\<lambda>st. length (ss_index st) - current_index_idx st)")
  fix st x e st' st''
  assume "x = block_step st" "(e, st') = x" "e = None" "current_index_idx st' < length (ss_index st')"
    "load_next_block st' = Inr st''"
  then show "(st'', st) \<in> measure (\<lambda>st. length (ss_index st) - current_index_idx st)"
    using load_next_block_fields[of st' st''] block_step_fields[of st] by (metis diff_less_mono2 in_measure lessI snd_conv)
qed simp

declare next_kv.simps [simp del]

section \<open>Progress\<close>

text \<open>
  What a stream still holds: blocks not loaded, and bytes of the current block. Every call keeps
  or lowers it, and one that returns an entry lowers it.
\<close>

definition blocks_left :: "sst_stream \<Rightarrow> nat" where
  "blocks_left st = length (ss_index st) - current_index_idx st"

definition bytes_left :: "sst_stream \<Rightarrow> nat" where
  "bytes_left st = (case current_block_iter st of None \<Rightarrow> 0 | Some it \<Rightarrow> length (bi_data it) - bi_offset it)"

lemma block_step_progress:
  assumes "block_step st = (e, st')"
  shows "blocks_left st' = blocks_left st" "e = None \<Longrightarrow> bytes_left st' = bytes_left st"
    "e = Some kv \<Longrightarrow> bytes_left st' < bytes_left st"
proof -
  show "blocks_left st' = blocks_left st" using assms by (metis block_step_fields(1,2) blocks_left_def snd_conv)
  show "e = None \<Longrightarrow> bytes_left st' = bytes_left st"
    using assms by (auto simp: block_step_def bytes_left_def split: option.splits prod.splits dest: next_entry_None)
  assume e: "e = Some kv"
  then obtain it it' where it: "current_block_iter st = Some it" "next_entry it = (Some kv, it')"
    "st' = st\<lparr>current_block_iter := Some it'\<rparr>"
    using assms by (auto simp: block_step_def split: option.splits prod.splits)
  from next_entry_progress[OF it(2)] it(1,3) show "bytes_left st' < bytes_left st" by (simp add: bytes_left_def)
qed

lemma next_kv_progress:
  "next_kv st = Inr (e, st') \<Longrightarrow>
     blocks_left st' < blocks_left st \<or>
     blocks_left st' = blocks_left st \<and> (if e = None then bytes_left st' = bytes_left st else bytes_left st' < bytes_left st)"
proof (induction st rule: next_kv.induct)
  case (1 st)
  obtain e1 st1 where s: "block_step st = (e1, st1)" by (cases "block_step st")
  note p = block_step_progress[OF s]
  show ?case
  proof (cases "e1 = None \<and> current_index_idx st1 < length (ss_index st1)")
    case True
    then obtain st2 where l: "load_next_block st1 = Inr st2" "next_kv st2 = Inr (e, st')"
      using "1.prems" s by (auto simp: next_kv.simps[of st] split: sum.splits)
    have "blocks_left st2 < blocks_left st1"
      using load_next_block_fields[OF l(1)] True by (auto simp: blocks_left_def)
    with "1.IH"[OF refl s[symmetric] _ _ l(1) l(2)] True p(1) show ?thesis by auto
  next
    case False
    then have "e = e1" "st' = st1" using "1.prems" s by (auto simp: next_kv.simps[of st] split: option.splits)
    with p show ?thesis by (cases e1) auto
  qed
qed

section \<open>What a stream yields\<close>

text \<open>The stream over the table \<open>bs\<close> with the entries \<open>es\<close> still to come.\<close>

definition rest_of :: "block_iter option \<Rightarrow> entry list \<Rightarrow> bool" where
  "rest_of b es =
     (case b of
        None \<Rightarrow> es = []
      | Some it \<Rightarrow> bi_offset it \<le> length (bi_data it) \<and> drop (bi_offset it) (bi_data it) = enc_block es \<and>
          list_all entry_ok es)"

definition streams :: "sst_stream \<Rightarrow> entry list \<Rightarrow> bool" where
  "streams st es \<longleftrightarrow>
     (\<exists>bs cur. table_fits bs \<and> ss_mmap st = sst_image bs \<and> ss_index st = map index_record_of (index_of 0 bs) \<and>
        rest_of (current_block_iter st) cur \<and> es = cur @ concat (drop (current_index_idx st) bs))"

lemma block_step_rest:
  assumes "rest_of (current_block_iter st) cur"
  shows "\<exists>b'. block_step st = (if cur = [] then None else Some (hd cur), st\<lparr>current_block_iter := b'\<rparr>) \<and> rest_of b' (tl cur)"
proof (cases "current_block_iter st")
  case None
  then show ?thesis using assms by (intro exI[of _ None]) (simp add: block_step_def rest_of_def)
next
  case (Some it)
  note r = assms[unfolded rest_of_def Some, simplified]
  have "dec_entry (enc_block cur) = (if cur = [] then None else Some (hd cur, length (enc_entry (hd cur))))"
    using r ec.dec_enc[of "hd cur" "enc_block (tl cur)"] by (cases cur) (auto simp: enc_block_def)
  then have n: "next_entry it = (if cur = [] then (None, it)
      else (Some (hd cur), it\<lparr>bi_offset := bi_offset it + length (enc_entry (hd cur))\<rparr>))"
    using r by (simp add: next_entry_drop)
  show ?thesis
  proof (cases cur)
    case Nil
    then show ?thesis using n r by (intro exI[of _ "Some it"]) (simp add: block_step_def Some rest_of_def)
  next
    case (Cons e es)
    have d: "drop (bi_offset it) (bi_data it) = enc_entry e @ enc_block es" using r Cons by (simp add: enc_block_def)
    have "bi_offset it + length (enc_entry e) \<le> length (bi_data it)"
      using conjunct1[OF r] arg_cong[OF d, of length] by simp
    moreover have "drop (bi_offset it + length (enc_entry e)) (bi_data it) = enc_block es"
      using arg_cong[OF d, of "drop (length (enc_entry e))"] by (simp add: add.commute)
    ultimately show ?thesis
      using n r Cons
      by (intro exI[of _ "Some (it\<lparr>bi_offset := bi_offset it + length (enc_entry e)\<rparr>)"]) (simp add: block_step_def Some rest_of_def)
  qed
qed

lemma load_next_block_table:
  assumes "table_fits bs" "ss_mmap st = sst_image bs" "ss_index st = map index_record_of (index_of 0 bs)"
    "current_index_idx st < length bs"
  shows "load_next_block st = Inr (st\<lparr>current_index_idx := Suc (current_index_idx st),
      current_block_iter := Some (block_iter_new (enc_block (bs ! current_index_idx st)))\<rparr>)"
  using assms block_slice_image(2)[OF assms(1,4)] by (simp add: load_next_block_def Let_def)

lemma rest_of_block: "table_fits bs \<Longrightarrow> b \<in> set bs \<Longrightarrow> rest_of (Some (block_iter_new (enc_block b))) b"
  by (simp add: rest_of_def block_iter_new_def table_fits_def list_all_iff)

text \<open>The contract of the stream: entries in order, then \<open>None\<close> for good.\<close>

lemma next_kv_streams:
  "streams st es \<Longrightarrow> \<exists>st'. next_kv st = Inr (if es = [] then None else Some (hd es), st') \<and> streams st' (tl es)"
proof (induction st arbitrary: es rule: next_kv.induct)
  case (1 st)
  then obtain bs cur where st: "table_fits bs" "ss_mmap st = sst_image bs"
    "ss_index st = map index_record_of (index_of 0 bs)" "rest_of (current_block_iter st) cur"
    "es = cur @ concat (drop (current_index_idx st) bs)"
    by (auto simp: streams_def)
  obtain b' where b: "block_step st = (if cur = [] then None else Some (hd cur), st\<lparr>current_block_iter := b'\<rparr>)"
    "rest_of b' (tl cur)" using block_step_rest[OF st(4)] by blast
  let ?i = "current_index_idx st"
  show ?case
  proof (cases "cur = [] \<and> ?i < length bs")
    case True
    let ?st = "st\<lparr>current_block_iter := b'\<rparr>"
    let ?st' = "?st\<lparr>current_index_idx := Suc ?i, current_block_iter := Some (block_iter_new (enc_block (bs ! ?i)))\<rparr>"
    have l: "load_next_block ?st = Inr ?st'" using load_next_block_table[of bs ?st] st True by simp
    have "es = bs ! ?i @ concat (drop (Suc ?i) bs)" using st(5) True by (simp add: Cons_nth_drop_Suc[symmetric])
    then have "streams ?st' es"
      using st rest_of_block[OF st(1), of "bs ! ?i"] True
      unfolding streams_def by (intro exI[of _ bs] exI[of _ "bs ! ?i"]) simp
    moreover have "block_step st = (None, ?st)" using b(1) True by simp
    ultimately have "\<exists>st''. next_kv ?st' = Inr (if es = [] then None else Some (hd es), st'') \<and> streams st'' (tl es)"
      using "1.IH"[of _ None ?st ?st' es] l True st(3) by simp
    then show ?thesis using b(1) True l st(3) by (simp add: next_kv.simps[of st])
  next
    case False
    then have n: "next_kv st = Inr (if es = [] then None else Some (hd es), st\<lparr>current_block_iter := b'\<rparr>)"
      using b(1) st(3,5) by (cases cur) (simp_all add: next_kv.simps[of st])
    moreover have "streams (st\<lparr>current_block_iter := b'\<rparr>) (tl es)"
      using st b(2) False unfolding streams_def by (intro exI[of _ bs] exI[of _ "tl cur"]) (cases cur, auto)
    ultimately show ?thesis by blast
  qed
qed

section \<open>Sources of entries\<close>

text \<open>Pulling until it returns \<open>None\<close>, at most \<open>n\<close> times.\<close>

fun drain :: "('s \<Rightarrow> (entry option \<times> 's) result) \<Rightarrow> nat \<Rightarrow> 's \<Rightarrow> entry list result" where
  "drain pull 0 s = Inr []"
| "drain pull (Suc n) s =
     (case pull s of
        Inl e \<Rightarrow> Inl e
      | Inr (None, _) \<Rightarrow> Inr []
      | Inr (Some e, s') \<Rightarrow> (case drain pull n s' of Inl f \<Rightarrow> Inl f | Inr es \<Rightarrow> Inr (e # es)))"

text \<open>What the merge needs of its inputs: a state holds a list of entries and yields them in order.\<close>

locale entry_source =
  fixes pull :: "'s \<Rightarrow> (entry option \<times> 's) result" and holds :: "'s \<Rightarrow> entry list \<Rightarrow> bool"
  assumes yields: "holds s es \<Longrightarrow> \<exists>s'. pull s = Inr (if es = [] then None else Some (hd es), s') \<and> holds s' (tl es)"
begin

lemma drain_all: "holds s es \<Longrightarrow> length es < n \<Longrightarrow> drain pull n s = Inr es"
proof (induction es arbitrary: s n)
  case Nil
  then show ?case using yields[OF Nil(1)] by (cases n) auto
next
  case (Cons e es)
  obtain s' where "pull s = Inr (Some e, s')" "holds s' es" using yields[OF Cons.prems(1)] by auto
  with Cons.IH[of s'] Cons.prems(2) show ?case by (cases n) auto
qed

lemma holds_unique: "holds s es \<Longrightarrow> holds s es' \<Longrightarrow> es = es'"
  using drain_all[of s es "Suc (length es + length es')"] drain_all[of s es' "Suc (length es + length es')"] by simp

end

interpretation ks: entry_source next_kv streams
  by unfold_locales (rule next_kv_streams)

section \<open>Opening\<close>

lemma stream_parse_loop_eq:
  "stream_parse_loop idx pos =
     (case parse_index_loop idx pos of Inl _ \<Rightarrow> Inl Panic | Inr rs \<Rightarrow> Inr rs)"
proof (induction "length idx - pos" arbitrary: pos rule: less_induct)
  case less
  let ?n = "unat (from_le_bytes (subslice idx pos (pos + 4)) :: u32)"
  have "20 + (pos + ?n) \<le> length idx \<Longrightarrow> length idx - (20 + (pos + ?n)) < length idx - pos" by arith
  then show ?case
    using less[of "20 + (pos + ?n)"]
    by (auto simp: stream_parse_loop.simps[of idx pos] parse_index_loop.simps[of idx pos] Let_def slice_checked_def
        split: sum.splits)
qed

lemma parse_index_loop_error: "parse_index_loop idx pos = Inl e \<Longrightarrow> e = IoError InvalidData"
proof (induction "length idx - pos" arbitrary: pos rule: less_induct)
  case less
  let ?n = "unat (from_le_bytes (subslice idx pos (pos + 4)) :: u32)"
  have "20 + (pos + ?n) \<le> length idx \<Longrightarrow> length idx - (20 + (pos + ?n)) < length idx - pos" by arith
  then show ?case
    using less(1)[of "20 + (pos + ?n)"] less(2)
    by (auto simp: parse_index_loop.simps[of idx pos] Let_def split: sum.splits if_splits)
qed

lemma stream_parse_index_eq:
  "stream_parse_index bs off len =
     (case parse_index bs off len of Inl (IoError InvalidData) \<Rightarrow> Inl Panic | r \<Rightarrow> r)"
  using parse_index_loop_error
  by (fastforce simp: stream_parse_index_def parse_index_def stream_parse_loop_eq slice_checked_def split: sum.splits)

lemma stream_open_image:
  assumes "table_fits bs"
  shows "\<exists>st. stream_open (Inr (sst_image bs)) None = Inr st \<and> streams st (concat bs)"
proof -
  let ?st = "\<lparr>ss_mmap = sst_image bs, ss_index = map index_record_of (index_of 0 bs), current_index_idx = 0, current_block_iter = None\<rparr>"
  have "drop (length (sst_image bs) - FOOTER_SIZE) (sst_image bs) = footer_bytes (table_footer bs)"
    by (simp add: sst_image_def)
  moreover have "footer_decode (footer_bytes (table_footer bs)) = Inr (table_footer bs)"
    using footer_decode_bytes[of "table_footer bs" "[]"] by (simp add: table_footer_def footer_new_def)
  ultimately have o: "stream_open (Inr (sst_image bs)) None = load_next_block ?st"
    using parse_index_image[OF assms] by (simp add: stream_open_def length_sst_image stream_parse_index_eq)
  show ?thesis
  proof (cases bs)
    case Nil
    then show ?thesis
      using o assms by (simp add: load_next_block_def streams_def rest_of_def) (intro exI[of _ "[]"], simp)
  next
    case (Cons b bs')
    let ?st' = "?st\<lparr>current_index_idx := Suc 0, current_block_iter := Some (block_iter_new (enc_block b))\<rparr>"
    have "load_next_block ?st = Inr ?st'" using load_next_block_table[OF assms, of ?st] Cons by simp
    moreover have "streams ?st' (concat bs)"
      using assms rest_of_block[OF assms, of b] Cons unfolding streams_def by (intro exI[of _ bs] exI[of _ b]) simp
    ultimately show ?thesis using o by simp
  qed
qed

section \<open>Properties\<close>

text \<open>
  C28. Write a table, stream it back: whatever the order of the entries, the sequential reader
  opens the finished file and returns exactly the entries that were appended, in order.
\<close>

theorem sst_write_then_stream:
  assumes "sst_write os io es = Inr (n, f)" "entries_fit es"
  shows "\<exists>st. stream_open (Inr f) None = Inr st \<and> (\<forall>m. length es < m \<longrightarrow> drain next_kv m st = Inr es)"
proof -
  obtain bs where bs: "concat bs = es" "f = sst_image bs" "table_fits bs" using sst_write_fits[OF assms] by metis
  then show ?thesis using stream_open_image[OF bs(3)] ks.drain_all by auto
qed

theorem sst_write_then_stream_witness:
  "\<exists>n f st. sst_write None [] [([2], Some [7], 3), ([1], None, 5)] = Inr (n, f) \<and>
     stream_open (Inr f) None = Inr st \<and> drain next_kv 3 st = Inr [([2], Some [7], 3), ([1], None, 5)]"
proof -
  let ?es = "[([2], Some [7], 3), ([1], None, 5)] :: entry list"
  obtain n f where w: "sst_write None [] ?es = Inr (n, f)" using sst_write_ok[of "[]" ?es] by (auto simp: no_faults_def)
  have "entries_fit ?es" by (simp add: entries_fit_def entry_ok_def enc_block_def length_enc_entry)
  from sst_write_then_stream[OF w this] obtain st where
    "stream_open (Inr f) None = Inr st" "\<forall>m. length ?es < m \<longrightarrow> drain next_kv m st = Inr ?es" by blast
  moreover have "length ?es < 3" by simp
  ultimately show ?thesis using w by blast
qed

text \<open>
  The two index parsers agree on every input, except that a record cut short is the error
  \<open>InvalidData\<close> in the point reader and a panic in the sequential one.
\<close>

theorem index_parsers_agree:
  "stream_parse_index bs off len =
     (case parse_index bs off len of Inl (IoError InvalidData) \<Rightarrow> Inl Panic | r \<Rightarrow> r)"
  by (rule stream_parse_index_eq)

end
