(* ===== verification/Skiplist.thy ===== *)
theory Skiplist
  imports SSTable_Streaming
begin

text \<open>
  The memtable, \<^verbatim>\<open>src/tier3_storage/src/memtable/skiplist.rs\<close>, as one thread runs it: nodes are
  the positions of a list, pointers are positions or null, the head is node 0. Walking pointers
  is bounded by the number of nodes; a walk that is not over then is \<open>Diverges\<close>, and the lemmas
  show that it never happens. The state of the thread-local generator is passed along. The two
  answers of a weak compare-exchange that may fail spuriously are an argument of \<open>insert\<close>.
\<close>

section \<open>State\<close>

definition MAX_HEIGHT :: nat where
  "MAX_HEIGHT = 20"

definition BRANCH_FACTOR :: u32 where
  "BRANCH_FACTOR = 4"

record sl_node =
  nd_key :: bytes
  nd_val :: "bytes option"
  nd_seq :: u64
  nd_height :: nat
  nd_next :: "nat option list"

record skiplist =
  sl_nodes :: "sl_node list"
  sl_max_height :: nat
  sl_size :: u64

section \<open>Operations\<close>

definition fast_rand_u32 :: "u32 \<Rightarrow> u32" where
  "fast_rand_u32 x =
     (let x = x XOR push_bit 13 x; x = x XOR drop_bit 17 x; x = x XOR push_bit 5 x in x)"

function random_height_loop :: "nat \<Rightarrow> u32 \<Rightarrow> nat \<times> u32" where
  "random_height_loop height rng =
     (if height < MAX_HEIGHT
      then let rng = fast_rand_u32 rng in
        if rng mod BRANCH_FACTOR = 0 then random_height_loop (height + 1) rng else (height, rng)
      else (height, rng))"
  by pat_completeness auto
termination
  by (relation "measure (\<lambda>(height, rng). MAX_HEIGHT - height)") auto

declare random_height_loop.simps [simp del]

definition random_height :: "u32 \<Rightarrow> nat \<times> u32" where
  "random_height rng = random_height_loop 1 rng"

definition node_new :: "bytes \<Rightarrow> bytes option \<Rightarrow> u64 \<Rightarrow> nat \<Rightarrow> sl_node" where
  "node_new key val seq height =
     \<lparr>nd_key = key, nd_val = val, nd_seq = seq, nd_height = height, nd_next = replicate MAX_HEIGHT None\<rparr>"

definition skiplist_new :: skiplist where
  "skiplist_new = \<lparr>sl_nodes = [node_new [] None 0 MAX_HEIGHT], sl_max_height = 1, sl_size = 0\<rparr>"

definition load_next :: "sl_node list \<Rightarrow> nat \<Rightarrow> nat \<Rightarrow> nat option" where
  "load_next nodes p level = nd_next (nodes ! p) ! level"

definition store_next :: "sl_node list \<Rightarrow> nat \<Rightarrow> nat \<Rightarrow> nat option \<Rightarrow> sl_node list" where
  "store_next nodes p level q = nodes[p := (nodes ! p)\<lparr>nd_next := (nd_next (nodes ! p))[level := q]\<rparr>]"

text \<open>The inner loop of \<open>find_position\<close>: forward while the next key is smaller.\<close>

fun walk :: "nat \<Rightarrow> sl_node list \<Rightarrow> bytes \<Rightarrow> nat \<Rightarrow> nat \<Rightarrow> nat option \<Rightarrow> (nat \<times> nat option) result" where
  "walk fuel nodes key level cur None = Inr (cur, None)"
| "walk 0 nodes key level cur (Some nxt) = Inl Diverges"
| "walk (Suc fuel) nodes key level cur (Some nxt) =
     (if nd_key (nodes ! nxt) < key then walk fuel nodes key level nxt (load_next nodes nxt level)
      else Inr (cur, Some nxt))"

fun find_loop :: "sl_node list \<Rightarrow> bytes \<Rightarrow> nat \<Rightarrow> nat \<Rightarrow> nat option list \<Rightarrow> nat option list \<Rightarrow> (nat option list \<times> nat option list) result" where
  "find_loop nodes key 0 cur preds succs = Inr (preds, succs)"
| "find_loop nodes key (Suc level) cur preds succs =
     (case walk (length nodes) nodes key level cur (load_next nodes cur level) of
        Inl e \<Rightarrow> Inl e
      | Inr (cur, nxt) \<Rightarrow> find_loop nodes key level cur (preds[level := Some cur]) (succs[level := nxt]))"

definition find_position :: "sl_node list \<Rightarrow> bytes \<Rightarrow> (nat option list \<times> nat option list) result" where
  "find_position nodes key =
     find_loop nodes key MAX_HEIGHT 0 (replicate MAX_HEIGHT None) (replicate MAX_HEIGHT None)"

text \<open>One level of \<open>insert\<close>: search, point the node at its successor, compare-exchange, or retry.\<close>

fun link_level :: "nat \<Rightarrow> sl_node list \<Rightarrow> nat \<Rightarrow> nat \<Rightarrow> sl_node list result" where
  "link_level 0 nodes node level = Inl Diverges"
| "link_level (Suc tries) nodes node level =
     (case find_position nodes (nd_key (nodes ! node)) of
        Inl e \<Rightarrow> Inl e
      | Inr (preds, succs) \<Rightarrow> let
          nodes = store_next nodes node level (succs ! level);
          pred = (case preds ! level of None \<Rightarrow> 0 | Some p \<Rightarrow> p)
        in if load_next nodes pred level = succs ! level
           then Inr (store_next nodes pred level (Some node))
           else link_level tries nodes node level)"

declare link_level.simps [simp del]

fun link_levels :: "sl_node list \<Rightarrow> nat \<Rightarrow> nat list \<Rightarrow> sl_node list result" where
  "link_levels nodes node [] = Inr nodes"
| "link_levels nodes node (level # levels) =
     (case link_level 1 nodes node level of Inl e \<Rightarrow> Inl e | Inr nodes \<Rightarrow> link_levels nodes node levels)"

definition sl_insert :: "bool \<Rightarrow> bytes \<Rightarrow> bytes option \<Rightarrow> u64 \<Rightarrow> u32 \<Rightarrow> skiplist \<Rightarrow> (skiplist \<times> u32) result" where
  "sl_insert weak_ok key val seq rng sl =
     (let
        k_len = length key;
        v_len = (case val of None \<Rightarrow> 0 | Some v \<Rightarrow> length v);
        (height, rng) = random_height rng;
        curr_max = sl_max_height sl;
        max_height = (if height > curr_max \<and> weak_ok then height else curr_max);
        node = length (sl_nodes sl);
        nodes = sl_nodes sl @ [node_new key val seq height]
      in case link_level 1 nodes node 0 of
          Inl e \<Rightarrow> Inl e
        | Inr nodes \<Rightarrow>
          (case link_levels nodes node [1..<height] of
             Inl e \<Rightarrow> Inl e
           | Inr nodes \<Rightarrow> Inr (\<lparr>sl_nodes = nodes, sl_max_height = max_height,
                               sl_size = sl_size sl + of_nat (k_len + v_len + 24)\<rparr>, rng)))"

fun get_loop :: "nat \<Rightarrow> sl_node list \<Rightarrow> bytes \<Rightarrow> nat \<Rightarrow> nat \<Rightarrow> (bytes option \<times> u64) option result" where
  "get_loop 0 nodes key cur level = Inl Diverges"
| "get_loop (Suc fuel) nodes key cur level =
     (let descend = (if level > 1 then get_loop fuel nodes key cur (level - 1) else Inr None) in
      case load_next nodes cur (level - 1) of
        None \<Rightarrow> descend
      | Some nxt \<Rightarrow>
          if nd_key (nodes ! nxt) < key then get_loop fuel nodes key nxt level
          else if nd_key (nodes ! nxt) = key then Inr (Some (nd_val (nodes ! nxt), nd_seq (nodes ! nxt)))
          else descend)"

definition sl_get :: "skiplist \<Rightarrow> bytes \<Rightarrow> (bytes option \<times> u64) option result" where
  "sl_get sl key = get_loop (length (sl_nodes sl) * MAX_HEIGHT) (sl_nodes sl) key 0 (sl_max_height sl)"

definition approximate_size :: "skiplist \<Rightarrow> u64" where
  "approximate_size sl = sl_size sl"

record sl_iter =
  it_nodes :: "sl_node list"
  it_cur :: "nat option"

definition sl_iter_new :: "skiplist \<Rightarrow> sl_iter" where
  "sl_iter_new sl = \<lparr>it_nodes = sl_nodes sl, it_cur = load_next (sl_nodes sl) 0 0\<rparr>"

definition sl_iter_next :: "sl_iter \<Rightarrow> (entry option \<times> sl_iter) result" where
  "sl_iter_next it =
     (case it_cur it of
        None \<Rightarrow> Inr (None, it)
      | Some p \<Rightarrow> let node = it_nodes it ! p in
          Inr (Some (nd_key node, nd_val node, nd_seq node), it\<lparr>it_cur := load_next (it_nodes it) p 0\<rparr>))"

text \<open>
  \<open>Drop\<close>: follow the bottom level and free each node after its successor was read. Reading or
  freeing a node that is already free is undefined; the result lists the nodes freed.
\<close>

fun drop_loop :: "nat \<Rightarrow> sl_node list \<Rightarrow> nat list \<Rightarrow> nat option \<Rightarrow> nat list result" where
  "drop_loop fuel nodes freed None = Inr freed"
| "drop_loop 0 nodes freed (Some p) = Inl Diverges"
| "drop_loop (Suc fuel) nodes freed (Some p) =
     (if p \<in> set freed then Inl Undefined
      else drop_loop fuel nodes (freed @ [p]) (load_next nodes p 0))"

definition sl_drop :: "skiplist \<Rightarrow> nat list result" where
  "sl_drop sl = drop_loop (length (sl_nodes sl)) (sl_nodes sl) [] (Some 0)"

section \<open>Level lists\<close>

text \<open>
  The nodes reached from \<open>p\<close> along a level, and the shape of the whole structure: \<open>lv l\<close> lists the
  nodes of level \<open>l\<close> by key, and every level is contained in the one below.
\<close>

fun linked :: "sl_node list \<Rightarrow> nat \<Rightarrow> nat \<Rightarrow> nat list \<Rightarrow> bool" where
  "linked nodes level p [] \<longleftrightarrow> load_next nodes p level = None"
| "linked nodes level p (q # qs) \<longleftrightarrow> load_next nodes p level = Some q \<and> linked nodes level q qs"

definition key_of :: "sl_node list \<Rightarrow> nat \<Rightarrow> bytes" where
  "key_of nodes p = nd_key (nodes ! p)"

definition level_ok :: "sl_node list \<Rightarrow> nat \<Rightarrow> nat list \<Rightarrow> bool" where
  "level_ok nodes level ps \<longleftrightarrow> linked nodes level 0 ps \<and> sorted (map (key_of nodes) ps) \<and> distinct ps \<and>
     0 \<notin> set ps \<and> (\<forall>p\<in>set ps. p < length nodes)"

definition nodes_ok :: "sl_node list \<Rightarrow> (nat \<Rightarrow> nat list) \<Rightarrow> bool" where
  "nodes_ok nodes lv \<longleftrightarrow> nodes \<noteq> [] \<and> (\<forall>nd\<in>set nodes. length (nd_next nd) = MAX_HEIGHT) \<and>
     (\<forall>l<MAX_HEIGHT. level_ok nodes l (lv l)) \<and> (\<forall>l. Suc l < MAX_HEIGHT \<longrightarrow> set (lv (Suc l)) \<subseteq> set (lv l))"

definition below :: "sl_node list \<Rightarrow> bytes \<Rightarrow> nat list \<Rightarrow> nat list" where
  "below nodes key ps = takeWhile (\<lambda>p. key_of nodes p < key) ps"

definition above :: "sl_node list \<Rightarrow> bytes \<Rightarrow> nat list \<Rightarrow> nat list" where
  "above nodes key ps = dropWhile (\<lambda>p. key_of nodes p < key) ps"

definition head_opt :: "'a list \<Rightarrow> 'a option" where
  "head_opt xs = (case xs of [] \<Rightarrow> None | x # _ \<Rightarrow> Some x)"

lemma below_above: "below nodes key ps @ above nodes key ps = ps"
  by (simp add: below_def above_def)

lemma linked_load: "linked nodes level p ps \<Longrightarrow> load_next nodes p level = head_opt ps"
  by (cases ps) (auto simp: head_opt_def)

lemma linked_suffix: "linked nodes level p (as @ c # bs) \<Longrightarrow> linked nodes level c bs"
  by (induction as arbitrary: p) auto

lemma head_opt_simps [simp]: "head_opt [] = None" "head_opt (x # xs) = Some x"
  by (simp_all add: head_opt_def)

lemma below_simps [simp]:
  "below nodes key [] = []"
  "below nodes key (p # ps) = (if key_of nodes p < key then p # below nodes key ps else [])"
  "above nodes key [] = []"
  "above nodes key (p # ps) = (if key_of nodes p < key then above nodes key ps else p # ps)"
  by (simp_all add: below_def above_def)

lemma walk_linked:
  "linked nodes level cur ps \<Longrightarrow> length ps \<le> fuel \<Longrightarrow>
   walk fuel nodes key level cur (head_opt ps) =
     Inr (last (cur # below nodes key ps), head_opt (above nodes key ps))"
proof (induction ps arbitrary: cur fuel)
  case (Cons q ps)
  then obtain f where f: "fuel = Suc f" "length ps \<le> f" by (cases fuel) auto
  have "linked nodes level q ps" using Cons.prems(1) by simp
  then have "walk f nodes key level q (load_next nodes q level) = Inr (last (q # below nodes key ps), head_opt (above nodes key ps))"
    using Cons.IH f(2) linked_load by simp
  then show ?case by (simp add: f(1) key_of_def)
qed simp

lemma below_mem:
  assumes "p \<in> set (below nodes key ps)"
  shows "p \<in> set ps" "key_of nodes p < key"
  using assms by (auto simp: below_def dest: set_takeWhileD)

lemma below_split:
  assumes "sorted (map (key_of nodes) (as @ c # bs))" "key_of nodes c < key"
  shows "below nodes key (as @ c # bs) = as @ c # below nodes key bs" "above nodes key (as @ c # bs) = above nodes key bs"
proof -
  have a: "\<And>x. x \<in> set as \<Longrightarrow> key_of nodes x < key" using assms by (auto simp: sorted_append intro: le_less_trans)
  then show "below nodes key (as @ c # bs) = as @ c # below nodes key bs" using assms(2) by (simp add: below_def)
  show "above nodes key (as @ c # bs) = above nodes key bs" using a assms(2) by (simp add: above_def dropWhile_append2)
qed

lemma level_ok_length: "level_ok nodes level ps \<Longrightarrow> length ps \<le> length nodes"
proof -
  assume "level_ok nodes level ps"
  then have "distinct ps" "set ps \<subseteq> {..<length nodes}" by (auto simp: level_ok_def)
  then show ?thesis using card_mono[of "{..<length nodes}" "set ps"] distinct_card[of ps] by simp
qed

text \<open>A walk along a level from any node before the key ends at the same place.\<close>

lemma walk_level:
  assumes "level_ok nodes level ps" "cur = 0 \<or> cur \<in> set ps \<and> key_of nodes cur < key"
  shows "walk (length nodes) nodes key level cur (load_next nodes cur level) =
    Inr (last (0 # below nodes key ps), head_opt (above nodes key ps))"
proof -
  have l: "linked nodes level 0 ps" "sorted (map (key_of nodes) ps)" using assms(1) by (auto simp: level_ok_def)
  note len = level_ok_length[OF assms(1)]
  show ?thesis
  proof (cases "cur = 0")
    case True
    then show ?thesis using walk_linked[OF l(1) len] linked_load[OF l(1)] by simp
  next
    case False
    then obtain as bs where s: "ps = as @ cur # bs" and k: "key_of nodes cur < key"
      using assms(2) by (auto dest: split_list)
    have lb: "linked nodes level cur bs" using l(1) linked_suffix unfolding s by blast
    have "length bs \<le> length nodes" using len s by simp
    from walk_linked[OF lb this] linked_load[OF lb] below_split[OF l(2)[unfolded s] k] show ?thesis by (simp add: s)
  qed
qed

definition pred_at :: "sl_node list \<Rightarrow> bytes \<Rightarrow> nat list \<Rightarrow> nat" where
  "pred_at nodes key ps = last (0 # below nodes key ps)"

lemma pred_at_cases: "pred_at nodes key ps = 0 \<or> pred_at nodes key ps \<in> set ps \<and> key_of nodes (pred_at nodes key ps) < key"
  using below_mem[of "last (below nodes key ps)" nodes key ps] by (cases "below nodes key ps = []") (auto simp: pred_at_def)

lemma find_loop_spec:
  assumes "nodes_ok nodes lv" "level \<le> MAX_HEIGHT" "length preds = MAX_HEIGHT" "length succs = MAX_HEIGHT"
    and "level > 0 \<Longrightarrow> cur = 0 \<or> cur \<in> set (lv (level - 1)) \<and> key_of nodes cur < key"
  shows "\<exists>preds' succs'. find_loop nodes key level cur preds succs = Inr (preds', succs') \<and>
    (\<forall>l<level. preds' ! l = Some (pred_at nodes key (lv l)) \<and> succs' ! l = head_opt (above nodes key (lv l))) \<and>
    (\<forall>l\<ge>level. preds' ! l = preds ! l \<and> succs' ! l = succs ! l)"
  using assms(2-)
proof (induction level arbitrary: cur preds succs)
  case (Suc level)
  have ok: "level_ok nodes level (lv level)" using assms(1) Suc.prems(1) by (simp add: nodes_ok_def)
  let ?p = "pred_at nodes key (lv level)" and ?s = "head_opt (above nodes key (lv level))"
  have w: "walk (length nodes) nodes key level cur (load_next nodes cur level) = Inr (?p, ?s)"
    using walk_level[OF ok] Suc.prems(4) by (simp add: pred_at_def)
  have "?p = 0 \<or> ?p \<in> set (lv (level - 1)) \<and> key_of nodes ?p < key" if "level > 0"
  proof -
    have "set (lv level) \<subseteq> set (lv (level - 1))" using assms(1) Suc.prems(1) that by (cases level) (auto simp: nodes_ok_def)
    then show ?thesis using pred_at_cases[of nodes key "lv level"] by auto
  qed
  then obtain preds' succs' where r: "find_loop nodes key level ?p (preds[level := Some ?p]) (succs[level := ?s]) = Inr (preds', succs')"
    "\<forall>l<level. preds' ! l = Some (pred_at nodes key (lv l)) \<and> succs' ! l = head_opt (above nodes key (lv l))"
    "\<forall>l\<ge>level. preds' ! l = preds[level := Some ?p] ! l \<and> succs' ! l = succs[level := ?s] ! l"
    using Suc.IH[of "preds[level := Some ?p]" "succs[level := ?s]" ?p] Suc.prems by auto
  have "preds' ! level = Some ?p" "succs' ! level = ?s" using r(3) Suc.prems by auto
  then show ?case using w r Suc.prems by (auto simp: less_Suc_eq)
qed simp

lemma find_position_spec:
  assumes "nodes_ok nodes lv"
  obtains preds succs where "find_position nodes key = Inr (preds, succs)"
    "\<And>l. l < MAX_HEIGHT \<Longrightarrow> preds ! l = Some (pred_at nodes key (lv l)) \<and> succs ! l = head_opt (above nodes key (lv l))"
  using find_loop_spec[OF assms, of MAX_HEIGHT "replicate MAX_HEIGHT None" "replicate MAX_HEIGHT None" 0 key]
  by (auto simp: find_position_def)

section \<open>Linking a node\<close>

lemma length_store_next [simp]: "length (store_next nodes p l q) = length nodes"
  by (simp add: store_next_def)

lemma load_store_next:
  assumes "p < length nodes" "l < length (nd_next (nodes ! p))"
  shows "load_next (store_next nodes p l q) p' l' = (if p' = p \<and> l' = l then q else load_next nodes p' l')"
  using assms by (auto simp: load_next_def store_next_def nth_list_update)

lemma store_next_nth:
  "store_next nodes p l q ! p' =
     (if p' = p \<and> p < length nodes then (nodes ! p)\<lparr>nd_next := (nd_next (nodes ! p))[l := q]\<rparr> else nodes ! p')"
  by (cases "p < length nodes"; cases "p' = p") (simp_all add: store_next_def list_update_beyond)

lemma store_next_fields [simp]:
  "key_of (store_next nodes p l q) = key_of nodes"
  "nd_val (store_next nodes p l q ! p') = nd_val (nodes ! p')"
  "nd_seq (store_next nodes p l q ! p') = nd_seq (nodes ! p')"
  "length (nd_next (store_next nodes p l q ! p')) = length (nd_next (nodes ! p'))"
  by (simp_all add: store_next_nth key_of_def fun_eq_iff)

lemma linked_cong:
  "(\<And>q. q = c \<or> q \<in> set ps \<Longrightarrow> load_next nodes' q l = load_next nodes q l) \<Longrightarrow> linked nodes' l c ps = linked nodes l c ps"
  by (induction ps arbitrary: c) auto

lemma linked_mid:
  "linked nodes l c (as @ bs) \<Longrightarrow> load_next nodes (last (c # as)) l = head_opt bs"
  by (induction as arbitrary: c) (auto simp: linked_load)

lemma linked_insert:
  assumes "linked nodes l c (as @ bs)" "distinct (c # as @ bs)" "p \<notin> set (c # as @ bs)"
    and "load_next nodes' (last (c # as)) l = Some p" "load_next nodes' p l = head_opt bs"
    and "\<And>q. q \<in> set (c # as @ bs) \<Longrightarrow> q \<noteq> last (c # as) \<Longrightarrow> load_next nodes' q l = load_next nodes q l"
  shows "linked nodes' l c (as @ p # bs)"
  using assms
proof (induction as arbitrary: c)
  case Nil
  show ?case
  proof (cases bs)
    case (Cons b bs')
    have "linked nodes' l b bs' = linked nodes l b bs'" using Nil Cons by (intro linked_cong) auto
    then show ?thesis using Nil Cons by simp
  qed (use Nil in simp)
next
  case (Cons a as)
  have "c \<noteq> last (a # as)" using Cons.prems(2) last_in_set[of "a # as"] by auto
  then have "load_next nodes' c l = Some a" using Cons.prems(1,6) by simp
  moreover have "linked nodes' l a (as @ p # bs)" using Cons.prems by (intro Cons.IH) auto
  ultimately show ?case by simp
qed

lemma store_next_lengths:
  "\<forall>nd\<in>set nodes. length (nd_next nd) = MAX_HEIGHT \<Longrightarrow> \<forall>nd\<in>set (store_next nodes p l q). length (nd_next nd) = MAX_HEIGHT"
  by (metis in_set_conv_nth length_store_next store_next_fields(4))

definition ins_at :: "sl_node list \<Rightarrow> nat \<Rightarrow> nat list \<Rightarrow> nat list" where
  "ins_at nodes p ps = below nodes (key_of nodes p) ps @ p # above nodes (key_of nodes p) ps"

lemma set_ins_at [simp]: "set (ins_at nodes p ps) = insert p (set ps)"
  using below_above[of nodes "key_of nodes p" ps] by (metis Un_insert_right ins_at_def list.simps(15) set_append)

lemma sorted_insert_mid:
  fixes f :: "'a \<Rightarrow> 'b::linorder"
  assumes "sorted (map f (as @ bs))" "\<forall>x\<in>set as. f x \<le> f e" "bs \<noteq> [] \<Longrightarrow> f e \<le> f (hd bs)"
  shows "sorted (map f (as @ e # bs))"
  using assms by (cases bs) (auto simp: sorted_append)

lemma sorted_ins_at: "sorted (map (key_of nodes) ps) \<Longrightarrow> sorted (map (key_of nodes) (ins_at nodes p ps))"
  unfolding ins_at_def
proof (rule sorted_insert_mid)
  show "\<forall>x\<in>set (below nodes (key_of nodes p) ps). key_of nodes x \<le> key_of nodes p" using below_mem by (metis less_imp_le)
  show "above nodes (key_of nodes p) ps \<noteq> [] \<Longrightarrow> key_of nodes p \<le> key_of nodes (hd (above nodes (key_of nodes p) ps))"
    unfolding above_def using hd_dropWhile[of "\<lambda>x. key_of nodes x < key_of nodes p"] by (simp add: not_less)
qed (simp add: below_above)

lemma level_ok_insert:
  assumes "level_ok nodes l ps" "p < length nodes" "p \<noteq> 0" "p \<notin> set ps" "l < MAX_HEIGHT"
    and "\<forall>nd\<in>set nodes. length (nd_next nd) = MAX_HEIGHT" "nodes \<noteq> []"
  defines "nodes1 \<equiv> store_next nodes p l (head_opt (above nodes (key_of nodes p) ps))"
    and "pred \<equiv> pred_at nodes (key_of nodes p) ps"
  shows "load_next nodes1 pred l = head_opt (above nodes (key_of nodes p) ps)"
    "level_ok (store_next nodes1 pred l (Some p)) l (ins_at nodes p ps)"
    "l' \<noteq> l \<Longrightarrow> load_next (store_next nodes1 pred l (Some p)) q l' = load_next nodes q l'"
proof -
  let ?a = "below nodes (key_of nodes p) ps" and ?b = "above nodes (key_of nodes p) ps"
  let ?nodes2 = "store_next nodes1 pred l (Some p)"
  have ps: "ps = ?a @ ?b" by (simp add: below_above)
  have lk: "linked nodes l 0 (?a @ ?b)" and d: "distinct (0 # ?a @ ?b)" using assms(1) below_above by (auto simp: level_ok_def)
  have pred: "pred = last (0 # ?a)" by (simp add: pred_def pred_at_def)
  have pl: "pred < length nodes" "pred \<noteq> p"
    using pred_at_cases[of nodes "key_of nodes p" ps] assms(1,3,4,7) by (auto simp: pred_def level_ok_def)
  have len: "l < length (nd_next (nodes ! q))" if "q < length nodes" for q using assms(5,6) that by simp
  have ld1: "load_next nodes1 q l' = (if q = p \<and> l' = l then head_opt ?b else load_next nodes q l')" for q l'
    unfolding nodes1_def using assms(2) len by (intro load_store_next) auto
  have ld2: "load_next ?nodes2 q l' = (if q = pred \<and> l' = l then Some p else load_next nodes1 q l')" for q l'
    using pl(1) len[OF pl(1)] by (intro load_store_next) (simp_all add: nodes1_def)
  show "load_next nodes1 pred l = head_opt ?b" using pl(2) linked_mid[OF lk] by (simp add: ld1 pred)
  show "l' \<noteq> l \<Longrightarrow> load_next ?nodes2 q l' = load_next nodes q l'" by (simp add: ld1 ld2)
  have "linked ?nodes2 l 0 (?a @ p # ?b)"
    using lk d
  proof (rule linked_insert)
    show "p \<notin> set (0 # ?a @ ?b)" using assms(3,4) ps by auto
    show "load_next ?nodes2 (last (0 # ?a)) l = Some p" unfolding pred[symmetric] by (simp add: ld2)
    show "load_next ?nodes2 p l = head_opt ?b" using pl(2) by (simp add: ld1 ld2)
    fix q assume q: "q \<in> set (0 # ?a @ ?b)" "q \<noteq> last (0 # ?a)"
    then have "q \<noteq> p" using assms(3,4) ps by auto
    then show "load_next ?nodes2 q l = load_next nodes q l" using q(2) unfolding pred[symmetric] by (simp add: ld1 ld2)
  qed
  then have "linked ?nodes2 l 0 (ins_at nodes p ps)" by (simp add: ins_at_def)
  moreover have "p \<notin> set (?a @ ?b)" using assms(4) ps by metis
  then have "distinct (ins_at nodes p ps)" using d by (auto simp: ins_at_def)
  moreover have "sorted (map (key_of nodes) (ins_at nodes p ps))" using assms(1) sorted_ins_at by (simp add: level_ok_def)
  ultimately show "level_ok ?nodes2 l (ins_at nodes p ps)"
    using assms(1-3) by (auto simp: level_ok_def nodes1_def)
qed

text \<open>Without another thread the first compare-exchange succeeds, and the level gets the node.\<close>

definition same_data :: "sl_node list \<Rightarrow> sl_node list \<Rightarrow> bool" where
  "same_data nodes nodes' \<longleftrightarrow> length nodes' = length nodes \<and>
     (\<forall>p. nd_key (nodes' ! p) = nd_key (nodes ! p) \<and> nd_val (nodes' ! p) = nd_val (nodes ! p) \<and> nd_seq (nodes' ! p) = nd_seq (nodes ! p))"

lemma same_data_trans: "same_data a b \<Longrightarrow> same_data b c \<Longrightarrow> same_data a c"
  by (simp add: same_data_def)

lemma same_data_key_of: "same_data nodes nodes' \<Longrightarrow> key_of nodes' = key_of nodes"
  by (simp add: same_data_def key_of_def fun_eq_iff)

lemma ins_at_cong: "key_of nodes' = key_of nodes \<Longrightarrow> ins_at nodes' p ps = ins_at nodes p ps"
  by (simp add: ins_at_def below_def above_def)

lemma same_data_store: "same_data nodes (store_next nodes p l q)"
  by (simp add: same_data_def store_next_nth)

lemma link_level_ok:
  assumes ok: "nodes_ok nodes lv" and p: "p < length nodes" "p \<noteq> 0" "p \<notin> set (lv l)" "l < MAX_HEIGHT"
    and low: "l > 0 \<Longrightarrow> p \<in> set (lv (l - 1))"
  shows "\<exists>nodes'. link_level 1 nodes p l = Inr nodes' \<and> nodes_ok nodes' (lv(l := ins_at nodes p (lv l))) \<and> same_data nodes nodes'"
proof -
  let ?k = "key_of nodes p"
  let ?pred = "pred_at nodes ?k (lv l)" and ?succ = "head_opt (above nodes ?k (lv l))"
  let ?nodes1 = "store_next nodes p l ?succ"
  let ?nodes2 = "store_next ?nodes1 ?pred l (Some p)"
  obtain preds succs where f: "find_position nodes ?k = Inr (preds, succs)" "preds ! l = Some ?pred" "succs ! l = ?succ"
    using find_position_spec[OF ok, of ?k] p(4) by metis
  have lv: "level_ok nodes l (lv l)" and lens: "\<forall>nd\<in>set nodes. length (nd_next nd) = MAX_HEIGHT" "nodes \<noteq> []"
    using ok p(4) by (auto simp: nodes_ok_def)
  note ins = level_ok_insert[OF lv p lens]
  have "link_level 1 nodes p l = Inr ?nodes2" using f ins(1) by (simp add: link_level.simps Let_def key_of_def)
  moreover have data: "same_data nodes ?nodes2" using same_data_store same_data_trans by blast
  moreover have "nodes_ok ?nodes2 (lv(l := ins_at nodes p (lv l)))"
    unfolding nodes_ok_def
  proof (intro conjI allI impI)
    show "?nodes2 \<noteq> []" using lens(2) length_store_next by (metis length_0_conv)
    show "\<forall>nd\<in>set ?nodes2. length (nd_next nd) = MAX_HEIGHT" using lens(1) store_next_lengths by blast
    show "level_ok ?nodes2 l' ((lv(l := ins_at nodes p (lv l))) l')" if "l' < MAX_HEIGHT" for l'
    proof (cases "l' = l")
      case False
      then have "linked ?nodes2 l' 0 (lv l') = linked nodes l' 0 (lv l')" using ins(3)[of l'] by (intro linked_cong) simp
      then show ?thesis using ok that False by (auto simp: nodes_ok_def level_ok_def)
    qed (use ins(2) in simp)
    show "set ((lv(l := ins_at nodes p (lv l))) (Suc l')) \<subseteq> set ((lv(l := ins_at nodes p (lv l))) l')" if "Suc l' < MAX_HEIGHT" for l'
    proof -
      have "set (lv (Suc l')) \<subseteq> set (lv l')" using ok that by (simp add: nodes_ok_def)
      then show ?thesis using low by auto
    qed
  qed
  ultimately show ?thesis by blast
qed

text \<open>All levels up to \<open>h\<close>.\<close>

definition ins_levels :: "sl_node list \<Rightarrow> nat \<Rightarrow> nat \<Rightarrow> (nat \<Rightarrow> nat list) \<Rightarrow> nat \<Rightarrow> nat list" where
  "ins_levels nodes p h lv l = (if l < h then ins_at nodes p (lv l) else lv l)"

lemma link_levels_ok:
  assumes "nodes_ok nodes (ins_levels nodes0 p a lv)" "p < length nodes" "p \<noteq> 0" "\<forall>l<MAX_HEIGHT. p \<notin> set (lv l)" "0 < a" "a \<le> h" "h \<le> MAX_HEIGHT"
    and "same_data nodes0 nodes"
  shows "\<exists>nodes'. link_levels nodes p [a..<h] = Inr nodes' \<and> nodes_ok nodes' (ins_levels nodes0 p h lv) \<and> same_data nodes0 nodes'"
  using assms
proof (induction "h - a" arbitrary: a nodes)
  case 0
  then show ?case by simp
next
  case (Suc n)
  let ?lv = "ins_levels nodes0 p a lv"
  have a: "a < MAX_HEIGHT" using Suc.hyps(2) Suc.prems(6,7) by linarith
  have "p \<notin> set (?lv a)" "p \<in> set (?lv (a - 1))" using a Suc.prems(4,5) by (auto simp: ins_levels_def)
  then obtain nodes' where n: "link_level 1 nodes p a = Inr nodes'" "nodes_ok nodes' (?lv(a := ins_at nodes p (?lv a)))" "same_data nodes nodes'"
    using link_level_ok[OF Suc.prems(1-3) _ a] by blast
  have "?lv(a := ins_at nodes p (?lv a)) = ins_levels nodes0 p (Suc a) lv"
    using ins_at_cong[OF same_data_key_of[OF Suc.prems(8)]] by (auto simp: ins_levels_def fun_eq_iff)
  moreover have "same_data nodes0 nodes'" using Suc.prems(8) n(3) by (rule same_data_trans)
  moreover have "length nodes' = length nodes" using n(3) by (simp add: same_data_def)
  moreover have "n = h - Suc a" "Suc a \<le> h" using Suc.hyps(2) by linarith+
  ultimately obtain nodes2 where "link_levels nodes' p [Suc a..<h] = Inr nodes2" "nodes_ok nodes2 (ins_levels nodes0 p h lv)"
    "same_data nodes0 nodes2"
    using Suc.hyps(1)[of "Suc a" nodes'] Suc.prems n(2) by auto
  moreover have "[a..<h] = a # [Suc a..<h]" using Suc.hyps(2) by (simp add: upt_conv_Cons)
  ultimately show ?case using n(1) by simp
qed

section \<open>The whole structure\<close>

definition sl_inv :: "skiplist \<Rightarrow> (nat \<Rightarrow> nat list) \<Rightarrow> bool" where
  "sl_inv sl lv \<longleftrightarrow> nodes_ok (sl_nodes sl) lv \<and> 1 \<le> sl_max_height sl \<and> sl_max_height sl \<le> MAX_HEIGHT"

definition entry_at :: "sl_node list \<Rightarrow> nat \<Rightarrow> entry" where
  "entry_at nodes p = (nd_key (nodes ! p), nd_val (nodes ! p), nd_seq (nodes ! p))"

text \<open>The contents of the memtable, in the order of the bottom level.\<close>

definition sl_entries :: "skiplist \<Rightarrow> (nat \<Rightarrow> nat list) \<Rightarrow> entry list" where
  "sl_entries sl lv = map (entry_at (sl_nodes sl)) (lv 0)"

lemma fst_entry_at [simp]: "fst (entry_at nodes p) = key_of nodes p"
  by (simp add: entry_at_def key_of_def)

lemma random_height_bounds: "random_height rng = (h, rng') \<Longrightarrow> 1 \<le> h \<and> h \<le> MAX_HEIGHT"
proof -
  have "random_height_loop a rng = (h, rng') \<Longrightarrow> a \<le> MAX_HEIGHT \<Longrightarrow> a \<le> h \<and> h \<le> MAX_HEIGHT" for a
  proof (induction a rng rule: random_height_loop.induct)
    case (1 a rng)
    then show ?case
      by (subst (asm) random_height_loop.simps) (fastforce simp: Let_def split: if_splits)
  qed
  from this[of 1] show "random_height rng = (h, rng') \<Longrightarrow> 1 \<le> h \<and> h \<le> MAX_HEIGHT"
    by (simp add: random_height_def MAX_HEIGHT_def)
qed

lemma skiplist_new_inv: "sl_inv skiplist_new (\<lambda>_. [])" "sl_entries skiplist_new (\<lambda>_. []) = []"
  by (simp_all add: sl_inv_def nodes_ok_def level_ok_def skiplist_new_def node_new_def load_next_def MAX_HEIGHT_def sl_entries_def)

text \<open>A node that is not linked yet changes nothing.\<close>

lemma nodes_ok_append:
  assumes "nodes_ok nodes lv"
  shows "nodes_ok (nodes @ [node_new key val seq h]) lv" "\<forall>l<MAX_HEIGHT. length nodes \<notin> set (lv l)"
    "key_of (nodes @ [node_new key val seq h]) (length nodes) = key"
    "p < length nodes \<Longrightarrow> entry_at (nodes @ [node_new key val seq h]) p = entry_at nodes p"
proof -
  let ?n = "nodes @ [node_new key val seq h]"
  have r: "p < length nodes" if "l < MAX_HEIGHT" "p \<in> set (lv l)" for p l
    using assms that by (auto simp: nodes_ok_def level_ok_def)
  then show "\<forall>l<MAX_HEIGHT. length nodes \<notin> set (lv l)" by blast
  have ne: "0 < length nodes" using assms by (simp add: nodes_ok_def)
  have "level_ok ?n l (lv l)" if l: "l < MAX_HEIGHT" for l
  proof -
    have lv: "level_ok nodes l (lv l)" using assms l by (simp add: nodes_ok_def)
    have "linked ?n l 0 (lv l) = linked nodes l 0 (lv l)"
      using r[OF l] ne by (intro linked_cong) (auto simp: load_next_def nth_append)
    moreover have "map (key_of ?n) (lv l) = map (key_of nodes) (lv l)" using r[OF l] by (auto simp: key_of_def nth_append)
    then have "sorted (map (key_of ?n) (lv l))" using lv by (simp only: level_ok_def)
    ultimately show ?thesis using lv by (auto simp: level_ok_def)
  qed
  then show "nodes_ok ?n lv" using assms by (auto simp: nodes_ok_def node_new_def)
  show "key_of ?n (length nodes) = key" by (simp add: key_of_def node_new_def)
  show "p < length nodes \<Longrightarrow> entry_at ?n p = entry_at nodes p" by (simp add: entry_at_def nth_append)
qed

lemma sl_insert_ok:
  assumes "sl_inv sl lv" "random_height rng = (h, rng')"
  obtains sl' lv' where "sl_insert weak_ok key val seq rng sl = Inr (sl', rng')" "sl_inv sl' lv'"
    "\<And>l. l < MAX_HEIGHT \<Longrightarrow> map (entry_at (sl_nodes sl')) (lv' l) =
       (let es = map (entry_at (sl_nodes sl)) (lv l) in
        if l < h then takeWhile (\<lambda>e. fst e < key) es @ (key, val, seq) # dropWhile (\<lambda>e. fst e < key) es else es)"
    "sl_max_height sl' = (if h > sl_max_height sl \<and> weak_ok then h else sl_max_height sl)"
    "sl_size sl' = sl_size sl + of_nat (length key + (case val of None \<Rightarrow> 0 | Some v \<Rightarrow> length v) + 24)"
proof -
  let ?n = "sl_nodes sl" and ?p = "length (sl_nodes sl)"
  let ?n1 = "?n @ [node_new key val seq h]"
  have ok: "nodes_ok ?n lv" using assms(1) by (simp add: sl_inv_def)
  note app = nodes_ok_append(1,3,4)[OF ok, where key = key and val = val and seq = seq and h = h]
    and unused = nodes_ok_append(2)[OF ok]
  have h: "1 \<le> h" "h \<le> MAX_HEIGHT" using random_height_bounds[OF assms(2)] by auto
  have ne: "?p \<noteq> 0" using ok by (simp add: nodes_ok_def)
  have m: "0 < MAX_HEIGHT" by (simp add: MAX_HEIGHT_def)
  obtain n2 where n2: "link_level 1 ?n1 ?p 0 = Inr n2" "nodes_ok n2 (lv(0 := ins_at ?n1 ?p (lv 0)))" "same_data ?n1 n2"
    using link_level_ok[OF app(1) _ ne _ m] unused m by auto
  have "lv(0 := ins_at ?n1 ?p (lv 0)) = ins_levels ?n1 ?p 1 lv" by (auto simp: ins_levels_def fun_eq_iff)
  then obtain n3 where n3: "link_levels n2 ?p [1..<h] = Inr n3" "nodes_ok n3 (ins_levels ?n1 ?p h lv)" "same_data ?n1 n3"
    using link_levels_ok[of n2 ?n1 ?p 1 lv h] n2 unused ne h by (auto simp: same_data_def)
  let ?sl = "\<lparr>sl_nodes = n3, sl_max_height = (if h > sl_max_height sl \<and> weak_ok then h else sl_max_height sl),
    sl_size = sl_size sl + of_nat (length key + (case val of None \<Rightarrow> 0 | Some v \<Rightarrow> length v) + 24)\<rparr>"
  have ins: "sl_insert weak_ok key val seq rng sl = Inr (?sl, rng')"
    using n2(1) n3(1) assms(2) by (simp add: sl_insert_def Let_def)
  have inv: "sl_inv ?sl (ins_levels ?n1 ?p h lv)" using n3(2) assms(1) h by (auto simp: sl_inv_def)
  have ent: "entry_at n3 = entry_at ?n1" using n3(3) by (simp add: same_data_def entry_at_def fun_eq_iff)
  have new: "entry_at ?n1 ?p = (key, val, seq)" by (simp add: entry_at_def node_new_def)
  have "map (entry_at n3) (ins_levels ?n1 ?p h lv l) =
       (let es = map (entry_at ?n) (lv l) in
        if l < h then takeWhile (\<lambda>e. fst e < key) es @ (key, val, seq) # dropWhile (\<lambda>e. fst e < key) es else es)"
    if l: "l < MAX_HEIGHT" for l
  proof -
    have es: "map (entry_at ?n) (lv l) = map (entry_at ?n1) (lv l)"
      using ok l by (intro map_cong refl app(3)[symmetric]) (auto simp: nodes_ok_def level_ok_def)
    show ?thesis
      unfolding es Let_def takeWhile_map dropWhile_map
      by (simp add: ins_levels_def ins_at_def ent app(2) below_def above_def new comp_def)
  qed
  then show thesis using that[OF ins inv] by simp
qed

section \<open>Lookup\<close>

text \<open>What \<open>get\<close> finds from a level downwards: the first hit on the highest level that has one.\<close>

fun top_down :: "(nat \<Rightarrow> entry list) \<Rightarrow> bytes \<Rightarrow> nat \<Rightarrow> (bytes option \<times> u64) option" where
  "top_down ls key 0 = None"
| "top_down ls key (Suc level) =
     (case map_of (ls level) key of None \<Rightarrow> top_down ls key level | Some r \<Rightarrow> Some r)"

lemma map_of_above:
  assumes "sorted (map (key_of nodes) ps)"
  shows "map_of (map (entry_at nodes) ps) key =
    (case above nodes key ps of
       [] \<Rightarrow> None
     | q # _ \<Rightarrow> if key_of nodes q = key then Some (nd_val (nodes ! q), nd_seq (nodes ! q)) else None)"
  using assms
proof (induction ps)
  case (Cons p ps)
  have gt: "map_of (map (entry_at nodes) ps) key = None" if "key < key_of nodes p"
    using Cons.prems that by (force simp: map_of_eq_None_iff)
  have "entry_at nodes p = (key_of nodes p, nd_val (nodes ! p), nd_seq (nodes ! p))" by (simp add: entry_at_def key_of_def)
  then show ?case using Cons gt by (cases "key_of nodes p" key rule: linorder_cases) auto
qed simp

lemma get_level:
  assumes "linked nodes level cur bs" "length bs < fuel"
  shows "get_loop fuel nodes key cur (Suc level) =
    (let descend = (if level > 0 then get_loop (fuel - length (below nodes key bs) - 1) nodes key (last (cur # below nodes key bs)) level
                    else Inr None)
     in case above nodes key bs of
       [] \<Rightarrow> descend
     | q # _ \<Rightarrow> if key_of nodes q = key then Inr (Some (nd_val (nodes ! q), nd_seq (nodes ! q))) else descend)"
  using assms
proof (induction bs arbitrary: cur fuel)
  case Nil
  then obtain f where "fuel = Suc f" by (cases fuel) auto
  then show ?case using Nil by simp
next
  case (Cons q bs)
  then obtain f where f: "fuel = Suc f" "length bs < f" by (cases fuel) auto
  have l: "load_next nodes cur level = Some q" "linked nodes level q bs" using Cons.prems(1) by auto
  show ?case
    using Cons.IH[OF l(2) f(2)] l(1) by (cases "key_of nodes q < key") (simp_all add: f(1) key_of_def[symmetric] Let_def split: list.split)
qed

lemma level_ok_length_less: "level_ok nodes level ps \<Longrightarrow> nodes \<noteq> [] \<Longrightarrow> length ps < length nodes"
proof -
  assume "level_ok nodes level ps" "nodes \<noteq> []"
  then have "distinct (0 # ps)" "set (0 # ps) \<subseteq> {..<length nodes}" by (auto simp: level_ok_def)
  then have "length (0 # ps) \<le> length nodes" by (metis card_mono distinct_card card_lessThan finite_lessThan)
  then show ?thesis by simp
qed

lemma get_at_level:
  assumes "nodes_ok nodes lv" "level < MAX_HEIGHT" "cur = 0 \<or> cur \<in> set (lv level) \<and> key_of nodes cur < key"
    and "length nodes \<le> fuel"
  obtains fuel' where "fuel \<le> fuel' + length nodes"
    "get_loop fuel nodes key cur (Suc level) =
      (case map_of (map (entry_at nodes) (lv level)) key of
         Some r \<Rightarrow> Inr (Some r)
       | None \<Rightarrow> if level > 0 then get_loop fuel' nodes key (pred_at nodes key (lv level)) level else Inr None)"
proof -
  let ?ps = "lv level"
  have lv: "level_ok nodes level ?ps" using assms(1,2) by (simp add: nodes_ok_def)
  then have s: "sorted (map (key_of nodes) ?ps)" and lk: "linked nodes level 0 ?ps" by (auto simp: level_ok_def)
  have len: "length ?ps < length nodes" using level_ok_length_less[OF lv] assms(1) by (simp add: nodes_ok_def)
  obtain bs where bs: "linked nodes level cur bs" "length bs \<le> length ?ps"
    "last (cur # below nodes key bs) = pred_at nodes key ?ps" "above nodes key bs = above nodes key ?ps"
    "length (below nodes key bs) \<le> length bs"
  proof (cases "cur = 0")
    case True
    then show thesis using that[of ?ps] lk by (simp add: pred_at_def below_def length_takeWhile_le)
  next
    case False
    then obtain as bs where sp: "?ps = as @ cur # bs" and k: "key_of nodes cur < key" using assms(3) by (auto dest: split_list)
    note b = below_split[OF s[unfolded sp] k]
    have "linked nodes level cur bs" using lk linked_suffix unfolding sp by blast
    then show thesis using that[of bs] b sp by (simp add: pred_at_def below_def[of nodes key bs] length_takeWhile_le)
  qed
  let ?f = "fuel - length (below nodes key bs) - 1"
  have "fuel \<le> ?f + length nodes" using bs(2,5) len by linarith
  moreover have "get_loop fuel nodes key cur (Suc level) =
      (case map_of (map (entry_at nodes) ?ps) key of
         Some r \<Rightarrow> Inr (Some r)
       | None \<Rightarrow> if level > 0 then get_loop ?f nodes key (pred_at nodes key ?ps) level else Inr None)"
    using get_level[OF bs(1), of fuel key] bs(2) len assms(4) unfolding map_of_above[OF s] bs(3,4)
    by (simp add: Let_def split: list.splits)
  ultimately show thesis by (rule that)
qed

lemma get_loop_spec:
  assumes ok: "nodes_ok nodes lv"
  shows "level < MAX_HEIGHT \<Longrightarrow> cur = 0 \<or> cur \<in> set (lv level) \<and> key_of nodes cur < key \<Longrightarrow>
    length nodes * Suc level \<le> fuel \<Longrightarrow>
    get_loop fuel nodes key cur (Suc level) = Inr (top_down (\<lambda>l. map (entry_at nodes) (lv l)) key (Suc level))"
proof (induction level arbitrary: cur fuel)
  case 0
  then have f: "length nodes \<le> fuel" by simp
  show ?case
  proof (rule get_at_level[OF ok 0(1,2) f])
    fix fuel'
    assume "get_loop fuel nodes key cur (Suc 0) =
      (case map_of (map (entry_at nodes) (lv 0)) key of
         Some r \<Rightarrow> Inr (Some r)
       | None \<Rightarrow> if 0 < (0 :: nat) then get_loop fuel' nodes key (pred_at nodes key (lv 0)) 0 else Inr None)"
    then show ?thesis by (simp split: option.splits)
  qed
next
  case (Suc level)
  then have f: "length nodes \<le> fuel" by simp
  obtain fuel' where g: "fuel \<le> fuel' + length nodes" "get_loop fuel nodes key cur (Suc (Suc level)) =
      (case map_of (map (entry_at nodes) (lv (Suc level))) key of
         Some r \<Rightarrow> Inr (Some r)
       | None \<Rightarrow> get_loop fuel' nodes key (pred_at nodes key (lv (Suc level))) (Suc level))"
    by (rule get_at_level[OF ok Suc.prems(1,2) f]) (simp only: zero_less_Suc if_True)
  have "set (lv (Suc level)) \<subseteq> set (lv level)" using ok Suc.prems(1) by (simp add: nodes_ok_def)
  then have "pred_at nodes key (lv (Suc level)) = 0 \<or>
      pred_at nodes key (lv (Suc level)) \<in> set (lv level) \<and> key_of nodes (pred_at nodes key (lv (Suc level))) < key"
    using pred_at_cases[of nodes key "lv (Suc level)"] by auto
  moreover have "length nodes * Suc level \<le> fuel'" using g(1) Suc.prems(3) by simp
  ultimately have "get_loop fuel' nodes key (pred_at nodes key (lv (Suc level))) (Suc level) =
      Inr (top_down (\<lambda>l. map (entry_at nodes) (lv l)) key (Suc level))"
    using Suc.IH Suc.prems(1) by simp
  then show ?case using g(2) by (simp split: option.splits)
qed

lemma sl_get_spec:
  assumes "sl_inv sl lv"
  shows "sl_get sl key = Inr (top_down (\<lambda>l. map (entry_at (sl_nodes sl)) (lv l)) key (sl_max_height sl))"
proof -
  obtain m where m: "sl_max_height sl = Suc m" "m < MAX_HEIGHT" using assms by (cases "sl_max_height sl") (auto simp: sl_inv_def)
  have "length (sl_nodes sl) * Suc m \<le> length (sl_nodes sl) * MAX_HEIGHT" using m(2) by (intro mult_le_mono2) simp
  then show ?thesis using get_loop_spec[of "sl_nodes sl" lv m 0 key] assms m by (simp add: sl_get_def sl_inv_def)
qed

section \<open>The memtable as an interface\<close>

text \<open>A new version goes in front of the versions of its key.\<close>

definition mem_insert :: "entry \<Rightarrow> entry list \<Rightarrow> entry list" where
  "mem_insert e es = takeWhile (\<lambda>x. fst x < fst e) es @ e # dropWhile (\<lambda>x. fst x < fst e) es"

fun insert_all ::
  "(bool \<Rightarrow> bytes \<Rightarrow> bytes option \<Rightarrow> u64 \<Rightarrow> u32 \<Rightarrow> 't \<Rightarrow> ('t \<times> u32) result) \<Rightarrow> (bool \<times> entry) list \<Rightarrow> u32 \<Rightarrow> 't \<Rightarrow> ('t \<times> u32) result" where
  "insert_all ins [] rng t = Inr (t, rng)"
| "insert_all ins ((w, key, val, seq) # ws) rng t =
     (case ins w key val seq rng t of Inl e \<Rightarrow> Inl e | Inr (t, rng) \<Rightarrow> insert_all ins ws rng t)"

lemma mem_insert_sorted: "sorted (map fst es) \<Longrightarrow> sorted (map fst (mem_insert e es))"
  unfolding mem_insert_def
proof (rule sorted_insert_mid)
  show "\<forall>x\<in>set (takeWhile (\<lambda>x. fst x < fst e) es). fst x \<le> fst e" by (auto dest: set_takeWhileD)
  show "dropWhile (\<lambda>x. fst x < fst e) es \<noteq> [] \<Longrightarrow> fst e \<le> fst (hd (dropWhile (\<lambda>x. fst x < fst e) es))"
    using hd_dropWhile[of "\<lambda>x. fst x < fst e" es] by (metis not_less)
qed simp

lemma mset_mem_insert: "mset (mem_insert e es) = add_mset e (mset es)"
proof -
  let ?a = "takeWhile (\<lambda>x. fst x < fst e) es" and ?b = "dropWhile (\<lambda>x. fst x < fst e) es"
  have "mset es = mset ?a + mset ?b" by (simp flip: mset_append)
  then show ?thesis by (simp add: mem_insert_def)
qed

lemma set_mem_insert [simp]: "set (mem_insert e es) = insert e (set es)"
  using mset_mem_insert by (metis set_mset_add_mset_insert set_mset_mset)

locale memtable =
  fixes repr :: "'t \<Rightarrow> entry list \<Rightarrow> bool"
    and ins :: "bool \<Rightarrow> bytes \<Rightarrow> bytes option \<Rightarrow> u64 \<Rightarrow> u32 \<Rightarrow> 't \<Rightarrow> ('t \<times> u32) result"
    and look :: "'t \<Rightarrow> bytes \<Rightarrow> (bytes option \<times> u64) option result"
  assumes ins_ok: "repr t es \<Longrightarrow> \<exists>t' g'. ins w k v s g t = Inr (t', g') \<and> repr t' (mem_insert (k, v, s) es)"
    and look_ok: "repr t es \<Longrightarrow> \<exists>r. look t k = Inr r \<and> (r = None \<longleftrightarrow> k \<notin> fst ` set es) \<and>
      (\<forall>v s. r = Some (v, s) \<longrightarrow> (k, v, s) \<in> set es)"
begin

lemma ins_all_ok: "repr t es \<Longrightarrow> \<exists>t' g'. insert_all ins ws g t = Inr (t', g') \<and> repr t' (fold mem_insert (map snd ws) es)"
proof (induction ws arbitrary: t g es)
  case (Cons x ws)
  obtain w k v s where x: "x = (w, k, v, s)" by (cases x)
  obtain t' g' where "ins w k v s g t = Inr (t', g')" "repr t' (mem_insert (k, v, s) es)"
    using ins_ok[OF Cons.prems] by blast
  then show ?case using Cons.IH[of t' "mem_insert (k, v, s) es" g'] by (simp add: x)
qed simp

lemma look_once:
  assumes "repr t es" "\<And>v s v' s'. (k, v, s) \<in> set es \<Longrightarrow> (k, v', s') \<in> set es \<Longrightarrow> (v, s) = (v', s')"
  shows "look t k = Inr (map_of es k)"
proof -
  obtain r where r: "look t k = Inr r" "r = None \<longleftrightarrow> k \<notin> fst ` set es" "\<forall>v s. r = Some (v, s) \<longrightarrow> (k, v, s) \<in> set es"
    using look_ok[OF assms(1), of k] by (elim exE conjE) blast
  show ?thesis
  proof (cases "map_of es k")
    case None
    then show ?thesis using r(1,2) by (metis map_of_eq_None_iff)
  next
    case (Some x)
    obtain v s where x: "x = (v, s)" by (cases x)
    have m: "(k, v, s) \<in> set es" using Some x by (simp add: map_of_SomeD)
    then have "k \<in> fst ` set es" by (metis fst_conv image_eqI)
    then obtain v' s' where "r = Some (v', s')" using r(2) by (cases r) auto
    then show ?thesis using r(1,3) assms(2)[OF m] Some x by auto
  qed
qed

end

section \<open>The skip list provides it\<close>

definition sl_repr :: "skiplist \<Rightarrow> entry list \<Rightarrow> bool" where
  "sl_repr sl es \<longleftrightarrow> (\<exists>lv. sl_inv sl lv \<and> sl_entries sl lv = es)"

lemma level_subset: "nodes_ok nodes lv \<Longrightarrow> l < MAX_HEIGHT \<Longrightarrow> set (lv l) \<subseteq> set (lv 0)"
proof (induction l)
  case (Suc l)
  then have "set (lv (Suc l)) \<subseteq> set (lv l)" by (simp add: nodes_ok_def)
  then show ?case using Suc by auto
qed simp

lemma top_down_hit:
  assumes "\<And>l. l < n \<Longrightarrow> set (ls l) \<subseteq> set (ls 0)" "0 < n"
  shows "(top_down ls key n = None \<longleftrightarrow> key \<notin> fst ` set (ls 0)) \<and>
    (\<forall>v s. top_down ls key n = Some (v, s) \<longrightarrow> (key, v, s) \<in> set (ls 0))"
  using assms
proof (induction n)
  case (Suc n)
  show ?case
  proof (cases "map_of (ls n) key")
    case None
    then have "key \<notin> fst ` set (ls n)" by (simp add: map_of_eq_None_iff)
    moreover have "top_down ls key (Suc n) = top_down ls key n" using None by simp
    ultimately show ?thesis using Suc.IH Suc.prems(1) by (cases "n = 0") (simp_all del: top_down.simps(2))
  next
    case (Some r)
    then have "(key, r) \<in> set (ls n)" by (rule map_of_SomeD)
    then have "(key, r) \<in> set (ls 0)" using Suc.prems(1)[of n] by auto
    then show ?thesis using Some by force
  qed
qed simp

interpretation mt: memtable sl_repr sl_insert sl_get
proof
  fix t es w k v s g
  assume "sl_repr t es"
  then obtain lv where lv: "sl_inv t lv" "sl_entries t lv = es" by (auto simp: sl_repr_def)
  obtain h g' where h: "random_height g = (h, g')" by (cases "random_height g")
  then have "0 < h" using random_height_bounds by fastforce
  from lv(1) h obtain sl' lv' where "sl_insert w k v s g t = Inr (sl', g')" "sl_inv sl' lv'"
    "\<And>l. l < MAX_HEIGHT \<Longrightarrow> map (entry_at (sl_nodes sl')) (lv' l) =
       (let es = map (entry_at (sl_nodes t)) (lv l) in
        if l < h then takeWhile (\<lambda>e. fst e < k) es @ (k, v, s) # dropWhile (\<lambda>e. fst e < k) es else es)"
    by (rule sl_insert_ok) blast
  moreover from this(3)[of 0] \<open>0 < h\<close> lv(2) have "sl_entries sl' lv' = mem_insert (k, v, s) es"
    by (simp add: sl_entries_def mem_insert_def Let_def MAX_HEIGHT_def)
  ultimately show "\<exists>t' g'. sl_insert w k v s g t = Inr (t', g') \<and> sl_repr t' (mem_insert (k, v, s) es)"
    unfolding sl_repr_def by blast
next
  fix t es k
  assume "sl_repr t es"
  then obtain lv where lv: "sl_inv t lv" "sl_entries t lv = es" by (auto simp: sl_repr_def)
  let ?ls = "\<lambda>l. map (entry_at (sl_nodes t)) (lv l)"
  have "set (?ls l) \<subseteq> set (?ls 0)" if "l < sl_max_height t" for l
    using level_subset[of "sl_nodes t" lv l] lv(1) that by (auto simp: sl_inv_def)
  moreover have "0 < sl_max_height t" using lv(1) by (simp add: sl_inv_def)
  ultimately show "\<exists>r. sl_get t k = Inr r \<and> (r = None \<longleftrightarrow> k \<notin> fst ` set es) \<and> (\<forall>v s. r = Some (v, s) \<longrightarrow> (k, v, s) \<in> set es)"
    using top_down_hit[of "sl_max_height t" ?ls k] sl_get_spec[OF lv(1), of k]
    unfolding lv(2)[symmetric] sl_entries_def by (intro exI[of _ "top_down ?ls k (sl_max_height t)"]) simp
qed

lemma sl_repr_new: "sl_repr skiplist_new []"
  using skiplist_new_inv by (auto simp: sl_repr_def)

lemma sl_repr_bottom:
  assumes "sl_repr sl es"
  obtains ps where "level_ok (sl_nodes sl) 0 ps" "es = map (entry_at (sl_nodes sl)) ps"
proof -
  obtain lv where lv: "sl_inv sl lv" "sl_entries sl lv = es" using assms by (auto simp: sl_repr_def)
  then have "level_ok (sl_nodes sl) 0 (lv 0)" by (simp add: sl_inv_def nodes_ok_def MAX_HEIGHT_def)
  then show thesis using that lv(2) by (simp add: sl_entries_def)
qed

lemma sl_repr_sorted: "sl_repr sl es \<Longrightarrow> sorted (map fst es)"
  by (erule sl_repr_bottom) (simp add: level_ok_def comp_def)

text \<open>The iterator is a source of the entries.\<close>

definition sl_holds :: "sl_iter \<Rightarrow> entry list \<Rightarrow> bool" where
  "sl_holds it es \<longleftrightarrow> (\<exists>ps. it_cur it = head_opt ps \<and> (ps \<noteq> [] \<longrightarrow> linked (it_nodes it) 0 (hd ps) (tl ps)) \<and>
     es = map (entry_at (it_nodes it)) ps)"

interpretation si: entry_source sl_iter_next sl_holds
proof
  fix it es
  assume "sl_holds it es"
  then obtain ps where ps: "it_cur it = head_opt ps" "ps \<noteq> [] \<longrightarrow> linked (it_nodes it) 0 (hd ps) (tl ps)"
    "es = map (entry_at (it_nodes it)) ps" by (auto simp: sl_holds_def)
  show "\<exists>it'. sl_iter_next it = Inr (if es = [] then None else Some (hd es), it') \<and> sl_holds it' (tl es)"
  proof (cases ps)
    case Nil
    then show ?thesis using ps \<open>sl_holds it es\<close> by (simp add: sl_iter_next_def)
  next
    case (Cons p qs)
    then have l: "linked (it_nodes it) 0 p qs" using ps(2) by simp
    have "sl_holds (it\<lparr>it_cur := load_next (it_nodes it) p 0\<rparr>) (tl es)"
      unfolding sl_holds_def using l ps(3) Cons linked_load[OF l] by (intro exI[of _ qs]) (cases qs, auto)
    then show ?thesis using ps Cons by (simp add: sl_iter_next_def Let_def entry_at_def)
  qed
qed

lemma sl_iter_holds: "sl_repr sl es \<Longrightarrow> sl_holds (sl_iter_new sl) es"
proof -
  assume "sl_repr sl es"
  then obtain ps where ps: "level_ok (sl_nodes sl) 0 ps" "es = map (entry_at (sl_nodes sl)) ps" by (rule sl_repr_bottom)
  then have l: "linked (sl_nodes sl) 0 0 ps" by (simp add: level_ok_def)
  then show "sl_holds (sl_iter_new sl) es"
    unfolding sl_holds_def using linked_load[OF l] ps(2) by (intro exI[of _ ps]) (cases ps, auto simp: sl_iter_new_def)
qed

section \<open>Dropping\<close>

lemma drop_linked:
  "linked nodes 0 p ps \<Longrightarrow> distinct (freed @ p # ps) \<Longrightarrow> length ps < fuel \<Longrightarrow>
   drop_loop fuel nodes freed (Some p) = Inr (freed @ p # ps)"
proof (induction ps arbitrary: p freed fuel)
  case (Cons q ps)
  then obtain f where f: "fuel = Suc f" "length ps < f" by (cases fuel) auto
  then show ?case using Cons.prems Cons.IH[of q "freed @ [p]" f] by simp
qed (auto simp: gr0_conv_Suc)

lemma link_level_length: "link_level n nodes p l = Inr nodes' \<Longrightarrow> length nodes' = length nodes"
  by (induction n nodes p l rule: link_level.induct)
    (auto simp: link_level.simps store_next_def Let_def split: sum.splits prod.splits if_splits option.splits)

lemma link_levels_length: "link_levels nodes p ls = Inr nodes' \<Longrightarrow> length nodes' = length nodes"
  by (induction nodes p ls rule: link_levels.induct) (auto split: sum.splits dest: link_level_length)

lemma insert_all_length:
  "insert_all sl_insert ws rng sl = Inr (sl', rng') \<Longrightarrow> length (sl_nodes sl') = length (sl_nodes sl) + length ws"
proof (induction sl_insert ws rng sl rule: insert_all.induct)
  case (2 w key val seq ws rng sl)
  then obtain sl1 rng1 where 1: "sl_insert w key val seq rng sl = Inr (sl1, rng1)" "insert_all sl_insert ws rng1 sl1 = Inr (sl', rng')"
    by (auto split: sum.splits)
  then have "length (sl_nodes sl1) = Suc (length (sl_nodes sl))"
    by (auto simp: sl_insert_def Let_def split: sum.splits prod.splits dest!: link_level_length link_levels_length)
  then show ?case using 2(1)[OF 1(1) refl 1(2)] by simp
qed simp

section \<open>Properties\<close>

lemma fold_mem_insert:
  assumes "sorted (map fst es)"
  shows "sorted (map fst (fold mem_insert ws es)) \<and> mset (fold mem_insert ws es) = mset ws + mset es"
  using assms by (induction ws arbitrary: es) (auto simp: mem_insert_sorted mset_mem_insert)

text \<open>
  Any sequence of inserts into a new memtable ends (no walk along the nodes runs forever),
  and the iterator then returns every version inserted, once each, sorted by key, later inserts
  of a key before earlier ones (this is what \<open>mem_insert\<close> does), whatever heights the generator
  gave the nodes and however the weak compare-exchange answered.
\<close>

theorem skiplist_iter_all:
  "\<exists>sl rng'. insert_all sl_insert ws rng skiplist_new = Inr (sl, rng') \<and>
     drain sl_iter_next (Suc (length ws + extra)) (sl_iter_new sl) = Inr (fold mem_insert (map snd ws) []) \<and>
     sorted (map fst (fold mem_insert (map snd ws) [])) \<and> mset (fold mem_insert (map snd ws) []) = mset (map snd ws)"
proof -
  let ?es = "fold mem_insert (map snd ws) []"
  obtain sl rng' where sl: "insert_all sl_insert ws rng skiplist_new = Inr (sl, rng')" "sl_repr sl ?es"
    using mt.ins_all_ok[OF sl_repr_new] by blast
  have f: "sorted (map fst ?es)" "mset ?es = mset (map snd ws)" using fold_mem_insert[of "[]" "map snd ws"] by auto
  have "length ?es = length ws" using arg_cong[OF f(2), of size] by simp
  then have "drain sl_iter_next (Suc (length ws + extra)) (sl_iter_new sl) = Inr ?es"
    by (intro si.drain_all[OF sl_iter_holds[OF sl(2)]]) simp
  then show ?thesis using sl(1) f by blast
qed

text \<open>
  C31. Lookups in a memtable return, are complete and sound: after any sequence of inserts a key
  that is not found was not inserted, and what is found is a version inserted under that key
  (the only one, for a key inserted once).
\<close>

theorem skiplist_get_sound:
  "\<exists>sl rng'. insert_all sl_insert ws rng skiplist_new = Inr (sl, rng') \<and>
     (\<forall>key. case sl_get sl key of
              Inl f \<Rightarrow> False
            | Inr None \<Rightarrow> key \<notin> fst ` set (map snd ws)
            | Inr (Some vs) \<Rightarrow> (key, vs) \<in> set (map snd ws))"
proof -
  let ?es = "fold mem_insert (map snd ws) []"
  obtain sl rng' where sl: "insert_all sl_insert ws rng skiplist_new = Inr (sl, rng')" "sl_repr sl ?es"
    using mt.ins_all_ok[OF sl_repr_new] by blast
  have "mset ?es = mset (map snd ws)" using fold_mem_insert[of "[]" "map snd ws"] by auto
  then have s: "set ?es = set (map snd ws)" by (rule mset_eq_setD)
  have "case sl_get sl key of Inl f \<Rightarrow> False | Inr None \<Rightarrow> key \<notin> fst ` set (map snd ws)
      | Inr (Some vs) \<Rightarrow> (key, vs) \<in> set (map snd ws)" for key
  proof -
    obtain r where r: "sl_get sl key = Inr r" "r = None \<longleftrightarrow> key \<notin> fst ` set ?es" "\<forall>v s. r = Some (v, s) \<longrightarrow> (key, v, s) \<in> set ?es"
      using mt.look_ok[OF sl(2), of key] by (elim exE conjE) blast
    then show ?thesis unfolding s by (cases r) auto
  qed
  then show ?thesis using sl(1) by blast
qed

text \<open>
  C32. Dropping a memtable frees the head and the node of every insert exactly once, and reads no
  node after it was freed.
\<close>

theorem skiplist_drop_frees_all:
  "\<exists>sl rng' freed. insert_all sl_insert ws rng skiplist_new = Inr (sl, rng') \<and>
     sl_drop sl = Inr freed \<and> mset freed = mset [0..<length (sl_nodes sl)] \<and> length freed = Suc (length ws)"
proof -
  let ?es = "fold mem_insert (map snd ws) []"
  obtain sl rng' where sl: "insert_all sl_insert ws rng skiplist_new = Inr (sl, rng')" "sl_repr sl ?es"
    using mt.ins_all_ok[OF sl_repr_new] by blast
  then obtain ps where ps: "level_ok (sl_nodes sl) 0 ps" "?es = map (entry_at (sl_nodes sl)) ps" by (metis sl_repr_bottom)
  have "mset ?es = mset (map snd ws)" using fold_mem_insert[of "[]" "map snd ws"] by auto
  then have len: "length ps = length ws" using arg_cong[of _ _ size] ps(2) by (metis length_map size_mset)
  have n: "length (sl_nodes sl) = Suc (length ws)" using insert_all_length[OF sl(1)] by (simp add: skiplist_new_def)
  have d: "distinct (0 # ps)" "set (0 # ps) \<subseteq> {..<length (sl_nodes sl)}" using ps(1) n by (auto simp: level_ok_def)
  then have "set (0 # ps) = {..<length (sl_nodes sl)}"
    using n len distinct_card[OF d(1)] by (intro card_subset_eq) simp_all
  then have "mset (0 # ps) = mset [0..<length (sl_nodes sl)]"
    using d(1) by (subst set_eq_iff_mset_eq_distinct[symmetric]) (auto simp: atLeast0LessThan)
  moreover have "sl_drop sl = Inr (0 # ps)"
    using drop_linked[of "sl_nodes sl" 0 ps "[]" "length (sl_nodes sl)"] ps(1) len n d(1) by (simp add: sl_drop_def level_ok_def)
  ultimately show ?thesis using sl(1) len by auto
qed

text \<open>
  An overwritten key can read back with its old value: if the node of the newer version is
  lower than the node of the older one, \<open>get\<close> meets the older one first, on a level the newer
  one is not in.
\<close>

theorem skiplist_get_stale:
  assumes "random_height rng = (h1, rng1)" "random_height rng1 = (h2, rng2)" "h2 < h1"
  shows "\<exists>sl. insert_all sl_insert [(True, key, old, s1), (True, key, new, s2)] rng skiplist_new = Inr (sl, rng2) \<and>
    sl_get sl key = Inr (Some (old, s1))"
proof -
  from skiplist_new_inv(1) assms(1) obtain sl1 lv1 where 1: "sl_insert True key old s1 rng skiplist_new = Inr (sl1, rng1)" "sl_inv sl1 lv1"
    "\<And>l. l < MAX_HEIGHT \<Longrightarrow> map (entry_at (sl_nodes sl1)) (lv1 l) = (if l < h1 then [(key, old, s1)] else [])"
    "sl_max_height sl1 = h1 \<or> h1 = 1 \<and> sl_max_height sl1 = 1"
    by (rule sl_insert_ok[where weak_ok = True and key = key and val = old and seq = s1])
      (use random_height_bounds[OF assms(1)] in \<open>auto simp: skiplist_new_def Let_def\<close>)
  from 1(2) assms(2) obtain sl2 lv2 where 2: "sl_insert True key new s2 rng1 sl1 = Inr (sl2, rng2)" "sl_inv sl2 lv2"
    "\<And>l. l < MAX_HEIGHT \<Longrightarrow> map (entry_at (sl_nodes sl2)) (lv2 l) =
       (let es = map (entry_at (sl_nodes sl1)) (lv1 l) in
        if l < h2 then takeWhile (\<lambda>e. fst e < key) es @ (key, new, s2) # dropWhile (\<lambda>e. fst e < key) es else es)"
    "sl_max_height sl2 = (if h2 > sl_max_height sl1 \<and> True then h2 else sl_max_height sl1)"
    by (rule sl_insert_ok[where weak_ok = True and key = key and val = new and seq = s2]) blast
  have h: "1 \<le> h2" "h1 \<le> MAX_HEIGHT" using random_height_bounds[OF assms(1)] random_height_bounds[OF assms(2)] by auto
  then obtain m where m: "h1 = Suc m" "m < MAX_HEIGHT" using assms(3) by (cases h1) auto
  have "sl_max_height sl2 = Suc m" using 1(4) 2(4) assms(3) h m(1) by auto
  moreover have "map (entry_at (sl_nodes sl2)) (lv2 m) = [(key, old, s1)]"
    using 1(3)[OF m(2)] 2(3)[OF m(2)] assms(3) m(1) by (simp add: Let_def)
  ultimately have "sl_get sl2 key = Inr (Some (old, s1))" using sl_get_spec[OF 2(2), of key] by simp
  then show ?thesis using 1(1) 2(1) by simp
qed

text \<open>The generator state is the one of a thread after its first four inserts.\<close>

theorem skiplist_get_stale_witness:
  "\<exists>sl rng. insert_all sl_insert [(True, [107], Some [1], 1), (True, [107], Some [2], 2)] 0xA48DB81B skiplist_new = Inr (sl, rng) \<and>
     sl_get sl [107] = Inr (Some (Some [1], 1))"
proof -
  have 1: "random_height 0xA48DB81B = (2, 0x1CFDAFB3)" and 2: "random_height 0x1CFDAFB3 = (1, 0x8878FDF6)"
    by (simp_all add: random_height_def random_height_loop.simps fast_rand_u32_def Let_def MAX_HEIGHT_def BRANCH_FACTOR_def)
  have "(1::nat) < 2" by simp
  from skiplist_get_stale[OF 1 2 this, of "[107]" "Some [1]" 1 "Some [2]" 2] show ?thesis by blast
qed

end
