(* ===== verification/Wal_Record.thy ===== *)
theory Wal_Record
  imports Prelude
begin

text \<open>
  The framed records of the write-ahead log, \<^verbatim>\<open>src/tier3_storage/src/wal/record.rs\<close>. A record
  is a 16-byte header (CRC, payload length, sequence number, all little-endian) followed by the
  payload; the CRC covers everything after itself. The checksum of the \<open>crc32fast\<close> crate is a
  parameter \<open>crc\<close> of the definitions: nothing below depends on which function it is, except the
  corruption theorem, which names what it needs of it.
\<close>

section \<open>Data\<close>

definition HEADER_SIZE :: nat where
  [size_defs]: "HEADER_SIZE = 4 + 4 + 8"

definition MAX_PAYLOAD_SIZE :: nat where
  "MAX_PAYLOAD_SIZE = 16 * 1024 * 1024"

record wal_record =
  wr_seq :: u64
  wr_payload :: bytes

datatype wal_error =
    WalIo io_kind
  | CorruptCrc u32 u32 u64
  | Truncated nat nat
  | PayloadTooLarge nat
  | SequenceRegression u64 u64
  | EndOfLog

section \<open>Operations\<close>

text \<open>
  The result is the number of bytes written and the new contents of \<open>out\<close>. The slices the code
  takes are in range once the length guard has passed.
\<close>

definition encode_record ::
    "(bytes \<Rightarrow> u32) \<Rightarrow> u64 \<Rightarrow> bytes \<Rightarrow> bytes \<Rightarrow> wal_error + (nat \<times> bytes)" where
  "encode_record crc seq payload out =
     (if length payload > MAX_PAYLOAD_SIZE then Inl (PayloadTooLarge (length payload))
      else let total = HEADER_SIZE + length payload in
        if length out < total then Inl (Truncated total (length out))
        else let
          len = (of_nat (length payload) :: u32);
          out = copy_into out 4 (to_le_bytes len);
          out = copy_into out 8 (to_le_bytes seq);
          out = copy_into out HEADER_SIZE payload;
          c = crc (subslice out 4 total);
          out = copy_into out 0 (to_le_bytes c)
        in Inr (total, out))"

definition decode_record ::
    "(bytes \<Rightarrow> u32) \<Rightarrow> bytes \<Rightarrow> u64 option \<Rightarrow> wal_error + (wal_record \<times> nat)" where
  "decode_record crc buf prev_seq =
     (if length buf < HEADER_SIZE then Inl EndOfLog
      else if list_all (\<lambda>b. b = 0) (take HEADER_SIZE buf) then Inl EndOfLog
      else let
        crc_stored = from_le_bytes (subslice buf 0 4);
        len = unat (from_le_bytes (subslice buf 4 8) :: u32);
        seq = from_le_bytes (subslice buf 8 16)
      in if len > MAX_PAYLOAD_SIZE then Inl (CorruptCrc 0 crc_stored seq)
      else let total = HEADER_SIZE + len in
        if length buf < total then Inl (Truncated total (length buf))
        else let crc_computed = crc (subslice buf 4 total) in
          if crc_computed \<noteq> crc_stored then Inl (CorruptCrc crc_computed crc_stored seq)
          else (case prev_seq of
              Some p \<Rightarrow> if seq \<le> p then Inl (SequenceRegression p seq)
                        else Inr (\<lparr>wr_seq = seq, wr_payload = subslice buf HEADER_SIZE total\<rparr>, total)
            | None \<Rightarrow> Inr (\<lparr>wr_seq = seq, wr_payload = subslice buf HEADER_SIZE total\<rparr>, total)))"

section \<open>The frame as a value\<close>

text \<open>What the code means by a record on disk: the reference that both directions are compared with.\<close>

definition frame_body :: "u64 \<Rightarrow> bytes \<Rightarrow> bytes" where
  "frame_body seq payload = to_le_bytes (of_nat (length payload) :: u32) @ to_le_bytes seq @ payload"

definition frame :: "(bytes \<Rightarrow> u32) \<Rightarrow> u64 \<Rightarrow> bytes \<Rightarrow> bytes" where
  "frame crc seq payload = to_le_bytes (crc (frame_body seq payload)) @ frame_body seq payload"

lemma length_frame_body [simp]: "length (frame_body seq payload) = 12 + length payload"
  by (simp add: frame_body_def)

lemma length_frame [simp]: "length (frame crc seq payload) = HEADER_SIZE + length payload"
  by (simp add: frame_def HEADER_SIZE_def)

text \<open>
  A header is all zeros only if the sequence number is zero and the payload empty: appended
  records, whose numbers start at 1, are never mistaken for the end of the log.
\<close>

lemma to_le_bytes_zero_iff:
  fixes w :: "'a::len word"
  assumes "8 dvd LENGTH('a)"
  shows "list_all (\<lambda>b. b = 0) (to_le_bytes w) \<longleftrightarrow> w = 0"
proof
  assume "list_all (\<lambda>b. b = 0) (to_le_bytes w)"
  then have "from_le_bytes (to_le_bytes w) = (0 :: 'a word)"
    by (intro from_le_bytes_zero) (simp add: list_all_iff)
  with assms show "w = 0" by simp
qed (auto simp: to_le_bytes_def list_all_iff)

lemma encode_record_frame:
  assumes "length payload \<le> MAX_PAYLOAD_SIZE" "HEADER_SIZE + length payload \<le> length out"
  shows "encode_record crc seq payload out =
    Inr (HEADER_SIZE + length payload,
         frame crc seq payload @ drop (HEADER_SIZE + length payload) out)"
proof -
  have "\<not> MAX_PAYLOAD_SIZE < length payload" "\<not> length out < HEADER_SIZE + length payload"
    using assms by auto
  moreover have "16 + length payload \<le> length out" using assms by (simp add: HEADER_SIZE_def)
  ultimately show ?thesis
    by (simp add: encode_record_def Let_def frame_def frame_body_def copy_into_def subslice_def
        HEADER_SIZE_def add.commute)
qed

lemma unat_of_nat_payload [simp]:
  "length payload \<le> MAX_PAYLOAD_SIZE \<Longrightarrow> unat (of_nat (length payload) :: u32) = length payload"
  by (simp add: MAX_PAYLOAD_SIZE_def unat_of_nat)

lemma frame_header:
  "subslice (frame crc seq payload @ rest) 0 4 = to_le_bytes (crc (frame_body seq payload))"
  "subslice (frame crc seq payload @ rest) 4 8 = to_le_bytes (of_nat (length payload) :: u32)"
  "subslice (frame crc seq payload @ rest) 8 16 = to_le_bytes seq"
  "subslice (frame crc seq payload @ rest) 4 (HEADER_SIZE + length payload) = frame_body seq payload"
  "subslice (frame crc seq payload @ rest) HEADER_SIZE (HEADER_SIZE + length payload) = payload"
  by (simp_all add: frame_def frame_body_def subslice_def HEADER_SIZE_def)

lemma frame_not_end:
  assumes "seq \<noteq> 0 \<or> payload \<noteq> []" "length payload \<le> MAX_PAYLOAD_SIZE"
  shows "\<not> list_all (\<lambda>b. b = 0) (take HEADER_SIZE (frame crc seq payload @ rest))"
proof
  assume "list_all (\<lambda>b. b = 0) (take HEADER_SIZE (frame crc seq payload @ rest))"
  then have "list_all (\<lambda>b. b = 0) (to_le_bytes (of_nat (length payload) :: u32))"
    "list_all (\<lambda>b. b = 0) (to_le_bytes seq)"
    by (auto simp: frame_def frame_body_def HEADER_SIZE_def)
  then have "(of_nat (length payload) :: u32) = 0" "seq = 0"
    by (simp_all add: to_le_bytes_zero_iff)
  then show False using assms unat_of_nat_payload[OF assms(2)] by auto
qed

text \<open>Decoding a frame at the head of a buffer gives the record back and consumes the frame.\<close>

lemma decode_frame:
  assumes "seq \<noteq> 0 \<or> payload \<noteq> []" "length payload \<le> MAX_PAYLOAD_SIZE"
    and "\<And>p. prev = Some p \<Longrightarrow> p < seq"
  shows "decode_record crc (frame crc seq payload @ rest) prev =
    Inr (\<lparr>wr_seq = seq, wr_payload = payload\<rparr>, HEADER_SIZE + length payload)"
  using assms(3) frame_not_end[OF assms(1,2), of crc rest] assms(2)
  by (auto simp: decode_record_def Let_def frame_header split: option.splits)

text \<open>Conversely, whatever is decoded was a frame with the right checksum and a fresh number.\<close>

lemma decode_record_sound:
  assumes "decode_record crc buf prev = Inr (r, n)"
  shows "n = HEADER_SIZE + length (wr_payload r)" "n \<le> length buf"
    "take n buf = frame crc (wr_seq r) (wr_payload r)"
    "\<And>p. prev = Some p \<Longrightarrow> p < wr_seq r"
    "length (wr_payload r) \<le> MAX_PAYLOAD_SIZE"
proof -
  define len where "len = unat (from_le_bytes (subslice buf 4 8) :: u32)"
  have f: "16 \<le> length buf" "len \<le> MAX_PAYLOAD_SIZE" "n = 16 + len" "n \<le> length buf"
    "crc (subslice buf 4 n) = from_le_bytes (subslice buf 0 4)"
    "r = \<lparr>wr_seq = from_le_bytes (subslice buf 8 16), wr_payload = subslice buf 16 n\<rparr>"
    "\<And>p. prev = Some p \<Longrightarrow> p < from_le_bytes (subslice buf 8 16)"
    using assms by (auto simp: decode_record_def Let_def len_def HEADER_SIZE_def
        split: if_splits option.splits)
  have l: "length (subslice buf 16 n) = len" using f by (simp add: length_subslice)
  have "to_le_bytes (of_nat len :: u32) = subslice buf 4 8"
    using f by (simp add: len_def to_from_le_bytes length_subslice)
  moreover have "to_le_bytes (from_le_bytes (subslice buf 8 16) :: u64) = subslice buf 8 16"
    using f by (simp add: to_from_le_bytes length_subslice)
  ultimately have body: "frame_body (wr_seq r) (wr_payload r) = subslice buf 4 n"
    using f l by (simp add: frame_body_def subslice_join)
  have "to_le_bytes (crc (subslice buf 4 n)) = subslice buf 0 4"
    using f by (simp add: to_from_le_bytes length_subslice)
  then show "take n buf = frame crc (wr_seq r) (wr_payload r)"
    using body f by (simp add: frame_def subslice_join) (simp add: subslice_def)
  show "n = HEADER_SIZE + length (wr_payload r)" "n \<le> length buf"
    "\<And>p. prev = Some p \<Longrightarrow> p < wr_seq r" "length (wr_payload r) \<le> MAX_PAYLOAD_SIZE"
    using f l by (simp_all add: HEADER_SIZE_def)
qed

section \<open>Properties\<close>

text \<open>
  Round trip of a log record: whenever \<open>encode_record\<close> succeeds on a record that is not the
  empty record numbered 0, \<open>decode_record\<close> on the buffer it filled returns exactly the sequence
  number and payload given, and reports the same length, for every checksum function and every
  previous sequence number below the record's.
\<close>

theorem record_roundtrip:
  assumes "encode_record crc seq payload out = Inr (n, out')"
    and "seq \<noteq> 0 \<or> payload \<noteq> []" and "\<And>p. prev = Some p \<Longrightarrow> p < seq"
  shows "decode_record crc out' prev = Inr (\<lparr>wr_seq = seq, wr_payload = payload\<rparr>, n) \<and>
    length out' = length out"
proof -
  have l: "length payload \<le> MAX_PAYLOAD_SIZE" "HEADER_SIZE + length payload \<le> length out"
    using assms(1) by (auto simp: encode_record_def Let_def split: if_splits)
  with assms(1) have "n = HEADER_SIZE + length payload"
    "out' = frame crc seq payload @ drop (HEADER_SIZE + length payload) out"
    by (auto simp: encode_record_frame)
  then show ?thesis
    using decode_frame[OF assms(2) l(1) assms(3)] l by auto
qed

theorem record_roundtrip_witness:
  "encode_record (\<lambda>bs. of_nat (length bs)) 42 [104, 105] [7,7,7,7,7,7,7,7,7,7,7,7,7,7,7,7,7,7,7,7] =
     Inr (18, [14, 0, 0, 0, 2, 0, 0, 0, 42, 0, 0, 0, 0, 0, 0, 0, 104, 105, 7, 7]) \<and>
   decode_record (\<lambda>bs. of_nat (length bs))
     [14, 0, 0, 0, 2, 0, 0, 0, 42, 0, 0, 0, 0, 0, 0, 0, 104, 105, 7, 7] (Some 41) =
     Inr (\<lparr>wr_seq = 42, wr_payload = [104, 105]\<rparr>, 18)"
proof -
  have e: "encode_record (\<lambda>bs. of_nat (length bs)) 42 [104, 105] [7,7,7,7,7,7,7,7,7,7,7,7,7,7,7,7,7,7,7,7] =
     Inr (18, [14, 0, 0, 0, 2, 0, 0, 0, 42, 0, 0, 0, 0, 0, 0, 0, 104, 105, 7, 7])"
    by (simp add: encode_record_frame frame_def frame_body_def HEADER_SIZE_def MAX_PAYLOAD_SIZE_def
        byte_eval)
  show ?thesis using e record_roundtrip[OF e, of "Some 41"] by simp
qed

text \<open>
  Corruption is detected: if the bytes after the checksum field of a stored record are
  changed without touching its length field, into bytes the checksum tells apart from the
  original ones, \<open>decode_record\<close> refuses the record with \<open>CorruptCrc\<close>.
\<close>

theorem corruption_detected:
  assumes "length payload \<le> MAX_PAYLOAD_SIZE" "length payload' = length payload"
    and "seq' \<noteq> 0 \<or> payload' \<noteq> []"
    and "crc (frame_body seq' payload') \<noteq> crc (frame_body seq payload)"
  shows "decode_record crc
      (to_le_bytes (crc (frame_body seq payload)) @ frame_body seq' payload' @ rest) prev =
    Inl (CorruptCrc (crc (frame_body seq' payload')) (crc (frame_body seq payload)) seq')"
proof -
  let ?crc = "\<lambda>_. crc (frame_body seq payload)"
  let ?buf = "frame ?crc seq' payload' @ rest"
  have "?buf = to_le_bytes (crc (frame_body seq payload)) @ frame_body seq' payload' @ rest"
    by (simp add: frame_def)
  moreover have "\<not> list_all (\<lambda>b. b = 0) (take HEADER_SIZE ?buf)"
    using frame_not_end[OF assms(3)] assms(1,2) by simp
  ultimately show ?thesis
    using assms frame_header[of ?crc seq' payload' rest]
    by (simp add: decode_record_def Let_def HEADER_SIZE_def)
qed

theorem corruption_detected_witness:
  "decode_record (\<lambda>bs. ucast (foldr (XOR) bs 0))
     [21, 0, 0, 0, 4, 0, 0, 0, 1, 0, 0, 0, 0, 0, 0, 0, 100, 97, 139, 97] None =
   Inl (CorruptCrc 234 21 1)"
  using corruption_detected[of "[100, 97, 116, 97]" "[100, 97, 139, 97]" 1
      "\<lambda>bs. ucast (foldr (XOR) bs 0)" 1 "[]" None]
  by (simp add: frame_body_def MAX_PAYLOAD_SIZE_def byte_eval)

end
