(* ===== verification/Wal_Writer.thy ===== *)
theory Wal_Writer
  imports Wal_Record
begin

text \<open>
  The sector-aligned staging buffer and the direct-I/O append path of the log,
  \<^verbatim>\<open>src/tier3_storage/src/wal/aligned_buffer.rs\<close> and \<^verbatim>\<open>src/tier3_storage/src/wal/writer.rs\<close>.
  The file behind the descriptor is its contents, a byte list. What the kernel answers to
  \<open>open\<close>, \<open>pwrite\<close>, \<open>fsync\<close> and \<open>ftruncate\<close> is an argument of the operation that makes the
  call: an errno, or for \<open>pwrite\<close> the number of bytes it took.
\<close>

section \<open>The aligned buffer\<close>

definition SECTOR_SIZE :: nat where
  "SECTOR_SIZE = 4096"

definition next_multiple_of :: "nat \<Rightarrow> nat \<Rightarrow> nat" where
  "next_multiple_of n m = (n + m - 1) div m * m"

definition isize_max :: nat where
  "isize_max = 2 ^ 63 - 1"

record aligned_buffer =
  ab_bytes :: bytes
  ab_align :: nat

text \<open>
  \<open>Layout::from_size_align\<close> refuses sizes whose rounding up exceeds \<open>isize::MAX\<close>, and the
  \<open>expect\<close> turns that into a panic. A successful allocation is zeroed. The rounding itself wraps
  around at 64 bits.
\<close>

definition aligned_new :: "nat \<Rightarrow> aligned_buffer result" where
  "aligned_new sz =
     (let aligned_len = max (next_multiple_of sz SECTOR_SIZE mod 2 ^ 64) SECTOR_SIZE in
      if next_multiple_of aligned_len SECTOR_SIZE > isize_max then Inl Panic
      else Inr \<lparr>ab_bytes = replicate aligned_len 0, ab_align = SECTOR_SIZE\<rparr>)"

definition aligned_len :: "aligned_buffer \<Rightarrow> nat" where
  "aligned_len b = length (ab_bytes b)"

definition aligned_zero :: "aligned_buffer \<Rightarrow> aligned_buffer" where
  "aligned_zero b = b\<lparr>ab_bytes := replicate (length (ab_bytes b)) 0\<rparr>"

section \<open>The writer\<close>

definition STAGING_SIZE :: nat where
  "STAGING_SIZE = 1024 * 1024"

record wal_writer =
  wal_file :: bytes
  sector_offset :: nat
  tail_offset :: nat
  staging :: aligned_buffer
  next_seq :: u64

text \<open>
  \<open>open(2)\<close> with \<open>O_CREAT\<close> and no \<open>O_TRUNC\<close>: it fails with an errno or gives the file as it is
  on disk. The writer always starts at offset 0 with sequence number 1.
\<close>

definition wal_open :: "bytes \<Rightarrow> nat + bytes \<Rightarrow> wal_writer result" where
  "wal_open path os =
     (if 0 \<in> set path then Inl (IoError InvalidInput)
      else case os of
        Inl errno \<Rightarrow> Inl (IoError (OsError errno))
      | Inr contents \<Rightarrow> (case aligned_new STAGING_SIZE of
            Inl f \<Rightarrow> Inl f
          | Inr buf \<Rightarrow> Inr \<lparr>wal_file = contents, sector_offset = 0, tail_offset = 0,
                            staging = buf, next_seq = 1\<rparr>))"

datatype pwrite_result = PwriteErr nat | Pwritten nat

text \<open>\<open>pwrite(fd, buf, len, off)\<close> on the contents of the file: a hole reads as zeros.\<close>

definition pwrite_file :: "bytes \<Rightarrow> nat \<Rightarrow> bytes \<Rightarrow> bytes" where
  "pwrite_file file off buf =
     take off (file @ replicate (off - length file) 0) @ buf @ drop (off + length buf) file"

definition fill_zero :: "bytes \<Rightarrow> nat \<Rightarrow> nat \<Rightarrow> bytes" where
  "fill_zero bs a b = copy_into bs a (replicate (b - a) 0)"

abbreviation staged :: "wal_writer \<Rightarrow> bytes" where
  "staged w \<equiv> ab_bytes (staging w)"

abbreviation set_staged :: "bytes \<Rightarrow> wal_writer \<Rightarrow> wal_writer" where
  "set_staged bs w \<equiv> w\<lparr>staging := (staging w)\<lparr>ab_bytes := bs\<rparr>\<rparr>"

text \<open>
  The part of \<open>append\<close> after the record is encoded: pad to a sector, write from the start of the
  current sector, then keep the last sector as the new head of the staging buffer.
\<close>

definition append_write :: "pwrite_result \<Rightarrow> u64 \<Rightarrow> nat \<Rightarrow> wal_writer \<Rightarrow> (wal_error + u64) \<times> wal_writer" where
  "append_write os seq new_tail w =
     (let
        write_end_aligned = next_multiple_of new_tail SECTOR_SIZE;
        w = set_staged (fill_zero (staged w) new_tail write_end_aligned) w
      in case os of
        PwriteErr errno \<Rightarrow> (Inl (WalIo (OsError errno)), w)
      | Pwritten written \<Rightarrow>
          (let w = w\<lparr>wal_file := pwrite_file (wal_file w) (sector_offset w)
                                   (take written (take write_end_aligned (staged w)))\<rparr> in
           if written \<noteq> write_end_aligned then (Inl (WalIo WriteZero), w)
           else let
             full_sectors = write_end_aligned div SECTOR_SIZE;
             last_sector_start = (full_sectors - 1) * SECTOR_SIZE;
             w = (if last_sector_start > 0
                  then set_staged
                    (fill_zero
                      (copy_into (staged w) 0
                        (subslice (staged w) last_sector_start (last_sector_start + SECTOR_SIZE)))
                      SECTOR_SIZE write_end_aligned) w
                  else w)
           in (Inr seq, w\<lparr>tail_offset := new_tail mod SECTOR_SIZE,
                          sector_offset := sector_offset w + last_sector_start\<rparr>)))"

definition wal_append ::
    "(bytes \<Rightarrow> u32) \<Rightarrow> pwrite_result \<Rightarrow> bytes \<Rightarrow> wal_writer \<Rightarrow> (wal_error + u64) \<times> wal_writer" where
  "wal_append crc os payload w =
     (let record_size = HEADER_SIZE + length payload in
      if record_size > STAGING_SIZE then (Inl (PayloadTooLarge (length payload)), w)
      else let
        seq = next_seq w;
        w = w\<lparr>next_seq := seq + 1\<rparr>;
        write_start = tail_offset w
      in if write_start + record_size > STAGING_SIZE
         then (Inl (PayloadTooLarge (length payload)), w)
      else case encode_record crc seq payload
                  (subslice (staged w) write_start (write_start + record_size)) of
          Inl e \<Rightarrow> (Inl e, w)
        | Inr (_, out) \<Rightarrow>
            append_write os seq (write_start + record_size)
              (set_staged (copy_into (staged w) write_start out) w))"

definition wal_sync :: "nat option \<Rightarrow> wal_writer \<Rightarrow> unit result" where
  "wal_sync os w = (case os of Some errno \<Rightarrow> Inl (IoError (OsError errno)) | None \<Rightarrow> Inr ())"

definition logical_end :: "wal_writer \<Rightarrow> nat" where
  "logical_end w = sector_offset w + tail_offset w"

text \<open>\<open>ftruncate\<close> shortens the file, or extends it with zeros.\<close>

definition ftruncate_file :: "bytes \<Rightarrow> nat \<Rightarrow> bytes" where
  "ftruncate_file file n = take n (file @ replicate (n - length file) 0)"

definition truncate_to_logical_end :: "nat option \<Rightarrow> wal_writer \<Rightarrow> unit result \<times> wal_writer" where
  "truncate_to_logical_end os w =
     (case os of
        Some errno \<Rightarrow> (Inl (IoError (OsError errno)), w)
      | None \<Rightarrow> (Inr (), w\<lparr>wal_file := ftruncate_file (wal_file w) (logical_end w)\<rparr>))"

text \<open>A run of appends, each with its kernel answer, as a caller that stops at the first error.\<close>

fun wal_append_all ::
    "(bytes \<Rightarrow> u32) \<Rightarrow> (pwrite_result \<times> bytes) list \<Rightarrow> wal_writer \<Rightarrow> (wal_error + u64 list) \<times> wal_writer" where
  "wal_append_all crc [] w = (Inr [], w)"
| "wal_append_all crc ((os, p) # ps) w =
     (case wal_append crc os p w of
        (Inl e, w') \<Rightarrow> (Inl e, w')
      | (Inr seq, w') \<Rightarrow> (case wal_append_all crc ps w' of
            (Inl e, w'') \<Rightarrow> (Inl e, w'')
          | (Inr seqs, w'') \<Rightarrow> (Inr (seq # seqs), w'')))"

section \<open>Alignment\<close>

lemma next_multiple_of_props:
  assumes "0 < m"
  shows "m dvd next_multiple_of n m" "n \<le> next_multiple_of n m" "next_multiple_of n m < n + m"
proof -
  show "m dvd next_multiple_of n m" by (simp add: next_multiple_of_def)
  have "(n + m - 1) div m * m + (n + m - 1) mod m = n + m - 1" by simp
  moreover have "(n + m - 1) mod m < m" using assms by simp
  ultimately show "n \<le> next_multiple_of n m" "next_multiple_of n m < n + m"
    unfolding next_multiple_of_def using assms by linarith+
qed

lemma next_multiple_of_unique:
  assumes "0 < m" "m dvd q" "n \<le> q" "q < n + m"
  shows "next_multiple_of n m = q"
proof -
  from assms(2) obtain k where k: "q = k * m" by (metis dvdE mult.commute)
  have "(n + m - 1) div m = k"
    by (rule div_nat_eqI) (use assms k in \<open>auto simp: mult.commute\<close>)
  then show ?thesis by (simp add: next_multiple_of_def k)
qed

lemma next_multiple_of_aligned: "0 < m \<Longrightarrow> n mod m = 0 \<Longrightarrow> next_multiple_of n m = n"
  by (rule next_multiple_of_unique) (auto simp: mod_eq_0_iff_dvd)

lemma next_multiple_of_unaligned:
  assumes "0 < m" "n mod m \<noteq> 0"
  shows "next_multiple_of n m = (n div m + 1) * m"
proof (rule next_multiple_of_unique)
  have "n = n div m * m + n mod m" "n mod m < m" "(n div m + 1) * m = n div m * m + m"
    using assms by auto
  then show "n \<le> (n div m + 1) * m" "(n div m + 1) * m < n + m" using assms(2) by linarith+
qed (use assms in auto)

section \<open>The log the writer maintains\<close>

text \<open>
  \<open>wal_holds L w\<close>: the file is the log \<open>L\<close> followed by zeros, the logical end is the end of
  \<open>L\<close>, and the staging buffer starts with the unfinished last sector of \<open>L\<close>.
\<close>

definition wal_shape :: "wal_writer \<Rightarrow> bool" where
  "wal_shape w \<longleftrightarrow> length (staged w) = STAGING_SIZE \<and> SECTOR_SIZE dvd sector_offset w \<and>
     tail_offset w < SECTOR_SIZE"

definition wal_holds :: "bytes \<Rightarrow> wal_writer \<Rightarrow> bool" where
  "wal_holds L w \<longleftrightarrow> wal_shape w \<and> logical_end w = length L \<and>
     take (tail_offset w) (staged w) = drop (sector_offset w) L \<and>
     (\<exists>k. wal_file w = L @ replicate k 0)"

lemma sector_pos [simp]: "0 < SECTOR_SIZE"
  by (simp add: SECTOR_SIZE_def)

lemma sector_dvd_staging: "SECTOR_SIZE dvd STAGING_SIZE"
  by (simp add: SECTOR_SIZE_def STAGING_SIZE_def)

lemma aligned_le_staging:
  assumes "n \<le> STAGING_SIZE"
  shows "next_multiple_of n SECTOR_SIZE \<le> STAGING_SIZE"
proof (rule ccontr)
  assume "\<not> ?thesis"
  then have lt: "STAGING_SIZE < next_multiple_of n SECTOR_SIZE" by simp
  have "SECTOR_SIZE dvd next_multiple_of n SECTOR_SIZE - STAGING_SIZE"
    using next_multiple_of_props(1)[of SECTOR_SIZE n] sector_dvd_staging by (simp add: dvd_diff_nat)
  then have "SECTOR_SIZE \<le> next_multiple_of n SECTOR_SIZE - STAGING_SIZE"
    using lt by (auto dest: dvd_imp_le)
  then show False using next_multiple_of_props(3)[of SECTOR_SIZE n] assms lt by simp
qed

lemma aligned_new_staging:
  "aligned_new STAGING_SIZE = Inr \<lparr>ab_bytes = replicate STAGING_SIZE 0, ab_align = SECTOR_SIZE\<rparr>"
  by (simp add: aligned_new_def next_multiple_of_def STAGING_SIZE_def SECTOR_SIZE_def isize_max_def
      Let_def)

lemma wal_open_fresh:
  assumes "0 \<notin> set path"
  shows "\<exists>w. wal_open path (Inr []) = Inr w \<and> wal_holds [] w \<and> next_seq w = 1"
  using assms
  by (auto simp: wal_open_def aligned_new_staging wal_holds_def wal_shape_def logical_end_def)

lemma length_fill_zero [simp]: "b \<le> length bs \<Longrightarrow> a \<le> b \<Longrightarrow> length (fill_zero bs a b) = length bs"
  by (simp add: fill_zero_def)

text \<open>The staging buffer up to the aligned end, once the record is encoded and the rest zeroed.\<close>

lemma staged_image:
  assumes "t \<le> length st" "n = t + length fr" "e \<le> length st" "n \<le> e"
  shows "take e (fill_zero (copy_into st t fr) n e) = take t st @ fr @ replicate (e - n) 0"
proof -
  have n: "n \<le> length (copy_into st t fr)" using assms by (simp add: length_copy_into)
  have "take e (fill_zero (copy_into st t fr) n e) = take n (copy_into st t fr) @ replicate (e - n) 0"
    unfolding fill_zero_def using assms n by (intro take_copy_into_end) simp_all
  also have "take n (copy_into st t fr) = take t st @ fr"
    using assms by (intro take_copy_into_end) simp_all
  finally show ?thesis by simp
qed

text \<open>Moving the last sector of the image to the front keeps the size and gives that sector.\<close>

lemma slide_sector:
  assumes "l + s = e" "e \<le> length st" "0 < l"
  shows "length (fill_zero (copy_into st 0 (subslice st l (l + s))) s e) = length st"
    and "take s (fill_zero (copy_into st 0 (subslice st l (l + s))) s e) = take s (drop l (take e st))"
proof -
  have sl: "length (subslice st l (l + s)) = s" using assms by (simp add: length_subslice)
  then have len: "length (copy_into st 0 (subslice st l (l + s))) = length st"
    using assms by (intro length_copy_into) simp
  then show "length (fill_zero (copy_into st 0 (subslice st l (l + s))) s e) = length st"
    using assms by simp
  have "take s (fill_zero (copy_into st 0 (subslice st l (l + s))) s e) =
      take s (copy_into st 0 (subslice st l (l + s)))"
    unfolding fill_zero_def using assms len by (intro take_copy_into) simp_all
  also have "\<dots> = subslice st l (l + s)"
    using sl take_copy_into_end[of 0 st s "subslice st l (l + s)"] by simp
  also have "\<dots> = take s (drop l (take e st))"
    using assms by (auto simp: subslice_def drop_take)
  finally show "take s (fill_zero (copy_into st 0 (subslice st l (l + s))) s e) =
      take s (drop l (take e st))" .
qed

text \<open>
  The whole of \<open>append\<close> when it succeeds, in terms of the image written: the aligned bytes from
  the start of the current sector.
\<close>

definition append_image :: "(bytes \<Rightarrow> u32) \<Rightarrow> bytes \<Rightarrow> wal_writer \<Rightarrow> bytes" where
  "append_image crc payload w =
     (let n = tail_offset w + HEADER_SIZE + length payload in
      take (tail_offset w) (staged w) @ frame crc (next_seq w) payload @
      replicate (next_multiple_of n SECTOR_SIZE - n) 0)"

lemma wal_append_success:
  assumes "wal_shape w" "tail_offset w + HEADER_SIZE + length payload \<le> STAGING_SIZE"
    and n: "n = tail_offset w + HEADER_SIZE + length payload"
    and e: "e = next_multiple_of n SECTOR_SIZE"
  shows "\<exists>w'. wal_append crc (Pwritten e) payload w = (Inr (next_seq w), w') \<and>
    wal_file w' = pwrite_file (wal_file w) (sector_offset w) (append_image crc payload w) \<and>
    next_seq w' = next_seq w + 1 \<and> length (staged w') = STAGING_SIZE \<and>
    tail_offset w' = n mod SECTOR_SIZE \<and>
    sector_offset w' = sector_offset w + (e div SECTOR_SIZE - 1) * SECTOR_SIZE \<and>
    take SECTOR_SIZE (staged w') =
      take SECTOR_SIZE (drop ((e div SECTOR_SIZE - 1) * SECTOR_SIZE) (append_image crc payload w))"
proof -
  have len: "length (staged w) = STAGING_SIZE" using assms(1) by (simp add: wal_shape_def)
  have en: "e \<le> STAGING_SIZE" "n \<le> e" "SECTOR_SIZE dvd e"
    using aligned_le_staging[of n] next_multiple_of_props[of SECTOR_SIZE n] assms(2) n e by auto
  have maxp: "length payload \<le> MAX_PAYLOAD_SIZE"
    using assms(2) by (simp add: MAX_PAYLOAD_SIZE_def STAGING_SIZE_def HEADER_SIZE_def)
  let ?fr = "frame crc (next_seq w) payload"
  let ?sub = "subslice (staged w) (tail_offset w) (tail_offset w + (HEADER_SIZE + length payload))"
  have sub: "length ?sub = HEADER_SIZE + length payload"
    using assms(2) len by (simp add: length_subslice)
  have enc: "encode_record crc (next_seq w) payload ?sub = Inr (HEADER_SIZE + length payload, ?fr)"
    using encode_record_frame[OF maxp, of ?sub crc "next_seq w"] sub by simp
  define st where "st = fill_zero (copy_into (staged w) (tail_offset w) ?fr) n e"
  have ci: "length (copy_into (staged w) (tail_offset w) ?fr) = STAGING_SIZE"
    using assms(2) len by simp
  have stl: "length st = STAGING_SIZE" unfolding st_def using ci en by simp
  have img: "take e st = append_image crc payload w"
    unfolding st_def append_image_def Let_def
    using staged_image[of "tail_offset w" "staged w" n ?fr e] assms(2) len en n e by simp
  define l where "l = (e div SECTOR_SIZE - 1) * SECTOR_SIZE"
  have epos: "0 < e" using en n by (simp add: HEADER_SIZE_def)
  then have "0 < e div SECTOR_SIZE" using en(3) by (simp add: dvd_imp_le div_greater_zero_iff)
  then have le: "l + SECTOR_SIZE = e"
    using en(3) mult_eq_if[of "e div SECTOR_SIZE" SECTOR_SIZE] by (simp add: l_def add.commute)
  define st' where "st' = (if 0 < l then fill_zero (copy_into st 0 (subslice st l (l + SECTOR_SIZE))) SECTOR_SIZE e else st)"
  have st'l: "length st' = STAGING_SIZE" and st'h: "take SECTOR_SIZE st' = take SECTOR_SIZE (drop l (take e st))"
    using slide_sector[OF le] le en stl by (auto simp: st'_def)
  have "wal_append crc (Pwritten e) payload w =
    (Inr (next_seq w), w\<lparr>next_seq := next_seq w + 1, staging := (staging w)\<lparr>ab_bytes := st'\<rparr>,
       wal_file := pwrite_file (wal_file w) (sector_offset w) (take e st),
       tail_offset := n mod SECTOR_SIZE, sector_offset := sector_offset w + l\<rparr>)"
    using assms(2) enc n e
    by (auto simp: wal_append_def append_write_def Let_def st_def st'_def l_def add.assoc)
  then show ?thesis using img st'l st'h by (simp add: l_def)
qed

lemma pwrite_file_image:
  assumes "so \<le> length file" "take so file = take so L" "so \<le> length L"
    and "drop (so + length img) file = replicate k 0" "img = drop so L @ fr @ replicate z 0"
  shows "\<exists>k'. pwrite_file file so img = (L @ fr) @ replicate k' 0"
proof -
  have "pwrite_file file so img = take so L @ img @ replicate k 0"
    using assms(1-4) by (auto simp: pwrite_file_def)
  also have "\<dots> = (L @ fr) @ replicate (z + k) 0"
    unfolding assms(5) by (simp add: replicate_add)
  finally show ?thesis by blast
qed

lemma tail_of_image:
  assumes "take s st = take s (drop (n div s * s) img)" "img = xs @ zs" "n = length xs" "0 < s"
  shows "take (n mod s) st = drop (n div s * s) xs"
proof -
  have m: "n mod s \<le> s" "n = n div s * s + n mod s" using assms(4) by (simp_all add: less_imp_le)
  have "take (n mod s) st = take (n mod s) (take s st)" using m by (simp add: min_def)
  also have "\<dots> = take (n mod s) (drop (n div s * s) (xs @ zs))"
    unfolding assms(1,2) using m by (simp add: min_def)
  also have "\<dots> = drop (n div s * s) (take (n div s * s + n mod s) (xs @ zs))"
    by (simp only: take_drop add.commute)
  also have "\<dots> = drop (n div s * s) (take n (xs @ zs))" using m(2) by (simp only:)
  finally show ?thesis using assms(3) by simp
qed

text \<open>
  A record that does not end on a sector boundary is added to the log \<open>L\<close>, whatever the file
  holds between the start of the current sector and the end of the bytes written.
\<close>

lemma wal_append_core:
  assumes shape: "wal_shape w" and le: "logical_end w = length L"
    and head: "take (tail_offset w) (staged w) = drop (sector_offset w) L"
    and disk: "sector_offset w \<le> length (wal_file w)" "take (sector_offset w) (wal_file w) = take (sector_offset w) L"
      "\<exists>k. drop (sector_offset w + next_multiple_of n SECTOR_SIZE) (wal_file w) = replicate k 0"
    and fits: "tail_offset w + HEADER_SIZE + length payload \<le> STAGING_SIZE"
    and n: "n = tail_offset w + HEADER_SIZE + length payload" and "n mod SECTOR_SIZE \<noteq> 0"
  shows "\<exists>w'. wal_append crc (Pwritten (next_multiple_of n SECTOR_SIZE)) payload w = (Inr (next_seq w), w') \<and>
    wal_holds (L @ frame crc (next_seq w) payload) w' \<and> next_seq w' = next_seq w + 1"
proof -
  let ?e = "next_multiple_of n SECTOR_SIZE" and ?fr = "frame crc (next_seq w) payload"
  define so where "so = sector_offset w"
  have so: "so + tail_offset w = length L" using le by (simp add: logical_end_def so_def)
  define z where "z = ?e - n"
  have ne: "n \<le> ?e" by (simp add: next_multiple_of_props)
  have e: "?e = (n div SECTOR_SIZE + 1) * SECTOR_SIZE" using assms(9) by (simp add: next_multiple_of_unaligned)
  then have l: "(?e div SECTOR_SIZE - 1) * SECTOR_SIZE = n div SECTOR_SIZE * SECTOR_SIZE" by simp
  have img: "append_image crc payload w = drop so L @ ?fr @ replicate z 0"
    using head n by (simp add: append_image_def Let_def z_def so_def)
  obtain w' where w': "wal_append crc (Pwritten ?e) payload w = (Inr (next_seq w), w')"
    "wal_file w' = pwrite_file (wal_file w) so (append_image crc payload w)"
    "next_seq w' = next_seq w + 1" "length (staged w') = STAGING_SIZE" "tail_offset w' = n mod SECTOR_SIZE"
    "sector_offset w' = so + n div SECTOR_SIZE * SECTOR_SIZE"
    "take SECTOR_SIZE (staged w') = take SECTOR_SIZE (drop (n div SECTOR_SIZE * SECTOR_SIZE) (append_image crc payload w))"
    using wal_append_success[OF shape fits n refl, of crc] l unfolding so_def by auto
  have nl: "n = length (drop so L @ ?fr)" using n so by auto
  then have "length (append_image crc payload w) = ?e" unfolding img using ne by (simp add: z_def)
  then have disk': "\<exists>k'. wal_file w' = (L @ ?fr) @ replicate k' 0"
    using pwrite_file_image[of so "wal_file w" L "append_image crc payload w"] img disk so w'(2)
    by (auto simp: so_def)
  have "take (n mod SECTOR_SIZE) (staged w') = drop (n div SECTOR_SIZE * SECTOR_SIZE) (drop so L @ ?fr)"
    using tail_of_image[OF w'(7) img[folded append_assoc] nl] by simp
  then have "take (n mod SECTOR_SIZE) (staged w') = drop (so + n div SECTOR_SIZE * SECTOR_SIZE) (L @ ?fr)"
    using so by (simp add: add.commute)
  moreover have "so + n div SECTOR_SIZE * SECTOR_SIZE + n mod SECTOR_SIZE = length (L @ ?fr)"
    using so n by simp
  ultimately have "wal_holds (L @ ?fr) w'"
    using disk' shape w'(4,5,6) by (simp add: wal_holds_def wal_shape_def logical_end_def so_def)
  then show ?thesis using w' by blast
qed

lemma wal_append_holds:
  assumes w: "wal_holds L w" and fits: "tail_offset w + HEADER_SIZE + length payload \<le> STAGING_SIZE"
    and n: "n = tail_offset w + HEADER_SIZE + length payload" and "n mod SECTOR_SIZE \<noteq> 0"
  shows "\<exists>w'. wal_append crc (Pwritten (next_multiple_of n SECTOR_SIZE)) payload w = (Inr (next_seq w), w') \<and>
    wal_holds (L @ frame crc (next_seq w) payload) w' \<and> next_seq w' = next_seq w + 1"
proof -
  obtain k where k: "wal_file w = L @ replicate k 0" using w by (auto simp: wal_holds_def)
  have l: "length L \<le> sector_offset w + next_multiple_of n SECTOR_SIZE"
    using w n next_multiple_of_props(2)[of SECTOR_SIZE n] by (simp add: wal_holds_def logical_end_def)
  show ?thesis
    by (rule wal_append_core[OF _ _ _ _ _ _ fits n assms(4)])
      (use w k l in \<open>auto simp: wal_holds_def logical_end_def\<close>)
qed

text \<open>
  A record that ends exactly on a sector boundary reaches the file, but the writer's position
  goes back to the start of the sector it has just filled.
\<close>

lemma wal_append_boundary:
  assumes w: "wal_holds L w" and fits: "tail_offset w + HEADER_SIZE + length payload \<le> STAGING_SIZE"
    and n: "n = tail_offset w + HEADER_SIZE + length payload" and "n mod SECTOR_SIZE = 0"
  shows "\<exists>w' k. wal_append crc (Pwritten n) payload w = (Inr (next_seq w), w') \<and>
    wal_file w' = (L @ frame crc (next_seq w) payload) @ replicate k 0 \<and> wal_shape w' \<and>
    tail_offset w' = 0 \<and> logical_end w' + SECTOR_SIZE = length L + HEADER_SIZE + length payload \<and>
    next_seq w' = next_seq w + 1"
proof -
  let ?fr = "frame crc (next_seq w) payload"
  have e: "next_multiple_of n SECTOR_SIZE = n" using assms(4) by (simp add: next_multiple_of_aligned)
  have shape: "wal_shape w" and so: "sector_offset w + tail_offset w = length L"
    and head: "take (tail_offset w) (staged w) = drop (sector_offset w) L"
    using w by (auto simp: wal_holds_def logical_end_def)
  obtain k where k: "wal_file w = L @ replicate k 0" using w by (auto simp: wal_holds_def)
  have img: "append_image crc payload w = drop (sector_offset w) L @ ?fr @ replicate 0 0"
    using head n e by (simp add: append_image_def Let_def)
  have il: "length (append_image crc payload w) = n" unfolding img using so n by auto
  have "0 < n" using n by (simp add: HEADER_SIZE_def)
  then have "0 < n div SECTOR_SIZE" using assms(4)
    by (simp add: dvd_imp_le div_greater_zero_iff mod_eq_0_iff_dvd)
  then have l: "(n div SECTOR_SIZE - 1) * SECTOR_SIZE + SECTOR_SIZE = n"
    using assms(4) mult_eq_if[of "n div SECTOR_SIZE" SECTOR_SIZE]
    by (simp add: add.commute mod_eq_0_iff_dvd)
  have "drop (sector_offset w + n) (wal_file w) = replicate (k - (sector_offset w + n - length L)) 0"
    using k so n by simp
  then obtain k' where f: "pwrite_file (wal_file w) (sector_offset w) (append_image crc payload w) = (L @ ?fr) @ replicate k' 0"
    using pwrite_file_image[OF _ _ _ _ img, of "wal_file w"] k so il by auto
  obtain w' where w': "wal_append crc (Pwritten n) payload w = (Inr (next_seq w), w')"
    "wal_file w' = (L @ ?fr) @ replicate k' 0"
    "next_seq w' = next_seq w + 1" "length (staged w') = STAGING_SIZE" "tail_offset w' = 0"
    "sector_offset w' = sector_offset w + (n div SECTOR_SIZE - 1) * SECTOR_SIZE"
    using wal_append_success[OF shape fits n refl, of crc] e f assms(4) by auto
  have "logical_end w' + SECTOR_SIZE = length L + HEADER_SIZE + length payload"
    using w'(5,6) l n so by (simp add: logical_end_def)
  moreover have "wal_shape w'" using shape w'(4,5,6) by (simp add: wal_shape_def)
  ultimately show ?thesis using w' by blast
qed

section \<open>Every branch\<close>

lemma append_write_len:
  assumes "wal_shape w" "new_tail \<le> STAGING_SIZE" "0 < new_tail"
  shows "wal_shape (snd (append_write os seq new_tail w)) \<and>
    (\<forall>e. fst (append_write os seq new_tail w) = Inl e \<longrightarrow>
       logical_end (snd (append_write os seq new_tail w)) = logical_end w)"
proof -
  let ?e = "next_multiple_of new_tail SECTOR_SIZE"
  let ?l = "(?e div SECTOR_SIZE - 1) * SECTOR_SIZE"
  have e: "?e \<le> STAGING_SIZE" "new_tail \<le> ?e" "SECTOR_SIZE dvd ?e"
    using aligned_le_staging[OF assms(2)] next_multiple_of_props[of SECTOR_SIZE new_tail] by auto
  then have "0 < ?e div SECTOR_SIZE" using assms(3) by (auto simp: dvd_imp_le div_greater_zero_iff)
  then have l: "?l + SECTOR_SIZE = ?e"
    using e(3) mult_eq_if[of "?e div SECTOR_SIZE" SECTOR_SIZE] by (simp add: add.commute)
  have st: "length (fill_zero (staged w) new_tail ?e) = STAGING_SIZE"
    using e assms(1) by (simp add: wal_shape_def)
  then have "0 < ?l \<Longrightarrow> length (fill_zero (copy_into (fill_zero (staged w) new_tail ?e) 0
      (subslice (fill_zero (staged w) new_tail ?e) ?l (?l + SECTOR_SIZE))) SECTOR_SIZE ?e) = STAGING_SIZE"
    using slide_sector(1)[OF l, of "fill_zero (staged w) new_tail ?e"] e by simp
  then show ?thesis
    using st assms(1)
    by (auto simp: append_write_def Let_def wal_shape_def logical_end_def split: pwrite_result.splits)
qed

lemma wal_append_shape:
  assumes "wal_shape w"
  shows "wal_shape (snd (wal_append crc os payload w)) \<and>
    (\<forall>e. fst (wal_append crc os payload w) = Inl e \<longrightarrow>
       logical_end (snd (wal_append crc os payload w)) = logical_end w)"
proof -
  let ?r = "HEADER_SIZE + length payload"
  let ?out = "subslice (staged w) (tail_offset w) (tail_offset w + ?r)"
  let ?w = "\<lambda>out. set_staged (copy_into (staged w) (tail_offset w) out) (w\<lparr>next_seq := next_seq w + 1\<rparr>)"
  show ?thesis
  proof (cases "tail_offset w + ?r \<le> STAGING_SIZE")
    case True
    then have out: "length ?out = ?r" using assms by (simp add: length_subslice wal_shape_def)
    have "length payload \<le> MAX_PAYLOAD_SIZE"
      using True by (simp add: MAX_PAYLOAD_SIZE_def STAGING_SIZE_def HEADER_SIZE_def)
    then have "encode_record crc (next_seq w) payload ?out = Inr (?r, frame crc (next_seq w) payload)"
      using encode_record_frame[of payload ?out crc "next_seq w"] out by simp
    then have eq: "wal_append crc os payload w =
        append_write os (next_seq w) (tail_offset w + ?r) (?w (frame crc (next_seq w) payload))"
      using True by (simp add: wal_append_def Let_def)
    have "wal_shape (?w (frame crc (next_seq w) payload))"
      using assms True by (simp add: wal_shape_def)
    from append_write_len[OF this True, of os "next_seq w"] show ?thesis
      unfolding eq by (simp add: HEADER_SIZE_def logical_end_def)
  next
    case False
    then show ?thesis using assms by (auto simp: wal_append_def Let_def wal_shape_def logical_end_def)
  qed
qed

section \<open>Properties\<close>

text \<open>
  C27. Every buffer \<open>AlignedBuffer::new\<close> returns is a whole number of sectors, at least one
  sector, and zeroed; up to a sector below the largest machine word it is at least the requested
  size and less than one sector more than needed, and above that the rounding wraps around and
  the buffer is one sector.
\<close>

theorem aligned_buffer_new:
  assumes "aligned_new sz = Inr b" "sz < 2 ^ 64"
  shows "SECTOR_SIZE dvd aligned_len b \<and> SECTOR_SIZE \<le> aligned_len b \<and> aligned_zero b = b \<and>
    (if sz \<le> 2 ^ 64 - SECTOR_SIZE then sz \<le> aligned_len b \<and> aligned_len b \<le> max SECTOR_SIZE (sz + SECTOR_SIZE - 1)
     else aligned_len b = SECTOR_SIZE)"
proof -
  define r where "r = next_multiple_of sz SECTOR_SIZE"
  have b: "b = \<lparr>ab_bytes = replicate (max (r mod 2 ^ 64) SECTOR_SIZE) 0, ab_align = SECTOR_SIZE\<rparr>"
    using assms(1) by (auto simp: aligned_new_def Let_def r_def split: if_splits)
  have r: "SECTOR_SIZE dvd r" "sz \<le> r" "r < sz + SECTOR_SIZE"
    using next_multiple_of_props[of SECTOR_SIZE sz] by (auto simp: r_def)
  have w: "SECTOR_SIZE dvd 2 ^ 64" by (simp add: SECTOR_SIZE_def)
  have "SECTOR_SIZE dvd aligned_len b" "SECTOR_SIZE \<le> aligned_len b" "aligned_zero b = b"
    using r(1) w by (auto simp: b aligned_len_def aligned_zero_def max_def dvd_mod)
  moreover have "sz \<le> aligned_len b \<and> aligned_len b \<le> max SECTOR_SIZE (sz + SECTOR_SIZE - 1)" if "sz \<le> 2 ^ 64 - SECTOR_SIZE"
  proof -
    have "r < 2 ^ 64" using r(3) that by (simp add: SECTOR_SIZE_def)
    then show ?thesis using r by (auto simp: b aligned_len_def max_def)
  qed
  moreover have "aligned_len b = SECTOR_SIZE" if "\<not> sz \<le> 2 ^ 64 - SECTOR_SIZE"
  proof -
    have "r = 2 ^ 64" unfolding r_def
      by (rule next_multiple_of_unique) (use that assms(2) in \<open>simp_all add: SECTOR_SIZE_def\<close>)
    then show ?thesis by (simp add: b aligned_len_def)
  qed
  ultimately show ?thesis by simp
qed

theorem aligned_buffer_new_witness:
  "\<exists>b. aligned_new 4097 = Inr b \<and> SECTOR_SIZE dvd aligned_len b \<and> 4097 \<le> aligned_len b \<and>
     aligned_len b \<le> 8192"
proof -
  obtain b where b: "aligned_new 4097 = Inr b"
    by (simp add: aligned_new_def next_multiple_of_def SECTOR_SIZE_def isize_max_def)
  show ?thesis using b aligned_buffer_new[OF b] by (auto simp: SECTOR_SIZE_def)
qed

text \<open>
  C26. Whatever the kernel answers, \<open>append\<close> keeps the writer well formed (staging buffer of
  full size, sector offset aligned, tail inside a sector), and an append that returns an error
  leaves the logical end of the log where it was.
\<close>

theorem append_keeps_shape:
  assumes "wal_shape w" "wal_append crc os payload w = (r, w')"
  shows "wal_shape w' \<and> (case r of Inl e \<Rightarrow> logical_end w' = logical_end w | Inr seq \<Rightarrow> True)"
  using wal_append_shape[OF assms(1), of crc os payload] assms(2) by (auto split: sum.splits)

theorem append_keeps_shape_witness:
  "\<exists>w r w'. wal_open [119] (Inr [1, 2, 3]) = Inr w \<and>
     wal_append (\<lambda>_. 0) (PwriteErr 28) [7] w = (r, w') \<and> wal_shape w' \<and>
     (case r of Inl e \<Rightarrow> logical_end w' = logical_end w | Inr seq \<Rightarrow> True)"
proof -
  obtain w where w: "wal_open [119] (Inr [1, 2, 3]) = Inr w" "wal_shape w"
    by (auto simp: wal_open_def aligned_new_staging wal_shape_def)
  obtain r w' where a: "wal_append (\<lambda>_. 0) (PwriteErr 28) [7] w = (r, w')" by fastforce
  show ?thesis using w(1) a append_keeps_shape[OF w(2) a] by blast
qed

end
