(* ===== verification/Wal_Recovery.thy ===== *)
theory Wal_Recovery
  imports Wal_Writer
begin

text \<open>
  The start-up scanner of the log, \<^verbatim>\<open>src/tier3_storage/src/wal/recovery.rs\<close>, and what writing and
  recovering do together: everything appended comes back, a cut or damaged log gives back the
  records before the damage, and the one pattern of appends that loses data.
\<close>

section \<open>The scanner\<close>

record scanner =
  sc_buf :: bytes
  sc_pos :: nat
  sc_prev_seq :: "u64 option"
  sc_last_valid_end :: nat

text \<open>\<open>open\<close> reads the whole file; the argument is what the file system answers.\<close>

definition scanner_open :: "io_kind + bytes \<Rightarrow> scanner result" where
  "scanner_open os =
     (case os of
        Inl e \<Rightarrow> Inl (IoError e)
      | Inr buf \<Rightarrow> Inr \<lparr>sc_buf = buf, sc_pos = 0, sc_prev_seq = None, sc_last_valid_end = 0\<rparr>)"

definition next_record :: "(bytes \<Rightarrow> u32) \<Rightarrow> scanner \<Rightarrow> wal_record option \<times> scanner" where
  "next_record crc s =
     (if sc_pos s + HEADER_SIZE > length (sc_buf s) then (None, s)
      else case decode_record crc (drop (sc_pos s) (sc_buf s)) (sc_prev_seq s) of
          Inr (r, consumed) \<Rightarrow>
            (Some r, s\<lparr>sc_pos := sc_pos s + consumed, sc_prev_seq := Some (wr_seq r),
                       sc_last_valid_end := sc_pos s + consumed\<rparr>)
        | Inl _ \<Rightarrow> (None, s))"

lemma next_record_progress:
  assumes "next_record crc s = (Some r, s')"
  shows "sc_buf s' = sc_buf s" "sc_pos s < sc_pos s'" "sc_pos s' \<le> length (sc_buf s)"
proof -
  from assms obtain n where d: "decode_record crc (drop (sc_pos s) (sc_buf s)) (sc_prev_seq s) = Inr (r, n)"
    and s': "s' = s\<lparr>sc_pos := sc_pos s + n, sc_prev_seq := Some (wr_seq r), sc_last_valid_end := sc_pos s + n\<rparr>"
    by (auto simp: next_record_def split: if_splits sum.splits)
  note decode_record_sound(1,2)[OF d]
  with s' show "sc_buf s' = sc_buf s" "sc_pos s < sc_pos s'" "sc_pos s' \<le> length (sc_buf s)"
    using assms by (auto simp: HEADER_SIZE_def next_record_def split: if_splits)
qed

text \<open>The loop of \<open>replay_all\<close>: every record found moves the position forward, so it ends.\<close>

function replay_loop :: "(bytes \<Rightarrow> u32) \<Rightarrow> scanner \<Rightarrow> wal_record list \<times> scanner" where
  "replay_loop crc s =
     (case next_record crc s of
        (None, s') \<Rightarrow> ([], s')
      | (Some r, s') \<Rightarrow> (let (rs, s'') = replay_loop crc s' in (r # rs, s'')))"
  by pat_completeness auto
termination
proof (relation "measure (\<lambda>(crc, s). length (sc_buf s) - sc_pos s)", goal_cases)
  case (2 crc s x y a)
  then have "next_record crc s = (Some a, y)" by simp
  from next_record_progress[OF this] show ?case by simp
qed simp

declare replay_loop.simps [simp del]

definition replay_all :: "(bytes \<Rightarrow> u32) \<Rightarrow> scanner \<Rightarrow> wal_record list \<times> nat" where
  "replay_all crc s = (let (rs, s') = replay_loop crc s in (rs, sc_last_valid_end s'))"

definition truncation_offset :: "scanner \<Rightarrow> nat" where
  "truncation_offset s = sc_last_valid_end s"

text \<open>Opening a file and replaying it, as the tests and a recovering caller do.\<close>

definition recover_file :: "(bytes \<Rightarrow> u32) \<Rightarrow> bytes \<Rightarrow> wal_record list \<times> nat" where
  "recover_file crc file =
     replay_all crc \<lparr>sc_buf = file, sc_pos = 0, sc_prev_seq = None, sc_last_valid_end = 0\<rparr>"

section \<open>The log as a list of records\<close>

definition frames :: "(bytes \<Rightarrow> u32) \<Rightarrow> wal_record list \<Rightarrow> bytes" where
  "frames crc rs = concat (map (\<lambda>r. frame crc (wr_seq r) (wr_payload r)) rs)"

text \<open>Records whose numbers increase from above \<open>prev\<close> and whose payloads fit a frame.\<close>

fun log_ok :: "u64 option \<Rightarrow> wal_record list \<Rightarrow> bool" where
  "log_ok prev [] = True"
| "log_ok prev (r # rs) =
     ((case prev of None \<Rightarrow> 0 < wr_seq r | Some p \<Rightarrow> p < wr_seq r) \<and>
      length (wr_payload r) \<le> MAX_PAYLOAD_SIZE \<and> log_ok (Some (wr_seq r)) rs)"

lemma frames_simps [simp]:
  "frames crc [] = []"
  "frames crc (r # rs) = frame crc (wr_seq r) (wr_payload r) @ frames crc rs"
  "frames crc (rs @ rs') = frames crc rs @ frames crc rs'"
  by (simp_all add: frames_def)

definition stops :: "(bytes \<Rightarrow> u32) \<Rightarrow> u64 option \<Rightarrow> bytes \<Rightarrow> bool" where
  "stops crc prev rest \<longleftrightarrow> length rest < HEADER_SIZE \<or> (\<exists>e. decode_record crc rest prev = Inl e)"

definition last_seq :: "u64 option \<Rightarrow> wal_record list \<Rightarrow> u64 option" where
  "last_seq prev rs = (if rs = [] then prev else Some (wr_seq (last rs)))"

lemma last_seq_simps [simp]:
  "last_seq prev [] = prev" "last_seq prev (r # rs) = last_seq (Some (wr_seq r)) rs"
  by (simp_all add: last_seq_def)

text \<open>The scanner reads a log up to the first bytes that do not decode.\<close>

lemma replay_loop_frames:
  assumes "log_ok (sc_prev_seq s) rs" "drop (sc_pos s) (sc_buf s) = frames crc rs @ rest"
    and "stops crc (last_seq (sc_prev_seq s) rs) rest" "sc_pos s \<le> length (sc_buf s)"
  shows "fst (replay_loop crc s) = rs \<and>
    sc_last_valid_end (snd (replay_loop crc s)) =
      (if rs = [] then sc_last_valid_end s else sc_pos s + length (frames crc rs))"
  using assms
proof (induction rs arbitrary: s)
  case Nil
  then have "next_record crc s = (None, s)"
    using length_drop[of "sc_pos s" "sc_buf s"]
    by (auto simp: next_record_def stops_def split: sum.splits)
  then show ?case by (simp add: replay_loop.simps)
next
  case (Cons r rs)
  let ?n = "HEADER_SIZE + length (wr_payload r)"
  let ?s = "s\<lparr>sc_pos := sc_pos s + ?n, sc_prev_seq := Some (wr_seq r), sc_last_valid_end := sc_pos s + ?n\<rparr>"
  have d: "drop (sc_pos s) (sc_buf s) = frame crc (wr_seq r) (wr_payload r) @ frames crc rs @ rest"
    using Cons.prems(2) by simp
  have len: "length (sc_buf s) = sc_pos s + ?n + length (frames crc rs @ rest)"
    using arg_cong[OF d, of length] Cons.prems(4) by simp
  have "wr_seq r \<noteq> 0 \<or> wr_payload r \<noteq> []"
    using Cons.prems(1) by (auto split: option.splits simp: word_gt_0)
  then have "decode_record crc (drop (sc_pos s) (sc_buf s)) (sc_prev_seq s) = Inr (r, ?n)"
    unfolding d using Cons.prems(1) by (subst decode_frame) (auto split: option.splits)
  then have step: "next_record crc s = (Some r, ?s)"
    using len by (simp add: next_record_def)
  have "drop (sc_pos ?s) (sc_buf ?s) = frames crc rs @ rest"
    using arg_cong[OF d, of "drop ?n"] by (simp add: add.commute add.left_commute)
  then have "fst (replay_loop crc ?s) = rs \<and> sc_last_valid_end (snd (replay_loop crc ?s)) =
      (if rs = [] then sc_last_valid_end ?s else sc_pos ?s + length (frames crc rs))"
    using Cons.prems(1,3) len by (intro Cons.IH) auto
  then show ?case
    using step by (auto simp: replay_loop.simps[of crc s] Let_def split: prod.splits if_splits)
qed

lemma recover_frames:
  assumes "log_ok None rs" "stops crc (last_seq None rs) rest"
  shows "recover_file crc (frames crc rs @ rest) = (rs, length (frames crc rs))"
  using replay_loop_frames[of "\<lparr>sc_buf = frames crc rs @ rest, sc_pos = 0, sc_prev_seq = None, sc_last_valid_end = 0\<rparr>" rs crc rest]
    assms by (auto simp: recover_file_def replay_all_def Let_def split: prod.splits)

lemma stops_zeros: "stops crc prev (replicate k 0)"
  by (cases "k < HEADER_SIZE")
    (auto simp: stops_def decode_record_def list_all_iff)

section \<open>Soundness on arbitrary bytes\<close>

lemma log_ok_seqs: "log_ok prev rs \<Longrightarrow> sorted_wrt (<) (map wr_seq rs) \<and> (\<forall>p r. prev = Some p \<longrightarrow> r \<in> set rs \<longrightarrow> p < wr_seq r)"
proof (induction rs arbitrary: prev)
  case (Cons r rs)
  then have "sorted_wrt (<) (map wr_seq rs)" "\<forall>r'\<in>set rs. wr_seq r < wr_seq r'" by auto
  with Cons.prems show ?case by (auto split: option.splits intro: less_trans)
qed simp

lemma replay_loop_sound:
  assumes "sc_pos s \<le> length (sc_buf s)" "sc_last_valid_end s = sc_pos s"
  shows "let (rs, s') = replay_loop crc s in
    sc_pos s \<le> sc_last_valid_end s' \<and> sc_last_valid_end s' \<le> length (sc_buf s) \<and>
    subslice (sc_buf s) (sc_pos s) (sc_last_valid_end s') = frames crc rs \<and>
    sorted_wrt (<) (map wr_seq rs) \<and> (\<forall>p r. sc_prev_seq s = Some p \<longrightarrow> r \<in> set rs \<longrightarrow> p < wr_seq r)"
  using assms
proof (induction crc s rule: replay_loop.induct)
  case (1 crc s)
  show ?case
  proof (cases "fst (next_record crc s)")
    case None
    then have "next_record crc s = (None, s)" by (auto simp: next_record_def split: if_splits sum.splits)
    then show ?thesis using "1.prems" by (simp add: replay_loop.simps)
  next
    case (Some r)
    then obtain s' where nr: "next_record crc s = (Some r, s')" by (metis prod.collapse)
    then obtain n where d: "decode_record crc (drop (sc_pos s) (sc_buf s)) (sc_prev_seq s) = Inr (r, n)"
      and s': "s' = s\<lparr>sc_pos := sc_pos s + n, sc_prev_seq := Some (wr_seq r), sc_last_valid_end := sc_pos s + n\<rparr>"
      by (auto simp: next_record_def split: if_splits sum.splits)
    note ds = decode_record_sound[OF d]
    obtain rs s'' where rl: "replay_loop crc s' = (rs, s'')" by fastforce
    have n: "sc_pos s + n \<le> length (sc_buf s)" using ds(2) "1.prems" by simp
    have IH: "sc_pos s + n \<le> sc_last_valid_end s''" "sc_last_valid_end s'' \<le> length (sc_buf s)"
      "subslice (sc_buf s) (sc_pos s + n) (sc_last_valid_end s'') = frames crc rs"
      "sorted_wrt (<) (map wr_seq rs)" "\<forall>r'\<in>set rs. wr_seq r < wr_seq r'"
      using "1.IH"[OF nr[symmetric] refl] n rl by (auto simp: s')
    have "subslice (sc_buf s) (sc_pos s) (sc_pos s + n) = frame crc (wr_seq r) (wr_payload r)"
      using ds(3) by (simp add: subslice_def)
    then have "subslice (sc_buf s) (sc_pos s) (sc_last_valid_end s'') = frames crc (r # rs)"
      using IH(1,3) subslice_join[of "sc_pos s" "sc_pos s + n" "sc_last_valid_end s''" "sc_buf s"] by simp
    moreover have "\<forall>p r'. sc_prev_seq s = Some p \<longrightarrow> r' \<in> set (r # rs) \<longrightarrow> p < wr_seq r'"
      using ds(4) IH(5) by (auto intro: less_trans)
    ultimately show ?thesis
      using IH nr rl by (simp add: replay_loop.simps[of crc s])
  qed
qed

section \<open>Torn and damaged logs\<close>

text \<open>A frame cut after its header is recognised as truncated.\<close>

lemma decode_cut_frame:
  assumes "seq \<noteq> 0 \<or> payload \<noteq> []" "length payload \<le> MAX_PAYLOAD_SIZE"
    and "HEADER_SIZE \<le> m" "m < HEADER_SIZE + length payload"
  shows "decode_record crc (take m (frame crc seq payload)) prev =
    Inl (Truncated (HEADER_SIZE + length payload) m)"
proof -
  let ?b = "take m (frame crc seq payload)"
  have len: "length ?b = m" using assms(4) by simp
  have "take HEADER_SIZE ?b = take HEADER_SIZE (frame crc seq payload @ [])"
    using assms(3) by (simp add: min_def)
  then have "\<not> list_all (\<lambda>b. b = 0) (take HEADER_SIZE ?b)"
    using frame_not_end[OF assms(1,2), of crc "[]"] by simp
  moreover have "subslice ?b 4 8 = to_le_bytes (of_nat (length payload) :: u32)"
    using assms(3) frame_header(2)[of crc seq payload "[]"]
    by (auto simp: subslice_def drop_take min_def HEADER_SIZE_def)
  ultimately show ?thesis
    using assms(2-4) len by (simp add: decode_record_def Let_def)
qed

text \<open>The records whose frames lie wholly within the first \<open>n\<close> bytes.\<close>

fun fitting :: "nat \<Rightarrow> wal_record list \<Rightarrow> wal_record list" where
  "fitting n [] = []"
| "fitting n (r # rs) =
     (let l = HEADER_SIZE + length (wr_payload r) in
      if l \<le> n then r # fitting (n - l) rs else [])"

lemma fitting_split:
  assumes "log_ok prev rs" "\<forall>r\<in>set rs. wr_seq r \<noteq> 0"
  shows "\<exists>rest. take n (frames crc rs @ replicate k 0) = frames crc (fitting n rs) @ rest \<and>
    stops crc (last_seq prev (fitting n rs)) rest \<and> log_ok prev (fitting n rs)"
  using assms
proof (induction rs arbitrary: n prev)
  case Nil
  then show ?case using stops_zeros[of crc prev "min n k"] by simp
next
  case (Cons r rs)
  let ?l = "HEADER_SIZE + length (wr_payload r)"
  show ?case
  proof (cases "?l \<le> n")
    case True
    obtain rest where "take (n - ?l) (frames crc rs @ replicate k 0) = frames crc (fitting (n - ?l) rs) @ rest"
      "stops crc (last_seq (Some (wr_seq r)) (fitting (n - ?l) rs)) rest"
      "log_ok (Some (wr_seq r)) (fitting (n - ?l) rs)"
      using Cons.IH[of "Some (wr_seq r)" "n - ?l"] Cons.prems by auto
    then show ?thesis using True Cons.prems by (auto simp: Let_def)
  next
    case False
    let ?rest = "take n (frame crc (wr_seq r) (wr_payload r))"
    have "stops crc prev ?rest"
    proof (cases "n < HEADER_SIZE")
      case False
      then show ?thesis
        using decode_cut_frame[of "wr_seq r" "wr_payload r" n crc prev] Cons.prems \<open>\<not> ?l \<le> n\<close>
        by (auto simp: stops_def)
    qed (simp add: stops_def)
    then show ?thesis using False by (simp add: Let_def)
  qed
qed

lemma log_ok_nonzero: "log_ok None rs \<Longrightarrow> \<forall>r\<in>set rs. wr_seq r \<noteq> 0"
proof (cases rs)
  case (Cons r rs')
  assume "log_ok None rs"
  then have "0 < wr_seq r" "\<forall>r'\<in>set rs'. wr_seq r < wr_seq r'"
    using log_ok_seqs[of "Some (wr_seq r)" rs'] Cons by auto
  then show ?thesis using Cons by (auto simp: word_gt_0)
qed simp

section \<open>Runs of appends\<close>

fun numbered :: "u64 \<Rightarrow> bytes list \<Rightarrow> wal_record list" where
  "numbered s [] = []"
| "numbered s (p # ps) = \<lparr>wr_seq = s, wr_payload = p\<rparr> # numbered (s + 1) ps"

text \<open>Where the log ends after each append, starting \<open>n\<close> bytes in.\<close>

fun ends :: "nat \<Rightarrow> bytes list \<Rightarrow> nat list" where
  "ends n [] = []"
| "ends n (p # ps) = (n + HEADER_SIZE + length p) # ends (n + HEADER_SIZE + length p) ps"

lemma unat_Suc: "unat s + 1 < 2 ^ 64 \<Longrightarrow> unat (s + 1 :: u64) = unat s + 1"
  by (simp add: unat_word_ariths)

lemma numbered_ok:
  assumes "unat s + length ps < 2 ^ 64" "\<forall>p\<in>set ps. length p \<le> MAX_PAYLOAD_SIZE"
    and "case prev of None \<Rightarrow> 0 < s | Some q \<Rightarrow> q < s"
  shows "log_ok prev (numbered s ps)"
  using assms
proof (induction ps arbitrary: s prev)
  case (Cons p ps)
  have u: "unat (s + 1) = unat s + 1" using Cons.prems(1) by (intro unat_Suc) simp
  then have "s < s + 1" by (simp add: word_less_nat_alt)
  then show ?case using Cons.prems Cons.IH[of "s + 1" "Some s"] u by (auto split: option.splits)
qed simp

text \<open>An append that returned \<open>Ok\<close> had room, and the kernel took the whole aligned image.\<close>

lemma wal_append_OkD:
  assumes "wal_append crc os payload w = (Inr seq, w')"
  shows "tail_offset w + HEADER_SIZE + length payload \<le> STAGING_SIZE"
    "os = Pwritten (next_multiple_of (tail_offset w + HEADER_SIZE + length payload) SECTOR_SIZE)"
    "seq = next_seq w"
  using assms by (auto simp: wal_append_def append_write_def Let_def add.assoc
      split: if_splits sum.splits pwrite_result.splits prod.splits)

lemma mod_logical_end:
  assumes "wal_shape w"
  shows "(logical_end w + k) mod SECTOR_SIZE = (tail_offset w + k) mod SECTOR_SIZE"
  using assms by (auto simp: wal_shape_def logical_end_def add.assoc elim!: dvdE)

lemma wal_append_all_holds:
  assumes "wal_append_all crc ops w = (Inr seqs, w')" "wal_holds L w"
    and "\<forall>n\<in>set (ends (length L) (map snd ops)). n mod SECTOR_SIZE \<noteq> 0"
  shows "wal_holds (L @ frames crc (numbered (next_seq w) (map snd ops))) w' \<and>
    seqs = map wr_seq (numbered (next_seq w) (map snd ops)) \<and>
    (\<forall>p\<in>set (map snd ops). length p \<le> MAX_PAYLOAD_SIZE)"
  using assms
proof (induction crc ops w arbitrary: L seqs rule: wal_append_all.induct)
  case (2 crc os p ps w)
  then obtain seq w1 seqs' where a: "wal_append crc os p w = (Inr seq, w1)"
    and r: "wal_append_all crc ps w1 = (Inr seqs', w')" "seqs = seq # seqs'"
    by (auto split: sum.splits prod.splits)
  note d = wal_append_OkD[OF a]
  let ?n = "tail_offset w + HEADER_SIZE + length p"
  have "logical_end w = length L" "wal_shape w" using "2.prems"(2) by (simp_all add: wal_holds_def)
  then have "?n mod SECTOR_SIZE \<noteq> 0"
    using "2.prems"(3) mod_logical_end[of w "HEADER_SIZE + length p"] by (simp add: add.assoc)
  then have h: "wal_holds (L @ frame crc (next_seq w) p) w1" "next_seq w1 = next_seq w + 1" "seq = next_seq w"
    using wal_append_holds[OF "2.prems"(2) d(1) refl, of crc] a d by auto
  have "length p \<le> MAX_PAYLOAD_SIZE"
    using d(1) by (simp add: MAX_PAYLOAD_SIZE_def STAGING_SIZE_def HEADER_SIZE_def)
  then show ?case
    using "2.IH"[OF a[symmetric] refl r(1) h(1)] "2.prems"(3) h r(2) by (simp add: add.assoc)
qed simp

text \<open>Recovery of what a run of successful appends left in the file.\<close>

lemma appended_recovers:
  assumes "wal_open path (Inr []) = Inr w" "wal_append_all crc ops w = (Inr seqs, w')"
    and "length ops < 2 ^ 64 - 1"
    and "\<forall>n\<in>set (ends 0 (map snd ops)). n mod SECTOR_SIZE \<noteq> 0"
  shows "recover_file crc (wal_file w') = (numbered 1 (map snd ops), logical_end w') \<and>
    seqs = map wr_seq (numbered 1 (map snd ops)) \<and>
    recover_file crc (wal_file (snd (truncate_to_logical_end None w'))) = recover_file crc (wal_file w')"
proof -
  have w: "wal_holds [] w" "next_seq w = 1"
    using assms(1) wal_open_fresh[of path] by (auto simp: wal_open_def split: if_splits)
  let ?rs = "numbered 1 (map snd ops)"
  have h: "wal_holds (frames crc ?rs) w'" "seqs = map wr_seq ?rs" "\<forall>p\<in>set (map snd ops). length p \<le> MAX_PAYLOAD_SIZE"
    using wal_append_all_holds[OF assms(2) w(1)] assms(4) w(2) by simp_all
  have ok: "log_ok None ?rs" using h(3) assms(3) by (intro numbered_ok) simp_all
  obtain k where k: "wal_file w' = frames crc ?rs @ replicate k 0" "logical_end w' = length (frames crc ?rs)"
    using h(1) by (auto simp: wal_holds_def)
  have r: "recover_file crc (frames crc ?rs @ replicate j 0) = (?rs, length (frames crc ?rs))" for j
    by (rule recover_frames[OF ok stops_zeros])
  have "wal_file (snd (truncate_to_logical_end None w')) = frames crc ?rs"
    using k by (simp add: truncate_to_logical_end_def ftruncate_file_def)
  then show ?thesis using k h(2) r[of k] r[of 0] by simp
qed

section \<open>Properties\<close>

text \<open>
  C9. Recovery is sound on any file whatever: the records replayed are frames with a correct
  checksum lying back to back from the start of the file up to the offset reported, that offset
  is inside the file, and their sequence numbers strictly increase.
\<close>

theorem recovery_sound:
  "frames crc (fst (recover_file crc file)) = take (snd (recover_file crc file)) file \<and>
   snd (recover_file crc file) \<le> length file \<and>
   sorted_wrt (<) (map wr_seq (fst (recover_file crc file)))"
  using replay_loop_sound[of "\<lparr>sc_buf = file, sc_pos = 0, sc_prev_seq = None, sc_last_valid_end = 0\<rparr>" crc]
  by (auto simp: recover_file_def replay_all_def Let_def subslice_def split: prod.splits)

text \<open>
  C4. Write, then recover: if a log is opened on an empty file and every append of a sequence
  returns \<open>Ok\<close>, with no record ending exactly on a sector boundary, then recovery returns
  exactly the appended payloads, numbered 1, 2, 3, ... as the appends reported, and the offset
  where the log ends; truncating the file to the logical end first changes nothing.
\<close>

theorem append_then_recover:
  assumes "wal_open path (Inr []) = Inr w" "wal_append_all crc ops w = (Inr seqs, w')"
    and "length ops < 2 ^ 64 - 1"
    and "\<forall>n\<in>set (ends 0 (map snd ops)). n mod SECTOR_SIZE \<noteq> 0"
  shows "recover_file crc (wal_file w') = (numbered 1 (map snd ops), logical_end w') \<and>
    seqs = map wr_seq (numbered 1 (map snd ops)) \<and>
    recover_file crc (wal_file (snd (truncate_to_logical_end None w'))) = recover_file crc (wal_file w')"
  using assms by (rule appended_recovers)

theorem append_then_recover_witness:
  "\<exists>w w'. wal_open [119] (Inr []) = Inr w \<and>
     wal_append_all (\<lambda>_. 9) [(Pwritten 4096, [7, 8]), (Pwritten 4096, [])] w = (Inr [1, 2], w') \<and>
     recover_file (\<lambda>_. 9) (wal_file w') =
       ([\<lparr>wr_seq = 1, wr_payload = [7, 8]\<rparr>, \<lparr>wr_seq = 2, wr_payload = []\<rparr>], 34)"
proof -
  obtain w where w: "wal_open [119] (Inr []) = Inr w" "wal_holds [] w" "next_seq w = 1"
    using wal_open_fresh[of "[119]"] by auto
  then have t: "tail_offset w = 0" "sector_offset w = 0" by (auto simp: wal_holds_def logical_end_def)
  have e: "next_multiple_of 18 SECTOR_SIZE = 4096" "next_multiple_of 34 SECTOR_SIZE = 4096"
    by (simp_all add: next_multiple_of_def SECTOR_SIZE_def)
  have m: "18 mod SECTOR_SIZE \<noteq> 0" "34 mod SECTOR_SIZE \<noteq> 0" by (simp_all add: SECTOR_SIZE_def)
  have "tail_offset w + HEADER_SIZE + length [7, 8 :: byte] \<le> STAGING_SIZE"
    "18 = tail_offset w + HEADER_SIZE + length [7, 8 :: byte]"
    using t by (simp_all add: HEADER_SIZE_def STAGING_SIZE_def)
  from wal_append_holds[OF w(2) this m(1), of "\<lambda>_. 9"] obtain w1 where
    w1: "wal_append (\<lambda>_. 9) (Pwritten 4096) [7, 8] w = (Inr 1, w1)"
    "wal_holds (frame (\<lambda>_. 9) 1 [7, 8]) w1" "next_seq w1 = 2"
    unfolding e w(3) by auto
  have "sector_offset w1 + tail_offset w1 = 18" "4096 dvd sector_offset w1"
    using w1(2) by (simp_all add: wal_holds_def logical_end_def wal_shape_def HEADER_SIZE_def SECTOR_SIZE_def)
  then have t1: "tail_offset w1 = 18" using dvd_imp_le[of 4096 "sector_offset w1"] by fastforce
  have "tail_offset w1 + HEADER_SIZE + length ([] :: bytes) \<le> STAGING_SIZE"
    "34 = tail_offset w1 + HEADER_SIZE + length ([] :: bytes)"
    using t1 by (simp_all add: HEADER_SIZE_def STAGING_SIZE_def)
  from wal_append_holds[OF w1(2) this m(2), of "\<lambda>_. 9"] obtain w2 where
    w2: "wal_append (\<lambda>_. 9) (Pwritten 4096) [] w1 = (Inr 2, w2)"
    "wal_holds (frame (\<lambda>_. 9) 1 [7, 8] @ frame (\<lambda>_. 9) 2 []) w2"
    unfolding e w1(3) by auto
  have all: "wal_append_all (\<lambda>_. 9) [(Pwritten 4096, [7, 8]), (Pwritten 4096, [])] w = (Inr [1, 2], w2)"
    using w1(1) w2(1) by simp
  let ?ops = "[(Pwritten 4096, [7, 8]), (Pwritten 4096, [])] :: (pwrite_result \<times> bytes) list"
  have c: "length ?ops < 2 ^ 64 - 1" "\<forall>n\<in>set (ends 0 (map snd ?ops)). n mod SECTOR_SIZE \<noteq> 0"
    by (simp_all add: HEADER_SIZE_def SECTOR_SIZE_def)
  have "recover_file (\<lambda>_. 9) (wal_file w2) = (numbered 1 (map snd ?ops), logical_end w2)"
    using append_then_recover[OF w(1) all c] by blast
  moreover have "logical_end w2 = 34" using w2(2) by (simp add: wal_holds_def HEADER_SIZE_def)
  ultimately have "recover_file (\<lambda>_. 9) (wal_file w2) =
      ([\<lparr>wr_seq = 1, wr_payload = [7, 8]\<rparr>, \<lparr>wr_seq = 2, wr_payload = []\<rparr>], 34)" by simp
  then show ?thesis using w(1) all by blast
qed

text \<open>
  C10. A torn write loses nothing but the cut record: cutting a log file anywhere, the records
  that lie wholly before the cut are recovered, and only those.
\<close>

theorem torn_log_recovers_prefix:
  assumes "log_ok None rs"
  shows "recover_file crc (take n (frames crc rs @ replicate k 0)) =
    (fitting n rs, length (frames crc (fitting n rs)))"
proof -
  obtain rest where "take n (frames crc rs @ replicate k 0) = frames crc (fitting n rs) @ rest"
    "stops crc (last_seq None (fitting n rs)) rest" "log_ok None (fitting n rs)"
    using fitting_split[OF assms log_ok_nonzero[OF assms]] by blast
  then show ?thesis by (simp add: recover_frames)
qed

theorem torn_log_recovers_prefix_witness:
  "recover_file (\<lambda>bs. 5) (take 40 (frames (\<lambda>bs. 5)
      [\<lparr>wr_seq = 1, wr_payload = [1, 2]\<rparr>, \<lparr>wr_seq = 2, wr_payload = [3, 4, 5, 6, 7, 8, 9]\<rparr>] @ replicate 100 0)) =
   ([\<lparr>wr_seq = 1, wr_payload = [1, 2]\<rparr>], 18)"
  using torn_log_recovers_prefix[of "[\<lparr>wr_seq = 1, wr_payload = [1, 2]\<rparr>,
      \<lparr>wr_seq = 2, wr_payload = [3, 4, 5, 6, 7, 8, 9]\<rparr>]" "\<lambda>bs. 5" 40 100]
  by (simp add: HEADER_SIZE_def MAX_PAYLOAD_SIZE_def)

text \<open>
  C11. Damage stops the replay at the damaged record: if the bytes of one record are changed
  after its checksum, keeping its length, into bytes the checksum tells apart, recovery returns
  exactly the records before it, whatever follows.
\<close>

theorem damaged_record_stops_replay:
  assumes "log_ok None rs" "length payload \<le> MAX_PAYLOAD_SIZE" "length payload' = length payload"
    and "payload' \<noteq> []" "crc (frame_body seq' payload') \<noteq> crc (frame_body seq payload)"
  shows "recover_file crc
      (frames crc rs @ to_le_bytes (crc (frame_body seq payload)) @ frame_body seq' payload' @ rest) =
    (rs, length (frames crc rs))"
proof (rule recover_frames[OF assms(1)])
  let ?c = "\<lambda>_. crc (frame_body seq payload)"
  let ?buf = "frame ?c seq' payload' @ rest"
  have "\<not> list_all (\<lambda>b. b = 0) (take HEADER_SIZE ?buf)"
    using frame_not_end[of seq' payload'] assms(2-4) by simp
  then have "\<exists>e. decode_record crc ?buf (last_seq None rs) = Inl e"
    using assms frame_header[of ?c seq' payload' rest]
    by (simp add: decode_record_def Let_def HEADER_SIZE_def)
  then show "stops crc (last_seq None rs)
      (to_le_bytes (crc (frame_body seq payload)) @ frame_body seq' payload' @ rest)"
    by (simp add: stops_def frame_def)
qed

theorem damaged_record_stops_replay_witness:
  "recover_file (\<lambda>bs. ucast (foldr (XOR) bs 0))
     (frames (\<lambda>bs. ucast (foldr (XOR) bs 0)) [\<lparr>wr_seq = 1, wr_payload = [1]\<rparr>] @
      [7, 0, 0, 0, 1, 0, 0, 0, 2, 0, 0, 0, 0, 0, 0, 0, 5, 9, 9, 9]) =
   ([\<lparr>wr_seq = 1, wr_payload = [1]\<rparr>], 17)"
  using damaged_record_stops_replay[of "[\<lparr>wr_seq = 1, wr_payload = [1]\<rparr>]" "[4]" "[5]"
      "\<lambda>bs. ucast (foldr (XOR) bs 0)" 2 2 "[9, 9, 9]"]
  by (simp add: frame_body_def MAX_PAYLOAD_SIZE_def HEADER_SIZE_def byte_eval)

text \<open>
  The pattern that loses data: on a fresh log, append a record that fills exactly one
  sector, then any shorter record. Both appends return \<open>Ok\<close>, yet the second overwrites the first
  on disk, and recovery returns the second record only. (When a record ends on a sector boundary
  the writer steps its sector offset back to the sector just filled.)
\<close>

theorem sector_boundary_append_overwritten:
  assumes "wal_open path (Inr []) = Inr w" "wal_append crc os1 p1 w = (Inr s1, w1)"
    and "HEADER_SIZE + length p1 = SECTOR_SIZE"
    and "wal_append crc os2 p2 w1 = (Inr s2, w2)" "HEADER_SIZE + length p2 < SECTOR_SIZE"
  shows "s1 = 1 \<and> s2 = 2 \<and>
    recover_file crc (wal_file w2) = ([\<lparr>wr_seq = 2, wr_payload = p2\<rparr>], HEADER_SIZE + length p2)"
proof -
  have w: "wal_holds [] w" "next_seq w = 1" "tail_offset w = 0"
    using assms(1) wal_open_fresh[of path]
    by (auto simp: wal_open_def wal_holds_def logical_end_def split: if_splits)
  note d1 = wal_append_OkD[OF assms(2)] and d2 = wal_append_OkD[OF assms(4)]
  have n1: "(tail_offset w + HEADER_SIZE + length p1) mod SECTOR_SIZE = 0" using assms(3) w(3) by simp
  obtain k where w1: "wal_file w1 = frame crc 1 p1 @ replicate k 0" "wal_shape w1" "tail_offset w1 = 0"
    "sector_offset w1 = 0" "next_seq w1 = 2"
    using wal_append_boundary[OF w(1) d1(1) refl n1, of crc] assms(2,3) d1 w next_multiple_of_aligned[OF _ n1]
    by (auto simp: logical_end_def)
  let ?n = "tail_offset w1 + HEADER_SIZE + length p2"
  have n2: "?n mod SECTOR_SIZE \<noteq> 0" using assms(5) w1(3) by (simp add: HEADER_SIZE_def)
  have "SECTOR_SIZE \<le> next_multiple_of ?n SECTOR_SIZE"
    using n2 by (simp add: next_multiple_of_unaligned)
  then have "drop (sector_offset w1 + next_multiple_of ?n SECTOR_SIZE) (wal_file w1) =
      replicate (k - (next_multiple_of ?n SECTOR_SIZE - SECTOR_SIZE)) 0"
    using w1(1,4) assms(3) by simp
  then have "wal_holds (frame crc 2 p2) w2"
    using wal_append_core[OF w1(2) _ _ _ _ _ d2(1) refl n2, of "[]" crc] w1 assms(4) d2
    by (auto simp: logical_end_def)
  then obtain j where "wal_file w2 = frames crc [\<lparr>wr_seq = 2, wr_payload = p2\<rparr>] @ replicate j 0"
    by (auto simp: wal_holds_def)
  moreover have "log_ok None [\<lparr>wr_seq = 2, wr_payload = p2\<rparr>]"
    using assms(5) by (simp add: SECTOR_SIZE_def MAX_PAYLOAD_SIZE_def HEADER_SIZE_def)
  ultimately show ?thesis
    using recover_frames[of "[\<lparr>wr_seq = 2, wr_payload = p2\<rparr>]" crc "replicate j 0"] stops_zeros d1(3) d2(3) w(2) w1(5)
    by simp
qed

theorem sector_boundary_append_overwritten_witness:
  "\<exists>w w1 w2. wal_open [119] (Inr []) = Inr w \<and>
     wal_append (\<lambda>_. 3) (Pwritten 4096) (replicate 4080 1) w = (Inr 1, w1) \<and>
     wal_append (\<lambda>_. 3) (Pwritten 4096) [5] w1 = (Inr 2, w2) \<and>
     recover_file (\<lambda>_. 3) (wal_file w2) = ([\<lparr>wr_seq = 2, wr_payload = [5]\<rparr>], 17)"
proof -
  obtain w where w: "wal_open [119] (Inr []) = Inr w" "wal_holds [] w" "next_seq w = 1"
    using wal_open_fresh[of "[119]"] by auto
  then have t: "tail_offset w = 0" by (auto simp: wal_holds_def logical_end_def)
  have "tail_offset w + HEADER_SIZE + length (replicate 4080 (1 :: byte)) \<le> STAGING_SIZE"
    "4096 = tail_offset w + HEADER_SIZE + length (replicate 4080 (1 :: byte))" "4096 mod SECTOR_SIZE = 0"
    using t by (simp_all add: HEADER_SIZE_def STAGING_SIZE_def SECTOR_SIZE_def)
  from wal_append_boundary[OF w(2) this, of "\<lambda>_. 3"] obtain w1 where
    w1: "wal_append (\<lambda>_. 3) (Pwritten 4096) (replicate 4080 1) w = (Inr 1, w1)"
    "wal_shape w1" "tail_offset w1 = 0" "next_seq w1 = 2"
    unfolding w(3) by auto
  have "tail_offset w1 + HEADER_SIZE + length [5 :: byte] \<le> STAGING_SIZE"
    "17 = tail_offset w1 + HEADER_SIZE + length [5 :: byte]" "4096 = next_multiple_of 17 SECTOR_SIZE"
    using w1(3) by (simp_all add: HEADER_SIZE_def STAGING_SIZE_def SECTOR_SIZE_def next_multiple_of_def)
  from wal_append_success[OF w1(2) this, of "\<lambda>_. 3"] obtain w2 where
    w2: "wal_append (\<lambda>_. 3) (Pwritten 4096) [5] w1 = (Inr 2, w2)" unfolding w1(4) by auto
  have s: "HEADER_SIZE + length (replicate 4080 (1 :: byte)) = SECTOR_SIZE" "HEADER_SIZE + length [5 :: byte] < SECTOR_SIZE"
    "HEADER_SIZE + length [5 :: byte] = 17"
    by (simp_all add: HEADER_SIZE_def SECTOR_SIZE_def)
  show ?thesis
    using w(1) w1(1) w2 sector_boundary_append_overwritten[OF w(1) w1(1) s(1) w2 s(2)] unfolding s(3) by blast
qed

end
