(* ===== verification/Merge.thy ===== *)
theory Merge
  imports SSTable_Streaming
begin

text \<open>
  The k-way merge of compaction, \<^verbatim>\<open>src/tier3_storage/src/compaction/merge.rs\<close>: a heap with the
  next entry of every input, popped in the order key ascending, sequence number descending. Of
  each key only the first entry popped counts; at the bottom level a tombstone is not written.

  The \<open>BinaryHeap\<close> is the list of its elements; \<open>pop\<close> removes a greatest one. Which one, among
  elements with the same key and sequence number, the library does not say; here it is the one
  pushed first, and the theorems do not depend on the choice.
\<close>

section \<open>Elements and their order\<close>

record merge_element =
  me_key :: bytes
  me_val :: "bytes option"
  me_seq :: u64
  me_source :: nat

definition merge_eq :: "merge_element \<Rightarrow> merge_element \<Rightarrow> bool" where
  "merge_eq a b \<longleftrightarrow> me_key a = me_key b \<and> me_seq a = me_seq b"

definition merge_cmp :: "merge_element \<Rightarrow> merge_element \<Rightarrow> rust_ordering" where
  "merge_cmp a b =
     (case rust_cmp (me_key b) (me_key a) of
        Equal \<Rightarrow> rust_cmp (me_seq a) (me_seq b)
      | r \<Rightarrow> r)"

text \<open>
  \<open>Ord for MergeElement\<close> as an order of the type: elements with the same key and sequence number are
  equivalent, not equal, so that it is a preorder. A greater element is popped earlier.
\<close>

instantiation merge_element_ext :: (type) preorder
begin

definition less_eq_merge_element_ext :: "'a merge_element_ext \<Rightarrow> 'a merge_element_ext \<Rightarrow> bool" where
  "less_eq_merge_element_ext a b \<longleftrightarrow> me_key b < me_key a \<or> me_key a = me_key b \<and> me_seq a \<le> me_seq b"

definition less_merge_element_ext :: "'a merge_element_ext \<Rightarrow> 'a merge_element_ext \<Rightarrow> bool" where
  "less_merge_element_ext a b \<longleftrightarrow> a \<le> b \<and> \<not> b \<le> a"

instance
  by standard (auto simp: less_merge_element_ext_def less_eq_merge_element_ext_def)

end

lemma merge_cmp_less: "merge_cmp a b = Less \<longleftrightarrow> a < b"
  by (auto simp: merge_cmp_def rust_cmp_def less_merge_element_ext_def less_eq_merge_element_ext_def split: if_splits)

lemma merge_total: "\<not> a < b \<longleftrightarrow> b \<le> a" for a b :: merge_element
  by (auto simp: less_merge_element_ext_def less_eq_merge_element_ext_def)

definition heap_push :: "merge_element \<Rightarrow> merge_element list \<Rightarrow> merge_element list" where
  "heap_push x h = h @ [x]"

definition greatest :: "merge_element list \<Rightarrow> merge_element \<Rightarrow> merge_element" where
  "greatest xs x = fold (\<lambda>y m. if merge_cmp m y = Less then y else m) xs x"

definition heap_pop :: "merge_element list \<Rightarrow> (merge_element \<times> merge_element list) option" where
  "heap_pop h =
     (case h of
        [] \<Rightarrow> None
      | x # xs \<Rightarrow> let m = greatest xs x in Some (m, remove1 m h))"

section \<open>The merge\<close>

fun open_inputs :: "((io_kind + bytes) \<times> nat option) list \<Rightarrow> sst_stream list result" where
  "open_inputs [] = Inr []"
| "open_inputs ((os, mmap) # ps) =
     (case stream_open os mmap of
        Inl e \<Rightarrow> Inl e
      | Inr st \<Rightarrow> (case open_inputs ps of Inl e \<Rightarrow> Inl e | Inr iters \<Rightarrow> Inr (st # iters)))"

definition push_entry :: "nat \<Rightarrow> entry option \<Rightarrow> merge_element list \<Rightarrow> merge_element list" where
  "push_entry idx e heap =
     (case e of
        None \<Rightarrow> heap
      | Some (key, val, seq) \<Rightarrow>
          heap_push \<lparr>me_key = key, me_val = val, me_seq = seq, me_source = idx\<rparr> heap)"

fun seed_heap :: "nat \<Rightarrow> sst_stream list \<Rightarrow> merge_element list \<Rightarrow> (sst_stream list \<times> merge_element list) result" where
  "seed_heap idx [] heap = Inr ([], heap)"
| "seed_heap idx (iter # iters) heap =
     (case next_kv iter of
        Inl e \<Rightarrow> Inl e
      | Inr (e, iter) \<Rightarrow>
          (case seed_heap (idx + 1) iters (push_entry idx e heap) of
             Inl f \<Rightarrow> Inl f
           | Inr (iters, heap) \<Rightarrow> Inr (iter # iters, heap)))"

lemma greatest_mem: "greatest xs x \<in> set (x # xs)"
proof (induction xs arbitrary: x)
  case (Cons a xs)
  then show ?case using Cons.IH[of x] Cons.IH[of a] by (auto simp: greatest_def)
qed (simp add: greatest_def)

lemma heap_pop_Some: "heap_pop h = Some (m, h') \<longleftrightarrow> h \<noteq> [] \<and> m = greatest (tl h) (hd h) \<and> h' = remove1 m h"
  by (cases h) (auto simp: heap_pop_def Let_def)

lemma heap_pop_length: "heap_pop heap = Some (elem, heap') \<Longrightarrow> length heap = Suc (length heap')"
  using greatest_mem[of "tl heap" "hd heap"]
  by (cases heap) (simp_all add: heap_pop_Some length_remove1 del: remove1.simps)

lemma push_entry_length: "length (push_entry idx e heap) = length heap + (if e = None then 0 else 1)"
  by (auto simp: push_entry_def heap_push_def split: option.splits)

lemma merge_step_decreases:
  assumes "heap_pop heap = Some (elem, heap')" "\<not> me_source elem \<ge> length iters"
    and "next_kv (iters ! me_source elem) = Inr (e, iter)"
  shows "((b, iters[me_source elem := iter], push_entry (me_source elem) e heap', w', l'), (b, iters, heap, w, l))
    \<in> measures [\<lambda>(b, iters, heap, w, l). sum_list (map blocks_left iters),
        \<lambda>(b, iters, heap, w, l). sum_list (map bytes_left iters), \<lambda>(b, iters, heap, w, l). length heap]"
proof -
  let ?s = "me_source elem"
  have s: "?s < length iters" using assms(2) by simp
  have upd: "sum_list (map f (iters[?s := iter])) + f (iters ! ?s) = sum_list (map f iters) + f iter" for f :: "sst_stream \<Rightarrow> nat"
  proof -
    have "f (iters ! ?s) \<le> sum_list (map f iters)" using s elem_le_sum_list[of ?s "map f iters"] by simp
    then show ?thesis using s by (simp add: map_update sum_list_update)
  qed
  from next_kv_progress[OF assms(3)] upd[of blocks_left] upd[of bytes_left] heap_pop_length[OF assms(1)]
  show ?thesis by (auto simp: push_entry_length split: if_splits)
qed

function merge_loop ::
  "bool \<Rightarrow> sst_stream list \<Rightarrow> merge_element list \<Rightarrow> sst_writer \<Rightarrow> bytes option \<Rightarrow> sst_writer result" where
  "merge_loop is_bottom_level iters heap writer last_emitted_key =
     (case heap_pop heap of
        None \<Rightarrow> Inr writer
      | Some (elem, heap') \<Rightarrow>
          if me_source elem \<ge> length iters then Inl Panic
          else case next_kv (iters ! me_source elem) of
            Inl e \<Rightarrow> Inl e
          | Inr (e, iter) \<Rightarrow> let
              iters = iters[me_source elem := iter];
              heap = push_entry (me_source elem) e heap'
            in if last_emitted_key = Some (me_key elem)
            then merge_loop is_bottom_level iters heap writer last_emitted_key
            else if is_bottom_level \<and> me_val elem = None
            then merge_loop is_bottom_level iters heap writer (Some (me_key elem))
            else case sst_append (me_key elem) (me_val elem) (me_seq elem) writer of
                Inl f \<Rightarrow> Inl f
              | Inr writer \<Rightarrow> merge_loop is_bottom_level iters heap writer (Some (me_key elem)))"
  by pat_completeness auto
termination
  by (relation "measures [\<lambda>(b, iters, heap, w, l). sum_list (map blocks_left iters),
        \<lambda>(b, iters, heap, w, l). sum_list (map bytes_left iters), \<lambda>(b, iters, heap, w, l). length heap]")
    (simp, (metis merge_step_decreases)+)

declare merge_loop.simps [simp del]

definition kway_merge ::
  "((io_kind + bytes) \<times> nat option) list \<Rightarrow> io_kind option \<Rightarrow> io_kind option list \<Rightarrow> bool \<Rightarrow> (u64 \<times> bytes) result" where
  "kway_merge inputs os io is_bottom_level =
     (case open_inputs inputs of
        Inl e \<Rightarrow> Inl e
      | Inr iters \<Rightarrow>
        (case seed_heap 0 iters [] of
           Inl e \<Rightarrow> Inl e
         | Inr (iters, heap) \<Rightarrow>
           (case sst_create os io of
              Inl e \<Rightarrow> Inl e
            | Inr writer \<Rightarrow>
              (case merge_loop is_bottom_level iters heap writer None of
                 Inl e \<Rightarrow> Inl e
               | Inr writer \<Rightarrow> sst_finish writer))))"

section \<open>The heap as an interface\<close>

text \<open>Versions in the order the merge wants them: by key, newest first.\<close>

definition version_le :: "entry \<Rightarrow> entry \<Rightarrow> bool" where
  "version_le e e' \<longleftrightarrow> fst e < fst e' \<or> fst e = fst e' \<and> snd (snd e') \<le> snd (snd e)"

definition me_entry :: "merge_element \<Rightarrow> entry" where
  "me_entry m = (me_key m, me_val m, me_seq m)"

lemma version_le_trans: "version_le a b \<Longrightarrow> version_le b c \<Longrightarrow> version_le a c"
  by (auto simp: version_le_def)

lemma version_le_refl [simp]: "version_le e e"
  by (simp add: version_le_def)

lemma merge_le_version: "b \<le> a \<longleftrightarrow> version_le (me_entry a) (me_entry b)"
  by (auto simp: less_eq_merge_element_ext_def version_le_def me_entry_def)

locale merge_queue =
  fixes push :: "'e :: preorder \<Rightarrow> 'h \<Rightarrow> 'h" and pop :: "'h \<Rightarrow> ('e \<times> 'h) option"
    and elems :: "'h \<Rightarrow> 'e multiset"
  assumes push_elems: "elems (push x h) = add_mset x (elems h)"
    and pop_None: "pop h = None \<longleftrightarrow> elems h = {#}"
    and pop_Some: "pop h = Some (m, h') \<Longrightarrow> elems h = add_mset m (elems h')"
    and pop_greatest: "pop h = Some (m, h') \<Longrightarrow> y \<in># elems h \<Longrightarrow> y \<le> m"
begin

lemma pop_push: "\<exists>m h'. pop (push x h) = Some (m, h') \<and> x \<le> m"
  using pop_None[of "push x h"] pop_greatest[of "push x h" _ _ x] push_elems[of x h]
  by (cases "pop (push x h)") auto

lemma pop_descends: "pop h = Some (m, h') \<Longrightarrow> pop h' = Some (m', h'') \<Longrightarrow> m' \<le> m"
  using pop_Some[of h m h'] pop_Some[of h' m' h''] pop_greatest[of h m h' m'] by simp

end

lemma greatest_first: "y \<in> set (x # xs) \<Longrightarrow> y \<le> greatest xs x"
proof (induction xs arbitrary: x y)
  case Nil
  then show ?case by (simp add: greatest_def)
next
  case (Cons a xs)
  define x' where "x' = (if merge_cmp x a = Less then a else x)"
  have eq: "greatest (a # xs) x = greatest xs x'" by (simp add: greatest_def x'_def)
  have "x \<le> x'" "a \<le> x'" using merge_total[of x a] by (auto simp: x'_def merge_cmp_less less_imp_le)
  then have "x \<le> greatest xs x'" "a \<le> greatest xs x'" using Cons.IH[of x' x'] by (auto intro: order_trans)
  then show ?case using Cons.IH[of y x'] Cons.prems unfolding eq by auto
qed

interpretation mq: merge_queue heap_push heap_pop mset
proof
  fix x m y and h h' :: "merge_element list"
  show "mset (heap_push x h) = add_mset x (mset h)" by (simp add: heap_push_def)
  show "heap_pop h = None \<longleftrightarrow> mset h = {#}" by (cases h) (simp_all add: heap_pop_def Let_def)
  assume "heap_pop h = Some (m, h')"
  then have h: "h \<noteq> []" "m = greatest (tl h) (hd h)" "h' = remove1 m h" by (simp_all add: heap_pop_Some)
  have "hd h # tl h = h" using h(1) by simp
  then have "m \<in> set h" "\<forall>y\<in>set h. y \<le> m"
    using greatest_mem[of "tl h" "hd h"] greatest_first[of _ "hd h" "tl h"] unfolding h(2) by metis+
  then show "mset h = add_mset m (mset h')" "y \<in># mset h \<Longrightarrow> y \<le> m"
    by (simp_all add: h(3))
qed

section \<open>The merge against its specification\<close>

text \<open>What the loop writes, as a function of the sequence of entries it pops.\<close>

fun emit :: "bool \<Rightarrow> bytes option \<Rightarrow> entry list \<Rightarrow> entry list" where
  "emit is_bottom_level prev [] = []"
| "emit is_bottom_level prev ((key, val, seq) # es) =
     (if prev = Some key then emit is_bottom_level prev es
      else if is_bottom_level \<and> val = None then emit is_bottom_level (Some key) es
      else (key, val, seq) # emit is_bottom_level (Some key) es)"

text \<open>
  The lists \<open>L ! i\<close> are what input \<open>i\<close> still has, its element in the heap included.
\<close>

definition mk_elem :: "nat \<Rightarrow> entry \<Rightarrow> merge_element" where
  "mk_elem i e = \<lparr>me_key = fst e, me_val = fst (snd e), me_seq = snd (snd e), me_source = i\<rparr>"

definition live :: "entry list list \<Rightarrow> nat set" where
  "live L = {i. i < length L \<and> L ! i \<noteq> []}"

definition heads :: "entry list list \<Rightarrow> merge_element multiset" where
  "heads L = image_mset (\<lambda>i. mk_elem i (hd (L ! i))) (mset_set (live L))"

definition merge_inv :: "entry list list \<Rightarrow> sst_stream list \<Rightarrow> merge_element list \<Rightarrow> bool" where
  "merge_inv L iters heap \<longleftrightarrow> length iters = length L \<and>
     (\<forall>i<length L. streams (iters ! i) (tl (L ! i))) \<and> mset heap = heads L"

lemma me_entry_mk_elem [simp]: "me_entry (mk_elem i e) = e" "me_source (mk_elem i e) = i"
  by (simp_all add: me_entry_def mk_elem_def)

lemma finite_live [simp]: "finite (live L)"
  by (simp add: live_def)

lemma push_entry_mset:
  "mset (push_entry i (if es = [] then None else Some (hd es)) h) =
     (if es = [] then mset h else add_mset (mk_elem i (hd es)) (mset h))"
  by (cases "hd es") (simp add: push_entry_def mq.push_elems mk_elem_def)

lemma heads_update:
  assumes "i \<in> live L"
  shows "heads L = add_mset (mk_elem i (hd (L ! i))) (heads (L[i := []]))"
    "heads (L[i := es]) = (if es = [] then heads (L[i := []]) else add_mset (mk_elem i (hd es)) (heads (L[i := []])))"
proof -
  have i: "i < length L" using assms by (simp add: live_def)
  have "live (L[i := es]) = (if es = [] then live L - {i} else insert i (live L - {i}))" for es
    using i assms by (auto simp: live_def nth_list_update)
  then have upd: "mset_set (live (L[i := es])) =
      (if es = [] then mset_set (live L - {i}) else add_mset i (mset_set (live L - {i})))" for es
    by (simp del: insert_Diff_single)
  have same: "image_mset (\<lambda>j. mk_elem j (hd (L[i := es] ! j))) (mset_set (live L - {i})) =
      image_mset (\<lambda>j. mk_elem j (hd (L ! j))) (mset_set (live L - {i}))" for es
    by (rule image_mset_cong) auto
  show 1: "heads (L[i := es]) = (if es = [] then heads (L[i := []]) else add_mset (mk_elem i (hd es)) (heads (L[i := []])))" for es
    using i by (auto simp: heads_def upd same)
  show "heads L = add_mset (mk_elem i (hd (L ! i))) (heads (L[i := []]))"
    using 1[of "L ! i"] assms by (simp add: live_def)
qed

lemma mset_concat_pop:
  assumes "i < length L" "L ! i \<noteq> []"
  shows "mset (concat L) = add_mset (hd (L ! i)) (mset (concat (L[i := tl (L ! i)])))"
proof -
  have "concat L = concat (take i L) @ L ! i @ concat (drop (Suc i) L)"
    using arg_cong[OF id_take_nth_drop[OF assms(1)], of concat] by simp
  moreover have "mset (L ! i) = add_mset (hd (L ! i)) (mset (tl (L ! i)))" using assms(2) by (cases "L ! i") auto
  ultimately show ?thesis using assms(1) by (simp add: upd_conv_take_nth_drop)
qed

text \<open>One round: the element popped is a first one of what is left, and the invariant carries over.\<close>

lemma merge_round:
  assumes inv: "merge_inv L iters heap" and sorted: "\<forall>es\<in>set L. sorted_wrt version_le es"
    and pop: "heap_pop heap = Some (elem, heap')"
  obtains i iter where "me_source elem = i" "i < length iters" "L ! i \<noteq> []" "me_entry elem = hd (L ! i)"
    "next_kv (iters ! i) = Inr (if tl (L ! i) = [] then None else Some (hd (tl (L ! i))), iter)"
    "merge_inv (L[i := tl (L ! i)]) (iters[i := iter])
       (push_entry i (if tl (L ! i) = [] then None else Some (hd (tl (L ! i)))) heap')"
    "\<forall>e\<in>set (concat L). version_le (me_entry elem) e"
proof -
  have len: "length iters = length L" and str: "\<forall>i<length L. streams (iters ! i) (tl (L ! i))"
    and hp: "mset heap = heads L" using inv by (auto simp: merge_inv_def)
  have "elem \<in># heads L" using mq.pop_Some[OF pop] hp by simp
  then obtain i where i: "i \<in> live L" "elem = mk_elem i (hd (L ! i))" by (auto simp: heads_def)
  then have li: "i < length L" "L ! i \<noteq> []" by (auto simp: live_def)
  obtain iter where it: "next_kv (iters ! i) = Inr (if tl (L ! i) = [] then None else Some (hd (tl (L ! i))), iter)"
    "streams iter (tl (tl (L ! i)))" using ks.yields str li(1) by blast
  have hp': "mset heap' = heads (L[i := []])"
    using mq.pop_Some[OF pop] hp heads_update(1)[OF i(1)] i(2) by simp
  have "merge_inv (L[i := tl (L ! i)]) (iters[i := iter])
       (push_entry i (if tl (L ! i) = [] then None else Some (hd (tl (L ! i)))) heap')"
    unfolding merge_inv_def
  proof (intro conjI allI impI)
    show "length (iters[i := iter]) = length (L[i := tl (L ! i)])" using len by simp
    show "mset (push_entry i (if tl (L ! i) = [] then None else Some (hd (tl (L ! i)))) heap') = heads (L[i := tl (L ! i)])"
      unfolding push_entry_mset heads_update(2)[OF i(1), of "tl (L ! i)"] hp' by simp
    fix j assume "j < length (L[i := tl (L ! i)])"
    then show "streams (iters[i := iter] ! j) (tl (L[i := tl (L ! i)] ! j))"
      using len str it(2) by (cases "j = i") auto
  qed
  moreover have "version_le (me_entry elem) e" if e: "e \<in> set (concat L)" for e
  proof -
    obtain j where j: "j < length L" "e \<in> set (L ! j)" using e by (auto simp: in_set_conv_nth) blast
    then have "sorted_wrt version_le (L ! j)" "L ! j \<noteq> []" using sorted by auto
    then have 1: "version_le (hd (L ! j)) e" using j(2) by (cases "L ! j") auto
    have "mk_elem j (hd (L ! j)) \<in># mset heap" using j \<open>L ! j \<noteq> []\<close> hp by (auto simp: heads_def live_def)
    then have "version_le (me_entry elem) (hd (L ! j))" using mq.pop_greatest[OF pop] by (force simp: merge_le_version)
    then show ?thesis using 1 version_le_trans by blast
  qed
  ultimately show thesis using that[of i iter] i(2) li len it(1) by simp
qed

lemma merge_loop_spec:
  assumes "merge_inv L iters heap" "\<forall>es\<in>set L. sorted_wrt version_le es"
  shows "\<exists>P. mset P = mset (concat L) \<and> sorted_wrt version_le P \<and>
    merge_loop is_bottom_level iters heap w prev = sst_append_all (emit is_bottom_level prev P) w"
  using assms
proof (induction "length (concat L)" arbitrary: L iters heap w prev rule: less_induct)
  case less
  show ?case
  proof (cases "heap_pop heap")
    case None
    then have "heads L = {#}" using mq.pop_None less.prems(1) by (simp add: merge_inv_def)
    then have "live L = {}" by (simp add: heads_def mset_set_empty_iff)
    then have "concat L = []" by (auto simp: live_def in_set_conv_nth)
    then show ?thesis using None by (intro exI[of _ "[]"]) (simp add: merge_loop.simps)
  next
    case (Some p)
    then obtain elem heap' where pop: "heap_pop heap = Some (elem, heap')" by (cases p) auto
    obtain i iter where r: "me_source elem = i" "i < length iters" "L ! i \<noteq> []" "me_entry elem = hd (L ! i)"
      "next_kv (iters ! i) = Inr (if tl (L ! i) = [] then None else Some (hd (tl (L ! i))), iter)"
      "merge_inv (L[i := tl (L ! i)]) (iters[i := iter])
         (push_entry i (if tl (L ! i) = [] then None else Some (hd (tl (L ! i)))) heap')"
      "\<forall>e\<in>set (concat L). version_le (me_entry elem) e"
      using merge_round[OF less.prems pop] by blast
    let ?L = "L[i := tl (L ! i)]"
    have i: "i < length L" using r(2) less.prems(1) by (simp add: merge_inv_def)
    note m = mset_concat_pop[OF i r(3)]
    have lt: "length (concat ?L) < length (concat L)" using arg_cong[OF m, of size] by simp
    have "sorted_wrt version_le (L ! i)" using less.prems(2) i by simp
    then have "sorted_wrt version_le (tl (L ! i))" by (cases "L ! i") auto
    then have srt: "\<forall>es\<in>set ?L. sorted_wrt version_le es" using less.prems(2) set_update_subset_insert[of L i "tl (L ! i)"] by auto
    note IH = less.hyps[OF lt r(6) srt]
    have P: "mset (me_entry elem # P) = mset (concat L) \<and> sorted_wrt version_le (me_entry elem # P)"
      if "mset P = mset (concat ?L)" "sorted_wrt version_le P" for P
    proof -
      have "set P \<subseteq> set (concat L)" using that(1) m by (metis mset_subset_eq_add_right set_mset_mono set_mset_mset add_mset_add_single union_commute)
      then show ?thesis using that m r(4,7) by auto
    qed
    have e: "me_entry elem = (me_key elem, me_val elem, me_seq elem)" by (simp add: me_entry_def)
    show ?thesis
    proof (cases "prev = Some (me_key elem) \<or> is_bottom_level \<and> me_val elem = None")
      case True
      let ?prev = "Some (me_key elem)"
      obtain Q where Q: "mset Q = mset (concat ?L)" "sorted_wrt version_le Q"
        "merge_loop is_bottom_level (iters[i := iter]) (push_entry i (if tl (L ! i) = [] then None else Some (hd (tl (L ! i)))) heap') w ?prev
           = sst_append_all (emit is_bottom_level ?prev Q) w" using IH by blast
      show ?thesis
        using P[OF Q(1,2)] Q(3) True r(1,2,5) pop
        by (intro exI[of _ "me_entry elem # Q"]) (auto simp: e merge_loop.simps[of _ iters heap] Let_def)
    next
      case False
      show ?thesis
      proof (cases "sst_append (me_key elem) (me_val elem) (me_seq elem) w")
        case (Inl f)
        obtain Q where "mset Q = mset (concat ?L)" "sorted_wrt version_le Q" using IH by blast
        then show ?thesis
          using P[of Q] Inl False r(1,2,5) pop
          by (intro exI[of _ "me_entry elem # Q"]) (auto simp: e merge_loop.simps[of _ iters heap] Let_def)
      next
        case (Inr w')
        obtain Q where Q: "mset Q = mset (concat ?L)" "sorted_wrt version_le Q"
          "merge_loop is_bottom_level (iters[i := iter]) (push_entry i (if tl (L ! i) = [] then None else Some (hd (tl (L ! i)))) heap') w' (Some (me_key elem))
             = sst_append_all (emit is_bottom_level (Some (me_key elem)) Q) w'" using IH by blast
        then show ?thesis
          using P[of Q] Inr False r(1,2,5) pop
          by (intro exI[of _ "me_entry elem # Q"]) (auto simp: e merge_loop.simps[of _ iters heap] Let_def)
      qed
    qed
  qed
qed

text \<open>Opening the inputs and filling the heap establish the invariant.\<close>

lemma heads_Cons:
  "image_mset (\<lambda>i. mk_elem (k + i) (hd ((l # L) ! i))) (mset_set (live (l # L))) =
     (if l = [] then {#} else {#mk_elem k (hd l)#}) +
     image_mset (\<lambda>i. mk_elem (Suc k + i) (hd (L ! i))) (mset_set (live L))"
proof -
  have "live (l # L) = (if l = [] then {} else {0}) \<union> Suc ` live L"
  proof (intro set_eqI)
    fix x show "x \<in> live (l # L) \<longleftrightarrow> x \<in> (if l = [] then {} else {0}) \<union> Suc ` live L"
      by (cases x) (auto simp: live_def)
  qed
  moreover have "mset_set ({0} \<union> Suc ` live L) = add_mset 0 (mset_set (Suc ` live L))"
    by (subst mset_set_Union) auto
  ultimately show ?thesis by (auto simp: image_mset_mset_set[symmetric] multiset.map_comp comp_def)
qed

lemma seed_heap_spec:
  assumes "list_all2 streams iters L"
  shows "\<exists>iters' heap'. seed_heap k iters heap = Inr (iters', heap') \<and>
    list_all2 (\<lambda>st es. streams st (tl es)) iters' L \<and>
    mset heap' = mset heap + image_mset (\<lambda>i. mk_elem (k + i) (hd (L ! i))) (mset_set (live L))"
  using assms
proof (induction iters L arbitrary: k heap rule: list_all2_induct)
  case Nil
  then show ?case by (simp add: live_def)
next
  case (Cons st iters es L)
  obtain st' where n: "next_kv st = Inr (if es = [] then None else Some (hd es), st')" "streams st' (tl es)"
    using ks.yields[OF Cons.hyps(1)] by blast
  obtain iters' heap' where s: "seed_heap (Suc k) iters (push_entry k (if es = [] then None else Some (hd es)) heap) = Inr (iters', heap')"
    "list_all2 (\<lambda>st es. streams st (tl es)) iters' L"
    "mset heap' = mset (push_entry k (if es = [] then None else Some (hd es)) heap) +
       image_mset (\<lambda>i. mk_elem (Suc k + i) (hd (L ! i))) (mset_set (live L))"
    using Cons.IH by blast
  have "seed_heap k (st # iters) heap = Inr (st' # iters', heap')" using n(1) s(1) by simp
  then show ?case using n(2) s(2,3) unfolding heads_Cons push_entry_mset by auto
qed

definition table_of :: "entry list \<Rightarrow> bytes \<Rightarrow> bool" where
  "table_of es f \<longleftrightarrow> (\<exists>bs. concat bs = es \<and> table_fits bs \<and> f = sst_image bs)"

lemma open_inputs_spec:
  "list_all2 table_of L fs \<Longrightarrow>
   \<exists>iters. open_inputs (map (\<lambda>f. (Inr f, None)) fs) = Inr iters \<and> list_all2 streams iters L"
proof (induction L fs rule: list_all2_induct)
  case (Cons es L f fs)
  then obtain st where "stream_open (Inr f) None = Inr st" "streams st es"
    using stream_open_image unfolding table_of_def by blast
  with Cons.IH show ?case by auto
qed simp

lemma kway_merge_spec:
  assumes "list_all2 table_of L fs" "\<forall>es\<in>set L. sorted_wrt version_le es"
  shows "\<exists>P. mset P = mset (concat L) \<and> sorted_wrt version_le P \<and>
    kway_merge (map (\<lambda>f. (Inr f, None)) fs) os io is_bottom_level = sst_write os io (emit is_bottom_level None P)"
proof -
  obtain iters where o: "open_inputs (map (\<lambda>f. (Inr f, None)) fs) = Inr iters" "list_all2 streams iters L"
    using open_inputs_spec[OF assms(1)] by blast
  obtain iters' heap where s: "seed_heap 0 iters [] = Inr (iters', heap)"
    "list_all2 (\<lambda>st es. streams st (tl es)) iters' L" "mset heap = heads L"
    using seed_heap_spec[OF o(2), of 0 "[]"] by (auto simp: heads_def)
  have inv: "merge_inv L iters' heap"
    using s(2,3) by (auto simp: merge_inv_def list_all2_conv_all_nth)
  show ?thesis
  proof (cases "sst_create os io")
    case (Inl e)
    obtain P where "mset P = mset (concat L)" "sorted_wrt version_le P"
      using merge_loop_spec[OF inv assms(2)] by blast
    then show ?thesis using o(1) s(1) Inl by (auto simp: kway_merge_def sst_write_def)
  next
    case (Inr w)
    obtain P where "mset P = mset (concat L)" "sorted_wrt version_le P"
      "merge_loop is_bottom_level iters' heap w None = sst_append_all (emit is_bottom_level None P) w"
      using merge_loop_spec[OF inv assms(2)] by blast
    then show ?thesis using o(1) s(1) Inr by (auto simp: kway_merge_def sst_write_def)
  qed
qed

section \<open>What is written\<close>

lemma emit_subset: "set (emit b prev P) \<subseteq> set P"
proof (induction P arbitrary: prev)
  case (Cons e P)
  show ?case using Cons.IH[of prev] Cons.IH[of "Some (fst e)"] by (cases e) (auto split: if_splits)
qed simp

lemma version_first:
  assumes "sorted_wrt version_le ((key, val, seq) # es)"
  shows "sorted_wrt version_le es" "\<forall>e\<in>set es. key \<le> fst e" "(key, val', seq') \<in> set es \<Longrightarrow> seq' \<le> seq"
  using assms by (simp_all, auto simp: version_le_def)

lemma emit_skips:
  "sorted_wrt version_le P \<Longrightarrow> \<forall>e\<in>set P. k \<le> fst e \<Longrightarrow> e \<in> set (emit b (Some k) P) \<Longrightarrow> k < fst e"
proof (induction P)
  case (Cons p P)
  obtain key val seq where p: "p = (key, val, seq)" by (cases p)
  note f = version_first[OF Cons.prems(1)[unfolded p]]
  show ?case
  proof (cases "k = key")
    case True
    then show ?thesis using Cons.IH[OF f(1)] Cons.prems(2,3) by (auto simp: p)
  next
    case False
    then have "k < key" using Cons.prems(2) by (auto simp: p)
    moreover have "e = p \<or> e \<in> set P" using Cons.prems(3) False emit_subset[of b "Some key" P] by (auto simp: p split: if_splits)
    ultimately show ?thesis using f(2) by (auto simp: p)
  qed
qed simp

lemma emit_sorted: "sorted_wrt version_le P \<Longrightarrow> sorted_wrt (<) (map fst (emit b prev P))"
proof (induction P arbitrary: prev)
  case (Cons p P)
  obtain key val seq where p: "p = (key, val, seq)" by (cases p)
  note f = version_first[OF Cons.prems[unfolded p]]
  have "\<forall>e\<in>set (emit b (Some key) P). key < fst e" using emit_skips[OF f(1,2)] by blast
  then show ?case using Cons.IH[OF f(1)] by (auto simp: p)
qed simp

text \<open>An entry is written iff it is the first of its key, and not a tombstone at the bottom level.\<close>

lemma emit_newest:
  assumes "sorted_wrt version_le P" "\<forall>k. prev = Some k \<longrightarrow> (\<forall>e\<in>set P. k \<le> fst e)"
  shows "(k, v, s) \<in> set (emit b prev P) \<Longrightarrow>
    prev \<noteq> Some k \<and> (k, v, s) \<in> set P \<and> (\<forall>v' s'. (k, v', s') \<in> set P \<longrightarrow> s' \<le> s) \<and> (b \<longrightarrow> v \<noteq> None)"
  using assms
proof (induction P arbitrary: prev)
  case (Cons p P)
  obtain key val seq where p: "p = (key, val, seq)" by (cases p)
  note f = version_first[OF Cons.prems(2)[unfolded p]]
  show ?case
  proof (cases "prev = Some key")
    case True
    then show ?thesis using Cons.IH[OF _ f(1), of prev] Cons.prems f(2) by (auto simp: p)
  next
    case False
    have ne: "key \<le> k \<Longrightarrow> prev \<noteq> Some k" using Cons.prems(3) False by (auto simp: p)
    have IH: "(k, v, s) \<in> set (emit b (Some key) P) \<Longrightarrow> k \<noteq> key \<and> (k, v, s) \<in> set P \<and>
        (\<forall>v' s'. (k, v', s') \<in> set P \<longrightarrow> s' \<le> s) \<and> (b \<longrightarrow> v \<noteq> None)"
      using Cons.IH[OF _ f(1), of "Some key"] f(2) by auto
    have "key \<le> k" if "(k, v, s) \<in> set P" using f(2) that by auto
    then show ?thesis using Cons.prems(1) IH ne f(3) False by (auto simp: p split: if_splits)
  qed
qed simp

lemma emit_complete:
  assumes "sorted_wrt version_le P" "(k, v, s) \<in> set P" "prev \<noteq> Some k" "\<forall>k. prev = Some k \<longrightarrow> (\<forall>e\<in>set P. k \<le> fst e)"
  shows "\<exists>v' s'. (k, v', s') \<in> set P \<and> s \<le> s' \<and> (\<not> (b \<and> v' = None) \<longrightarrow> (k, v', s') \<in> set (emit b prev P))"
  using assms
proof (induction P arbitrary: prev)
  case (Cons p P)
  obtain key val seq where p: "p = (key, val, seq)" by (cases p)
  note f = version_first[OF Cons.prems(1)[unfolded p]]
  show ?case
  proof (cases "k = key")
    case True
    then have "s \<le> seq" using Cons.prems(2) f(3) by (auto simp: p)
    then show ?thesis using Cons.prems(3) True by (intro exI[of _ val] exI[of _ seq]) (auto simp: p)
  next
    case False
    then have "(k, v, s) \<in> set P" using Cons.prems(2) by (auto simp: p)
    then obtain v' s' where "(k, v', s') \<in> set P" "s \<le> s'" "\<not> (b \<and> v' = None) \<longrightarrow> (k, v', s') \<in> set (emit b (Some key) P)"
      using Cons.IH[OF f(1), of "Some key"] False f(2) by auto
    then show ?thesis by (intro exI[of _ v'] exI[of _ s']) (auto simp: p)
  qed
qed simp

text \<open>The newest version of a key among a list of versions, and what a merged table shows of it.\<close>

definition newest :: "entry list \<Rightarrow> bytes \<Rightarrow> (bytes option \<times> u64) option" where
  "newest es k =
     (case filter (\<lambda>e. fst e = k) es of
        [] \<Rightarrow> None
      | x # xs \<Rightarrow> Some (snd (fold (\<lambda>e m. if snd (snd m) < snd (snd e) then e else m) xs x)))"

definition merged_view :: "bool \<Rightarrow> (bytes option \<times> u64) option \<Rightarrow> (bytes option \<times> u64) option" where
  "merged_view is_bottom_level r =
     (case r of Some (None, s) \<Rightarrow> if is_bottom_level then None else r | _ \<Rightarrow> r)"

definition one_value :: "entry list \<Rightarrow> bool" where
  "one_value es \<longleftrightarrow> (\<forall>e\<in>set es. \<forall>e'\<in>set es. fst e = fst e' \<longrightarrow> snd (snd e) = snd (snd e') \<longrightarrow> e = e')"

lemma one_valueD: "one_value es \<Longrightarrow> (k, v, s) \<in> set es \<Longrightarrow> (k, v', s) \<in> set es \<Longrightarrow> v = v'"
  by (fastforce simp: one_value_def)

lemma fold_newest:
  fixes x :: entry
  defines "m \<equiv> fold (\<lambda>e m. if snd (snd m) < snd (snd e) then e else m)"
  shows "m xs x \<in> set (x # xs) \<and> snd (snd x) \<le> snd (snd (m xs x)) \<and> (\<forall>e\<in>set xs. snd (snd e) \<le> snd (snd (m xs x)))"
proof (induction xs arbitrary: x)
  case (Cons a xs)
  define x' where "x' = (if snd (snd x) < snd (snd a) then a else x)"
  have "m (a # xs) x = m xs x'" by (simp add: m_def x'_def)
  moreover have "snd (snd x) \<le> snd (snd x')" "snd (snd a) \<le> snd (snd x')" "x' = x \<or> x' = a" by (auto simp: x'_def)
  ultimately show ?case using Cons.IH[of x'] by auto
qed (simp add: m_def)

lemma newest_None: "newest es k = None \<longleftrightarrow> k \<notin> fst ` set es"
proof -
  have "newest es k = None \<longleftrightarrow> filter (\<lambda>e. fst e = k) es = []" by (simp add: newest_def split: list.split)
  then show ?thesis by (auto simp: filter_empty_conv)
qed

lemma newest_Some:
  assumes "newest es k = Some (v, s)"
  shows "(k, v, s) \<in> set es" "(k, v', s') \<in> set es \<Longrightarrow> s' \<le> s"
proof -
  obtain x xs where f: "filter (\<lambda>e. fst e = k) es = x # xs"
    "snd (fold (\<lambda>e m. if snd (snd m) < snd (snd e) then e else m) xs x) = (v, s)"
    using assms by (auto simp: newest_def split: list.splits)
  define m where "m = fold (\<lambda>e m. if snd (snd m) < snd (snd e) then e else m) xs x"
  have m: "m \<in> set (x # xs)" "\<forall>e\<in>set (x # xs). snd (snd e) \<le> snd (snd m)"
    using fold_newest[of xs x] by (auto simp: m_def)
  have sub: "e \<in> set (x # xs) \<longleftrightarrow> e \<in> set es \<and> fst e = k" for e by (simp add: f(1)[symmetric])
  have "fst m = k" "snd m = (v, s)" using m(1) sub[of m] f(2) by (blast, simp add: m_def)
  then have "m = (k, v, s)" by (cases m) simp
  then show "(k, v, s) \<in> set es" "(k, v', s') \<in> set es \<Longrightarrow> s' \<le> s"
    using m sub[of m] sub[of "(k, v', s')"] by auto
qed

lemma newest_eqI:
  assumes "one_value es" "(k, v, s) \<in> set es" "\<And>v' s'. (k, v', s') \<in> set es \<Longrightarrow> s' \<le> s"
  shows "newest es k = Some (v, s)"
proof -
  obtain v1 s1 where n: "newest es k = Some (v1, s1)"
    using newest_None[of es k] assms(2) by (cases "newest es k") force+
  from newest_Some(1)[OF n] newest_Some(2)[OF n assms(2)] assms(3) have "s1 = s" by (metis order_antisym)
  then show ?thesis using n newest_Some(1)[OF n] one_valueD[OF assms(1,2)] by auto
qed

lemma newest_mset: "mset es = mset es' \<Longrightarrow> one_value es \<Longrightarrow> newest es k = newest es' k"
proof -
  assume m: "mset es = mset es'" and o: "one_value es"
  have s: "set es = set es'" using m by (rule mset_eq_setD)
  show ?thesis
  proof (cases "newest es k")
    case None
    then show ?thesis using s newest_None by metis
  next
    case (Some r)
    then obtain v sq where "newest es k = Some (v, sq)" by (cases r) auto
    then show ?thesis using newest_Some[of es k v sq] newest_eqI[of es' k v sq] o s Some by (auto simp: one_value_def)
  qed
qed

lemma map_of_emit:
  assumes "sorted_wrt version_le P" "one_value P"
  shows "map_of (emit b None P) k = merged_view b (newest P k)"
proof -
  have d: "distinct (map fst (emit b None P))" using emit_sorted[OF assms(1)] strict_sorted_imp_sorted by (simp add: strict_sorted_iff)
  have some: "newest P k = Some (v, s) \<and> (b \<longrightarrow> v \<noteq> None)" if "(k, v, s) \<in> set (emit b None P)" for v s
    using emit_newest[OF assms(1) _ that] newest_eqI[OF assms(2)] by auto
  show ?thesis
  proof (cases "map_of (emit b None P) k")
    case (Some vs)
    then obtain v s where "(k, v, s) \<in> set (emit b None P)" "vs = (v, s)" by (cases vs) (auto dest: map_of_SomeD)
    then show ?thesis using some Some by (auto simp: merged_view_def split: option.splits)
  next
    case None
    have "b \<and> v = None" if n: "newest P k = Some (v, s)" for v s
    proof -
      obtain v' s' where e: "(k, v', s') \<in> set P" "s \<le> s'" "\<not> (b \<and> v' = None) \<longrightarrow> (k, v', s') \<in> set (emit b None P)"
        using emit_complete[OF assms(1) newest_Some(1)[OF n], of None b] by auto
      have "s' = s" using newest_Some(2)[OF n e(1)] e(2) by simp
      then have "v' = v" using newest_Some(1)[OF n] e(1) one_valueD[OF assms(2)] by blast
      moreover have "(k, v', s') \<notin> set (emit b None P)" using None by (force simp: map_of_eq_None_iff)
      ultimately show ?thesis using e(3) by simp
    qed
    then show ?thesis using None by (auto simp: merged_view_def split: option.splits)
  qed
qed

text \<open>Sizes of the merged entries.\<close>

lemma length_enc_block_sum: "length (enc_block es) = (\<Sum>e\<in>#mset es. length (enc_entry e))"
  by (induction es) (simp_all add: enc_block_def)

lemma length_enc_emit: "length (enc_block (emit b prev P)) \<le> length (enc_block P)"
proof (induction P arbitrary: prev)
  case (Cons e P)
  show ?case using Cons.IH[of prev] Cons.IH[of "Some (fst e)"] by (cases e) (auto simp: enc_block_def)
qed simp

lemma entries_fit_emit: "entries_fit es \<Longrightarrow> mset P = mset es \<Longrightarrow> entries_fit (emit b prev P)"
  using emit_subset[of b prev P] length_enc_emit[of b prev P] mset_eq_setD[of P es]
  by (auto simp: entries_fit_def list_all_iff length_enc_block_sum)

lemma table_of_open:
  assumes "table_of es f"
  obtains r where "sst_open (Inr f) None = Inr r"
    "sst_get_first_key r = Inr (if es = [] then None else Some (fst (hd es)))"
    "sst_get_last_key r = (if es = [] then None else Some (fst (last es)))"
    "sorted_wrt (<) (map fst es) \<Longrightarrow> sst_get avx2 r key = Inr (map_of es key)"
proof -
  obtain bs where bs: "concat bs = es" "table_fits bs" "f = sst_image bs" using assms by (auto simp: table_of_def)
  have "bs = [] \<longleftrightarrow> es = []" using bs(1,2) by (cases bs) (auto simp: table_fits_def)
  then show thesis
    using that[OF sst_open_image[OF bs(2), folded bs(3)]] sst_first_last_image[OF bs(2)] sst_get_strict[OF bs(2), of avx2 key] bs(1)
    by auto
qed

lemma table_of_write: "sst_write os io es = Inr (n, f) \<Longrightarrow> entries_fit es \<Longrightarrow> table_of es f"
  using sst_write_fits unfolding table_of_def by metis

text \<open>The merge of tables is a table with, of each key, the newest version.\<close>

lemma kway_merge_table:
  assumes "list_all2 table_of L fs" "\<forall>es\<in>set L. sorted_wrt version_le es"
    and "entries_fit (concat L)" "one_value (concat L)" "no_faults io"
  obtains n f es where "kway_merge (map (\<lambda>f. (Inr f, None)) fs) None io is_bottom_level = Inr (n, f)"
    "table_of es f" "sorted_wrt (<) (map fst es)" "\<And>key. map_of es key = merged_view is_bottom_level (newest (concat L) key)"
    "set es \<subseteq> set (concat L)" "length (enc_block es) \<le> length (enc_block (concat L))"
proof -
  obtain P where P: "mset P = mset (concat L)" "sorted_wrt version_le P"
    "kway_merge (map (\<lambda>f. (Inr f, None)) fs) None io is_bottom_level = sst_write None io (emit is_bottom_level None P)"
    using kway_merge_spec[OF assms(1,2)] by blast
  let ?es = "emit is_bottom_level None P"
  have ov: "one_value P" using assms(4) mset_eq_setD[OF P(1)] by (simp add: one_value_def)
  obtain n f where w: "sst_write None io ?es = Inr (n, f)" using sst_write_ok[OF assms(5)] by blast
  have "map_of ?es key = merged_view is_bottom_level (newest (concat L) key)" for key
    using map_of_emit[OF P(2) ov] newest_mset[OF P(1) ov] by simp
  moreover have "length (enc_block ?es) \<le> length (enc_block (concat L))"
    using length_enc_emit[of is_bottom_level None P] P(1) by (simp add: length_enc_block_sum)
  moreover have "set ?es \<subseteq> set (concat L)" using emit_subset[of is_bottom_level None P] mset_eq_setD[OF P(1)] by simp
  ultimately show thesis
    using that[of n f ?es] P(3) w table_of_write[OF w entries_fit_emit[OF assms(3) P(1)]] emit_sorted[OF P(2)] by simp
qed

section \<open>Properties\<close>

text \<open>
  C5. The merge of any number of tables, each holding its versions by key and newest first,
  succeeds when the file system does, and the merged table answers for every key as the newest
  version over all inputs: its value, or at the bottom level nothing at all for a tombstone.
\<close>

theorem kway_merge_newest:
  assumes "list_all2 (\<lambda>es f. \<exists>os io n. sst_write os io es = Inr (n, f)) L fs"
    and "\<forall>es\<in>set L. sorted_wrt version_le es \<and> entries_fit es"
    and "entries_fit (concat L)" "one_value (concat L)" "no_faults io"
  shows "\<exists>n f r. kway_merge (map (\<lambda>f. (Inr f, None)) fs) None io is_bottom_level = Inr (n, f) \<and>
    sst_open (Inr f) None = Inr r \<and>
    (\<forall>key. sst_get avx2 r key = Inr (merged_view is_bottom_level (newest (concat L) key)))"
proof -
  have "list_all2 table_of L fs"
    using assms(1)
  proof (rule list.rel_mono_strong)
    fix es f assume "es \<in> set L" "\<exists>os io n. sst_write os io es = Inr (n, f)"
    then show "table_of es f" using assms(2) table_of_write by blast
  qed
  then obtain n f es where m: "kway_merge (map (\<lambda>f. (Inr f, None)) fs) None io is_bottom_level = Inr (n, f)"
    "table_of es f" "sorted_wrt (<) (map fst es)" "\<And>key. map_of es key = merged_view is_bottom_level (newest (concat L) key)"
    using kway_merge_table[of L fs io is_bottom_level] assms(2-5) by metis
  from table_of_open[OF m(2)] m(3) obtain r where "sst_open (Inr f) None = Inr r" by blast
  moreover have "sst_get avx2 r key = Inr (map_of es key)" for key
    using table_of_open[OF m(2), of avx2 key] m(3) calculation by (metis sum.inject(2))
  ultimately show ?thesis using m(1,4) by auto
qed

theorem kway_merge_newest_witness:
  "\<exists>f1 f2 n f r. sst_write None [] [([1], Some [7], 5), ([2], Some [8], 4)] = Inr f1 \<and>
     sst_write None [] [([1], None, 9)] = Inr f2 \<and>
     kway_merge [(Inr (snd f1), None), (Inr (snd f2), None)] None [] True = Inr (n, f) \<and>
     sst_open (Inr f) None = Inr r \<and> sst_get True r [1] = Inr None \<and> sst_get True r [2] = Inr (Some (Some [8], 4))"
proof -
  let ?a = "[([1], Some [7], 5), ([2], Some [8], 4)] :: entry list" and ?b = "[([1], None, 9)] :: entry list"
  obtain n1 f1 n2 f2 where w: "sst_write None [] ?a = Inr (n1, f1)" "sst_write None [] ?b = Inr (n2, f2)"
    using sst_write_ok[of "[]" ?a] sst_write_ok[of "[]" ?b] by (auto simp: no_faults_def)
  have "list_all2 (\<lambda>es f. \<exists>os io n. sst_write os io es = Inr (n, f)) [?a, ?b] [f1, f2]" using w by auto
  moreover have "\<forall>es\<in>set [?a, ?b]. sorted_wrt version_le es \<and> entries_fit es"
    by (simp add: version_le_def entries_fit_def entry_ok_def enc_block_def length_enc_entry)
  moreover have "entries_fit (concat [?a, ?b])" by (simp add: entries_fit_def entry_ok_def enc_block_def length_enc_entry)
  moreover have "one_value (concat [?a, ?b])" by (simp add: one_value_def)
  moreover have "no_faults []" by (simp add: no_faults_def)
  ultimately obtain n f r where "kway_merge (map (\<lambda>f. (Inr f, None)) [f1, f2]) None [] True = Inr (n, f)"
    "sst_open (Inr f) None = Inr r" "\<forall>key. sst_get True r key = Inr (merged_view True (newest (concat [?a, ?b]) key))"
    using kway_merge_newest[of "[?a, ?b]" "[f1, f2]" "[]" True True] by blast
  then show ?thesis using w
    by (intro exI[of _ "(n1, f1)"] exI[of _ "(n2, f2)"] exI[of _ n] exI[of _ f] exI[of _ r])
      (simp add: newest_def merged_view_def)
qed

end
