(* ===== verification/Compaction.thy ===== *)
theory Compaction
  imports Merge
begin

text \<open>
  The leveled compactor, \<^verbatim>\<open>src/tier3_storage/src/compaction/manager.rs\<close>: the tables of level 0 in
  the order they were flushed, the tables of level 1 with disjoint key ranges in key order, and
  the compaction that merges all of level 0 with the tables of level 1 it overlaps.

  The files are a map from paths to contents; \<open>mm\<close> is the errno of a failing \<open>mmap\<close> per path. An
  \<open>expect\<close> that fails is a panic; it happens under the write lock, which is then poisoned.
\<close>

section \<open>State\<close>

type_synonym path = string
type_synonym disk = "path \<rightharpoonup> bytes"

record table_metadata =
  tm_id :: u64
  tm_path :: path
  smallest_key :: bytes
  largest_key :: bytes

record compactor =
  cp_db_dir :: path
  cp_l0 :: "table_metadata list"
  cp_l1 :: "table_metadata list"
  cp_next_sst_id :: u64

definition L0_TRIGGER_COUNT :: nat where
  "L0_TRIGGER_COUNT = 4"

section \<open>Operations\<close>

definition compactor_new :: "path \<Rightarrow> u64 \<Rightarrow> compactor" where
  "compactor_new db_dir next_sst_id = \<lparr>cp_db_dir = db_dir, cp_l0 = [], cp_l1 = [], cp_next_sst_id = next_sst_id\<rparr>"

definition add_l0_table :: "path \<Rightarrow> bytes \<Rightarrow> bytes \<Rightarrow> compactor \<Rightarrow> compactor" where
  "add_l0_table p smallest largest c =
     c\<lparr>cp_l0 := cp_l0 c @ [\<lparr>tm_id = cp_next_sst_id c, tm_path = p, smallest_key = smallest, largest_key = largest\<rparr>],
       cp_next_sst_id := cp_next_sst_id c + 1\<rparr>"

text \<open>\<open>format!("{:06}_L1.sst", id)\<close> and \<open>PathBuf::join\<close> of a relative name.\<close>

fun digits :: "nat \<Rightarrow> string" where
  "digits n = (if n < 10 then [char_of (48 + n)] else digits (n div 10) @ [char_of (48 + n mod 10)])"

declare digits.simps [simp del]

definition path_join :: "path \<Rightarrow> string \<Rightarrow> path" where
  "path_join dir name = (if dir = [] \<or> last dir = CHR ''/'' then dir @ name else dir @ ''/'' @ name)"

definition l1_path :: "path \<Rightarrow> u64 \<Rightarrow> path" where
  "l1_path dir sst_id = path_join dir
     (let ds = digits (unat sst_id) in replicate (6 - length ds) CHR ''0'' @ ds @ ''_L1.sst'')"

definition open_file :: "disk \<Rightarrow> path \<Rightarrow> io_kind + bytes" where
  "open_file disk p = (case disk p of None \<Rightarrow> Inl NotFound | Some bs \<Rightarrow> Inr bs)"

definition l0_range :: "table_metadata list \<Rightarrow> bytes option \<times> bytes option" where
  "l0_range l0 = fold (\<lambda>m (min_k, max_k).
       (Some (case min_k of Some k \<Rightarrow> if k < smallest_key m then k else smallest_key m | None \<Rightarrow> smallest_key m),
        Some (case max_k of Some k \<Rightarrow> if k > largest_key m then k else largest_key m | None \<Rightarrow> largest_key m)))
     l0 (None, None)"

definition maybe_schedule_compaction ::
  "(path \<Rightarrow> nat option) \<Rightarrow> io_kind option \<Rightarrow> io_kind option list \<Rightarrow> disk \<Rightarrow> compactor \<Rightarrow> (unit option \<times> compactor \<times> disk) result" where
  "maybe_schedule_compaction mm os io disk c =
     (if length (cp_l0 c) < L0_TRIGGER_COUNT then Inr (None, c, disk)
      else case l0_range (cp_l0 c) of
        (Some min_k, Some max_k) \<Rightarrow> (let
          l0_files = map tm_path (cp_l0 c);
          apart = (\<lambda>m. largest_key m < min_k \<or> smallest_key m > max_k);
          remaining_l1 = filter apart (cp_l1 c);
          overlapping_l1_paths = map tm_path (filter (\<lambda>m. \<not> apart m) (cp_l1 c));
          merge_inputs = l0_files @ overlapping_l1_paths;
          out_id = cp_next_sst_id c;
          out_path = l1_path (cp_db_dir c) out_id
        in case kway_merge (map (\<lambda>p. (open_file disk p, mm p)) merge_inputs) os io True of
            Inl _ \<Rightarrow> Inl Panic
          | Inr (_, out) \<Rightarrow> (let disk = disk(out_path \<mapsto> out) in
              case sst_open (open_file disk out_path) (mm out_path) of
                Inl _ \<Rightarrow> Inl Panic
              | Inr reader \<Rightarrow>
                (case sst_get_first_key reader of
                   Inl f \<Rightarrow> Inl f
                 | Inr first \<Rightarrow> (let
                     smallest = (case first of None \<Rightarrow> [] | Some k \<Rightarrow> k);
                     largest = (case sst_get_last_key reader of None \<Rightarrow> [] | Some k \<Rightarrow> k);
                     remaining_l1 = remaining_l1 @ [\<lparr>tm_id = out_id, tm_path = out_path,
                                                     smallest_key = smallest, largest_key = largest\<rparr>];
                     disk = fold (\<lambda>p d. d(p := None)) merge_inputs disk
                   in Inr (Some (), c\<lparr>cp_l0 := [], cp_l1 := sort_key smallest_key remaining_l1,
                                     cp_next_sst_id := out_id + 1\<rparr>, disk)))))
      | _ \<Rightarrow> Inl Panic)"

section \<open>What the levels hold\<close>

text \<open>
  \<open>ent\<close> gives the entries of the table at a path. Level 0 tables are not empty and hold their
  versions by key, newest first; level 1 tables have each key once, and their key ranges are
  disjoint and in order. (A merge that leaves nothing produces a table with no entry, whose keys
  are recorded as empty.)
\<close>

definition table_holds :: "disk \<Rightarrow> table_metadata \<Rightarrow> entry list \<Rightarrow> bool" where
  "table_holds disk m es \<longleftrightarrow>
     (\<exists>f. disk (tm_path m) = Some f \<and> table_of es f) \<and>
     smallest_key m = (if es = [] then [] else fst (hd es)) \<and> largest_key m = (if es = [] then [] else fst (last es))"

definition versions :: "(path \<Rightarrow> entry list) \<Rightarrow> table_metadata list \<Rightarrow> entry list" where
  "versions ent ms = concat (map (\<lambda>m. ent (tm_path m)) ms)"

definition before :: "(path \<Rightarrow> entry list) \<Rightarrow> table_metadata \<Rightarrow> table_metadata \<Rightarrow> bool" where
  "before ent m m' \<longleftrightarrow> smallest_key m \<le> smallest_key m' \<and>
     (ent (tm_path m) \<noteq> [] \<longrightarrow> ent (tm_path m') \<noteq> [] \<longrightarrow> largest_key m < smallest_key m')"

definition levels_ok :: "disk \<Rightarrow> (path \<Rightarrow> entry list) \<Rightarrow> compactor \<Rightarrow> bool" where
  "levels_ok disk ent c \<longleftrightarrow>
     (\<forall>m\<in>set (cp_l0 c @ cp_l1 c). table_holds disk m (ent (tm_path m))) \<and>
     (\<forall>m\<in>set (cp_l0 c). ent (tm_path m) \<noteq> [] \<and> sorted_wrt version_le (ent (tm_path m))) \<and>
     (\<forall>m\<in>set (cp_l1 c). sorted_wrt (<) (map fst (ent (tm_path m)))) \<and>
     sorted_wrt (before ent) (cp_l1 c) \<and> distinct (map tm_path (cp_l0 c @ cp_l1 c)) \<and>
     entries_fit (versions ent (cp_l0 c @ cp_l1 c)) \<and> one_value (versions ent (cp_l0 c @ cp_l1 c))"

lemma versions_simps [simp]:
  "versions ent [] = []" "versions ent (m # ms) = ent (tm_path m) @ versions ent ms"
  "versions ent (ms @ ms') = versions ent ms @ versions ent ms'"
  by (simp_all add: versions_def)

lemma l0_range_bounds:
  assumes "l0 \<noteq> []"
  obtains mn mx where "l0_range l0 = (Some mn, Some mx)" "\<forall>m\<in>set l0. mn \<le> smallest_key m \<and> largest_key m \<le> mx"
proof -
  let ?f = "\<lambda>m (min_k, max_k).
       (Some (case min_k of Some k \<Rightarrow> if k < smallest_key m then k else smallest_key m | None \<Rightarrow> smallest_key m),
        Some (case max_k of Some k \<Rightarrow> if k > largest_key m then k else largest_key m | None \<Rightarrow> largest_key m))"
  have "\<exists>mn mx. fold ?f ms (Some a, Some b) = (Some mn, Some mx) \<and> mn \<le> a \<and> b \<le> mx \<and>
      (\<forall>m\<in>set ms. mn \<le> smallest_key m \<and> largest_key m \<le> mx)" for ms a b
  proof (induction ms arbitrary: a b)
    case (Cons m ms)
    let ?a = "if a < smallest_key m then a else smallest_key m" and ?b = "if b > largest_key m then b else largest_key m"
    obtain mn mx where "fold ?f ms (Some ?a, Some ?b) = (Some mn, Some mx)" "mn \<le> ?a" "?b \<le> mx"
      "\<forall>m\<in>set ms. mn \<le> smallest_key m \<and> largest_key m \<le> mx"
      using Cons.IH[of ?a ?b] by blast
    then show ?case by (intro exI[of _ mn] exI[of _ mx]) (auto split: if_splits)
  qed simp
  then obtain mn mx where "fold ?f (tl l0) (Some (smallest_key (hd l0)), Some (largest_key (hd l0))) = (Some mn, Some mx)"
    "mn \<le> smallest_key (hd l0)" "largest_key (hd l0) \<le> mx" "\<forall>m\<in>set (tl l0). mn \<le> smallest_key m \<and> largest_key m \<le> mx"
    by blast
  then show thesis using assms that[of mn mx] by (cases l0) (simp_all add: l0_range_def)
qed

section \<open>Lists of versions\<close>

lemma entries_fit_mono: "entries_fit es \<Longrightarrow> mset es' \<subseteq># mset es \<Longrightarrow> entries_fit es'"
proof -
  assume f: "entries_fit es" and s: "mset es' \<subseteq># mset es"
  then obtain M where "mset es = mset es' + M" by (auto simp: mset_subset_eq_exists_conv)
  then have "length (enc_block es') \<le> length (enc_block es)" by (simp add: length_enc_block_sum)
  then show "entries_fit es'" using f set_mset_mono[OF s] by (auto simp: entries_fit_def list_all_iff)
qed

lemma one_value_mono: "one_value es \<Longrightarrow> set es' \<subseteq> set es \<Longrightarrow> one_value es'"
  by (auto simp: one_value_def)

lemma strict_keys_version: "sorted_wrt (<) (map fst es) \<Longrightarrow> sorted_wrt version_le es"
  unfolding sorted_wrt_map by (erule sorted_wrt_mono_rel[rotated]) (simp add: version_le_def)

lemma newest_append:
  "k \<notin> fst ` set ys \<Longrightarrow> newest (xs @ ys) k = newest xs k"
  "k \<notin> fst ` set xs \<Longrightarrow> newest (xs @ ys) k = newest ys k"
proof -
  have f: "k \<notin> fst ` set zs \<Longrightarrow> filter (\<lambda>e. fst e = k) zs = []" for zs :: "entry list"
    by (auto simp: filter_empty_conv)
  show "k \<notin> fst ` set ys \<Longrightarrow> newest (xs @ ys) k = newest xs k"
    "k \<notin> fst ` set xs \<Longrightarrow> newest (xs @ ys) k = newest ys k"
    using f[of ys] f[of xs] by (simp_all add: newest_def)
qed

lemma newest_distinct: "distinct (map fst es) \<Longrightarrow> newest es k = map_of es k"
proof (cases "map_of es k")
  case None
  then show ?thesis using newest_None[of es k] by (metis map_of_eq_None_iff)
next
  case (Some vs)
  assume d: "distinct (map fst es)"
  have "one_value es" using d unfolding one_value_def by (metis eq_key_imp_eq_value prod.collapse)
  moreover have "(k, fst vs, snd vs) \<in> set es" using Some by (simp add: map_of_SomeD)
  moreover have "s' \<le> snd vs" if "(k, v', s') \<in> set es" for v' s'
    using that Some d map_of_is_SomeI[OF d that] by auto
  ultimately show ?thesis using newest_eqI[of es k "fst vs" "snd vs"] Some by simp
qed

lemma merged_view_idem [simp]: "merged_view b (merged_view b r) = merged_view b r"
  by (auto simp: merged_view_def split: option.splits prod.splits)

lemma merged_view_None [simp]: "merged_view b None = None"
  by (simp add: merged_view_def)

section \<open>Ranges\<close>

lemma table_range:
  assumes "table_holds disk m (ent (tm_path m))" "sorted_wrt version_le (ent (tm_path m))" "e \<in> set (ent (tm_path m))"
  shows "smallest_key m \<le> fst e \<and> fst e \<le> largest_key m"
proof -
  let ?es = "ent (tm_path m)"
  have s: "sorted (map fst ?es)"
    unfolding sorted_map by (rule sorted_wrt_mono_rel[OF _ assms(2)]) (auto simp: version_le_def)
  obtain i where i: "i < length ?es" "e = ?es ! i" using assms(3) by (auto simp: in_set_conv_nth)
  have "fst (?es ! j) \<le> fst (?es ! l)" if "j \<le> l" "l < length ?es" for j l
    using sorted_nth_mono[OF s, of j l] that by simp
  then have "fst (?es ! 0) \<le> fst (?es ! i)" "fst (?es ! i) \<le> fst (?es ! (length ?es - 1))" using i(1) by auto
  then show ?thesis using assms(1) i by (auto simp: table_holds_def hd_conv_nth last_conv_nth)
qed

lemma levels_table_range:
  assumes "levels_ok disk ent c" "m \<in> set (cp_l0 c @ cp_l1 c)" "e \<in> set (ent (tm_path m))"
  shows "smallest_key m \<le> fst e \<and> fst e \<le> largest_key m"
proof -
  have "sorted_wrt version_le (ent (tm_path m))" "table_holds disk m (ent (tm_path m))"
    using assms(1,2) strict_keys_version by (auto simp: levels_ok_def)
  then show ?thesis using table_range[of disk m ent e] assms(3) by simp
qed

lemma sorted_wrt_pair:
  assumes "sorted_wrt R xs" "x \<in> set xs" "y \<in> set xs" "x \<noteq> y"
  shows "R x y \<or> R y x"
proof -
  obtain i j where "i < length xs" "x = xs ! i" "j < length xs" "y = xs ! j" using assms(2,3) by (auto simp: in_set_conv_nth)
  moreover from this have "i < j \<or> j < i" using assms(4) by (metis linorder_neqE_nat)
  ultimately show ?thesis using assms(1) by (auto simp: sorted_wrt_iff_nth_less)
qed

text \<open>A level 1 table left out of the merge lies wholly below or wholly above all that is merged.\<close>

lemma remaining_apart:
  assumes ok: "levels_ok disk ent c" and range: "\<forall>m\<in>set (cp_l0 c). mn \<le> smallest_key m \<and> largest_key m \<le> mx"
    and m: "m \<in> set (cp_l1 c)" "ent (tm_path m) \<noteq> []" "largest_key m < mn \<or> mx < smallest_key m"
    and m': "m' \<in> set (cp_l0 c) \<or> m' \<in> set (cp_l1 c) \<and> \<not> (largest_key m' < mn \<or> mx < smallest_key m')"
    and e: "e \<in> set (ent (tm_path m'))"
  shows "if largest_key m < mn then largest_key m < fst e else fst e < smallest_key m"
proof -
  have e': "smallest_key m' \<le> fst e" "fst e \<le> largest_key m'" using levels_table_range[OF ok _ e] m' by auto
  have sm: "smallest_key m \<le> largest_key m"
    using levels_table_range[OF ok, of m "hd (ent (tm_path m))"] m(1,2) by auto
  show ?thesis
  proof (cases "m' \<in> set (cp_l0 c)")
    case True
    then have "mn \<le> fst e" "fst e \<le> mx" using range e' by auto
    then show ?thesis using m(3) by auto
  next
    case False
    then have m1: "m' \<in> set (cp_l1 c)" "mn \<le> largest_key m'" "smallest_key m' \<le> mx" using m' by auto
    then have "m \<noteq> m'" using m(3) by auto
    moreover have "sorted_wrt (before ent) (cp_l1 c)" using ok by (simp add: levels_ok_def)
    ultimately have "before ent m m' \<or> before ent m' m" using sorted_wrt_pair m(1) m1(1) by metis
    moreover have "ent (tm_path m') \<noteq> []" using e by auto
    ultimately have "largest_key m < smallest_key m' \<or> largest_key m' < smallest_key m"
      using m(2) by (auto simp: before_def)
    then show ?thesis using e' sm m1 m(3) by auto
  qed
qed

lemma sorted_before:
  assumes "distinct ms" "sorted (map smallest_key ms)"
    and "\<forall>m\<in>set ms. ent (tm_path m) \<noteq> [] \<longrightarrow> smallest_key m \<le> largest_key m"
    and "\<And>m m'. m \<in> set ms \<Longrightarrow> m' \<in> set ms \<Longrightarrow> m \<noteq> m' \<Longrightarrow> ent (tm_path m) \<noteq> [] \<Longrightarrow> ent (tm_path m') \<noteq> [] \<Longrightarrow>
      largest_key m < smallest_key m' \<or> largest_key m' < smallest_key m"
  shows "sorted_wrt (before ent) ms"
  unfolding sorted_wrt_iff_nth_less
proof (intro allI impI)
  fix i j assume ij: "i < j" "j < length ms"
  then have le: "smallest_key (ms ! i) \<le> smallest_key (ms ! j)" "ms ! i \<noteq> ms ! j"
    using assms(1) sorted_nth_mono[OF assms(2), of i j] by (auto simp: nth_eq_iff_index_eq)
  have "largest_key (ms ! i) < smallest_key (ms ! j)"
    if "ent (tm_path (ms ! i)) \<noteq> []" "ent (tm_path (ms ! j)) \<noteq> []"
  proof -
    have "smallest_key (ms ! j) \<le> largest_key (ms ! j)" using assms(3) ij that by auto
    moreover have "largest_key (ms ! i) < smallest_key (ms ! j) \<or> largest_key (ms ! j) < smallest_key (ms ! i)"
      using assms(4)[of "ms ! i" "ms ! j"] that ij le(2) by simp
    ultimately show ?thesis using le(1) by auto
  qed
  then show "before ent (ms ! i) (ms ! j)" using le(1) by (auto simp: before_def)
qed

section \<open>The compaction step\<close>

lemma fold_remove: "fold (\<lambda>p d. d(p := None)) ps d q = (if q \<in> set ps then None else d q)"
  by (induction ps arbitrary: d) auto

lemma inputs_open:
  assumes "\<forall>m\<in>set ms. table_holds disk m (ent (tm_path m))"
  shows "\<exists>fs. map (\<lambda>p. (open_file disk p, None :: nat option)) (map tm_path ms) = map (\<lambda>f. (Inr f, None :: nat option)) fs \<and>
    list_all2 table_of (map (\<lambda>m. ent (tm_path m)) ms) fs"
  using assms
proof (induction ms)
  case (Cons m ms)
  then obtain fs f where "map (\<lambda>p. (open_file disk p, None :: nat option)) (map tm_path ms) = map (\<lambda>f. (Inr f, None :: nat option)) fs"
    "list_all2 table_of (map (\<lambda>m. ent (tm_path m)) ms) fs" "disk (tm_path m) = Some f" "table_of (ent (tm_path m)) f"
    by (auto simp: table_holds_def)
  then show ?case by (intro exI[of _ "f # fs"]) (simp add: open_file_def)
qed simp

text \<open>What the step does to the state, from the merged entries \<open>es\<close>.\<close>

definition out_meta :: "compactor \<Rightarrow> entry list \<Rightarrow> table_metadata" where
  "out_meta c es = \<lparr>tm_id = cp_next_sst_id c, tm_path = l1_path (cp_db_dir c) (cp_next_sst_id c),
     smallest_key = (if es = [] then [] else fst (hd es)), largest_key = (if es = [] then [] else fst (last es))\<rparr>"

lemma compaction_state:
  assumes ok: "levels_ok disk ent c" and trig: "L0_TRIGGER_COUNT \<le> length (cp_l0 c)"
    and range: "l0_range (cp_l0 c) = (Some mn, Some mx)" and io: "no_faults io"
  defines "apart \<equiv> \<lambda>m. largest_key m < mn \<or> smallest_key m > mx"
  defines "In \<equiv> cp_l0 c @ filter (\<lambda>m. \<not> apart m) (cp_l1 c)"
  obtains f es where "table_of es f" "sorted_wrt (<) (map fst es)"
    "\<And>key. map_of es key = merged_view True (newest (versions ent In) key)"
    "set es \<subseteq> set (versions ent In)" "length (enc_block es) \<le> length (enc_block (versions ent In))"
    "maybe_schedule_compaction (\<lambda>_. None) None io disk c =
       Inr (Some (), c\<lparr>cp_l0 := [], cp_l1 := sort_key smallest_key (filter apart (cp_l1 c) @ [out_meta c es]),
                       cp_next_sst_id := cp_next_sst_id c + 1\<rparr>,
            fold (\<lambda>p d. d(p := None)) (map tm_path In) (disk(tm_path (out_meta c es) \<mapsto> f)))"
proof -
  have holds: "\<forall>m\<in>set In. table_holds disk m (ent (tm_path m))" using ok by (auto simp: levels_ok_def In_def)
  have sorted: "\<forall>es\<in>set (map (\<lambda>m. ent (tm_path m)) In). sorted_wrt version_le es"
    using ok strict_keys_version by (auto simp: levels_ok_def In_def)
  have "mset (versions ent In) \<subseteq># mset (versions ent (cp_l0 c @ cp_l1 c))"
  proof -
    have "mset (versions ent ms) = mset (versions ent (filter P ms)) + mset (versions ent (filter (\<lambda>m. \<not> P m) ms))" for P ms
      by (induction ms) auto
    from this[of "cp_l1 c" apart] show ?thesis by (simp add: In_def)
  qed
  then have fit: "entries_fit (concat (map (\<lambda>m. ent (tm_path m)) In))" "one_value (concat (map (\<lambda>m. ent (tm_path m)) In))"
    using ok entries_fit_mono unfolding levels_ok_def versions_def[symmetric]
    by (blast, metis set_mset_mono set_mset_mset one_value_mono)
  obtain fs where fs: "map (\<lambda>p. (open_file disk p, None :: nat option)) (map tm_path In) = map (\<lambda>f. (Inr f, None)) fs"
    "list_all2 table_of (map (\<lambda>m. ent (tm_path m)) In) fs" using inputs_open[OF holds] by blast
  obtain n f es where m: "kway_merge (map (\<lambda>f. (Inr f, None)) fs) None io True = Inr (n, f)" "table_of es f"
    "sorted_wrt (<) (map fst es)" "\<And>key. map_of es key = merged_view True (newest (versions ent In) key)"
    "set es \<subseteq> set (versions ent In)" "length (enc_block es) \<le> length (enc_block (versions ent In))"
    by (rule kway_merge_table[OF fs(2) sorted fit io, folded versions_def]) blast
  obtain r where r: "sst_open (Inr f) None = Inr r"
    "sst_get_first_key r = Inr (if es = [] then None else Some (fst (hd es)))"
    "sst_get_last_key r = (if es = [] then None else Some (fst (last es)))"
    using table_of_open[OF m(2)] by metis
  have In: "map tm_path (cp_l0 c) @ map tm_path (filter (\<lambda>m. \<not> (largest_key m < mn \<or> mx < smallest_key m)) (cp_l1 c)) = map tm_path In"
    by (simp add: In_def apart_def)
  have "maybe_schedule_compaction (\<lambda>_. None) None io disk c =
       Inr (Some (), c\<lparr>cp_l0 := [], cp_l1 := sort_key smallest_key (filter apart (cp_l1 c) @ [out_meta c es]),
                       cp_next_sst_id := cp_next_sst_id c + 1\<rparr>,
            fold (\<lambda>p d. d(p := None)) (map tm_path In) (disk(tm_path (out_meta c es) \<mapsto> f)))"
    unfolding maybe_schedule_compaction_def Let_def range prod.case option.case In fs(1) m(1) sum.case
    using trig r by (simp add: open_file_def out_meta_def apart_def)
  then show thesis using that[OF m(2-6)] by blast
qed

lemma mset_versions_partition:
  "mset (versions ent ms) = mset (versions ent (filter P ms)) + mset (versions ent (filter (\<lambda>m. \<not> P m) ms))"
  by (induction ms) auto

lemma versions_cong: "\<forall>m\<in>set ms. ent (tm_path m) = ent' (tm_path m) \<Longrightarrow> versions ent ms = versions ent' ms"
  by (induction ms) auto

lemma mset_versions_sort: "mset (versions ent (sort_key f ms)) = mset (versions ent ms)"
proof -
  have "mset (versions ent xs) = (\<Sum>m\<in>#mset xs. mset (ent (tm_path m)))" for xs by (induction xs) auto
  then show ?thesis by simp
qed

text \<open>The levels after the merge of \<open>In\<close> into \<open>es\<close>, with \<open>R\<close> left in place.\<close>

lemma compacted_levels_ok:
  assumes ok: "levels_ok disk ent c" and fresh: "disk (tm_path (out_meta c es)) = None"
    and range: "\<forall>m\<in>set (cp_l0 c). mn \<le> smallest_key m \<and> largest_key m \<le> mx"
    and es: "table_of es f" "sorted_wrt (<) (map fst es)"
  defines "apart \<equiv> \<lambda>m. largest_key m < mn \<or> smallest_key m > mx"
  defines "In \<equiv> cp_l0 c @ filter (\<lambda>m. \<not> apart m) (cp_l1 c)" and "R \<equiv> filter apart (cp_l1 c)"
  assumes sub: "set es \<subseteq> set (versions ent In)" "length (enc_block es) \<le> length (enc_block (versions ent In))"
  defines "c' \<equiv> c\<lparr>cp_l0 := [], cp_l1 := sort_key smallest_key (R @ [out_meta c es]), cp_next_sst_id := cp_next_sst_id c + 1\<rparr>"
    and "ent' \<equiv> ent(tm_path (out_meta c es) := es)"
    and "disk' \<equiv> fold (\<lambda>p d. d(p := None)) (map tm_path In) (disk(tm_path (out_meta c es) \<mapsto> f))"
  shows "levels_ok disk' ent' c'" "set (versions ent' (cp_l1 c')) \<subseteq> set (versions ent (cp_l0 c @ cp_l1 c))"
    "length (enc_block (versions ent' (cp_l1 c'))) \<le> length (enc_block (versions ent (cp_l0 c @ cp_l1 c)))"
proof -
  let ?o = "out_meta c es" and ?ms = "R @ [out_meta c es]"
  have holds: "\<forall>m\<in>set (cp_l0 c @ cp_l1 c). table_holds disk m (ent (tm_path m))" using ok by (simp add: levels_ok_def)
  have old: "m \<in> set (cp_l0 c @ cp_l1 c) \<Longrightarrow> tm_path m \<noteq> tm_path ?o" for m
    using holds fresh unfolding table_holds_def by (metis option.distinct(1))
  have R: "set R \<subseteq> set (cp_l1 c)" by (auto simp: R_def)
  have entR: "m \<in> set R \<Longrightarrow> ent' (tm_path m) = ent (tm_path m)" for m using old[of m] R by (auto simp: ent'_def)
  have ento: "ent' (tm_path ?o) = es" by (simp add: ent'_def)
  have dist: "distinct (map tm_path (cp_l0 c @ cp_l1 c))" using ok by (simp add: levels_ok_def)
  then have "inj_on tm_path (set (cp_l0 c @ cp_l1 c))" by (simp only: distinct_map)
  then have notin: "tm_path m \<notin> set (map tm_path In)" if "m \<in> set R" for m
    using that dist R unfolding In_def R_def inj_on_def by auto
  have dR: "disk' (tm_path m) = disk (tm_path m)" if "m \<in> set R" for m
    using notin[OF that] old[of m] R that by (auto simp: disk'_def fold_remove simp del: fold_map)
  have "tm_path ?o \<notin> set (map tm_path In)" using old by (fastforce simp: In_def)
  then have do: "disk' (tm_path ?o) = Some f" by (simp add: disk'_def fold_remove del: fold_map set_map)
  have 1: "table_holds disk' m (ent' (tm_path m))" if "m \<in> set ?ms" for m
  proof (cases "m \<in> set R")
    case True
    then have "table_holds disk m (ent (tm_path m))" using holds R by auto
    then show ?thesis using dR[OF True] entR[OF True] by (simp add: table_holds_def)
  next
    case False
    then have "m = ?o" using that by simp
    then show ?thesis using do ento es(1) by (simp add: table_holds_def out_meta_def)
  qed
  have 2: "sorted_wrt (<) (map fst (ent' (tm_path m)))" if "m \<in> set ?ms" for m
    using that ok R entR ento es(2) by (auto simp: levels_ok_def)
  have dms: "distinct (map tm_path ?ms)"
  proof -
    have "distinct (map tm_path R)" using dist by (simp add: R_def distinct_map_filter)
    moreover have "tm_path ?o \<notin> set (map tm_path R)" using old R by fastforce
    ultimately show ?thesis by simp
  qed
  have key_out: "if largest_key m < mn then largest_key m < fst e else fst e < smallest_key m"
    if m: "m \<in> set R" "ent (tm_path m) \<noteq> []" "e \<in> set es" for m e
  proof -
    obtain m' where "m' \<in> set In" "e \<in> set (ent (tm_path m'))" using sub(1) m(3) by (auto simp: versions_def)
    then show ?thesis
      using remaining_apart[OF ok range, of m m' e] m(1,2) by (auto simp: In_def R_def apart_def)
  qed
  have rng: "smallest_key m \<le> largest_key m" if "m \<in> set ?ms" "ent' (tm_path m) \<noteq> []" for m
    using table_range[of disk' m ent' "hd (ent' (tm_path m))"] 1[OF that(1)] strict_keys_version[OF 2[OF that(1)]] that(2) by auto
  have apart_out: "largest_key m < smallest_key ?o \<or> largest_key ?o < smallest_key m"
    if "m \<in> set R" "ent (tm_path m) \<noteq> []" "es \<noteq> []" for m
    using key_out[OF that(1,2), of "hd es"] key_out[OF that(1,2), of "last es"] that(3) by (auto simp: out_meta_def split: if_splits)
  have 3: "sorted_wrt (before ent') (sort_key smallest_key ?ms)"
  proof (rule sorted_before)
    show "distinct (sort_key smallest_key ?ms)" using dms distinct_map distinct_sort by blast
    show "sorted (map smallest_key (sort_key smallest_key ?ms))" by simp
    show "\<forall>m\<in>set (sort_key smallest_key ?ms). ent' (tm_path m) \<noteq> [] \<longrightarrow> smallest_key m \<le> largest_key m"
      using rng by simp
    fix m m' assume m: "m \<in> set (sort_key smallest_key ?ms)" "m' \<in> set (sort_key smallest_key ?ms)" "m \<noteq> m'"
      "ent' (tm_path m) \<noteq> []" "ent' (tm_path m') \<noteq> []"
    show "largest_key m < smallest_key m' \<or> largest_key m' < smallest_key m"
    proof (cases "m = ?o \<or> m' = ?o")
      case True
      then show ?thesis using m apart_out[of m] apart_out[of m'] entR ento by auto
    next
      case False
      then have "m \<in> set R" "m' \<in> set R" using m by auto
      then have "before ent m m' \<or> before ent m' m" using sorted_wrt_pair[of "before ent" "cp_l1 c" m m'] ok R m(3) by (auto simp: levels_ok_def)
      then show ?thesis using m(4,5) entR \<open>m \<in> set R\<close> \<open>m' \<in> set R\<close> by (auto simp: before_def)
    qed
  qed
  have vR: "versions ent' R = versions ent R" using entR by (intro versions_cong) simp
  have vms: "mset (versions ent' (sort_key smallest_key ?ms)) = mset (versions ent R) + mset es"
    by (simp add: mset_versions_sort vR ento)
  have all: "mset (versions ent (cp_l0 c @ cp_l1 c)) = mset (versions ent R) + mset (versions ent In)"
    using mset_versions_partition[of ent "cp_l1 c" apart] by (simp add: In_def R_def)
  have len: "length (enc_block (versions ent' (sort_key smallest_key ?ms))) \<le> length (enc_block (versions ent (cp_l0 c @ cp_l1 c)))"
    using sub(2) unfolding length_enc_block_sum vms all by (simp add: length_enc_block_sum)
  have sub': "set (versions ent' (sort_key smallest_key ?ms)) \<subseteq> set (versions ent (cp_l0 c @ cp_l1 c))"
    using arg_cong[OF vms, of set_mset] arg_cong[OF all, of set_mset] sub(1) by auto
  have "entries_fit (versions ent (cp_l0 c @ cp_l1 c))" "one_value (versions ent (cp_l0 c @ cp_l1 c))"
    using ok unfolding levels_ok_def by blast+
  then have "entries_fit (versions ent' (sort_key smallest_key ?ms))" "one_value (versions ent' (sort_key smallest_key ?ms))"
    using sub' len one_value_mono by (auto simp: entries_fit_def list_all_iff simp del: versions_simps)
  moreover have "distinct (map tm_path (sort_key smallest_key ?ms))" using dms by (simp only: distinct_map set_sort distinct_sort)
  ultimately show "levels_ok disk' ent' c'" using 1 2 3 by (simp add: levels_ok_def c'_def)
  show "set (versions ent' (cp_l1 c')) \<subseteq> set (versions ent (cp_l0 c @ cp_l1 c))"
    "length (enc_block (versions ent' (cp_l1 c'))) \<le> length (enc_block (versions ent (cp_l0 c @ cp_l1 c)))"
    using sub' len by (simp_all add: c'_def)
qed

lemma compacted_view:
  assumes ok: "levels_ok disk ent c" and fresh: "disk (tm_path (out_meta c es)) = None"
    and range: "\<forall>m\<in>set (cp_l0 c). mn \<le> smallest_key m \<and> largest_key m \<le> mx"
    and es: "sorted_wrt (<) (map fst es)"
  defines "apart \<equiv> \<lambda>m. largest_key m < mn \<or> smallest_key m > mx"
  defines "In \<equiv> cp_l0 c @ filter (\<lambda>m. \<not> apart m) (cp_l1 c)" and "R \<equiv> filter apart (cp_l1 c)"
  assumes sub: "set es \<subseteq> set (versions ent In)"
    and new: "\<And>key. map_of es key = merged_view True (newest (versions ent In) key)"
  defines "ent' \<equiv> ent(tm_path (out_meta c es) := es)" and "l1 \<equiv> sort_key smallest_key (R @ [out_meta c es])"
  assumes ov: "one_value (versions ent' l1)"
  shows "merged_view True (newest (versions ent' l1) key) = merged_view True (newest (versions ent (cp_l0 c @ cp_l1 c)) key)"
proof -
  have "tm_path m \<noteq> tm_path (out_meta c es)" if "m \<in> set R" for m
  proof -
    have "table_holds disk m (ent (tm_path m))" using ok that by (auto simp: levels_ok_def R_def)
    then show ?thesis using fresh by (auto simp: table_holds_def)
  qed
  then have vR: "versions ent' R = versions ent R" by (intro versions_cong) (simp add: ent'_def)
  have "mset (versions ent' l1) = mset (versions ent R @ es)" by (simp add: l1_def mset_versions_sort vR) (simp add: ent'_def)
  then have n1: "newest (versions ent' l1) key = newest (versions ent R @ es) key" using ov by (rule newest_mset)
  have "mset (versions ent (cp_l0 c @ cp_l1 c)) = mset (versions ent R @ versions ent In)"
    using mset_versions_partition[of ent "cp_l1 c" apart] by (simp add: In_def R_def)
  then have n2: "newest (versions ent (cp_l0 c @ cp_l1 c)) key = newest (versions ent R @ versions ent In) key"
    using ok by (intro newest_mset) (simp_all add: levels_ok_def)
  show ?thesis
  proof (cases "key \<in> fst ` set (versions ent R)")
    case True
    then obtain m v where m: "m \<in> set R" "v \<in> set (ent (tm_path m))" "fst v = key" by (auto simp: versions_def)
    have "key \<notin> fst ` set (versions ent In)"
    proof
      assume "key \<in> fst ` set (versions ent In)"
      then obtain m' e where "m' \<in> set In" "e \<in> set (ent (tm_path m'))" "fst e = key" by (auto simp: versions_def)
      moreover have "ent (tm_path m) \<noteq> []" using m(2) by auto
      ultimately have "if largest_key m < mn then largest_key m < key else key < smallest_key m"
        using remaining_apart[OF ok range, of m m' e] m(1) by (auto simp: In_def R_def apart_def)
      moreover have "smallest_key m \<le> key" "key \<le> largest_key m"
        using levels_table_range[OF ok, of m v] m by (auto simp: R_def)
      ultimately show False by (auto split: if_splits)
    qed
    moreover from this have "key \<notin> fst ` set es" using sub by auto
    ultimately show ?thesis unfolding n1 n2 by (simp add: newest_append)
  next
    case False
    moreover have "newest es key = map_of es key" using es by (intro newest_distinct) (simp add: strict_sorted_iff)
    ultimately show ?thesis unfolding n1 n2 by (simp add: newest_append new)
  qed
qed

text \<open>A compaction that finds its trigger reached and its output name unused.\<close>

lemma compaction_result:
  assumes "levels_ok disk ent c" "L0_TRIGGER_COUNT \<le> length (cp_l0 c)"
    and "disk (l1_path (cp_db_dir c) (cp_next_sst_id c)) = None" "no_faults io"
  obtains c' disk' ent' where "maybe_schedule_compaction (\<lambda>_. None) None io disk c = Inr (Some (), c', disk')"
    "cp_l0 c' = []" "levels_ok disk' ent' c'" "cp_db_dir c' = cp_db_dir c" "cp_next_sst_id c' = cp_next_sst_id c + 1"
    "\<And>key. merged_view True (newest (versions ent' (cp_l1 c')) key) = merged_view True (newest (versions ent (cp_l0 c @ cp_l1 c)) key)"
    "set (versions ent' (cp_l1 c')) \<subseteq> set (versions ent (cp_l0 c @ cp_l1 c))"
    "length (enc_block (versions ent' (cp_l1 c'))) \<le> length (enc_block (versions ent (cp_l0 c @ cp_l1 c)))"
    "\<And>p. p \<noteq> l1_path (cp_db_dir c) (cp_next_sst_id c) \<Longrightarrow> disk p = None \<Longrightarrow> disk' p = None"
proof -
  have "cp_l0 c \<noteq> []" using assms(2) by (auto simp: L0_TRIGGER_COUNT_def)
  then obtain mn mx where r: "l0_range (cp_l0 c) = (Some mn, Some mx)" "\<forall>m\<in>set (cp_l0 c). mn \<le> smallest_key m \<and> largest_key m \<le> mx"
    by (rule l0_range_bounds)
  define apart where "apart = (\<lambda>m :: table_metadata. largest_key m < mn \<or> smallest_key m > mx)"
  define In R where "In = cp_l0 c @ filter (\<lambda>m. \<not> apart m) (cp_l1 c)" and "R = filter apart (cp_l1 c)"
  obtain f es where es: "table_of es f" "sorted_wrt (<) (map fst es)"
    "\<And>key. map_of es key = merged_view True (newest (versions ent In) key)"
    "set es \<subseteq> set (versions ent In)" "length (enc_block es) \<le> length (enc_block (versions ent In))"
    "maybe_schedule_compaction (\<lambda>_. None) None io disk c =
       Inr (Some (), c\<lparr>cp_l0 := [], cp_l1 := sort_key smallest_key (R @ [out_meta c es]),
                       cp_next_sst_id := cp_next_sst_id c + 1\<rparr>,
            fold (\<lambda>p d. d(p := None)) (map tm_path In) (disk(tm_path (out_meta c es) \<mapsto> f)))"
    unfolding In_def R_def apart_def by (rule compaction_state[OF assms(1,2) r(1) assms(4)]) blast
  have fresh: "disk (tm_path (out_meta c es)) = None" using assms(3) by (simp add: out_meta_def)
  let ?ent = "ent(tm_path (out_meta c es) := es)" and ?l1 = "sort_key smallest_key (R @ [out_meta c es])"
  let ?c = "c\<lparr>cp_l0 := [], cp_l1 := ?l1, cp_next_sst_id := cp_next_sst_id c + 1\<rparr>"
  note facts = compacted_levels_ok[OF assms(1) fresh r(2) es(1,2,4,5)[unfolded In_def apart_def]]
  have after: "levels_ok (fold (\<lambda>p d. d(p := None)) (map tm_path In) (disk(tm_path (out_meta c es) \<mapsto> f))) ?ent ?c"
    "set (versions ?ent (cp_l1 ?c)) \<subseteq> set (versions ent (cp_l0 c @ cp_l1 c))"
    "length (enc_block (versions ?ent (cp_l1 ?c))) \<le> length (enc_block (versions ent (cp_l0 c @ cp_l1 c)))"
    unfolding In_def R_def apart_def by (rule facts(1), rule facts(2), rule facts(3))
  have "one_value (versions ?ent ?l1)" using after(1) by (simp add: levels_ok_def)
  then have "merged_view True (newest (versions ?ent ?l1) key) = merged_view True (newest (versions ent (cp_l0 c @ cp_l1 c)) key)" for key
    unfolding R_def apart_def by (intro compacted_view[OF assms(1) fresh r(2) es(2,4,3)[unfolded In_def apart_def]])
  then have view: "merged_view True (newest (versions ?ent (cp_l1 ?c)) key) = merged_view True (newest (versions ent (cp_l0 c @ cp_l1 c)) key)" for key
    by simp
  show thesis
    by (rule that[OF es(6) _ after(1) _ _ view after(2,3)]) (auto simp: fold_remove out_meta_def simp del: fold_map)
qed

section \<open>Properties\<close>

text \<open>
  C8. Compaction of well-formed levels, when level 0 has reached the trigger, the output name is
  unused and the file system works: it succeeds, empties level 0, leaves levels that are
  well-formed again (level 1 sorted, with disjoint key ranges, every table readable), and shows
  under every key the same value as before, deleted keys being absent.
\<close>

theorem compaction_preserves_view:
  assumes "levels_ok disk ent c" "L0_TRIGGER_COUNT \<le> length (cp_l0 c)"
    and "disk (l1_path (cp_db_dir c) (cp_next_sst_id c)) = None" "no_faults io"
  shows "\<exists>c' disk' ent'. maybe_schedule_compaction (\<lambda>_. None) None io disk c = Inr (Some (), c', disk') \<and>
    cp_l0 c' = [] \<and> levels_ok disk' ent' c' \<and>
    (\<forall>key. merged_view True (newest (versions ent' (cp_l1 c')) key) =
           merged_view True (newest (versions ent (cp_l0 c @ cp_l1 c)) key))"
  using compaction_result[OF assms] by metis

theorem compaction_preserves_view_witness:
  "\<exists>disk c c' disk' ent'. length (cp_l0 c) = 4 \<and>
     maybe_schedule_compaction (\<lambda>_. None) None [] disk c = Inr (Some (), c', disk') \<and> levels_ok disk' ent' c' \<and>
     merged_view True (newest (versions ent' (cp_l1 c')) [1]) = Some (Some [7], 3) \<and>
     merged_view True (newest (versions ent' (cp_l1 c')) [2]) = None"
proof -
  define ent where "ent = (\<lambda>p. if p = ''a'' then [([1], Some [5], 1)] else if p = ''b'' then [([2], Some [6], 2)]
     else if p = ''c'' then [([1], Some [7], 3)] else [([2], None, 4)] :: entry list)"
  let ?m = "\<lambda>p k. \<lparr>tm_id = 0, tm_path = p, smallest_key = k, largest_key = k\<rparr>"
  let ?c = "\<lparr>cp_db_dir = ''db'', cp_l0 = [?m ''a'' [1], ?m ''b'' [2], ?m ''c'' [1], ?m ''d'' [2]], cp_l1 = [], cp_next_sst_id = 1\<rparr>"
  have "\<exists>f. table_of (ent p) f" for p
  proof -
    have "entries_fit (ent p)" by (simp add: ent_def entries_fit_def entry_ok_def enc_block_def length_enc_entry)
    moreover obtain n f where "sst_write None [] (ent p) = Inr (n, f)" using sst_write_ok[of "[]" "ent p"] by (auto simp: no_faults_def)
    ultimately show ?thesis using table_of_write by blast
  qed
  then obtain img where f: "\<And>p. table_of (ent p) (img p)" by metis
  define disk where "disk = (\<lambda>p. if p \<in> {''a'', ''b'', ''c'', ''d''} then Some (img p) else None)"
  have "levels_ok disk ent ?c"
    unfolding levels_ok_def
  proof (intro conjI)
    show "\<forall>m\<in>set (cp_l0 ?c @ cp_l1 ?c). table_holds disk m (ent (tm_path m))"
      using f[of "''a''"] f[of "''b''"] f[of "''c''"] f[of "''d''"] by (simp add: table_holds_def disk_def) (simp add: ent_def)
  qed (simp_all add: ent_def entries_fit_def entry_ok_def enc_block_def length_enc_entry one_value_def)
  moreover have "disk (l1_path (cp_db_dir ?c) (cp_next_sst_id ?c)) = None"
    by (simp add: disk_def l1_path_def path_join_def)
  moreover have "L0_TRIGGER_COUNT \<le> length (cp_l0 ?c)" "no_faults []" by (simp_all add: L0_TRIGGER_COUNT_def no_faults_def)
  ultimately obtain c' disk' ent' where
    "maybe_schedule_compaction (\<lambda>_. None) None [] disk ?c = Inr (Some (), c', disk')" "levels_ok disk' ent' c'"
    "\<forall>key. merged_view True (newest (versions ent' (cp_l1 c')) key) = merged_view True (newest (versions ent (cp_l0 ?c @ cp_l1 ?c)) key)"
    using compaction_preserves_view[of disk ent ?c "[]"] by blast
  then show ?thesis
    by (intro exI[of _ disk] exI[of _ ?c] exI[of _ c'] exI[of _ disk'] exI[of _ ent'])
      (simp add: ent_def newest_def merged_view_def)
qed

end
