(* ===== verification/Memtable_Manager.thy ===== *)
theory Memtable_Manager
  imports Skiplist Wal_Recovery Compaction
begin

text \<open>
  The memtable manager, \<^verbatim>\<open>src/tier3_storage/src/memtable/manager.rs\<close>: every write goes to the log
  and then to the active memtable; a memtable that has reached its limit is frozen, the log is
  rotated, and the frozen memtable is sent to the flusher.

  The log file open for writing is the \<open>wal_file\<close> of the writer; all other files are in \<open>disk\<close>.
  The answers of the kernel during a rotation are a record.
\<close>

section \<open>Paths\<close>

definition path_bytes :: "path \<Rightarrow> bytes" where
  "path_bytes p = map (\<lambda>c. of_nat (of_char c)) p"

definition file_name :: "path \<Rightarrow> string" where
  "file_name p = rev (takeWhile (\<lambda>c. c \<noteq> CHR ''/'') (rev p))"

text \<open>The name without what follows its last dot; a leading dot does not count.\<close>

definition file_stem :: "string \<Rightarrow> string" where
  "file_stem name =
     (let after = takeWhile (\<lambda>c. c \<noteq> CHR ''.'') (rev name);
          stem = take (length name - length after - 1) name
      in if length after = length name \<or> stem = [] then name else stem)"

definition with_extension :: "path \<Rightarrow> string \<Rightarrow> path" where
  "with_extension p ext =
     (let name = file_name p in take (length p - length name) p @ file_stem name @ ''.'' @ ext)"

section \<open>Shared steps\<close>

definition MEMTABLE_LIMIT :: u64 where
  "MEMTABLE_LIMIT = 64 * 1024 * 1024"

record flush_task =
  ft_memtable :: skiplist
  ft_wal_path :: path

definition log_payload :: "bytes \<Rightarrow> bytes option \<Rightarrow> bytes" where
  "log_payload key value =
     [if value \<noteq> None then 1 else 0] @ to_le_bytes (of_nat (length key) :: u32) @ key @
     (case value of Some v \<Rightarrow> v | None \<Rightarrow> [])"

text \<open>\<open>mem.iter()\<close> run to its end.\<close>

definition sl_collect :: "skiplist \<Rightarrow> entry list result" where
  "sl_collect sl = drain sl_iter_next (length (sl_nodes sl)) (sl_iter_new sl)"

definition max_seq :: "entry list \<Rightarrow> u64" where
  "max_seq es = fold (\<lambda>e m. max m (snd (snd e))) es 0"

record rotation =
  ro_sync :: "nat option"
  ro_open :: "nat option"
  ro_truncate :: "nat option"

text \<open>
  What both \<open>maybe_freeze\<close> and the engine's \<open>freeze_active_memtable\<close> do between taking the old
  memtable and handing over the task: the new log, its path, the task, and the files. The results
  of \<open>sync\<close> and of the truncation are ignored; a log that cannot be opened is a panic.
\<close>

definition rotate_wal ::
  "rotation \<Rightarrow> disk \<Rightarrow> skiplist \<Rightarrow> wal_writer \<Rightarrow> path \<Rightarrow> (wal_writer \<times> path \<times> flush_task \<times> disk) result" where
  "rotate_wal ro disk old_mem wal wal_path =
     (case sl_collect old_mem of
        Inl f \<Rightarrow> Inl f
      | Inr es \<Rightarrow> let
          next_wal_path = with_extension wal_path (''wal.'' @ digits (unat (max_seq es)));
          os = (case ro_open ro of
                  Some errno \<Rightarrow> Inl errno
                | None \<Rightarrow> Inr (case disk next_wal_path of None \<Rightarrow> [] | Some bs \<Rightarrow> bs))
        in case wal_open (path_bytes next_wal_path) os of
            Inl _ \<Rightarrow> Inl Panic
          | Inr new_wal \<Rightarrow> let
              old_wal = snd (truncate_to_logical_end (ro_truncate ro) wal);
              disk = disk(wal_path \<mapsto> wal_file old_wal)
            in Inr (new_wal, next_wal_path, \<lparr>ft_memtable = old_mem, ft_wal_path = wal_path\<rparr>, disk))"

section \<open>The manager\<close>

record memtable_manager =
  mm_active :: skiplist
  mm_imm :: "skiplist option"
  mm_wal :: wal_writer
  mm_wal_path :: path
  mm_channel :: "flush_task list"
  mm_is_flushing :: bool
  mm_rng :: u32
  mm_disk :: disk

definition manager_new :: "path \<Rightarrow> nat option \<Rightarrow> u32 \<Rightarrow> disk \<Rightarrow> memtable_manager result" where
  "manager_new wal_path os rng disk =
     (case wal_open (path_bytes wal_path)
             (case os of Some errno \<Rightarrow> Inl errno
                       | None \<Rightarrow> Inr (case disk wal_path of None \<Rightarrow> [] | Some bs \<Rightarrow> bs)) of
        Inl _ \<Rightarrow> Inl Panic
      | Inr wal \<Rightarrow> Inr \<lparr>mm_active = skiplist_new, mm_imm = None, mm_wal = wal, mm_wal_path = wal_path,
                       mm_channel = [], mm_is_flushing = False, mm_rng = rng, mm_disk = disk\<rparr>)"

text \<open>\<open>receiver_gone\<close>: the other end of the channel was dropped, and \<open>send\<close> fails.\<close>

definition maybe_freeze :: "rotation \<Rightarrow> bool \<Rightarrow> memtable_manager \<Rightarrow> memtable_manager result" where
  "maybe_freeze ro receiver_gone m =
     (if mm_imm m \<noteq> None then Inr m
      else case rotate_wal ro (mm_disk m) (mm_active m) (mm_wal m) (mm_wal_path m) of
          Inl f \<Rightarrow> Inl f
        | Inr (new_wal, next_wal_path, task, disk) \<Rightarrow>
            if receiver_gone then Inl Panic
            else Inr (m\<lparr>mm_active := skiplist_new, mm_imm := Some (mm_active m), mm_wal := new_wal,
                        mm_wal_path := next_wal_path, mm_channel := mm_channel m @ [task],
                        mm_is_flushing := True, mm_disk := disk\<rparr>))"

definition manager_write ::
  "(bytes \<Rightarrow> u32) \<Rightarrow> pwrite_result \<Rightarrow> bool \<Rightarrow> rotation \<Rightarrow> bool \<Rightarrow> bytes \<Rightarrow> bytes option \<Rightarrow> u64 \<Rightarrow>
   memtable_manager \<Rightarrow> ((wal_error + unit) \<times> memtable_manager) result" where
  "manager_write crc os weak_ok ro receiver_gone key value seq m =
     (case wal_append crc os (log_payload key value) (mm_wal m) of
        (Inl e, wal) \<Rightarrow> Inr (Inl e, m\<lparr>mm_wal := wal\<rparr>)
      | (Inr _, wal) \<Rightarrow>
          (case sl_insert weak_ok key value seq (mm_rng m) (mm_active m) of
             Inl f \<Rightarrow> Inl f
           | Inr (mem, rng) \<Rightarrow> let m = m\<lparr>mm_wal := wal, mm_active := mem, mm_rng := rng\<rparr> in
             if approximate_size mem \<ge> MEMTABLE_LIMIT
             then (case maybe_freeze ro receiver_gone m of Inl f \<Rightarrow> Inl f | Inr m \<Rightarrow> Inr (Inr (), m))
             else Inr (Inr (), m)))"

definition manager_get :: "memtable_manager \<Rightarrow> bytes \<Rightarrow> (bytes option \<times> u64) option result" where
  "manager_get m key =
     (case sl_get (mm_active m) key of
        Inl f \<Rightarrow> Inl f
      | Inr (Some res) \<Rightarrow> Inr (Some res)
      | Inr None \<Rightarrow> (case mm_imm m of Some imm \<Rightarrow> sl_get imm key | None \<Rightarrow> Inr None))"

definition clear_immutable :: "path \<Rightarrow> memtable_manager \<Rightarrow> memtable_manager" where
  "clear_immutable completed_wal m =
     (if mm_imm m \<noteq> None
      then m\<lparr>mm_disk := (mm_disk m)(completed_wal := None), mm_imm := None, mm_is_flushing := False\<rparr>
      else m)"

section \<open>Lemmas\<close>

lemma sl_collect_repr: "sl_repr sl es \<Longrightarrow> sl_collect sl = Inr es"
proof -
  assume r: "sl_repr sl es"
  then obtain lv where lv: "sl_inv sl lv" "sl_entries sl lv = es" by (auto simp: sl_repr_def)
  then have "level_ok (sl_nodes sl) 0 (lv 0)" "sl_nodes sl \<noteq> []" by (auto simp: sl_inv_def nodes_ok_def MAX_HEIGHT_def)
  then have "length es < length (sl_nodes sl)" using level_ok_length_less lv(2) by (auto simp: sl_entries_def)
  then show ?thesis using si.drain_all[OF sl_iter_holds[OF r]] by (simp add: sl_collect_def)
qed

lemma rotate_wal_ok:
  assumes "sl_repr mem es" "ro_open ro = None"
    "0 \<notin> set (path_bytes (with_extension wal_path (''wal.'' @ digits (unat (max_seq es)))))"
  shows "\<exists>new_wal. rotate_wal ro disk mem wal wal_path = Inr (new_wal,
     with_extension wal_path (''wal.'' @ digits (unat (max_seq es))), \<lparr>ft_memtable = mem, ft_wal_path = wal_path\<rparr>,
     disk(wal_path \<mapsto> wal_file (snd (truncate_to_logical_end (ro_truncate ro) wal))))"
  using assms by (auto simp: rotate_wal_def sl_collect_repr wal_open_def aligned_new_staging Let_def)

text \<open>The two memtables as the maps they stand for, when each holds a key at most once.\<close>

definition imm_repr :: "skiplist option \<Rightarrow> entry list \<Rightarrow> bool" where
  "imm_repr imm es = (case imm of None \<Rightarrow> es = [] | Some sl \<Rightarrow> sl_repr sl es)"

definition mems_ok :: "skiplist \<Rightarrow> skiplist option \<Rightarrow> entry list \<Rightarrow> entry list \<Rightarrow> bool" where
  "mems_ok active imm ea ei \<longleftrightarrow> sl_repr active ea \<and> imm_repr imm ei \<and> distinct (map fst ea) \<and> distinct (map fst ei)"

lemma sl_get_distinct: "sl_repr sl es \<Longrightarrow> distinct (map fst es) \<Longrightarrow> sl_get sl key = Inr (map_of es key)"
  by (rule mt.look_once) (auto dest: eq_key_imp_eq_value)

lemma mems_get:
  assumes "mems_ok active imm ea ei"
  shows "sl_get active key = Inr (map_of ea key)"
    and "imm = Some sl \<Longrightarrow> sl_get sl key = Inr (map_of ei key)"
    and "imm = None \<Longrightarrow> ei = []"
  using assms sl_get_distinct by (auto simp: mems_ok_def imm_repr_def)

lemma mems_insert:
  assumes "mems_ok active imm ea ei" "key \<notin> fst ` set ea" "sl_insert w key value seq rng active = Inr (mem, rng')"
  shows "mems_ok mem imm (mem_insert (key, value, seq) ea) ei"
    "map_of (mem_insert (key, value, seq) ea) = (map_of ea)(key \<mapsto> (value, seq))"
proof -
  have "sl_repr mem (mem_insert (key, value, seq) ea)"
    using mt.ins_ok[of active ea w key "value" seq rng] assms(1,3) by (auto simp: mems_ok_def)
  moreover have m: "mset (mem_insert (key, value, seq) ea) = mset ((key, value, seq) # ea)" by (simp add: mset_mem_insert)
  have "mset (map fst (mem_insert (key, value, seq) ea)) = mset (map fst ((key, value, seq) # ea))"
    using m by (simp only: mset_map)
  then have d: "distinct (map fst (mem_insert (key, value, seq) ea))"
    using assms(1,2) mset_eq_imp_distinct_iff by (fastforce simp: mems_ok_def)
  ultimately show "mems_ok mem imm (mem_insert (key, value, seq) ea) ei" using assms(1) by (simp add: mems_ok_def)
  have "distinct (map fst ((key, value, seq) # ea))" using assms(1,2) by (auto simp: mems_ok_def)
  then have "map_of (mem_insert (key, value, seq) ea) = map_of ((key, value, seq) # ea)"
    using map_of_inject_set[OF d] mset_eq_setD[OF m] by blast
  then show "map_of (mem_insert (key, value, seq) ea) = (map_of ea)(key \<mapsto> (value, seq))" by simp
qed

lemma manager_get_view:
  assumes "mems_ok (mm_active m) (mm_imm m) ea ei"
  shows "manager_get m key = Inr ((map_of ei ++ map_of ea) key)"
  using mems_get(1,2)[OF assms, where key = key] mems_get(3)[OF assms] by (auto simp: manager_get_def map_add_def split: option.splits)

lemma maybe_freeze_view:
  assumes "mems_ok (mm_active m) (mm_imm m) ea ei" "maybe_freeze ro gone m = Inr m'"
  shows "\<exists>ea' ei'. mems_ok (mm_active m') (mm_imm m') ea' ei' \<and> map_of ei' ++ map_of ea' = map_of ei ++ map_of ea"
proof (cases "mm_imm m")
  case None
  then have "mm_active m' = skiplist_new" "mm_imm m' = Some (mm_active m)" "ei = []"
    using assms mems_get(3)[OF assms(1)] by (auto simp: maybe_freeze_def split: sum.splits if_splits)
  then show ?thesis
    using assms(1) sl_repr_new by (intro exI[of _ "[]"] exI[of _ ea]) (auto simp: mems_ok_def imm_repr_def)
qed (use assms in \<open>auto simp: maybe_freeze_def\<close>)

text \<open>The first write to a new log and a new memtable, with every answer of the kernel a success.\<close>

lemma first_write_any:
  assumes "0 \<notin> set (path_bytes p)" "length key + length val \<le> 4000"
  shows "\<exists>w w1 n mem rng'. wal_open (path_bytes p) (Inr []) = Inr w \<and>
     wal_append (\<lambda>_. 9) (Pwritten 4096) (log_payload key (Some val)) w = (Inr n, w1) \<and>
     sl_insert True key (Some val) seq rng skiplist_new = Inr (mem, rng') \<and> sl_size mem = of_nat (length key + length val + 24)"
proof -
  obtain w where w: "wal_open (path_bytes p) (Inr []) = Inr w" "wal_holds [] w" "next_seq w = 1"
    using wal_open_fresh assms(1) by blast
  have t: "tail_offset w = 0" using w(2) by (simp add: wal_holds_def logical_end_def)
  define n where "n = 21 + length key + length val"
  have l: "length (log_payload key (Some val)) = 5 + length key + length val" by (simp add: log_payload_def)
  have n: "tail_offset w + HEADER_SIZE + length (log_payload key (Some val)) \<le> STAGING_SIZE"
    "n = tail_offset w + HEADER_SIZE + length (log_payload key (Some val))" "n mod SECTOR_SIZE \<noteq> 0"
    unfolding l using t assms(2) by (simp_all add: HEADER_SIZE_def STAGING_SIZE_def SECTOR_SIZE_def n_def)
  have "(n + 4095) div 4096 = 1" using assms(2) by (intro div_nat_eqI) (simp_all add: n_def)
  then have "next_multiple_of n SECTOR_SIZE = 4096"
    using assms(2) by (simp add: next_multiple_of_def SECTOR_SIZE_def n_def)
  then obtain w1 where
    a: "wal_append (\<lambda>_. 9) (Pwritten 4096) (log_payload key (Some val)) w = (Inr (next_seq w), w1)"
    using wal_append_holds[OF w(2) n, of "\<lambda>_. 9"] by auto
  obtain h rng' where "random_height rng = (h, rng')" by (cases "random_height rng")
  with skiplist_new_inv(1) obtain mem where "sl_insert True key (Some val) seq rng skiplist_new = Inr (mem, rng')"
    "sl_size mem = of_nat (length key + length val + 24)"
    by (rule sl_insert_ok[where weak_ok = True and key = key and val = "Some val" and seq = seq]) (auto simp: skiplist_new_def)
  with w(1) a show ?thesis by blast
qed

lemma first_write:
  assumes "0 \<notin> set (path_bytes p)"
  shows "\<exists>w w1 n mem rng'. wal_open (path_bytes p) (Inr []) = Inr w \<and>
     wal_append (\<lambda>_. 9) (Pwritten 4096) (log_payload [107] (Some [1])) w = (Inr n, w1) \<and>
     sl_insert True [107] (Some [1]) 5 rng skiplist_new = Inr (mem, rng') \<and> sl_size mem = 26"
  using first_write_any[OF assms, of "[107]" "[1]" 5 rng] by simp

section \<open>Properties\<close>



end
