(* ===== verification/Engine.thy ===== *)
theory Engine
  imports Memtable_Manager
begin

text \<open>
  The storage engine, \<^verbatim>\<open>src/tier3_storage/src/engine.rs\<close>: writes to the log and the active
  memtable, the freeze, the body of the flush worker, and the lookup through memtables, level 0
  (newest table first) and level 1.

  One step of the model is one call, or one task of a worker. The flush queue is the list of its
  tasks, at most 1024 of them. The epoch guard that \<open>put\<close>, \<open>delete\<close> and \<open>get\<close> hold has no
  effect on the data and is left out.
\<close>

section \<open>State\<close>

definition FLUSH_QUEUE_CAP :: nat where
  "FLUSH_QUEUE_CAP = 1024"

record engine =
  en_active :: skiplist
  en_imm :: "skiplist option"
  en_wal :: wal_writer
  en_wal_path :: path
  en_queue :: "flush_task list"
  en_compactor :: compactor
  en_disk :: disk
  en_rng :: u32
  en_running :: bool

section \<open>Operations\<close>

text \<open>\<open>open\<close>: the answers to creating the directory and to opening the log.\<close>

definition engine_open :: "path \<Rightarrow> io_kind option \<Rightarrow> nat option \<Rightarrow> u32 \<Rightarrow> disk \<Rightarrow> engine result" where
  "engine_open db_dir mkdir os rng disk =
     (case mkdir of
        Some e \<Rightarrow> Inl (IoError e)
      | None \<Rightarrow> let
          wal_path = path_join db_dir ''active.wal''
        in case wal_open (path_bytes wal_path)
             (case os of Some errno \<Rightarrow> Inl errno
                       | None \<Rightarrow> Inr (case disk wal_path of None \<Rightarrow> [] | Some bs \<Rightarrow> bs)) of
            Inl f \<Rightarrow> Inl f
          | Inr wal \<Rightarrow> Inr \<lparr>en_active = skiplist_new, en_imm = None, en_wal = wal, en_wal_path = wal_path,
                           en_queue = [], en_compactor = compactor_new db_dir 1, en_disk = disk, en_rng = rng,
                           en_running = True\<rparr>)"

definition freeze_active_memtable :: "rotation \<Rightarrow> engine \<Rightarrow> engine result" where
  "freeze_active_memtable ro e =
     (if en_imm e \<noteq> None then Inr e
      else case rotate_wal ro (en_disk e) (en_active e) (en_wal e) (en_wal_path e) of
          Inl f \<Rightarrow> Inl f
        | Inr (new_wal, next_wal_path, task, disk) \<Rightarrow>
            Inr (e\<lparr>en_active := skiplist_new, en_imm := Some (en_active e), en_wal := new_wal,
                   en_wal_path := next_wal_path, en_disk := disk,
                   en_queue := (if length (en_queue e) < FLUSH_QUEUE_CAP then en_queue e @ [task] else en_queue e)\<rparr>))"

record write_answers =
  wa_pwrite :: pwrite_result
  wa_weak_ok :: bool
  wa_rotation :: rotation

definition write_internal ::
  "(bytes \<Rightarrow> u32) \<Rightarrow> write_answers \<Rightarrow> bytes \<Rightarrow> bytes option \<Rightarrow> u64 \<Rightarrow> engine \<Rightarrow> ((wal_error + unit) \<times> engine) result" where
  "write_internal crc wa key value seq e =
     (case wal_append crc (wa_pwrite wa) (log_payload key value) (en_wal e) of
        (Inl err, wal) \<Rightarrow> Inr (Inl err, e\<lparr>en_wal := wal\<rparr>)
      | (Inr _, wal) \<Rightarrow>
          (case sl_insert (wa_weak_ok wa) key value seq (en_rng e) (en_active e) of
             Inl f \<Rightarrow> Inl f
           | Inr (mem, rng) \<Rightarrow> let e = e\<lparr>en_wal := wal, en_active := mem, en_rng := rng\<rparr> in
             if approximate_size mem \<ge> MEMTABLE_LIMIT
             then (case freeze_active_memtable (wa_rotation wa) e of Inl f \<Rightarrow> Inl f | Inr e \<Rightarrow> Inr (Inr (), e))
             else Inr (Inr (), e)))"

definition engine_put where
  "engine_put crc wa key value seq e = write_internal crc wa key (Some value) seq e"

definition engine_delete where
  "engine_delete crc wa key seq e = write_internal crc wa key None seq e"

text \<open>\<open>SSTableReader::open(path)\<close>, where an error means: go on with the next table.\<close>

definition table_get :: "bool \<Rightarrow> (path \<Rightarrow> nat option) \<Rightarrow> disk \<Rightarrow> table_metadata \<Rightarrow> bytes \<Rightarrow> (bytes option \<times> u64) option result" where
  "table_get avx2 mm disk m key =
     (case sst_open (open_file disk (tm_path m)) (mm (tm_path m)) of
        Inl (IoError _) \<Rightarrow> Inr None
      | Inl f \<Rightarrow> Inl f
      | Inr reader \<Rightarrow> sst_get avx2 reader key)"

fun get_l0 :: "bool \<Rightarrow> (path \<Rightarrow> nat option) \<Rightarrow> disk \<Rightarrow> table_metadata list \<Rightarrow> bytes \<Rightarrow> (bytes option \<times> u64) option result" where
  "get_l0 avx2 mm disk [] key = Inr None"
| "get_l0 avx2 mm disk (m # ms) key =
     (if key \<ge> smallest_key m \<and> key \<le> largest_key m
      then (case table_get avx2 mm disk m key of
              Inl f \<Rightarrow> Inl f
            | Inr (Some res) \<Rightarrow> Inr (Some res)
            | Inr None \<Rightarrow> get_l0 avx2 mm disk ms key)
      else get_l0 avx2 mm disk ms key)"

definition get_l1 :: "bool \<Rightarrow> (path \<Rightarrow> nat option) \<Rightarrow> disk \<Rightarrow> table_metadata list \<Rightarrow> bytes \<Rightarrow> (bytes option \<times> u64) option result" where
  "get_l1 avx2 mm disk l1 key =
     (let target_idx = (case binary_search_by (\<lambda>m. rust_cmp (smallest_key m) key) l1 of
                          Found idx \<Rightarrow> Some idx
                        | Insert_at idx \<Rightarrow> if idx > 0 then Some (idx - 1) else None)
      in case target_idx of
          None \<Rightarrow> Inr None
        | Some idx \<Rightarrow>
            if idx < length l1 \<and> key \<le> largest_key (l1 ! idx) then table_get avx2 mm disk (l1 ! idx) key
            else Inr None)"

definition engine_get :: "bool \<Rightarrow> (path \<Rightarrow> nat option) \<Rightarrow> engine \<Rightarrow> bytes \<Rightarrow> (bytes option \<times> u64) option result" where
  "engine_get avx2 mm e key =
     (case sl_get (en_active e) key of
        Inl f \<Rightarrow> Inl f
      | Inr (Some res) \<Rightarrow> Inr (Some res)
      | Inr None \<Rightarrow>
        (case (case en_imm e of Some imm \<Rightarrow> sl_get imm key | None \<Rightarrow> Inr None) of
           Inl f \<Rightarrow> Inl f
         | Inr (Some res) \<Rightarrow> Inr (Some res)
         | Inr None \<Rightarrow>
           (case get_l0 avx2 mm (en_disk e) (rev (cp_l0 (en_compactor e))) key of
              Inl f \<Rightarrow> Inl f
            | Inr (Some res) \<Rightarrow> Inr (Some res)
            | Inr None \<Rightarrow> get_l1 avx2 mm (en_disk e) (cp_l1 (en_compactor e)) key)))"

definition engine_sync :: "nat option \<Rightarrow> engine \<Rightarrow> unit result" where
  "engine_sync os e = wal_sync os (en_wal e)"

text \<open>\<open>s.parse::<u64>()\<close>: digits, at least one, an optional plus sign, no overflow.\<close>

definition parse_u64 :: "string \<Rightarrow> u64 option" where
  "parse_u64 s =
     (let ds = (if s \<noteq> [] \<and> hd s = CHR ''+'' then tl s else s);
          n = fold (\<lambda>c acc. acc * 10 + (of_char c - 48)) ds 0
      in if ds \<noteq> [] \<and> list_all (\<lambda>c. 48 \<le> (of_char c :: nat) \<and> (of_char c :: nat) \<le> 57) ds \<and> n < 2 ^ 64
         then Some (of_nat n) else None)"

definition sst_id_of :: "path \<Rightarrow> u64" where
  "sst_id_of wal_path =
     (let name = file_name wal_path in
      if take 4 name = ''wal.'' then (case parse_u64 (drop 4 name) of Some n \<Rightarrow> n | None \<Rightarrow> 0) else 0)"

record flush_answers =
  fa_create :: "io_kind option"
  fa_writes :: "io_kind option list"
  fa_mmap :: "path \<Rightarrow> nat option"
  fa_merge_create :: "io_kind option"
  fa_merge_writes :: "io_kind option list"

text \<open>What a worker does with a task it has popped; every \<open>unwrap\<close> is a panic of the worker.\<close>

definition flush_memtable :: "flush_answers \<Rightarrow> flush_task \<Rightarrow> disk \<Rightarrow> compactor \<Rightarrow> (disk \<times> compactor) result" where
  "flush_memtable fa task disk c =
     (let sst_path = with_extension (ft_wal_path task) (''sst.'' @ digits (unat (sst_id_of (ft_wal_path task)))) in
      case sl_collect (ft_memtable task) of
        Inl f \<Rightarrow> Inl f
      | Inr es \<Rightarrow>
        (case sst_write (fa_create fa) (fa_writes fa) es of
           Inl _ \<Rightarrow> Inl Panic
         | Inr (_, out) \<Rightarrow> let disk = disk(sst_path \<mapsto> out) in
           (case sst_open (open_file disk sst_path) (fa_mmap fa sst_path) of
              Inl _ \<Rightarrow> Inl Panic
            | Inr reader \<Rightarrow>
              (case (sst_get_first_key reader, sst_get_last_key reader) of
                 (Inr (Some smallest), Some largest) \<Rightarrow>
                   (case maybe_schedule_compaction (fa_mmap fa) (fa_merge_create fa) (fa_merge_writes fa) disk
                           (add_l0_table sst_path smallest largest c) of
                      Inl f \<Rightarrow> Inl f
                    | Inr (_, c, disk) \<Rightarrow> Inr (disk(ft_wal_path task := None), c))
               | (Inl f, _) \<Rightarrow> Inl f
               | _ \<Rightarrow> Inl Panic))))"

definition flush_worker :: "flush_answers \<Rightarrow> engine \<Rightarrow> engine result" where
  "flush_worker fa e =
     (if \<not> en_running e then Inr e
      else case en_queue e of
        [] \<Rightarrow> Inr e
      | task # queue \<Rightarrow>
          (case flush_memtable fa task (en_disk e) (en_compactor e) of
             Inl f \<Rightarrow> Inl f
           | Inr (disk, c) \<Rightarrow> Inr (e\<lparr>en_queue := queue, en_disk := disk, en_compactor := c\<rparr>)))"

text \<open>\<open>drop\<close>: the workers are told to stop and joined; tasks still in the queue stay there.\<close>

definition engine_drop :: "engine \<Rightarrow> engine" where
  "engine_drop e = e\<lparr>en_running := False\<rparr>"

section \<open>Lookup through the levels\<close>

lemma table_get_spec:
  assumes "table_holds disk m es" "sorted_wrt (<) (map fst es)"
  shows "table_get avx2 (\<lambda>_. None) disk m key = Inr (map_of es key)"
proof -
  obtain f where f: "disk (tm_path m) = Some f" "table_of es f" using assms(1) by (auto simp: table_holds_def)
  show ?thesis
  proof (rule table_of_open[OF f(2), of avx2 key])
    fix r assume "sst_open (Inr f) None = Inr r" "sorted_wrt (<) (map fst es) \<Longrightarrow> sst_get avx2 r key = Inr (map_of es key)"
    then show ?thesis using f(1) assms(2) by (simp add: table_get_def open_file_def)
  qed
qed

lemma outside_range:
  assumes "table_holds disk m es" "sorted_wrt (<) (map fst es)" "\<not> (smallest_key m \<le> key \<and> key \<le> largest_key m)"
  shows "map_of es key = None"
proof -
  have "key \<noteq> fst e" if "e \<in> set es" for e
    using table_range[of disk m "\<lambda>_. es" e] assms strict_keys_version that by auto
  then show ?thesis by (auto simp: map_of_eq_None_iff)
qed

definition tables_ok :: "disk \<Rightarrow> (path \<Rightarrow> entry list) \<Rightarrow> table_metadata list \<Rightarrow> bool" where
  "tables_ok disk ent ms \<longleftrightarrow> (\<forall>m\<in>set ms. table_holds disk m (ent (tm_path m)) \<and> sorted_wrt (<) (map fst (ent (tm_path m))))"

lemma get_l0_spec:
  "tables_ok disk ent ms \<Longrightarrow> get_l0 avx2 (\<lambda>_. None) disk ms key = Inr (map_of (versions ent ms) key)"
proof (induction ms)
  case (Cons m ms)
  then have m: "table_holds disk m (ent (tm_path m))" "sorted_wrt (<) (map fst (ent (tm_path m)))"
    and IH: "get_l0 avx2 (\<lambda>_. None) disk ms key = Inr (map_of (versions ent ms) key)" by (auto simp: tables_ok_def)
  show ?case
    using table_get_spec[OF m, of avx2 key] outside_range[OF m, of key] IH
    by (auto simp: map_add_def split: option.splits)
qed simp

text \<open>In level 1 the binary search on the smallest keys finds the only table that can hold the key.\<close>

lemma l1_target:
  assumes ok: "tables_ok disk ent l1" and srt: "sorted_wrt (before ent) l1"
    and ne: "key \<noteq> []" "\<forall>m\<in>set l1. [] \<notin> fst ` set (ent (tm_path m))"
    and j: "j < length l1" "key \<in> fst ` set (ent (tm_path (l1 ! j)))"
  shows "binary_search_by (\<lambda>m. rust_cmp (smallest_key m) key) l1 =
    (if smallest_key (l1 ! j) = key then Found j else Insert_at (j + 1))"
proof (rule bs.last_at_most)
  let ?m = "l1 ! j"
  have hold: "table_holds disk m (ent (tm_path m))" "sorted_wrt version_le (ent (tm_path m))" if "m \<in> set l1" for m
    using ok that strict_keys_version by (auto simp: tables_ok_def)
  have mem: "?m \<in> set l1" using j(1) by simp
  obtain e where e: "e \<in> set (ent (tm_path ?m))" "fst e = key" using j(2) by auto
  show r: "smallest_key ?m \<le> key" using table_range[of disk ?m ent e] hold[OF mem] e by auto
  have large: "key \<le> largest_key ?m" using table_range[of disk ?m ent e] hold[OF mem] e by auto
  have bef: "before ent (l1 ! a) (l1 ! b)" if "a < b" "b < length l1" for a b
    using srt that by (simp add: sorted_wrt_iff_nth_less)
  then show "sorted (map smallest_key l1)" by (auto simp: sorted_wrt_iff_nth_less before_def)
  have small: "smallest_key ?m \<noteq> []"
    using hold(1)[OF mem] e(1) ne(2) mem by (auto simp: table_holds_def) (metis hd_in_set image_eqI length_pos_if_in_set list.size(3) less_irrefl)
  have nonempty: "ent (tm_path m) \<noteq> []" if "m \<in> set l1" "smallest_key m \<noteq> []" for m
    using hold(1)[OF that(1)] that(2) by (auto simp: table_holds_def)
  have emj: "ent (tm_path ?m) \<noteq> []" using e by auto
  show "key < smallest_key (l1 ! l)" if "j < l" "l < length l1" for l
  proof -
    have b: "before ent ?m (l1 ! l)" using bef that by blast
    then have "smallest_key (l1 ! l) \<noteq> []" using small by (auto simp: before_def)
    then have "ent (tm_path (l1 ! l)) \<noteq> []" using nonempty that(2) by auto
    then show ?thesis using b emj large by (auto simp: before_def)
  qed
  show "smallest_key (l1 ! l) < key" if "l < j" for l
  proof (cases "ent (tm_path (l1 ! l)) = []")
    case True
    then have "smallest_key (l1 ! l) = []" using hold(1)[of "l1 ! l"] that j(1) by (auto simp: table_holds_def)
    then show ?thesis using ne(1) by (cases key) auto
  next
    case False
    have "smallest_key (l1 ! l) \<le> largest_key (l1 ! l)"
      using table_range[of disk "l1 ! l" ent "hd (ent (tm_path (l1 ! l)))"] hold[of "l1 ! l"] that j(1) False by auto
    then show ?thesis using bef[OF that j(1)] False emj r by (auto simp: before_def)
  qed
qed (use j in simp)

lemma map_of_versions_None:
  "\<forall>m\<in>set ms. key \<notin> fst ` set (ent (tm_path m)) \<Longrightarrow> map_of (versions ent ms) key = None"
  unfolding map_of_eq_None_iff versions_def by auto

lemma map_of_versions_only:
  assumes "j < length ms" "\<And>i. i < length ms \<Longrightarrow> i \<noteq> j \<Longrightarrow> key \<notin> fst ` set (ent (tm_path (ms ! i)))"
  shows "map_of (versions ent ms) key = map_of (ent (tm_path (ms ! j))) key"
proof -
  have s: "ms = take j ms @ ms ! j # drop (Suc j) ms" using assms(1) by (rule id_take_nth_drop)
  have "map_of (versions ent (take j ms)) key = None"
  proof (rule map_of_versions_None, rule ballI)
    fix m assume "m \<in> set (take j ms)"
    then obtain i where "i < j" "m = ms ! i" using assms(1) by (auto simp: in_set_conv_nth)
    then show "key \<notin> fst ` set (ent (tm_path m))" using assms(1) assms(2)[of i] by simp
  qed
  moreover have "map_of (versions ent (drop (Suc j) ms)) key = None"
  proof (rule map_of_versions_None, rule ballI)
    fix m assume "m \<in> set (drop (Suc j) ms)"
    then obtain i where "i < length ms - Suc j" "m = ms ! (Suc j + i)" by (auto simp: in_set_conv_nth)
    then show "key \<notin> fst ` set (ent (tm_path m))" using assms(2)[of "Suc j + i"] by simp
  qed
  ultimately show ?thesis by (subst s) (simp add: map_add_def split: option.splits)
qed

lemma get_l1_spec:
  assumes ok: "tables_ok disk ent l1" and srt: "sorted_wrt (before ent) l1"
    and ne: "key \<noteq> []" "\<forall>m\<in>set l1. [] \<notin> fst ` set (ent (tm_path m))"
  shows "get_l1 avx2 (\<lambda>_. None) disk l1 key = Inr (map_of (versions ent l1) key)"
proof (cases "\<exists>j<length l1. key \<in> fst ` set (ent (tm_path (l1 ! j)))")
  case True
  then obtain j where j: "j < length l1" "key \<in> fst ` set (ent (tm_path (l1 ! j)))" by blast
  note target = l1_target[OF ok srt ne]
  have only: "i = j" if "i < length l1" "key \<in> fst ` set (ent (tm_path (l1 ! i)))" for i
    using target[OF that] target[OF j] by (auto split: if_splits)
  have m: "table_holds disk (l1 ! j) (ent (tm_path (l1 ! j)))" "sorted_wrt (<) (map fst (ent (tm_path (l1 ! j))))"
    using ok j(1) by (auto simp: tables_ok_def)
  have "map_of (ent (tm_path (l1 ! j))) key \<noteq> None" using j(2) by (simp add: map_of_eq_None_iff)
  then have "key \<le> largest_key (l1 ! j)" using outside_range[OF m, of key] by metis
  moreover have "map_of (versions ent l1) key = map_of (ent (tm_path (l1 ! j))) key"
    using only by (intro map_of_versions_only[OF j(1)]) blast
  ultimately show ?thesis using target[OF j] j(1) table_get_spec[OF m, of avx2 key] by (auto simp: get_l1_def)
next
  case False
  then have none: "map_of (versions ent l1) key = None" by (intro map_of_versions_None) (metis in_set_conv_nth)
  have "table_get avx2 (\<lambda>_. None) disk (l1 ! i) key = Inr None" if "i < length l1" for i
  proof -
    have "map_of (ent (tm_path (l1 ! i))) key = None" using False that by (auto simp: map_of_eq_None_iff)
    then show ?thesis using table_get_spec[of disk "l1 ! i" "ent (tm_path (l1 ! i))" avx2 key] ok that by (auto simp: tables_ok_def)
  qed
  then show ?thesis using none by (auto simp: get_l1_def Let_def split: search_result.splits option.splits)
qed

text \<open>
  The state in which lookups are exact: no key twice in a memtable or in a table, well-formed
  levels, no empty key. For a rotation, moreover, the log must not be at the path of a table.
\<close>

definition readable :: "(path \<Rightarrow> entry list) \<Rightarrow> entry list \<Rightarrow> entry list \<Rightarrow> engine \<Rightarrow> bool" where
  "readable ent ea ei e \<longleftrightarrow>
     (let c = en_compactor e in
      mems_ok (en_active e) (en_imm e) ea ei \<and> tables_ok (en_disk e) ent (cp_l0 c @ cp_l1 c) \<and>
      sorted_wrt (before ent) (cp_l1 c) \<and> (\<forall>m\<in>set (cp_l1 c). [] \<notin> fst ` set (ent (tm_path m))))"

definition engine_ok :: "(path \<Rightarrow> entry list) \<Rightarrow> entry list \<Rightarrow> entry list \<Rightarrow> engine \<Rightarrow> bool" where
  "engine_ok ent ea ei e \<longleftrightarrow> readable ent ea ei e \<and>
     en_wal_path e \<notin> tm_path ` set (cp_l0 (en_compactor e) @ cp_l1 (en_compactor e))"

definition engine_view :: "(path \<Rightarrow> entry list) \<Rightarrow> entry list \<Rightarrow> entry list \<Rightarrow> compactor \<Rightarrow> bytes \<rightharpoonup> bytes option \<times> u64" where
  "engine_view ent ea ei c = map_of (ea @ ei @ versions ent (rev (cp_l0 c)) @ versions ent (cp_l1 c))"

lemma engine_get_view:
  assumes "readable ent ea ei e" "key \<noteq> []"
  shows "engine_get avx2 (\<lambda>_. None) e key = Inr (engine_view ent ea ei (en_compactor e) key)"
proof -
  let ?c = "en_compactor e"
  have mems: "mems_ok (en_active e) (en_imm e) ea ei" and ok: "tables_ok (en_disk e) ent (cp_l0 ?c @ cp_l1 ?c)"
    and l1: "sorted_wrt (before ent) (cp_l1 ?c)" "\<forall>m\<in>set (cp_l1 ?c). [] \<notin> fst ` set (ent (tm_path m))"
    using assms(1) by (auto simp: readable_def Let_def)
  have a: "sl_get (en_active e) key = Inr (map_of ea key)" using mems by (rule mems_get(1))
  have i: "(case en_imm e of Some imm \<Rightarrow> sl_get imm key | None \<Rightarrow> Inr None) = Inr (map_of ei key)"
    using mems_get(2)[OF mems] mems_get(3)[OF mems] by (cases "en_imm e") simp_all
  have l0: "get_l0 avx2 (\<lambda>_. None) (en_disk e) (rev (cp_l0 ?c)) key = Inr (map_of (versions ent (rev (cp_l0 ?c))) key)"
    using ok by (intro get_l0_spec) (simp add: tables_ok_def)
  have l1: "get_l1 avx2 (\<lambda>_. None) (en_disk e) (cp_l1 ?c) key = Inr (map_of (versions ent (cp_l1 ?c)) key)"
    using ok l1 assms(2) by (intro get_l1_spec) (simp_all add: tables_ok_def)
  show ?thesis
    unfolding engine_get_def a i l0 l1 engine_view_def map_of_append map_add_def
    by (cases "map_of ea key"; cases "map_of ei key"; cases "map_of (versions ent (rev (cp_l0 ?c))) key") simp_all
qed

lemma freeze_readable:
  assumes "engine_ok ent ea ei e" "freeze_active_memtable ro e = Inr e'"
  shows "\<exists>ea' ei'. readable ent ea' ei' e' \<and> engine_view ent ea' ei' (en_compactor e') = engine_view ent ea ei (en_compactor e)"
proof (cases "en_imm e")
  case None
  have r: "readable ent ea ei e" using assms(1) by (simp add: engine_ok_def)
  then have ok: "mems_ok (en_active e) (en_imm e) ea ei" by (simp add: readable_def Let_def)
  then have "ei = []" using mems_get(3) None by blast
  obtain d where e': "en_active e' = skiplist_new" "en_imm e' = Some (en_active e)" "en_compactor e' = en_compactor e"
    "en_disk e' = (en_disk e)(en_wal_path e \<mapsto> d)"
    using assms(2) None by (auto simp: freeze_active_memtable_def rotate_wal_def Let_def split: sum.splits)
  have "en_disk e' (tm_path m) = en_disk e (tm_path m)" if m: "m \<in> set (cp_l0 (en_compactor e) @ cp_l1 (en_compactor e))" for m
  proof -
    have "tm_path m \<noteq> en_wal_path e" using assms(1) m unfolding engine_ok_def by (metis image_eqI)
    then show ?thesis by (simp add: e'(4))
  qed
  then have "tables_ok (en_disk e') ent (cp_l0 (en_compactor e) @ cp_l1 (en_compactor e))"
    using r by (simp add: readable_def Let_def tables_ok_def table_holds_def)
  moreover have "mems_ok (en_active e') (en_imm e') [] ea" using ok e' sl_repr_new by (simp add: mems_ok_def imm_repr_def)
  ultimately have "readable ent [] ea e'" using r e'(3) by (simp add: readable_def Let_def)
  then show ?thesis using e'(3) \<open>ei = []\<close> by (intro exI[of _ "[]"] exI[of _ ea]) (simp add: engine_view_def)
next
  case (Some imm)
  then have "e' = e" using assms(2) by (simp add: freeze_active_memtable_def)
  then show ?thesis using assms(1) unfolding engine_ok_def by blast
qed

section \<open>Reachable states\<close>

text \<open>
  Calls of the client and steps of the workers, in any order. A worker that panics has popped its
  task and may leave anything on disk; the other worker goes on.
\<close>

inductive engine_step :: "(bytes \<Rightarrow> u32) \<Rightarrow> engine \<Rightarrow> engine \<Rightarrow> bool" for crc where
  step_put: "engine_put crc wa key val seq e = Inr (r, e') \<Longrightarrow> engine_step crc e e'"
| step_delete: "engine_delete crc wa key seq e = Inr (r, e') \<Longrightarrow> engine_step crc e e'"
| step_worker: "flush_worker fa e = Inr e' \<Longrightarrow> engine_step crc e e'"
| step_worker_panic: "flush_worker fa e = Inl f \<Longrightarrow> engine_step crc e (e\<lparr>en_queue := tl (en_queue e), en_disk := disk\<rparr>)"
| step_drop: "engine_step crc e (engine_drop e)"

inductive engine_reach :: "(bytes \<Rightarrow> u32) \<Rightarrow> engine \<Rightarrow> bool" for crc where
  reach_open: "engine_open db_dir mkdir os rng disk = Inr e \<Longrightarrow> engine_reach crc e"
| reach_step: "engine_reach crc e \<Longrightarrow> engine_step crc e e' \<Longrightarrow> engine_reach crc e'"

inductive_cases engine_stepE: "engine_step crc e e'"

definition flush_bound :: "engine \<Rightarrow> bool" where
  "flush_bound e \<longleftrightarrow> cp_l1 (en_compactor e) = [] \<and>
     length (en_queue e) + length (cp_l0 (en_compactor e)) \<le> (if en_imm e = None then 0 else 1)"

lemma freeze_bound: "flush_bound e \<Longrightarrow> freeze_active_memtable ro e = Inr e' \<Longrightarrow> flush_bound e'"
  by (auto simp: flush_bound_def freeze_active_memtable_def split: sum.splits if_splits)

lemma write_bound:
  assumes "flush_bound e" "write_internal crc wa key val seq e = Inr (r, e')"
  shows "flush_bound e'"
proof -
  have upd: "flush_bound (e\<lparr>en_wal := w, en_active := m, en_rng := g\<rparr>)" "flush_bound (e\<lparr>en_wal := w\<rparr>)" for w m g
    using assms(1) by (simp_all add: flush_bound_def)
  show ?thesis
    using assms(2) upd freeze_bound
    by (fastforce simp: write_internal_def Let_def split: sum.splits prod.splits if_splits)
qed

lemma worker_bound:
  assumes "flush_bound e" "flush_worker fa e = Inr e'"
  shows "flush_bound e'"
proof (cases "en_running e \<and> en_queue e \<noteq> []")
  case False
  then show ?thesis using assms by (auto simp: flush_worker_def split: list.splits if_splits)
next
  case True
  then obtain task queue where q: "en_queue e = task # queue" by (cases "en_queue e") auto
  then have one: "queue = []" "cp_l0 (en_compactor e) = []" "cp_l1 (en_compactor e) = []" "en_imm e \<noteq> None"
    using assms(1) by (auto simp: flush_bound_def split: if_splits)
  have no_compaction: "maybe_schedule_compaction mm os io disk (add_l0_table p a b (en_compactor e)) =
      Inr (None, add_l0_table p a b (en_compactor e), disk)" for mm os io disk p a b
    using one(2) by (simp add: maybe_schedule_compaction_def add_l0_table_def L0_TRIGGER_COUNT_def)
  obtain disk c where f: "flush_memtable fa task (en_disk e) (en_compactor e) = Inr (disk, c)"
    "e' = e\<lparr>en_queue := queue, en_disk := disk, en_compactor := c\<rparr>"
    using assms(2) True q by (auto simp: flush_worker_def split: sum.splits)
  then obtain p a b where "c = add_l0_table p a b (en_compactor e)"
    by (auto simp: flush_memtable_def Let_def no_compaction split: sum.splits option.splits prod.splits)
  then show ?thesis using f(2) one by (simp add: flush_bound_def add_l0_table_def)
qed

lemma step_bound:
  assumes "flush_bound e" "engine_step crc e e'"
  shows "flush_bound e'"
proof -
  have "flush_bound (e\<lparr>en_queue := tl (en_queue e), en_disk := disk\<rparr>)" "flush_bound (engine_drop e)" for disk
    using assms(1) by (auto simp: flush_bound_def engine_drop_def split: if_splits)
  then show ?thesis using assms(2) write_bound[OF assms(1)] worker_bound[OF assms(1)]
    by (auto simp: engine_put_def engine_delete_def elim!: engine_stepE)
qed

text \<open>A write that returns \<open>Ok\<close> changes the answer for its key, and only for that key.\<close>

lemma write_then_get:
  assumes "engine_ok ent ea ei e" "key \<notin> fst ` set ea" "key \<noteq> []" "k \<noteq> []"
    and "write_internal crc wa key val seq e = Inr (Inr (), e')"
  shows "engine_get avx2 (\<lambda>_. None) e' k =
    (if k = key then Inr (Some (val, seq)) else engine_get avx2 (\<lambda>_. None) e k)"
proof -
  obtain wal mem rng where mem: "sl_insert (wa_weak_ok wa) key val seq (en_rng e) (en_active e) = Inr (mem, rng)"
    and e': "e' = e\<lparr>en_wal := wal, en_active := mem, en_rng := rng\<rparr> \<or>
      freeze_active_memtable (wa_rotation wa) (e\<lparr>en_wal := wal, en_active := mem, en_rng := rng\<rparr>) = Inr e'"
    using assms(5) by (auto simp: write_internal_def Let_def split: sum.splits prod.splits if_splits)
  let ?e = "e\<lparr>en_wal := wal, en_active := mem, en_rng := rng\<rparr>" and ?ea = "mem_insert (key, val, seq) ea"
  have r: "readable ent ea ei e" using assms(1) by (simp add: engine_ok_def)
  then have mems: "mems_ok (en_active e) (en_imm e) ea ei" by (simp add: readable_def Let_def)
  note ins = mems_insert[OF mems assms(2) mem]
  have ok: "engine_ok ent ?ea ei ?e" using assms(1) ins(1) by (simp add: engine_ok_def readable_def Let_def)
  have "\<exists>ea' ei'. readable ent ea' ei' e' \<and> engine_view ent ea' ei' (en_compactor e') = engine_view ent ?ea ei (en_compactor e)"
    using e' ok freeze_readable[OF ok] by (elim disjE) (auto simp: engine_ok_def)
  then have "engine_get avx2 (\<lambda>_. None) e' k = Inr (engine_view ent ?ea ei (en_compactor e) k)"
    using engine_get_view[OF _ assms(4)] by metis
  moreover have "engine_view ent ?ea ei (en_compactor e) k = (if k = key then Some (val, seq) else engine_view ent ea ei (en_compactor e) k)"
    using ins(2) by (simp add: engine_view_def map_add_def)
  ultimately show ?thesis using engine_get_view[OF r assms(4), of avx2] by simp
qed

section \<open>Properties\<close>


text \<open>The first put into an engine opened in an empty directory.\<close>

definition calm :: write_answers where
  "calm = \<lparr>wa_pwrite = Pwritten 4096, wa_weak_ok = True,
     wa_rotation = \<lparr>ro_sync = None, ro_open = None, ro_truncate = None\<rparr>\<rparr>"

lemma engine_first_put_state:
  assumes "length key + length val \<le> 4000"
  obtains e wal mem rng where "engine_open ''db'' None None 0xDEADBEEF Map.empty = Inr e" "engine_ok (\<lambda>_. []) [] [] e"
    "e = \<lparr>en_active = skiplist_new, en_imm = None, en_wal = en_wal e, en_wal_path = path_join ''db'' ''active.wal'', en_queue = [],
      en_compactor = compactor_new ''db'' 1, en_disk = Map.empty, en_rng = 0xDEADBEEF, en_running = True\<rparr>"
    "sl_insert True key (Some val) seq 0xDEADBEEF skiplist_new = Inr (mem, rng)"
    "write_internal (\<lambda>_. 9) calm key (Some val) seq e = Inr (Inr (), e\<lparr>en_wal := wal, en_active := mem, en_rng := rng\<rparr>)"
proof -
  let ?p = "path_join ''db'' ''active.wal''"
  have "0 \<notin> set (path_bytes ?p)" by (simp add: path_bytes_def path_join_def)
  from first_write_any[OF this assms, of seq "0xDEADBEEF"] obtain w w1 n mem rng where
    w: "wal_open (path_bytes ?p) (Inr []) = Inr w"
    and a: "wal_append (\<lambda>_. 9) (Pwritten 4096) (log_payload key (Some val)) w = (Inr n, w1)"
    and i: "sl_insert True key (Some val) seq 0xDEADBEEF skiplist_new = Inr (mem, rng)"
      "sl_size mem = of_nat (length key + length val + 24)" by blast
  define e where "e = \<lparr>en_active = skiplist_new, en_imm = None, en_wal = w, en_wal_path = ?p, en_queue = [],
    en_compactor = compactor_new ''db'' 1, en_disk = Map.empty, en_rng = 0xDEADBEEF, en_running = True\<rparr>"
  have o: "engine_open ''db'' None None 0xDEADBEEF Map.empty = Inr e" using w by (simp add: engine_open_def e_def)
  have ok: "engine_ok (\<lambda>_. []) [] [] e" using sl_repr_new
    by (simp add: engine_ok_def readable_def e_def compactor_new_def mems_ok_def imm_repr_def tables_ok_def)
  have "\<not> MEMTABLE_LIMIT \<le> approximate_size mem"
    using assms unfolding approximate_size_def i(2) MEMTABLE_LIMIT_def by (simp add: word_le_nat_alt unat_of_nat del: of_nat_add)
  then have "write_internal (\<lambda>_. 9) calm key (Some val) seq e = Inr (Inr (), e\<lparr>en_wal := w1, en_active := mem, en_rng := rng\<rparr>)"
    using a i(1) by (simp add: write_internal_def calm_def e_def)
  with o ok _ i(1) show thesis by (rule that) (simp add: e_def)
qed

lemma engine_first_put_any:
  assumes "length key + length val \<le> 4000"
  shows "\<exists>e e'. engine_open ''db'' None None 0xDEADBEEF Map.empty = Inr e \<and> engine_ok (\<lambda>_. []) [] [] e \<and>
     write_internal (\<lambda>_. 9) calm key (Some val) seq e = Inr (Inr (), e')"
  by (rule engine_first_put_state[OF assms]) blast

lemma engine_first_put:
  "\<exists>e e'. engine_open ''db'' None None 0xDEADBEEF Map.empty = Inr e \<and> engine_ok (\<lambda>_. []) [] [] e \<and>
     write_internal (\<lambda>_. 9) calm [107] (Some [1]) 5 e = Inr (Inr (), e')"
  using engine_first_put_any[of "[107]" "[1]" 5] by simp


text \<open>
  C35. However an engine is used after it was opened, it flushes at most one memtable in its
  life: the tasks waiting and the tables of level 0 are together at most one, and level 1 stays
  empty, because nothing ever clears \<open>imm_mem\<close> and a freeze returns early while it is set.
\<close>

theorem engine_flushes_once:
  assumes "engine_reach crc e"
  shows "length (en_queue e) + length (cp_l0 (en_compactor e)) \<le> 1 \<and> cp_l1 (en_compactor e) = []"
proof -
  from assms have "flush_bound e"
  proof induction
    case (reach_open db_dir mkdir os rng disk e)
    then show ?case
      by (auto simp: engine_open_def flush_bound_def compactor_new_def Let_def split: option.splits sum.splits)
  next
    case (reach_step e e')
    from reach_step.hyps(2) show ?case using step_bound[OF reach_step.IH] by blast
  qed
  then show ?thesis by (auto simp: flush_bound_def split: if_splits)
qed

theorem engine_flushes_once_witness:
  "\<exists>e e'. engine_open ''db'' None None 0xDEADBEEF Map.empty = Inr e \<and>
     engine_put (\<lambda>_. 9) calm [107] [1] 5 e = Inr (Inr (), e') \<and>
     length (en_queue e') + length (cp_l0 (en_compactor e')) \<le> 1"
proof -
  from engine_first_put obtain e e' where e: "engine_open ''db'' None None 0xDEADBEEF Map.empty = Inr e"
    "engine_put (\<lambda>_. 9) calm [107] [1] 5 e = Inr (Inr (), e')" unfolding engine_put_def by blast
  then have "engine_reach (\<lambda>_. 9) e'" using reach_open reach_step step_put by blast
  from engine_flushes_once[OF this] e show ?thesis by blast
qed

end
