(* ===== verification/Engine_Store.thy ===== *)
theory Engine_Store
  imports Engine
begin

text \<open>
  The engine as its client sees it: calls that always return. The contract is a locale; the states
  in which the engine keeps it, whatever was written before, are the interpretation.
\<close>

section \<open>The contract\<close>

text \<open>A run of writes, each with the answers of the system to it.\<close>

fun put_run :: "('a \<Rightarrow> bytes \<Rightarrow> bytes \<Rightarrow> u64 \<Rightarrow> 'e \<Rightarrow> ((wal_error + unit) \<times> 'e) result) \<Rightarrow>
  ('a \<times> bytes \<times> bytes \<times> u64) list \<Rightarrow> 'e \<Rightarrow> 'e result" where
  "put_run put [] e = Inr e"
| "put_run put ((a, k, v, s) # ws) e = (case put a k v s e of Inl f \<Rightarrow> Inl f | Inr (_, e) \<Rightarrow> put_run put ws e)"

locale total_store =
  fixes live :: "'e \<Rightarrow> bool"
    and put :: "'a \<Rightarrow> bytes \<Rightarrow> bytes \<Rightarrow> u64 \<Rightarrow> 'e \<Rightarrow> ((wal_error + unit) \<times> 'e) result"
    and get :: "'e \<Rightarrow> bytes \<Rightarrow> (bytes option \<times> u64) option result"
    and willing :: "'a \<Rightarrow> bool"
  assumes put_returns: "live e \<Longrightarrow> willing a \<Longrightarrow> \<exists>r e'. put a k v s e = Inr (r, e') \<and> live e'"
    and get_returns: "live e \<Longrightarrow> k \<noteq> [] \<Longrightarrow> \<exists>r. get e k = Inr r"
begin

lemma put_run_returns: "live e \<Longrightarrow> \<forall>w\<in>set ws. willing (fst w) \<Longrightarrow> \<exists>e'. put_run put ws e = Inr e' \<and> live e'"
proof (induction ws arbitrary: e)
  case (Cons w ws)
  obtain a k v s where w: "w = (a, k, v, s)" by (cases w)
  obtain r e' where "put a k v s e = Inr (r, e')" "live e'" using put_returns[OF Cons.prems(1)] Cons.prems(2) w by fastforce
  then show ?case using Cons.IH[of e'] Cons.prems(2) w by simp
qed simp

end

section \<open>Paths without a nul byte\<close>

lemma path_bytes_nul: "0 \<in> set (path_bytes p) \<longleftrightarrow> CHR 0x00 \<in> set p"
proof -
  have "(of_nat (of_char c) :: byte) = 0 \<longleftrightarrow> c = CHR 0x00" for c
  proof
    assume "(of_nat (of_char c) :: byte) = 0"
    then have "256 dvd (of_char c :: nat)" by (simp add: word_of_nat_eq_0_iff)
    moreover have "(of_char c :: nat) < 256" by simp
    ultimately have "of_char c = (0 :: nat)" by (metis gr_zeroI nat_dvd_not_less)
    then have "of_char c = (of_char CHR 0x00 :: nat)" by simp
    then show "c = CHR 0x00" by (simp only: of_char_eq_iff)
  qed simp
  then show ?thesis by (auto simp: path_bytes_def image_iff)
qed

lemma digits_no_nul: "CHR 0x00 \<notin> set (digits n)"
proof (induction n rule: digits.induct)
  case (1 n)
  have c: "char_of (48 + m) \<noteq> CHR 0x00" if "m < 10" for m :: nat
  proof
    assume "char_of (48 + m) = CHR 0x00"
    then have "of_char (char_of (48 + m) :: char) = (0 :: nat)" by simp
    then show False using that by simp
  qed
  show ?case using 1 c[of n] c[of "n mod 10"] by (auto simp: digits.simps[of n])
qed

lemma set_with_extension: "set (with_extension p ext) \<subseteq> set p \<union> {CHR ''.''} \<union> set ext"
proof -
  have "set (file_name p) \<subseteq> set p" by (auto simp: file_name_def dest: set_takeWhileD)
  moreover have "set (file_stem name) \<subseteq> set name" for name
    by (auto simp: file_stem_def Let_def dest: in_set_takeD)
  ultimately show ?thesis unfolding with_extension_def Let_def by (auto dest: in_set_takeD)
qed

lemma next_wal_no_nul:
  "CHR 0x00 \<notin> set p \<Longrightarrow> 0 \<notin> set (path_bytes (with_extension p (''wal.'' @ digits n)))"
  using set_with_extension[of p "''wal.'' @ digits n"] digits_no_nul[of n] by (auto simp: path_bytes_nul)

section \<open>The engine keeps it\<close>

definition live_engine :: "engine \<Rightarrow> bool" where
  "live_engine e \<longleftrightarrow> (\<exists>ea. sl_repr (en_active e) ea) \<and> (\<forall>imm. en_imm e = Some imm \<longrightarrow> (\<exists>ei. sl_repr imm ei)) \<and>
     (\<exists>ent. tables_ok (en_disk e) ent (cp_l0 (en_compactor e) @ cp_l1 (en_compactor e)) \<and>
        sorted_wrt (before ent) (cp_l1 (en_compactor e)) \<and> (\<forall>m\<in>set (cp_l1 (en_compactor e)). [] \<notin> fst ` set (ent (tm_path m)))) \<and>
     (en_imm e = None \<longrightarrow> CHR 0x00 \<notin> set (en_wal_path e) \<and>
        en_wal_path e \<notin> tm_path ` set (cp_l0 (en_compactor e) @ cp_l1 (en_compactor e)))"

lemma tables_ok_cong:
  "(\<And>m. m \<in> set ms \<Longrightarrow> disk' (tm_path m) = disk (tm_path m)) \<Longrightarrow> tables_ok disk' ent ms = tables_ok disk ent ms"
  by (simp add: tables_ok_def table_holds_def)

lemma freeze_live:
  assumes "live_engine e" "ro_open ro = None"
  shows "\<exists>e'. freeze_active_memtable ro e = Inr e' \<and> live_engine e'"
proof (cases "en_imm e")
  case None
  let ?ms = "cp_l0 (en_compactor e) @ cp_l1 (en_compactor e)"
  obtain ea where ea: "sl_repr (en_active e) ea" using assms(1) by (auto simp: live_engine_def)
  have p: "CHR 0x00 \<notin> set (en_wal_path e)" "en_wal_path e \<notin> tm_path ` set ?ms"
    using assms(1) None by (auto simp: live_engine_def)
  from rotate_wal_ok[OF ea assms(2) next_wal_no_nul[OF p(1)], of "en_disk e" "en_wal e"] None obtain e' d where
    f: "freeze_active_memtable ro e = Inr e'" and e': "en_active e' = skiplist_new" "en_imm e' = Some (en_active e)"
      "en_compactor e' = en_compactor e" "en_disk e' = (en_disk e)(en_wal_path e \<mapsto> d)"
    by (auto simp: freeze_active_memtable_def)
  have "tables_ok (en_disk e') ent ?ms = tables_ok (en_disk e) ent ?ms" for ent
    using p(2) by (intro tables_ok_cong) (metis e'(4) fun_upd_apply image_eqI)
  then have "live_engine e'" using assms(1) ea sl_repr_new by (auto simp: live_engine_def e'(1-3))
  then show ?thesis using f by blast
next
  case (Some imm)
  then show ?thesis using assms(1) by (simp add: freeze_active_memtable_def)
qed

lemma write_live:
  assumes "live_engine e" "ro_open (wa_rotation wa) = None"
  shows "\<exists>r e'. write_internal crc wa key val seq e = Inr (r, e') \<and> live_engine e'"
proof -
  obtain ea where ea: "sl_repr (en_active e) ea" using assms(1) by (auto simp: live_engine_def)
  obtain mem rng where m: "sl_insert (wa_weak_ok wa) key val seq (en_rng e) (en_active e) = Inr (mem, rng)"
    "sl_repr mem (mem_insert (key, val, seq) ea)" using mt.ins_ok[OF ea] by blast
  obtain r wal where w: "wal_append crc (wa_pwrite wa) (log_payload key val) (en_wal e) = (r, wal)" by fastforce
  let ?e = "e\<lparr>en_wal := wal, en_active := mem, en_rng := rng\<rparr>"
  have l: "live_engine ?e" "live_engine (e\<lparr>en_wal := wal\<rparr>)" using assms(1) m(2) by (auto simp: live_engine_def)
  show ?thesis
  proof (cases r)
    case (Inl err)
    then show ?thesis using w l(2) by (simp add: write_internal_def)
  next
    case (Inr n)
    obtain e' where "freeze_active_memtable (wa_rotation wa) ?e = Inr e'" "live_engine e'"
      using freeze_live[OF l(1) assms(2)] by blast
    then show ?thesis using w l(1) Inr m(1) by (simp add: write_internal_def Let_def)
  qed
qed

lemma get_live:
  assumes "live_engine e" "key \<noteq> []"
  shows "\<exists>r. engine_get avx2 (\<lambda>_. None) e key = Inr r"
proof -
  let ?c = "en_compactor e"
  obtain ent where t: "tables_ok (en_disk e) ent (cp_l0 ?c @ cp_l1 ?c)" "sorted_wrt (before ent) (cp_l1 ?c)"
    "\<forall>m\<in>set (cp_l1 ?c). [] \<notin> fst ` set (ent (tm_path m))" using assms(1) by (auto simp: live_engine_def)
  obtain ea where "sl_repr (en_active e) ea" using assms(1) by (auto simp: live_engine_def)
  then obtain ra where "sl_get (en_active e) key = Inr ra" using mt.look_ok[of "en_active e" ea key] by blast
  moreover obtain ri where "(case en_imm e of Some imm \<Rightarrow> sl_get imm key | None \<Rightarrow> Inr None) = Inr ri"
  proof (cases "en_imm e")
    case (Some imm)
    then obtain ei where "sl_repr imm ei" using assms(1) by (auto simp: live_engine_def)
    then show ?thesis using mt.look_ok[of imm ei key] Some that by auto
  qed (use that in simp)
  moreover have "get_l0 avx2 (\<lambda>_. None) (en_disk e) (rev (cp_l0 ?c)) key = Inr (map_of (versions ent (rev (cp_l0 ?c))) key)"
    using t(1) by (intro get_l0_spec) (simp add: tables_ok_def)
  moreover have "get_l1 avx2 (\<lambda>_. None) (en_disk e) (cp_l1 ?c) key = Inr (map_of (versions ent (cp_l1 ?c)) key)"
    using t assms(2) by (intro get_l1_spec) (simp_all add: tables_ok_def)
  ultimately show ?thesis
    by (cases ra; cases ri; cases "map_of (versions ent (rev (cp_l0 ?c))) key") (simp_all add: engine_get_def)
qed

interpretation store: total_store live_engine "engine_put crc" "engine_get avx2 (\<lambda>_. None)"
  "\<lambda>wa. ro_open (wa_rotation wa) = None" for crc avx2
  by unfold_locales (auto simp: engine_put_def intro: write_live get_live)

lemma open_live:
  assumes "engine_open db_dir mkdir os rng disk = Inr e"
  shows "live_engine e"
proof -
  have e: "en_active e = skiplist_new" "en_imm e = None" "en_compactor e = compactor_new db_dir 1"
    "en_wal_path e = path_join db_dir ''active.wal''" "0 \<notin> set (path_bytes (path_join db_dir ''active.wal''))"
    using assms by (auto simp: engine_open_def wal_open_def Let_def split: option.splits sum.splits if_splits)
  then show ?thesis using sl_repr_new
    by (auto simp: live_engine_def compactor_new_def tables_ok_def path_bytes_nul)
qed

section \<open>Property\<close>

text \<open>
  An engine stays usable: from any directory it opens in, after any sequence of puts, with
  whatever answers the disk gives to each write of the log, as long as a rotation can open its
  new log, every put has returned (with \<open>Ok\<close> or a log error, never a panic or an endless walk), and a
  lookup of any non-empty key returns.
\<close>

theorem engine_calls_return:
  assumes "engine_open db_dir mkdir os rng disk = Inr e"
    and "\<forall>w\<in>set ws. ro_open (wa_rotation (fst w)) = None" and "key \<noteq> []"
  shows "\<exists>e' r. put_run (engine_put crc) ws e = Inr e' \<and> engine_get avx2 (\<lambda>_. None) e' key = Inr r"
  using store.put_run_returns[OF open_live[OF assms(1)] assms(2), of crc] store.get_returns[OF _ assms(3)] by blast

theorem engine_calls_return_witness:
  "\<exists>e e' r. engine_open ''db'' None None 0xDEADBEEF Map.empty = Inr e \<and>
     put_run (engine_put (\<lambda>_. 9)) [(calm, [107], [1], 5), (calm, [107], [2], 6)] e = Inr e' \<and>
     engine_get True (\<lambda>_. None) e' [107] = Inr r"
proof -
  from engine_first_put obtain e where e: "engine_open ''db'' None None 0xDEADBEEF Map.empty = Inr e" by blast
  have "\<forall>w\<in>set [(calm, [107], [1], 5), (calm, [107], [2], 6)]. ro_open (wa_rotation (fst w)) = None" by (simp add: calm_def)
  from engine_calls_return[OF e this, of "[107]" "\<lambda>_. 9" True] e show ?thesis by auto
qed

end
