(* ===== verification/Engine_Flush.thy ===== *)
theory Engine_Flush
  imports Engine_Store
begin

text \<open>
  What the flush worker of \<^verbatim>\<open>src/tier3_storage/src/engine.rs\<close> does to the answers of the engine: the
  frozen memtable becomes a table of level 0 and its log is deleted, and no lookup changes.
\<close>

section \<open>One task\<close>

definition flush_path :: "path \<Rightarrow> path" where
  "flush_path p = with_extension p (''sst.'' @ digits (unat (sst_id_of p)))"

lemma flush_memtable_ok:
  assumes "sl_repr mem es" "es \<noteq> []" "entries_fit es" "length (cp_l0 c) + 1 < L0_TRIGGER_COUNT"
    and "fa_create fa = None" "no_faults (fa_writes fa)" "fa_mmap fa = (\<lambda>_. None)"
  shows "\<exists>out. table_of es out \<and>
    flush_memtable fa \<lparr>ft_memtable = mem, ft_wal_path = p\<rparr> disk c =
      Inr (disk(flush_path p \<mapsto> out, p := None), add_l0_table (flush_path p) (fst (hd es)) (fst (last es)) c)"
proof -
  obtain n out where w: "sst_write None (fa_writes fa) es = Inr (n, out)" using sst_write_ok[OF assms(6)] by blast
  then have t: "table_of es out" using table_of_write assms(3) by blast
  obtain r where r: "sst_open (Inr out) None = Inr r" "sst_get_first_key r = Inr (if es = [] then None else Some (fst (hd es)))"
    "sst_get_last_key r = (if es = [] then None else Some (fst (last es)))" using table_of_open[OF t] by metis
  have "maybe_schedule_compaction mm os io d (add_l0_table q a b c) = Inr (None, add_l0_table q a b c, d)" for mm os io d q a b
    using assms(4) by (simp add: maybe_schedule_compaction_def add_l0_table_def)
  then show ?thesis using w t r assms(2,5,7)
    by (intro exI[of _ out]) (simp add: flush_memtable_def flush_path_def sl_collect_repr[OF assms(1)] open_file_def Let_def)
qed

lemma flushed_readable:
  fixes queue :: "flush_task list"
  assumes r: "readable ent ea ei e" and out: "table_of ei out" "ei \<noteq> []"
    and fresh: "en_disk e q = None" "en_disk e p \<noteq> None"
    and log: "p \<notin> tm_path ` set (cp_l0 (en_compactor e) @ cp_l1 (en_compactor e))"
  defines "e' \<equiv> e\<lparr>en_queue := queue, en_disk := (en_disk e)(q \<mapsto> out, p := None),
    en_compactor := add_l0_table q (fst (hd ei)) (fst (last ei)) (en_compactor e)\<rparr>"
    and "ent' \<equiv> ent(q := ei)"
  shows "readable ent' ea ei e'" "readable ent' ea [] (e'\<lparr>en_imm := None\<rparr>)"
    "engine_view ent' ea ei (en_compactor e') = engine_view ent ea ei (en_compactor e)"
    "engine_view ent' ea [] (en_compactor e') = engine_view ent ea ei (en_compactor e)"
proof -
  let ?c = "en_compactor e" and ?c' = "en_compactor e'"
  let ?ms = "cp_l0 ?c @ cp_l1 ?c"
  have ok: "tables_ok (en_disk e) ent ?ms" and mems: "mems_ok (en_active e) (en_imm e) ea ei"
    using r by (simp_all add: readable_def Let_def)
  have old: "tm_path m \<noteq> q" "tm_path m \<noteq> p" if "m \<in> set ?ms" for m
    using ok fresh log that unfolding tables_ok_def table_holds_def by (metis option.distinct(1), metis image_eqI)
  have "p \<noteq> q" using fresh by auto
  have srt: "sorted_wrt (<) (map fst ei)"
  proof -
    have "sorted (map fst ei)" "distinct (map fst ei)"
      using mems sl_repr_sorted by (auto simp: mems_ok_def imm_repr_def split: option.splits)
    then show ?thesis by (simp add: strict_sorted_iff)
  qed
  have "tables_ok (en_disk e') ent' ?ms"
    using ok old by (simp add: tables_ok_def table_holds_def e'_def ent'_def)
  then have t: "tables_ok (en_disk e') ent' (cp_l0 ?c' @ cp_l1 ?c')"
    using out srt \<open>p \<noteq> q\<close> by (auto simp: tables_ok_def table_holds_def e'_def ent'_def add_l0_table_def)
  have same: "ent' (tm_path m) = ent (tm_path m)" if "m \<in> set ?ms" for m using old(1)[OF that] by (simp add: ent'_def)
  then have "sorted_wrt (before ent') (cp_l1 ?c)"
    using r by (auto simp: readable_def Let_def before_def intro: sorted_wrt_mono_rel[of "cp_l1 ?c" "before ent"])
  moreover have "cp_l1 ?c' = cp_l1 ?c" by (simp add: e'_def add_l0_table_def)
  ultimately show "readable ent' ea ei e'" "readable ent' ea [] (e'\<lparr>en_imm := None\<rparr>)"
    using r t same mems by (auto simp: readable_def Let_def e'_def mems_ok_def imm_repr_def)
  have "versions ent' (rev (cp_l0 ?c)) = versions ent (rev (cp_l0 ?c))" "versions ent' (cp_l1 ?c) = versions ent (cp_l1 ?c)"
    using same by (auto intro!: versions_cong)
  then show "engine_view ent' ea ei ?c' = engine_view ent ea ei ?c" "engine_view ent' ea [] ?c' = engine_view ent ea ei ?c"
    by (simp_all add: engine_view_def e'_def add_l0_table_def ent'_def fun_eq_iff map_add_def split: option.splits)
qed

section \<open>Property\<close>


text \<open>One put, a freeze and a flush of an engine opened in an empty directory.\<close>

definition smooth :: flush_answers where
  "smooth = \<lparr>fa_create = None, fa_writes = [], fa_mmap = (\<lambda>_. None), fa_merge_create = None, fa_merge_writes = []\<rparr>"


end
