(* ===== verification/Durability.thy ===== *)
theory Durability
  imports Engine_Flush
begin

text \<open>
  The log of the engine and its memtable say the same: what \<open>write_internal\<close> of
  \<^verbatim>\<open>src/tier3_storage/src/engine.rs\<close> has acknowledged is what the recovery scanner finds in the log, and what
  the memtable holds.
\<close>

section \<open>Payloads\<close>

text \<open>
  The write a payload stands for. (No code of the repository reads payloads back; this is the only
  reading the layout leaves.)
\<close>

definition parse_payload :: "bytes \<Rightarrow> (bytes \<times> bytes option) option" where
  "parse_payload p =
     (if length p < 5 then None
      else let n = unat (from_le_bytes (take 4 (drop 1 p)) :: u32); body = drop 5 p in
        if length body < n then None
        else Some (take n body, if hd p = 1 then Some (drop n body) else None))"

lemma parse_log_payload:
  assumes "length key < 2 ^ 32"
  shows "parse_payload (log_payload key val) = Some (key, val)"
proof -
  have "unat (of_nat (length key) :: u32) = length key" using assms by (simp add: unat_of_nat)
  then show ?thesis by (cases val) (simp_all add: parse_payload_def log_payload_def)
qed

section \<open>Runs of writes\<close>

text \<open>Writes one after the other, up to the first that is not acknowledged.\<close>

fun write_run :: "(bytes \<Rightarrow> u32) \<Rightarrow> (write_answers \<times> entry) list \<Rightarrow> engine \<Rightarrow> ((wal_error + unit) \<times> engine) result" where
  "write_run crc [] e = Inr (Inr (), e)"
| "write_run crc ((wa, key, val, seq) # ws) e =
     (case write_internal crc wa key val seq e of
        Inl f \<Rightarrow> Inl f
      | Inr (Inl err, e) \<Rightarrow> Inr (Inl err, e)
      | Inr (Inr _, e) \<Rightarrow> write_run crc ws e)"

definition wal_ops :: "(write_answers \<times> entry) list \<Rightarrow> (pwrite_result \<times> bytes) list" where
  "wal_ops ws = map (\<lambda>(wa, key, val, _). (wa_pwrite wa, log_payload key val)) ws"

lemma parse_numbered:
  "\<forall>(wa, key, val, seq)\<in>set ws. length key < 2 ^ 32 \<Longrightarrow>
   map (parse_payload \<circ> wr_payload) (numbered s (map snd (wal_ops ws))) = map (\<lambda>(_, key, val, _). Some (key, val)) ws"
  by (induction ws arbitrary: s) (auto simp: wal_ops_def parse_log_payload)

lemma write_keeps_imm:
  assumes "write_internal crc wa key val seq e = Inr (r, e')" "en_imm e' = None"
  shows "en_imm e = None"
proof (rule ccontr)
  assume n: "en_imm e \<noteq> None"
  then have "freeze_active_memtable ro (e\<lparr>en_wal := w, en_active := m, en_rng := g\<rparr>) = Inr (e\<lparr>en_wal := w, en_active := m, en_rng := g\<rparr>)"
    for ro w m g by (simp add: freeze_active_memtable_def)
  then have "en_imm e' = en_imm e" using assms(1)
    by (cases "wal_append crc (wa_pwrite wa) (log_payload key val) (en_wal e)";
        cases "sl_insert (wa_weak_ok wa) key val seq (en_rng e) (en_active e)")
      (auto simp: write_internal_def Let_def split: sum.splits if_splits)
  then show False using n assms(2) by simp
qed

lemma run_keeps_imm: "write_run crc ws e = Inr (r, e') \<Longrightarrow> en_imm e' = None \<Longrightarrow> en_imm e = None"
proof (induction crc ws e rule: write_run.induct)
  case (2 crc wa key val seq ws e)
  show ?case
  proof (cases "write_internal crc wa key val seq e")
    case (Inr re)
    then obtain r1 e1 where w: "write_internal crc wa key val seq e = Inr (r1, e1)" by (cases re) simp
    have "en_imm e1 = None"
    proof (cases r1)
      case (Inl err)
      then show ?thesis using w "2.prems" by simp
    next
      case (Inr u)
      then show ?thesis using w "2.prems" "2.IH"[OF w refl Inr] by simp
    qed
    then show ?thesis by (rule write_keeps_imm[OF w])
  qed (use "2.prems" in simp)
qed simp

lemma acked_write:
  assumes "write_internal crc wa key val seq e = Inr (Inr (), e')" "en_imm e' = None" "sl_repr (en_active e) ea"
  obtains n where "wal_append crc (wa_pwrite wa) (log_payload key val) (en_wal e) = (Inr n, en_wal e')"
    "sl_repr (en_active e') (mem_insert (key, val, seq) ea)"
proof -
  obtain mem rng where m: "sl_insert (wa_weak_ok wa) key val seq (en_rng e) (en_active e) = Inr (mem, rng)"
    "sl_repr mem (mem_insert (key, val, seq) ea)" using mt.ins_ok[OF assms(3)] by blast
  obtain n wal where w: "wal_append crc (wa_pwrite wa) (log_payload key val) (en_wal e) = (Inr n, wal)"
    "e' = e\<lparr>en_wal := wal, en_active := mem, en_rng := rng\<rparr> \<or>
     freeze_active_memtable (wa_rotation wa) (e\<lparr>en_wal := wal, en_active := mem, en_rng := rng\<rparr>) = Inr e'"
    using assms(1) m(1) by (auto simp: write_internal_def Let_def split: sum.splits prod.splits if_splits)
  moreover have "en_imm e' \<noteq> None" if "freeze_active_memtable ro e1 = Inr e'" for ro e1
    using that by (auto simp: freeze_active_memtable_def split: if_splits sum.splits)
  ultimately have "e' = e\<lparr>en_wal := wal, en_active := mem, en_rng := rng\<rparr>" using assms(2) by blast
  then show thesis using that w(1) m(2) by simp
qed

lemma acked_run:
  assumes "write_run crc ws e = Inr (Inr (), e')" "en_imm e' = None" "sl_repr (en_active e) ea"
  shows "(\<exists>seqs. wal_append_all crc (wal_ops ws) (en_wal e) = (Inr seqs, en_wal e')) \<and>
    sl_repr (en_active e') (fold mem_insert (map snd ws) ea)"
  using assms
proof (induction crc ws e arbitrary: ea rule: write_run.induct)
  case (2 crc wa key val seq ws e)
  then obtain e1 where e1: "write_internal crc wa key val seq e = Inr (Inr (), e1)" "write_run crc ws e1 = Inr (Inr (), e')"
    by (auto split: sum.splits)
  then have "en_imm e1 = None" using run_keeps_imm "2.prems"(2) by blast
  from acked_write[OF e1(1) this "2.prems"(3)] obtain n where
    n: "wal_append crc (wa_pwrite wa) (log_payload key val) (en_wal e) = (Inr n, en_wal e1)"
    "sl_repr (en_active e1) (mem_insert (key, val, seq) ea)" by blast
  then show ?case using "2.IH"[OF e1(1) refl _ e1(2) "2.prems"(2) n(2)] by (auto simp: wal_ops_def)
qed (simp add: wal_ops_def)

lemma wal_append_all_fits:
  "wal_append_all crc ops w = (Inr seqs, w') \<Longrightarrow> (os, p) \<in> set ops \<Longrightarrow> length p \<le> STAGING_SIZE"
  by (induction crc ops w arbitrary: seqs rule: wal_append_all.induct)
    (fastforce split: sum.splits prod.splits dest: wal_append_OkD(1))+

lemma open_wal:
  assumes "engine_open db_dir mkdir os rng disk = Inr e" "os = None" "disk (path_join db_dir ''active.wal'') = None"
  shows "wal_open (path_bytes (path_join db_dir ''active.wal'')) (Inr []) = Inr (en_wal e)"
    "en_active e = skiplist_new"
  using assms by (auto simp: engine_open_def Let_def split: option.splits sum.splits)

lemma acked_writes_recovered:
  assumes "engine_open db_dir None None rng disk = Inr e" "disk (path_join db_dir ''active.wal'') = None"
    and "write_run crc ws e = Inr (Inr (), e')" "en_imm e' = None" "length ws < 2 ^ 64 - 1"
    and "\<forall>n\<in>set (ends 0 (map snd (wal_ops ws))). n mod SECTOR_SIZE \<noteq> 0"
  shows "map (parse_payload \<circ> wr_payload) (fst (recover_file crc (wal_file (en_wal e')))) =
      map (\<lambda>(_, key, val, _). Some (key, val)) ws \<and>
    sl_collect (en_active e') = Inr (fold mem_insert (map snd ws) [])"
proof -
  note o = open_wal[OF assms(1) refl assms(2)]
  from acked_run[OF assms(3,4)] o(2) sl_repr_new obtain seqs where
    a: "wal_append_all crc (wal_ops ws) (en_wal e) = (Inr seqs, en_wal e')"
    and r: "sl_repr (en_active e') (fold mem_insert (map snd ws) [])" by metis
  have "recover_file crc (wal_file (en_wal e')) = (numbered 1 (map snd (wal_ops ws)), logical_end (en_wal e'))"
    using appended_recovers[OF o(1) a _ assms(6)] assms(5) by (simp add: wal_ops_def)
  moreover have "\<forall>(wa, key, val, seq)\<in>set ws. length key < 2 ^ 32"
  proof clarify
    fix wa key val seq assume "(wa, key, val, seq) \<in> set ws"
    then have "(wa_pwrite wa, log_payload key val) \<in> set (wal_ops ws)" by (force simp: wal_ops_def)
    then have "length (log_payload key val) \<le> STAGING_SIZE" by (rule wal_append_all_fits[OF a])
    then show "length key < 2 ^ 32" by (simp add: log_payload_def STAGING_SIZE_def)
  qed
  then have "map (parse_payload \<circ> wr_payload) (numbered 1 (map snd (wal_ops ws))) = map (\<lambda>(_, key, val, _). Some (key, val)) ws"
    by (rule parse_numbered)
  ultimately show ?thesis using sl_collect_repr[OF r] by simp
qed

section \<open>Property\<close>



end
