(* ===== verification/Mpmc_Queue.thy ===== *)
theory Mpmc_Queue
  imports Prelude
begin

text \<open>
  The lock-free queue of \<^verbatim>\<open>src/tier2_concurrency/src/queue.rs\<close>: a ring of slots, each with a sequence
  number that says whose turn it is. A call is a small program whose steps are its accesses to
  shared memory: \<open>push_step\<close> and \<open>pop_step\<close> run one of them. A thread's position in its call,
  with the values of its local variables, is a \<open>pc\<close>. Calls of any number of threads interleave
  step by step (sequentially consistent memory; the release store and acquire load of a slot's
  sequence number are what the code uses to get this for the slot's value).

  A weak compare-exchange that fails although the values agree is the flag \<open>spurious\<close>. Reading a
  slot moves the value out, so a value read twice, or before it is written, is \<open>Crashed\<close>.
  \<open>UnpaddedMPMCQueue\<close> is in \<open>Mpmc_Unpadded\<close>.
\<close>

section \<open>State\<close>

datatype queue_error = Full | Empty

record 'a mslot =
  ms_seq :: u64
  ms_val :: "'a option"

record 'a mpmc =
  mq_mask :: u64
  mq_buffer :: "'a mslot list"
  mq_tail :: u64
  mq_head :: u64

datatype 'a pc =
    Idle
  | Push_Load 'a | Push_Seq 'a u64 | Push_Cas 'a u64 | Push_Write 'a u64 | Push_Store u64 | Push_Ret "(queue_error \<times> 'a) + unit"
  | Pop_Load | Pop_Seq u64 | Pop_Cas u64 | Pop_Read u64 | Pop_Store u64 'a | Pop_Ret "queue_error + 'a"
  | Crashed

section \<open>Operations\<close>

definition mpmc_new :: "u64 \<Rightarrow> 'a mpmc result" where
  "mpmc_new capacity =
     (if \<not> (capacity \<ge> 2 \<and> is_power_of_two capacity) then Inl Panic
      else Inr \<lparr>mq_mask = capacity - 1,
                mq_buffer = map (\<lambda>i. \<lparr>ms_seq = of_nat i, ms_val = None\<rparr>) [0..<unat capacity],
                mq_tail = 0, mq_head = 0\<rparr>)"

definition slot_idx :: "'a mpmc \<Rightarrow> u64 \<Rightarrow> nat" where
  "slot_idx q pos = unat (pos AND mq_mask q)"

definition set_slot :: "u64 \<Rightarrow> 'a mslot \<Rightarrow> 'a mpmc \<Rightarrow> 'a mpmc" where
  "set_slot pos sl q = q\<lparr>mq_buffer := (mq_buffer q)[slot_idx q pos := sl]\<rparr>"

definition push_step :: "bool \<Rightarrow> 'a mpmc \<Rightarrow> 'a pc \<Rightarrow> 'a mpmc \<times> 'a pc" where
  "push_step spurious q pc =
     (case pc of
        Push_Load data \<Rightarrow> (q, Push_Seq data (mq_tail q))
      | Push_Seq data tail \<Rightarrow>
          if slot_idx q tail \<ge> length (mq_buffer q) then (q, Crashed)
          else let diff = ms_seq (mq_buffer q ! slot_idx q tail) - tail in
            if diff = 0 then (q, Push_Cas data tail)
            else if sint diff < 0 then (q, Push_Ret (Inl (Full, data)))
            else (q, Push_Load data)
      | Push_Cas data tail \<Rightarrow>
          if mq_tail q = tail \<and> \<not> spurious then (q\<lparr>mq_tail := tail + 1\<rparr>, Push_Write data tail)
          else (q, Push_Seq data (mq_tail q))
      | Push_Write data tail \<Rightarrow>
          (set_slot tail ((mq_buffer q ! slot_idx q tail)\<lparr>ms_val := Some data\<rparr>) q, Push_Store tail)
      | Push_Store tail \<Rightarrow>
          (set_slot tail ((mq_buffer q ! slot_idx q tail)\<lparr>ms_seq := tail + 1\<rparr>) q, Push_Ret (Inr ()))
      | _ \<Rightarrow> (q, pc))"

definition pop_step :: "bool \<Rightarrow> 'a mpmc \<Rightarrow> 'a pc \<Rightarrow> 'a mpmc \<times> 'a pc" where
  "pop_step spurious q pc =
     (case pc of
        Pop_Load \<Rightarrow> (q, Pop_Seq (mq_head q))
      | Pop_Seq head \<Rightarrow>
          if slot_idx q head \<ge> length (mq_buffer q) then (q, Crashed)
          else let diff = ms_seq (mq_buffer q ! slot_idx q head) - (head + 1) in
            if diff = 0 then (q, Pop_Cas head)
            else if sint diff < 0 then (q, Pop_Ret (Inl Empty))
            else (q, Pop_Load)
      | Pop_Cas head \<Rightarrow>
          if mq_head q = head \<and> \<not> spurious then (q\<lparr>mq_head := head + 1\<rparr>, Pop_Read head)
          else (q, Pop_Seq (mq_head q))
      | Pop_Read head \<Rightarrow>
          (case ms_val (mq_buffer q ! slot_idx q head) of
             None \<Rightarrow> (q, Crashed)
           | Some data \<Rightarrow> (set_slot head ((mq_buffer q ! slot_idx q head)\<lparr>ms_val := None\<rparr>) q, Pop_Store head data))
      | Pop_Store head data \<Rightarrow>
          (set_slot head ((mq_buffer q ! slot_idx q head)\<lparr>ms_seq := head + (mq_mask q + 1)\<rparr>) q, Pop_Ret (Inr data))
      | _ \<Rightarrow> (q, pc))"

definition mpmc_step :: "bool \<Rightarrow> 'a mpmc \<Rightarrow> 'a pc \<Rightarrow> 'a mpmc \<times> 'a pc" where
  "mpmc_step spurious q pc = (let (q, pc) = push_step spurious q pc in pop_step spurious q pc)"


definition finished :: "'a pc \<Rightarrow> bool" where
  "finished pc = (case pc of Idle \<Rightarrow> True | Push_Ret _ \<Rightarrow> True | Pop_Ret _ \<Rightarrow> True | Crashed \<Rightarrow> True | _ \<Rightarrow> False)"

text \<open>
  A call with no other thread at work. The first \<open>n\<close> compare-exchanges fail spuriously; each costs
  two steps more, so \<open>6 + 2 * n\<close> steps are enough.
\<close>

fun run_alone :: "nat \<Rightarrow> nat \<Rightarrow> 'a mpmc \<Rightarrow> 'a pc \<Rightarrow> ('a mpmc \<times> 'a pc) option" where
  "run_alone 0 n q pc = None"
| "run_alone (Suc fuel) n q pc =
     (if finished pc then Some (q, pc)
      else let
        spurious = (n > 0 \<and> (case pc of Push_Cas _ _ \<Rightarrow> True | Pop_Cas _ \<Rightarrow> True | _ \<Rightarrow> False));
        (q, pc) = mpmc_step spurious q pc
      in run_alone fuel (if spurious then n - 1 else n) q pc)"

definition mpmc_push :: "nat \<Rightarrow> 'a \<Rightarrow> 'a mpmc \<Rightarrow> (((queue_error \<times> 'a) + unit) \<times> 'a mpmc) result" where
  "mpmc_push n data q =
     (case run_alone (6 + 2 * n) n q (Push_Load data) of
        None \<Rightarrow> Inl Diverges
      | Some (q, Push_Ret r) \<Rightarrow> Inr (r, q)
      | Some _ \<Rightarrow> Inl Undefined)"

definition mpmc_pop :: "nat \<Rightarrow> 'a mpmc \<Rightarrow> ((queue_error + 'a) \<times> 'a mpmc) result" where
  "mpmc_pop n q =
     (case run_alone (6 + 2 * n) n q Pop_Load of
        None \<Rightarrow> Inl Diverges
      | Some (q, Pop_Ret r) \<Rightarrow> Inr (r, q)
      | Some _ \<Rightarrow> Inl Undefined)"

text \<open>\<open>Drop\<close>: pop until the queue is empty; the result lists the values dropped.\<close>

fun mpmc_drop :: "nat \<Rightarrow> 'a mpmc \<Rightarrow> 'a list result" where
  "mpmc_drop 0 q = Inl Diverges"
| "mpmc_drop (Suc fuel) q =
     (case mpmc_pop 0 q of
        Inl f \<Rightarrow> Inl f
      | Inr (Inl _, q) \<Rightarrow> Inr []
      | Inr (Inr data, q) \<Rightarrow> (case mpmc_drop fuel q of Inl f \<Rightarrow> Inl f | Inr ds \<Rightarrow> Inr (data # ds)))"

lemma mpmc_step_simps [simp]:
  "mpmc_step sp q Idle = (q, Idle)" "mpmc_step sp q Crashed = (q, Crashed)"
  "mpmc_step sp q (Push_Ret r) = (q, Push_Ret r)" "mpmc_step sp q (Pop_Ret r') = (q, Pop_Ret r')"
  "mpmc_step sp q (Push_Load d) = (q, Push_Seq d (mq_tail q))"
  "mpmc_step sp q (Push_Seq d t) =
     (if slot_idx q t \<ge> length (mq_buffer q) then (q, Crashed)
      else if ms_seq (mq_buffer q ! slot_idx q t) - t = 0 then (q, Push_Cas d t)
      else if sint (ms_seq (mq_buffer q ! slot_idx q t) - t) < 0 then (q, Push_Ret (Inl (Full, d)))
      else (q, Push_Load d))"
  "mpmc_step sp q (Push_Cas d t) =
     (if mq_tail q = t \<and> \<not> sp then (q\<lparr>mq_tail := t + 1\<rparr>, Push_Write d t) else (q, Push_Seq d (mq_tail q)))"
  "mpmc_step sp q (Push_Write d t) = (set_slot t ((mq_buffer q ! slot_idx q t)\<lparr>ms_val := Some d\<rparr>) q, Push_Store t)"
  "mpmc_step sp q (Push_Store t) = (set_slot t ((mq_buffer q ! slot_idx q t)\<lparr>ms_seq := t + 1\<rparr>) q, Push_Ret (Inr ()))"
  "mpmc_step sp q Pop_Load = (q, Pop_Seq (mq_head q))"
  "mpmc_step sp q (Pop_Seq h) =
     (if slot_idx q h \<ge> length (mq_buffer q) then (q, Crashed)
      else if ms_seq (mq_buffer q ! slot_idx q h) - (h + 1) = 0 then (q, Pop_Cas h)
      else if sint (ms_seq (mq_buffer q ! slot_idx q h) - (h + 1)) < 0 then (q, Pop_Ret (Inl Empty))
      else (q, Pop_Load))"
  "mpmc_step sp q (Pop_Cas h) =
     (if mq_head q = h \<and> \<not> sp then (q\<lparr>mq_head := h + 1\<rparr>, Pop_Read h) else (q, Pop_Seq (mq_head q)))"
  "mpmc_step sp q (Pop_Read h) =
     (case ms_val (mq_buffer q ! slot_idx q h) of
        None \<Rightarrow> (q, Crashed)
      | Some data \<Rightarrow> (set_slot h ((mq_buffer q ! slot_idx q h)\<lparr>ms_val := None\<rparr>) q, Pop_Store h data))"
  "mpmc_step sp q (Pop_Store h v) =
     (set_slot h ((mq_buffer q ! slot_idx q h)\<lparr>ms_seq := h + (mq_mask q + 1)\<rparr>) q, Pop_Ret (Inr v))"
  by (simp_all add: mpmc_step_def push_step_def pop_step_def Let_def split: option.splits)

lemma finished_simps [simp]:
  "finished Idle" "finished Crashed" "finished (Push_Ret r)" "finished (Pop_Ret r')"
  "\<not> finished (Push_Load d)" "\<not> finished (Push_Seq d t)" "\<not> finished (Push_Cas d t)" "\<not> finished (Push_Write d t)"
  "\<not> finished (Push_Store t)" "\<not> finished Pop_Load" "\<not> finished (Pop_Seq h)" "\<not> finished (Pop_Cas h)"
  "\<not> finished (Pop_Read h)" "\<not> finished (Pop_Store h v)"
  by (simp_all add: finished_def)

section \<open>The bounded queue as an interface\<close>

text \<open>
  What a client relies on when no call overlaps another: the queue is a list with a bound. The
  client's lemma is a simulation: any sequence of calls returns what the list returns.
\<close>

datatype 'a queue_op = Enq 'a | Deq

datatype 'a queue_ret = Enqueued | Was_Full 'a | Dequeued 'a | Was_Empty

fun list_ops :: "nat \<Rightarrow> 'a queue_op list \<Rightarrow> 'a list \<Rightarrow> 'a queue_ret list \<times> 'a list" where
  "list_ops cap [] xs = ([], xs)"
| "list_ops cap (Enq x # ops) xs =
     (if length xs < cap then apfst ((#) Enqueued) (list_ops cap ops (xs @ [x]))
      else apfst ((#) (Was_Full x)) (list_ops cap ops xs))"
| "list_ops cap (Deq # ops) xs =
     (case xs of [] \<Rightarrow> apfst ((#) Was_Empty) (list_ops cap ops []) | x # xs \<Rightarrow> apfst ((#) (Dequeued x)) (list_ops cap ops xs))"

fun queue_ops ::
  "('a \<Rightarrow> 'q \<Rightarrow> (((queue_error \<times> 'a) + unit) \<times> 'q) result) \<Rightarrow> ('q \<Rightarrow> ((queue_error + 'a) \<times> 'q) result) \<Rightarrow>
   'a queue_op list \<Rightarrow> 'q \<Rightarrow> ('a queue_ret list \<times> 'q) result" where
  "queue_ops push pop [] q = Inr ([], q)"
| "queue_ops push pop (Enq x # ops) q =
     (case push x q of
        Inl f \<Rightarrow> Inl f
      | Inr (r, q) \<Rightarrow> map_sum id (apfst ((#) (case r of Inr _ \<Rightarrow> Enqueued | Inl (_, y) \<Rightarrow> Was_Full y))) (queue_ops push pop ops q))"
| "queue_ops push pop (Deq # ops) q =
     (case pop q of
        Inl f \<Rightarrow> Inl f
      | Inr (r, q) \<Rightarrow> map_sum id (apfst ((#) (case r of Inr x \<Rightarrow> Dequeued x | Inl _ \<Rightarrow> Was_Empty))) (queue_ops push pop ops q))"

locale bounded_queue =
  fixes cap :: nat
    and repr :: "'q \<Rightarrow> 'a list \<Rightarrow> bool"
    and push :: "'a \<Rightarrow> 'q \<Rightarrow> (((queue_error \<times> 'a) + unit) \<times> 'q) result"
    and pop :: "'q \<Rightarrow> ((queue_error + 'a) \<times> 'q) result"
  assumes push_room: "repr q xs \<Longrightarrow> length xs < cap \<Longrightarrow> \<exists>q'. push x q = Inr (Inr (), q') \<and> repr q' (xs @ [x])"
    and push_full: "repr q xs \<Longrightarrow> \<not> length xs < cap \<Longrightarrow> push x q = Inr (Inl (Full, x), q)"
    and pop_some: "repr q (x # xs) \<Longrightarrow> \<exists>q'. pop q = Inr (Inr x, q') \<and> repr q' xs"
    and pop_none: "repr q [] \<Longrightarrow> pop q = Inr (Inl Empty, q)"
begin

lemma ops_refine:
  "repr q xs \<Longrightarrow> \<exists>q'. queue_ops push pop ops q = Inr (fst (list_ops cap ops xs), q') \<and> repr q' (snd (list_ops cap ops xs))"
proof (induction ops arbitrary: q xs)
  case (Cons op ops)
  show ?case
  proof (cases op)
    case (Enq x)
    show ?thesis
    proof (cases "length xs < cap")
      case True
      then obtain q1 where q1: "push x q = Inr (Inr (), q1)" "repr q1 (xs @ [x])" using push_room[OF Cons.prems] by blast
      from Cons.IH[OF q1(2)] q1(1) True Enq show ?thesis by auto
    next
      case False
      from Cons.IH[OF Cons.prems] push_full[OF Cons.prems False] False Enq show ?thesis by auto
    qed
  next
    case Deq
    show ?thesis
    proof (cases xs)
      case Nil
      with Cons.IH[OF Cons.prems] Cons.prems pop_none Deq show ?thesis by auto
    next
      case (Cons x ys)
      then obtain q1 where q1: "pop q = Inr (Inr x, q1)" "repr q1 ys" using pop_some \<open>repr q xs\<close> by blast
      from Cons.IH[OF q1(2)] q1(1) Cons Deq show ?thesis by auto
    qed
  qed
qed simp

end

section \<open>Calls that do not overlap\<close>

definition ring_shape :: "nat \<Rightarrow> 'a mpmc \<Rightarrow> bool" where
  "ring_shape k q \<longleftrightarrow> 1 \<le> k \<and> k \<le> 63 \<and> mq_mask q = 2 ^ k - 1 \<and> length (mq_buffer q) = 2 ^ k"

definition ring_repr :: "nat \<Rightarrow> 'a mpmc \<Rightarrow> 'a list \<Rightarrow> bool" where
  "ring_repr k q xs \<longleftrightarrow> ring_shape k q \<and> length xs \<le> 2 ^ k \<and>
     (\<exists>h. mq_head q = of_nat h \<and> mq_tail q = of_nat (h + length xs) \<and>
       (\<forall>j<2 ^ k. mq_buffer q ! ((h + j) mod 2 ^ k) =
          (if j < length xs then \<lparr>ms_seq = of_nat (h + j + 1), ms_val = Some (xs ! j)\<rparr>
           else \<lparr>ms_seq = of_nat (h + j), ms_val = None\<rparr>)))"

lemma slot_idx_mod: "ring_shape k q \<Longrightarrow> slot_idx q pos = unat pos mod 2 ^ k"
  by (simp add: slot_idx_def ring_shape_def unat_and_mask)

lemma slot_idx_of_nat: "ring_shape k q \<Longrightarrow> slot_idx q (of_nat p) = p mod 2 ^ k"
proof -
  assume r: "ring_shape k q"
  then have "(2::nat) ^ k dvd 2 ^ 64" by (intro le_imp_power_dvd) (simp add: ring_shape_def)
  then show "slot_idx q (of_nat p) = p mod 2 ^ k" using slot_idx_mod[OF r, of "of_nat p"] by (simp add: unat_of_nat mod_mod_cancel)
qed

lemma slot_idx_less [simp]: "ring_shape k q \<Longrightarrow> slot_idx q pos < length (mq_buffer q)"
  using slot_idx_mod[of k q pos] by (simp add: ring_shape_def)

lemma mod_offset_eq:
  fixes i j m :: nat
  assumes "(h + i) mod m = (h + j) mod m" "i < m" "j < m"
  shows "i = j"
proof -
  have "a = b" if "a \<le> b" "(h + a) mod m = (h + b) mod m" "b < m" for a b
  proof -
    have "m dvd (h + b) - (h + a)" using mod_eq_dvd_iff_nat[of "h + a" "h + b" m] that by simp
    then show ?thesis using that by (auto dest: dvd_imp_le)
  qed
  from this[of i j] this[of j i] assms show ?thesis by (cases "i \<le> j") auto
qed

text \<open>A call alone: the steps up to its compare-exchange, with the spurious failures, and after it.\<close>

lemma run_alone_cas_push:
  assumes "slot_idx q (mq_tail q) < length (mq_buffer q)" "ms_seq (mq_buffer q ! slot_idx q (mq_tail q)) = mq_tail q"
  shows "run_alone (Suc (Suc (Suc (2 * n + fuel)))) n q (Push_Load d) = run_alone fuel 0 (q\<lparr>mq_tail := mq_tail q + 1\<rparr>) (Push_Write d (mq_tail q))"
proof -
  have "run_alone (Suc (Suc (2 * n + fuel))) n q (Push_Seq d (mq_tail q)) = run_alone fuel 0 (q\<lparr>mq_tail := mq_tail q + 1\<rparr>) (Push_Write d (mq_tail q))"
    by (induction n) (use assms in simp_all)
  then show ?thesis by simp
qed

lemma run_alone_cas_pop:
  assumes "slot_idx q (mq_head q) < length (mq_buffer q)" "ms_seq (mq_buffer q ! slot_idx q (mq_head q)) = mq_head q + 1"
  shows "run_alone (Suc (Suc (Suc (2 * n + fuel)))) n q Pop_Load = run_alone fuel 0 (q\<lparr>mq_head := mq_head q + 1\<rparr>) (Pop_Read (mq_head q))"
proof -
  have "run_alone (Suc (Suc (2 * n + fuel))) n q (Pop_Seq (mq_head q)) = run_alone fuel 0 (q\<lparr>mq_head := mq_head q + 1\<rparr>) (Pop_Read (mq_head q))"
    by (induction n) (use assms in simp_all)
  then show ?thesis by simp
qed

lemma slot_idx_upd [simp]:
  "slot_idx (q\<lparr>mq_tail := t\<rparr>) pos = slot_idx q pos" "slot_idx (q\<lparr>mq_head := h\<rparr>) pos = slot_idx q pos"
  "slot_idx (q\<lparr>mq_buffer := b\<rparr>) pos = slot_idx q pos" "slot_idx (set_slot p sl q) pos = slot_idx q pos"
  by (simp_all add: slot_idx_def set_slot_def)

lemma mslot_upd: "sl\<lparr>ms_val := v, ms_seq := s\<rparr> = \<lparr>ms_seq = s, ms_val = v\<rparr>"
  by (cases sl) simp

lemma mpmc_push_claims:
  assumes "ring_shape k q" "ms_seq (mq_buffer q ! slot_idx q (mq_tail q)) = mq_tail q"
  shows "mpmc_push n d q = Inr (Inr (), q\<lparr>mq_tail := mq_tail q + 1,
     mq_buffer := (mq_buffer q)[slot_idx q (mq_tail q) := \<lparr>ms_seq = mq_tail q + 1, ms_val = Some d\<rparr>]\<rparr>)"
proof -
  have i: "slot_idx q (mq_tail q) < length (mq_buffer q)" using assms(1) by simp
  have f: "6 + 2 * n = Suc (Suc (Suc (2 * n + Suc (Suc (Suc 0)))))" by simp
  show ?thesis
    unfolding mpmc_push_def f run_alone_cas_push[OF i assms(2)] using i by (simp add: set_slot_def mslot_upd)
qed

lemma mpmc_pop_claims:
  assumes "ring_shape k q" "ms_seq (mq_buffer q ! slot_idx q (mq_head q)) = mq_head q + 1"
    "ms_val (mq_buffer q ! slot_idx q (mq_head q)) = Some v"
  shows "mpmc_pop n q = Inr (Inr v, q\<lparr>mq_head := mq_head q + 1,
     mq_buffer := (mq_buffer q)[slot_idx q (mq_head q) := \<lparr>ms_seq = mq_head q + (mq_mask q + 1), ms_val = None\<rparr>]\<rparr>)"
proof -
  have i: "slot_idx q (mq_head q) < length (mq_buffer q)" using assms(1) by simp
  have f: "6 + 2 * n = Suc (Suc (Suc (2 * n + Suc (Suc (Suc 0)))))" by simp
  show ?thesis
    unfolding mpmc_pop_def f run_alone_cas_pop[OF i assms(2)] using i assms(3) by (simp add: set_slot_def mslot_upd)
qed

text \<open>The four laws, with positions that wrap around.\<close>

lemma sint_neg:
  assumes "a - b = (of_int d :: u64)" "- (2 ^ 63) \<le> d" "d < 0"
  shows "a - b \<noteq> 0" "sint (a - b) < 0"
proof -
  have s: "sint (a - b) = d"
    unfolding assms(1) using assms(2,3) by (simp add: signed_of_int signed_take_bit_int_eq_self)
  then show "sint (a - b) < 0" "a - b \<noteq> 0" using assms(3) by auto
qed

lemma ring_push_room:
  assumes "ring_repr k q xs" "length xs < 2 ^ k"
  shows "\<exists>q'. mpmc_push n x q = Inr (Inr (), q') \<and> ring_repr k q' (xs @ [x])"
proof -
  from assms(1) obtain h where sh: "ring_shape k q" and h: "mq_head q = of_nat h" "mq_tail q = of_nat (h + length xs)"
    and buf: "\<And>j. j < 2 ^ k \<Longrightarrow> mq_buffer q ! ((h + j) mod 2 ^ k) =
          (if j < length xs then \<lparr>ms_seq = of_nat (h + j + 1), ms_val = Some (xs ! j)\<rparr>
           else \<lparr>ms_seq = of_nat (h + j), ms_val = None\<rparr>)" by (auto simp: ring_repr_def)
  let ?i = "(h + length xs) mod 2 ^ k"
  have i: "slot_idx q (mq_tail q) = ?i" unfolding h(2) by (rule slot_idx_of_nat[OF sh])
  have "ms_seq (mq_buffer q ! slot_idx q (mq_tail q)) = mq_tail q" unfolding i using buf[OF assms(2)] h(2) by simp
  note p = mpmc_push_claims[OF sh this, of n x, unfolded i]
  let ?q = "q\<lparr>mq_tail := mq_tail q + 1,
     mq_buffer := (mq_buffer q)[?i := \<lparr>ms_seq = mq_tail q + 1, ms_val = Some x\<rparr>]\<rparr>"
  have len: "length (mq_buffer q) = 2 ^ k" using sh by (simp add: ring_shape_def)
  have "mq_buffer ?q ! ((h + j) mod 2 ^ k) =
          (if j < length (xs @ [x]) then \<lparr>ms_seq = of_nat (h + j + 1), ms_val = Some ((xs @ [x]) ! j)\<rparr>
           else \<lparr>ms_seq = of_nat (h + j), ms_val = None\<rparr>)" if j: "j < 2 ^ k" for j
  proof (cases "j = length xs")
    case True
    then show ?thesis using len h(2) by simp
  next
    case False
    then have "(h + j) mod 2 ^ k \<noteq> ?i" using mod_offset_eq[OF _ j assms(2)] by blast
    then show ?thesis using buf[OF j] False by (auto simp: nth_append)
  qed
  moreover have "ring_shape k ?q" using sh by (simp add: ring_shape_def)
  ultimately have "ring_repr k ?q (xs @ [x])"
    unfolding ring_repr_def using assms(2) h by (intro conjI exI[of _ h]) auto
  then show ?thesis using p by blast
qed

lemma ring_push_full:
  assumes "ring_repr k q xs" "\<not> length xs < 2 ^ k"
  shows "mpmc_push n x q = Inr (Inl (Full, x), q)"
proof -
  from assms obtain h where sh: "ring_shape k q" and h: "mq_tail q = of_nat (h + 2 ^ k)" "length xs = 2 ^ k"
    and buf: "\<And>j. j < 2 ^ k \<Longrightarrow> mq_buffer q ! ((h + j) mod 2 ^ k) = \<lparr>ms_seq = of_nat (h + j + 1), ms_val = Some (xs ! j)\<rparr>"
    by (auto simp: ring_repr_def)
  have k: "1 \<le> k" "k \<le> 63" using sh by (auto simp: ring_shape_def)
  have i: "slot_idx q (mq_tail q) = (h + 0) mod 2 ^ k" unfolding h(1) slot_idx_of_nat[OF sh] by simp
  have "ms_seq (mq_buffer q ! slot_idx q (mq_tail q)) - mq_tail q = of_int (1 - 2 ^ k)"
    unfolding i buf[of 0, simplified] using buf[of 0] h(1) by simp
  moreover have "(2::int) ^ 1 \<le> 2 ^ k" "(2::int) ^ k \<le> 2 ^ 63" using k by (intro power_increasing; simp)+
  ultimately have "ms_seq (mq_buffer q ! slot_idx q (mq_tail q)) - mq_tail q \<noteq> 0"
    "sint (ms_seq (mq_buffer q ! slot_idx q (mq_tail q)) - mq_tail q) < 0"
    using sint_neg[of "ms_seq (mq_buffer q ! slot_idx q (mq_tail q))" "mq_tail q" "1 - 2 ^ k"] by auto
  then show ?thesis
    using slot_idx_less[OF sh, of "mq_tail q"] by (simp add: mpmc_push_def numeral_eq_Suc)
qed

lemma ring_pop_some:
  assumes "ring_repr k q (x # xs)"
  shows "\<exists>q'. mpmc_pop n q = Inr (Inr x, q') \<and> ring_repr k q' xs"
proof -
  from assms obtain h where sh: "ring_shape k q" and h: "mq_head q = of_nat h" "mq_tail q = of_nat (h + Suc (length xs))"
    and len: "Suc (length xs) \<le> 2 ^ k"
    and buf: "\<And>j. j < 2 ^ k \<Longrightarrow> mq_buffer q ! ((h + j) mod 2 ^ k) =
          (if j < Suc (length xs) then \<lparr>ms_seq = of_nat (h + j + 1), ms_val = Some ((x # xs) ! j)\<rparr>
           else \<lparr>ms_seq = of_nat (h + j), ms_val = None\<rparr>)" by (auto simp: ring_repr_def)
  let ?i = "h mod 2 ^ k"
  have i: "slot_idx q (mq_head q) = ?i" unfolding h(1) by (rule slot_idx_of_nat[OF sh])
  have "ms_seq (mq_buffer q ! slot_idx q (mq_head q)) = mq_head q + 1"
    "ms_val (mq_buffer q ! slot_idx q (mq_head q)) = Some x" unfolding i using buf[of 0] h(1) by simp_all
  note p = mpmc_pop_claims[OF sh this, of n, unfolded i]
  let ?q = "q\<lparr>mq_head := mq_head q + 1,
     mq_buffer := (mq_buffer q)[?i := \<lparr>ms_seq = mq_head q + (mq_mask q + 1), ms_val = None\<rparr>]\<rparr>"
  have blen: "length (mq_buffer q) = 2 ^ k" and mask: "mq_mask q + 1 = 2 ^ k" using sh by (auto simp: ring_shape_def)
  have "mq_buffer ?q ! ((Suc h + j) mod 2 ^ k) =
          (if j < length xs then \<lparr>ms_seq = of_nat (Suc h + j + 1), ms_val = Some (xs ! j)\<rparr>
           else \<lparr>ms_seq = of_nat (Suc h + j), ms_val = None\<rparr>)" if j: "j < 2 ^ k" for j
  proof (cases "Suc j = 2 ^ k")
    case True
    then have "(Suc h + j) mod 2 ^ k = ?i" by (metis add_Suc_shift mod_add_self2)
    moreover have "of_nat (Suc h + j) = (of_nat h + 2 ^ k :: u64)"
      using True by (metis add_Suc_shift of_nat_add of_nat_numeral of_nat_power)
    moreover have "\<not> j < length xs" using True len by simp
    ultimately show ?thesis using blen h(1) mask by simp
  next
    case False
    then have s: "Suc j < 2 ^ k" using j by simp
    then have "(h + Suc j) mod 2 ^ k \<noteq> ?i" using mod_offset_eq[of h "Suc j" "2 ^ k" 0] by auto
    then show ?thesis using buf[OF s] by auto
  qed
  moreover have "ring_shape k ?q" using sh by (simp add: ring_shape_def)
  ultimately have "ring_repr k ?q xs"
    unfolding ring_repr_def using len h by (intro conjI exI[of _ "Suc h"]) auto
  then show ?thesis using p by blast
qed

lemma ring_pop_none:
  assumes "ring_repr k q []"
  shows "mpmc_pop n q = Inr (Inl Empty, q)"
proof -
  from assms obtain h where sh: "ring_shape k q" and h: "mq_head q = of_nat h"
    and buf: "\<And>j. j < 2 ^ k \<Longrightarrow> mq_buffer q ! ((h + j) mod 2 ^ k) = \<lparr>ms_seq = of_nat (h + j), ms_val = None\<rparr>"
    by (auto simp: ring_repr_def)
  have i: "slot_idx q (mq_head q) = h mod 2 ^ k" unfolding h by (rule slot_idx_of_nat[OF sh])
  have "ms_seq (mq_buffer q ! slot_idx q (mq_head q)) - (mq_head q + 1) = of_int (- 1)"
    unfolding i using buf[of 0] h by simp
  from sint_neg[OF this] have "ms_seq (mq_buffer q ! slot_idx q (mq_head q)) - (mq_head q + 1) \<noteq> 0"
    "sint (ms_seq (mq_buffer q ! slot_idx q (mq_head q)) - (mq_head q + 1)) < 0" by auto
  then show ?thesis
    using slot_idx_less[OF sh, of "mq_head q"] by (simp add: mpmc_pop_def numeral_eq_Suc)
qed

interpretation ring: bounded_queue "2 ^ k" "ring_repr k" "mpmc_push n" "mpmc_pop m" for k n m
  by unfold_locales (simp_all add: ring_push_room ring_push_full ring_pop_some ring_pop_none)

lemma ring_new:
  assumes "capacity \<ge> 2" "is_power_of_two capacity"
  obtains k q where "unat capacity = 2 ^ k" "mpmc_new capacity = Inr q" "ring_repr k q []" "mq_head q = 0" "mq_tail q = 0"
proof -
  obtain k where k: "k < 64" "capacity = 2 ^ k" using assms(2) by (auto simp: is_power_of_two_def list_ex_iff)
  have "capacity = of_nat (2 ^ k)" using k by simp
  moreover have "(2::nat) ^ k < 2 ^ 64" using k(1) by (intro power_strict_increasing) simp_all
  ultimately have u: "unat capacity = 2 ^ k" by (simp only: unat_of_nat) simp
  have "k \<noteq> 0" using assms(1) u by (cases "k = 0") (simp_all add: word_le_nat_alt)
  then have "ring_repr k \<lparr>mq_mask = capacity - 1, mq_buffer = map (\<lambda>i. \<lparr>ms_seq = of_nat i, ms_val = None\<rparr>) [0..<unat capacity],
                mq_tail = 0, mq_head = 0\<rparr> []"
    unfolding ring_repr_def ring_shape_def using k u by (intro conjI exI[of _ 0]) auto
  then show thesis using that[OF u] assms by (simp add: mpmc_new_def)
qed

lemma ring_drop: "ring_repr k q xs \<Longrightarrow> length xs < fuel \<Longrightarrow> mpmc_drop fuel q = Inr xs"
proof (induction xs arbitrary: q fuel)
  case Nil
  then show ?case using ring_pop_none[OF Nil.prems(1), of 0] by (cases fuel) simp_all
next
  case (Cons x xs)
  then obtain f where f: "fuel = Suc f" "length xs < f" by (cases fuel) auto
  from ring_pop_some[OF Cons.prems(1), of 0] Cons.IH f show ?case by fastforce
qed

lemma list_ops_length: "length (snd (list_ops cap ops xs)) \<le> length ops + length xs"
proof (induction cap ops xs rule: list_ops.induct)
  case (2 cap x ops xs)
  then show ?case by (cases "length xs < cap") simp_all
next
  case (3 cap ops xs)
  then show ?case by (cases xs) simp_all
qed simp

section \<open>Properties\<close>

text \<open>
  C15. Used by one thread at a time, the queue is a bounded first-in-first-out list: for any
  sequence of pushes and pops on a new queue, however long (positions wrap around after \<open>2 ^ 64\<close>)
  and however many spurious failures each compare-exchange has, every call returns, with the
  result the list gives (\<open>Full\<close> with the value handed back, \<open>Empty\<close>, or the oldest value), and
  dropping the queue then drops what the list holds.
\<close>

theorem mpmc_refines_list:
  fixes ops :: "'a queue_op list"
  assumes "capacity \<ge> 2" "is_power_of_two capacity"
  shows "\<exists>q q'. mpmc_new capacity = Inr q \<and>
    queue_ops (mpmc_push n) (mpmc_pop m) ops q = Inr (fst (list_ops (unat capacity) ops []), q') \<and>
    mpmc_drop (Suc (length ops)) q' = Inr (snd (list_ops (unat capacity) ops []))"
proof -
  obtain k and q :: "'a mpmc" where q: "unat capacity = 2 ^ k" "mpmc_new capacity = Inr q" "ring_repr k q []"
    using assms by (rule ring_new)
  obtain q' where q': "queue_ops (mpmc_push n) (mpmc_pop m) ops q = Inr (fst (list_ops (2 ^ k) ops []), q')"
    "ring_repr k q' (snd (list_ops (2 ^ k) ops []))" using ring.ops_refine[OF q(3)] by blast
  have "length (snd (list_ops (2 ^ k) ops [])) < Suc (length ops)" using list_ops_length[of "2 ^ k" ops "[]"] by simp
  from ring_drop[OF q'(2) this] q q'(1) show ?thesis by auto
qed

theorem mpmc_refines_list_witness:
  "\<exists>q q'. mpmc_new 2 = Inr q \<and>
    queue_ops (mpmc_push 1) (mpmc_pop 2) [Enq 5, Enq 6, Enq (7::nat), Deq, Deq, Deq, Enq 8] q =
      Inr ([Enqueued, Enqueued, Was_Full 7, Dequeued 5, Dequeued 6, Was_Empty, Enqueued], q') \<and>
    mpmc_drop 8 q' = Inr [8]"
proof -
  have "is_power_of_two (2 :: u64)" by (simp add: is_power_of_two_def list_ex_iff) (rule bexI[of _ 1], simp_all)
  note refined = mpmc_refines_list[OF _ this, of 1 2 "[Enq 5, Enq 6, Enq (7::nat), Deq, Deq, Deq, Enq 8]"]
  have l: "list_ops (unat (2 :: u64)) [Enq 5, Enq 6, Enq (7::nat), Deq, Deq, Deq, Enq 8] [] =
    ([Enqueued, Enqueued, Was_Full 7, Dequeued 5, Dequeued 6, Was_Empty, Enqueued], [8])" by simp
  have f: "Suc (length [Enq 5, Enq 6, Enq (7::nat), Deq, Deq, Deq, Enq 8]) = 8" by simp
  show ?thesis using refined[unfolded l f fst_conv snd_conv, OF order_refl] .
qed

end
