(* ===== verification/Mpmc_Concurrent.thy ===== *)
theory Mpmc_Concurrent
  imports Mpmc_Queue
begin

text \<open>
  Any number of threads pushing and popping at the same time, step by step
  (\<^verbatim>\<open>src/tier2_concurrency/src/queue.rs\<close>). A push takes its place in the order with the
  compare-exchange on the tail, a pop with the one on the head; \<open>sy_pushed\<close> records the values
  pushed in that order, \<open>sy_popped\<close> the positions and values of the pops that have returned. Both
  are only records, the code does not see them.

  Positions are compared as 64-bit words, so the results are for queues in which fewer than
  \<open>2 ^ 64 - capacity\<close> pushes have taken place. (The queue works on when positions wrap around, see
  \<open>Mpmc_Queue\<close>, but a thread that sleeps through exactly \<open>2 ^ 64\<close> pushes would take an old position for
  the current one.)
\<close>

section \<open>Threads\<close>

record 'a mpmc_sys =
  sy_q :: "'a mpmc"
  sy_pc :: "nat \<Rightarrow> 'a pc"
  sy_pushed :: "'a list"
  sy_popped :: "(nat \<times> 'a) list"

definition log_push :: "'a pc \<Rightarrow> 'a pc \<Rightarrow> 'a list" where
  "log_push pc pc' = (case (pc, pc') of (Push_Cas _ _, Push_Write data _) \<Rightarrow> [data] | _ \<Rightarrow> [])"

definition log_pop :: "'a pc \<Rightarrow> (nat \<times> 'a) list" where
  "log_pop pc = (case pc of Pop_Store head data \<Rightarrow> [(unat head, data)] | _ \<Rightarrow> [])"

inductive sys_step :: "'a mpmc_sys \<Rightarrow> 'a mpmc_sys \<Rightarrow> bool" where
  call_push: "finished (sy_pc s a) \<Longrightarrow> sy_pc s a \<noteq> Crashed \<Longrightarrow> sys_step s (s\<lparr>sy_pc := (sy_pc s)(a := Push_Load data)\<rparr>)"
| call_pop: "finished (sy_pc s a) \<Longrightarrow> sy_pc s a \<noteq> Crashed \<Longrightarrow> sys_step s (s\<lparr>sy_pc := (sy_pc s)(a := Pop_Load)\<rparr>)"
| run_step: "mpmc_step spurious (sy_q s) (sy_pc s a) = (q, pc) \<Longrightarrow>
    sys_step s \<lparr>sy_q = q, sy_pc = (sy_pc s)(a := pc), sy_pushed = sy_pushed s @ log_push (sy_pc s a) pc,
                sy_popped = sy_popped s @ log_pop (sy_pc s a)\<rparr>"

inductive sys_reach :: "u64 \<Rightarrow> 'a mpmc_sys \<Rightarrow> bool" for capacity where
  sys_start: "mpmc_new capacity = Inr q \<Longrightarrow> sys_reach capacity \<lparr>sy_q = q, sy_pc = (\<lambda>_. Idle), sy_pushed = [], sy_popped = []\<rparr>"
| sys_more: "sys_reach capacity s \<Longrightarrow> sys_step s s' \<Longrightarrow> sys_reach capacity s'"

section \<open>The invariant\<close>

text \<open>
  A thread that has won its compare-exchange owns a position until it stores the slot's sequence
  number. \<open>C\<close> is the capacity, \<open>T\<close> and \<open>H\<close> are the positions of tail and head, \<open>S i\<close> and \<open>V i\<close> the
  sequence number and the value of slot \<open>i\<close>, \<open>P\<close> the values pushed, \<open>R\<close> the pops returned.
\<close>

definition claim :: "'a pc \<Rightarrow> (nat \<times> bool) option" where
  "claim pc = (case pc of Push_Write _ t \<Rightarrow> Some (unat t, False) | Push_Store t \<Rightarrow> Some (unat t, False)
     | Pop_Read h \<Rightarrow> Some (unat h, True) | Pop_Store h _ \<Rightarrow> Some (unat h, True) | _ \<Rightarrow> None)"

definition claims :: "(nat \<Rightarrow> 'a pc) \<Rightarrow> (nat \<times> bool) set" where
  "claims pcs = {c. \<exists>a. claim (pcs a) = Some c}"

text \<open>A slot is free for its next position, being written, or full (and perhaps being read).\<close>

definition slot_st :: "nat \<Rightarrow> nat \<Rightarrow> nat \<Rightarrow> 'a list \<Rightarrow> (nat \<times> bool) set \<Rightarrow> nat \<Rightarrow> nat \<Rightarrow> 'a option \<Rightarrow> bool" where
  "slot_st C T H P cl i S v \<longleftrightarrow>
     (S mod C = i \<and> T \<le> S \<and> S < T + C \<and> v = None) \<or>
     (S mod C = i \<and> H \<le> S \<and> S < T \<and> T \<le> S + C \<and> (S, False) \<in> cl) \<or>
     (\<exists>n. S = Suc n \<and> n mod C = i \<and> n < T \<and> T \<le> n + C \<and> (if H \<le> n then v = Some (P ! n) else (n, True) \<in> cl))"

definition thread_st :: "nat \<Rightarrow> nat \<Rightarrow> nat \<Rightarrow> 'a list \<Rightarrow> (nat \<Rightarrow> nat) \<Rightarrow> (nat \<Rightarrow> 'a option) \<Rightarrow> 'a pc \<Rightarrow> bool" where
  "thread_st C T H P S V pc = (case pc of
       Push_Seq d t \<Rightarrow> unat t \<le> T
     | Push_Cas d t \<Rightarrow> unat t \<le> T \<and> (unat t = T \<longrightarrow> S (T mod C) = T)
     | Push_Write d t \<Rightarrow> unat t < T \<and> P ! unat t = d \<and> S (unat t mod C) = unat t \<and> V (unat t mod C) = None
     | Push_Store t \<Rightarrow> unat t < T \<and> S (unat t mod C) = unat t \<and> V (unat t mod C) = Some (P ! unat t)
     | Pop_Seq h \<Rightarrow> unat h \<le> H
     | Pop_Cas h \<Rightarrow> unat h \<le> H \<and> (unat h = H \<longrightarrow> S (H mod C) = Suc H)
     | Pop_Read h \<Rightarrow> unat h < H \<and> S (unat h mod C) = Suc (unat h) \<and> V (unat h mod C) = Some (P ! unat h)
     | Pop_Store h v \<Rightarrow> unat h < H \<and> S (unat h mod C) = Suc (unat h) \<and> V (unat h mod C) = None \<and> v = P ! unat h
     | Crashed \<Rightarrow> False
     | _ \<Rightarrow> True)"

definition pops_ok :: "nat \<Rightarrow> 'a list \<Rightarrow> (nat \<times> 'a) list \<Rightarrow> (nat \<times> bool) set \<Rightarrow> bool" where
  "pops_ok H P R cl \<longleftrightarrow> distinct (map fst R) \<and> (\<forall>r\<in>set R. fst r < H \<and> snd r = P ! fst r) \<and>
     (\<forall>n<H. n \<in> fst ` set R \<longleftrightarrow> (n, True) \<notin> cl)"

definition placed :: "nat \<Rightarrow> nat \<Rightarrow> nat \<Rightarrow> (nat \<Rightarrow> nat) \<Rightarrow> bool" where
  "placed C T H S \<longleftrightarrow> (\<forall>p. H \<le> p \<longrightarrow> p < T \<longrightarrow> S (p mod C) = p \<or> S (p mod C) = Suc p)"

definition one_owner :: "(nat \<Rightarrow> 'a pc) \<Rightarrow> bool" where
  "one_owner pcs \<longleftrightarrow> (\<forall>a b c. claim (pcs a) = Some c \<longrightarrow> claim (pcs b) = Some c \<longrightarrow> a = b)"

definition ring_inv ::
  "nat \<Rightarrow> nat \<Rightarrow> nat \<Rightarrow> 'a list \<Rightarrow> (nat \<times> 'a) list \<Rightarrow> (nat \<Rightarrow> nat) \<Rightarrow> (nat \<Rightarrow> 'a option) \<Rightarrow> (nat \<Rightarrow> 'a pc) \<Rightarrow> bool" where
  "ring_inv C T H P R S V pcs \<longleftrightarrow> 2 \<le> C \<and> T = length P \<and> H \<le> T \<and>
     (\<forall>i<C. slot_st C T H P (claims pcs) i (S i) (V i)) \<and> (\<forall>a. thread_st C T H P S V (pcs a)) \<and>
     one_owner pcs \<and> pops_ok H P R (claims pcs) \<and> placed C T H S"

lemma ring_invD:
  assumes "ring_inv C T H P R S V pcs"
  shows "2 \<le> C" "T = length P" "H \<le> T" "\<And>i. i < C \<Longrightarrow> slot_st C T H P (claims pcs) i (S i) (V i)"
    "\<And>a. thread_st C T H P S V (pcs a)" "one_owner pcs" "pops_ok H P R (claims pcs)" "placed C T H S"
  using assms unfolding ring_inv_def by blast+

lemma ring_invI:
  assumes "2 \<le> C" "T = length P" "H \<le> T" "\<And>i. i < C \<Longrightarrow> slot_st C T H P (claims pcs) i (S i) (V i)"
    "\<And>a. thread_st C T H P S V (pcs a)" "one_owner pcs" "pops_ok H P R (claims pcs)" "placed C T H S"
  shows "ring_inv C T H P R S V pcs"
  using assms by (simp add: ring_inv_def)

lemma Suc_mod_neq: "2 \<le> C \<Longrightarrow> Suc n mod C \<noteq> n mod C"
  using mod_offset_eq[of n 1 C 0] by auto

lemma claims_split: "claims pcs = set_option (claim (pcs a)) \<union> {c. \<exists>b. b \<noteq> a \<and> claim (pcs b) = Some c}"
proof (rule set_eqI)
  fix c
  show "c \<in> claims pcs \<longleftrightarrow> c \<in> set_option (claim (pcs a)) \<union> {c. \<exists>b. b \<noteq> a \<and> claim (pcs b) = Some c}"
    by (cases "claim (pcs a) = Some c") (auto simp: claims_def)
qed

lemma claims_upd: "claims (pcs(a := pc)) = set_option (claim pc) \<union> {c. \<exists>b. b \<noteq> a \<and> claim (pcs b) = Some c}"
  by (subst claims_split[of _ a]) auto

lemma claims_same: "claim pc = claim (pcs a) \<Longrightarrow> claims (pcs(a := pc)) = claims pcs"
  by (simp add: claims_upd claims_split[of pcs a])

lemma claims_new: "claim (pcs a) = None \<Longrightarrow> claim pc = Some c \<Longrightarrow> claims (pcs(a := pc)) = insert c (claims pcs)"
  by (simp add: claims_upd claims_split[of pcs a])

lemma claims_gone:
  assumes "\<And>b. claim (pcs b) = Some c \<Longrightarrow> b = a" "claim (pcs a) = Some c" "claim pc = None"
  shows "claims (pcs(a := pc)) = claims pcs - {c}"
proof -
  have "c \<notin> {c. \<exists>b. b \<noteq> a \<and> claim (pcs b) = Some c}" using assms(1) by blast
  then show ?thesis using assms(2,3) by (simp add: claims_upd claims_split[of pcs a])
qed

text \<open>An owner's slot carries its position; no other thread has anything to say about that slot.\<close>

lemma claim_seq:
  assumes "thread_st C T H P S V pc" "claim pc = Some (n, f)"
  shows "S (n mod C) = (if f then Suc n else n)" "n < (if f then H else T)"
  using assms by (auto simp: thread_st_def claim_def split: pc.splits)

lemma slot_owner:
  assumes "2 \<le> C" "thread_st C T H P S V pa" "claim pa = Some (n, f)" "thread_st C T H P S V pb" "claim pb = Some (m, g)"
    "n mod C = m mod C"
  shows "n = m \<and> f = g"
proof -
  have "(if f then Suc n else n) = (if g then Suc m else m)" using claim_seq(1)[OF assms(2,3)] claim_seq(1)[OF assms(4,5)] assms(6) by simp
  then show ?thesis using Suc_mod_neq[OF assms(1), of n] Suc_mod_neq[OF assms(1), of m] assms(6) by (auto split: if_splits)
qed

lemma others_keep:
  assumes C: "2 \<le> C" and a: "thread_st C T H P S V pa" "claim pa = Some (n, f)"
    and b: "thread_st C T H P S V pb" "claim pb \<noteq> Some (n, f)"
  shows "thread_st C T H P (S(n mod C := s)) (V(n mod C := v)) pb"
proof -
  note seq = claim_seq[OF a]
  have own: "m mod C \<noteq> n mod C" if "claim pb = Some (m, g)" for m g
  proof
    assume "m mod C = n mod C"
    then have "n = m \<and> f = g" by (intro slot_owner[OF C a b(1) that]) simp
    then show False using b(2) that by simp
  qed
  have t: "T mod C \<noteq> n mod C" if "S (T mod C) = T"
    using seq that Suc_mod_neq[OF C, of n] by (metis less_irrefl)
  have h: "H mod C \<noteq> n mod C" if "S (H mod C) = Suc H"
    using seq that Suc_mod_neq[OF C, of H] by (metis less_irrefl nat.inject)
  show ?thesis
    using b(1) own t h by (auto simp: thread_st_def claim_def split: pc.splits)
qed

text \<open>A step that touches no shared variable and no claim.\<close>

lemma inv_local:
  assumes inv: "ring_inv C T H P R S V pcs" and c: "claim pc = claim (pcs a)" and "thread_st C T H P S V pc"
  shows "ring_inv C T H P R S V (pcs(a := pc))"
proof -
  have "claim ((pcs(a := pc)) x) = claim (pcs x)" for x using c by simp
  then have "one_owner (pcs(a := pc))" using ring_invD(6)[OF inv] unfolding one_owner_def by presburger
  then show ?thesis
    using ring_invD[OF inv] assms(3) claims_same[of pc pcs a, OF c] by (intro ring_invI) simp_all
qed

lemma slot_stE:
  assumes "slot_st C T H P cl i S v"
  obtains (free) "S mod C = i" "T \<le> S" "S < T + C" "v = None"
    | (writing) "S mod C = i" "H \<le> S" "S < T" "T \<le> S + C" "(S, False) \<in> cl"
    | (full) n where "S = Suc n" "n mod C = i" "n < T" "T \<le> n + C" "H \<le> n" "v = Some (P ! n)"
    | (reading) n where "S = Suc n" "n mod C = i" "n < T" "T \<le> n + C" "n < H" "(n, True) \<in> cl"
  using assms unfolding slot_st_def
proof (elim disjE exE conjE, goal_cases)
  case (3 n)
  then show thesis by (cases "H \<le> n") simp_all
qed simp_all

lemma one_ownerD: "one_owner pcs \<Longrightarrow> claim (pcs x) = Some e \<Longrightarrow> claim (pcs y) = Some e \<Longrightarrow> x = y"
  unfolding one_owner_def by blast

lemma owner_new:
  assumes "one_owner pcs" "claim pc = Some c" "\<And>b. claim (pcs b) \<noteq> Some c"
  shows "one_owner (pcs(a := pc))"
  unfolding one_owner_def
proof (intro allI impI)
  fix x y e
  assume e: "claim ((pcs(a := pc)) x) = Some e" "claim ((pcs(a := pc)) y) = Some e"
  show "x = y"
  proof (cases "x = a")
    case True
    then show ?thesis using e assms(2) assms(3)[of y] by (cases "y = a") auto
  next
    case False
    then have "y \<noteq> a" using e assms(2) assms(3)[of x] by auto
    then show ?thesis using False e assms(1) one_ownerD[of pcs x e y] by simp
  qed
qed

lemma owner_gone: "one_owner pcs \<Longrightarrow> claim pc = None \<Longrightarrow> one_owner (pcs(a := pc))"
  by (auto simp: one_owner_def)

text \<open>The compare-exchange on the tail.\<close>

lemma inv_claim_push:
  assumes inv: "ring_inv C T H P R S V pcs" and a: "pcs a = Push_Cas d t" "unat t = T"
  shows "ring_inv C (Suc T) H (P @ [d]) R S V (pcs(a := Push_Write d t))"
proof (rule ring_invI)
  note C = ring_invD(1)[OF inv] and T = ring_invD(2,3)[OF inv] and slots = ring_invD(4)[OF inv] and thr = ring_invD(5)[OF inv]
  show "2 \<le> C" by (rule C)
  show "Suc T = length (P @ [d])" "H \<le> Suc T" using T by simp_all
  have S: "S (T mod C) = T" using thr[of a] a by (simp add: thread_st_def)
  have "slot_st C T H P (claims pcs) (T mod C) T (V (T mod C))" using slots[of "T mod C"] C S by simp
  then have V: "V (T mod C) = None"
    by (cases rule: slot_stE) (use Suc_mod_neq[OF C] in \<open>simp_all, metis+\<close>)
  have cl: "claims (pcs(a := Push_Write d t)) = insert (T, False) (claims pcs)"
    using a by (intro claims_new) (simp_all add: claim_def)
  show "slot_st C (Suc T) H (P @ [d]) (claims (pcs(a := Push_Write d t))) i (S i) (V i)" if i: "i < C" for i
  proof (cases "i = T mod C")
    case True
    then show ?thesis using S T C by (simp add: slot_st_def cl)
  next
    case False
    then have n: "m \<noteq> T" "m + C \<noteq> T" if "m mod C = i" for m using that by auto
    from slots[OF i] have "slot_st C (Suc T) H (P @ [d]) (insert (T, False) (claims pcs)) i (S i) (V i)"
    proof (cases rule: slot_stE)
      case free
      then show ?thesis using n[OF free(1)] by (simp add: slot_st_def)
    next
      case writing
      then show ?thesis using n[OF writing(1)] by (simp add: slot_st_def)
    next
      case (full m)
      then show ?thesis using n[OF full(2)] T(1) unfolding slot_st_def by (intro disjI2 exI[of _ m]) (simp add: nth_append)
    next
      case (reading m)
      then show ?thesis using n[OF reading(2)] unfolding slot_st_def by (intro disjI2 exI[of _ m]) simp
    qed
    then show ?thesis by (simp only: cl)
  qed
  show "thread_st C (Suc T) H (P @ [d]) S V ((pcs(a := Push_Write d t)) b)" for b
    using thr[of b] S V a T by (cases "b = a") (auto simp: thread_st_def nth_append split: pc.splits)
  show "one_owner (pcs(a := Push_Write d t))"
  proof (rule owner_new[OF ring_invD(6)[OF inv], of _ "(T, False)"])
    show "claim (Push_Write d t) = Some (T, False)" using a(2) by (simp add: claim_def)
    show "claim (pcs b) \<noteq> Some (T, False)" for b using claim_seq(2)[OF thr[of b], of T False] by auto
  qed
  show "pops_ok H (P @ [d]) R (claims (pcs(a := Push_Write d t)))"
    using ring_invD(7)[OF inv] T unfolding cl by (auto simp: pops_ok_def nth_append)
  show "placed C (Suc T) H S" using ring_invD(8)[OF inv] S by (auto simp: placed_def less_Suc_eq)
qed

text \<open>The compare-exchange on the head.\<close>

lemma inv_claim_pop:
  assumes inv: "ring_inv C T H P R S V pcs" and a: "pcs a = Pop_Cas h" "unat h = H"
  shows "ring_inv C T (Suc H) P R S V (pcs(a := Pop_Read h))"
proof (rule ring_invI)
  note C = ring_invD(1)[OF inv] and T = ring_invD(2,3)[OF inv] and slots = ring_invD(4)[OF inv] and thr = ring_invD(5)[OF inv]
  show "2 \<le> C" "T = length P" by (rule C, rule T(1))
  have S: "S (H mod C) = Suc H" using thr[of a] a by (simp add: thread_st_def)
  have "slot_st C T H P (claims pcs) (H mod C) (Suc H) (V (H mod C))" using slots[of "H mod C"] C S by simp
  then have V: "V (H mod C) = Some (P ! H)" "H < T" "T \<le> H + C"
    by (cases rule: slot_stE; use Suc_mod_neq[OF C] in simp)+
  then show "Suc H \<le> T" by simp
  have cl: "claims (pcs(a := Pop_Read h)) = insert (H, True) (claims pcs)"
    using a by (intro claims_new) (simp_all add: claim_def)
  show "slot_st C T (Suc H) P (claims (pcs(a := Pop_Read h))) i (S i) (V i)" if i: "i < C" for i
  proof (cases "i = H mod C")
    case True
    then show ?thesis using S V by (simp add: slot_st_def cl)
  next
    case False
    then have n: "m \<noteq> H" if "m mod C = i" for m using that by auto
    from slots[OF i] have "slot_st C T (Suc H) P (insert (H, True) (claims pcs)) i (S i) (V i)"
    proof (cases rule: slot_stE)
      case free
      then show ?thesis by (simp add: slot_st_def)
    next
      case writing
      then show ?thesis using n[OF writing(1)] by (simp add: slot_st_def)
    next
      case (full m)
      then show ?thesis using n[OF full(2)] unfolding slot_st_def by (intro disjI2 exI[of _ m]) simp
    next
      case (reading m)
      then show ?thesis unfolding slot_st_def by (intro disjI2 exI[of _ m]) simp
    qed
    then show ?thesis by (simp only: cl)
  qed
  show "thread_st C T (Suc H) P S V ((pcs(a := Pop_Read h)) b)" for b
    using thr[of b] S V a by (cases "b = a") (auto simp: thread_st_def split: pc.splits)
  have fresh: "claim (pcs b) \<noteq> Some (H, True)" for b using claim_seq(2)[OF thr[of b], of H True] by auto
  then show "one_owner (pcs(a := Pop_Read h))"
    using a(2) by (intro owner_new[OF ring_invD(6)[OF inv], of _ "(H, True)"]) (simp_all add: claim_def[of "Pop_Read h"])
  show "pops_ok (Suc H) P R (claims (pcs(a := Pop_Read h)))"
    using ring_invD(7)[OF inv] unfolding cl by (force simp: pops_ok_def less_Suc_eq)
  show "placed C T (Suc H) S" using ring_invD(8)[OF inv] by (simp add: placed_def)
qed

text \<open>Access to the value of a slot the thread owns: the claim stays.\<close>

lemma inv_own_value:
  assumes inv: "ring_inv C T H P R S V pcs" and c: "claim (pcs a) = Some (n, f)" "claim pc = claim (pcs a)"
    and pc: "thread_st C T H P S (V(n mod C := v)) pc"
  shows "ring_inv C T H P R S (V(n mod C := v)) (pcs(a := pc))"
proof (rule ring_invI)
  note C = ring_invD(1)[OF inv] and T = ring_invD(2,3)[OF inv] and slots = ring_invD(4)[OF inv] and thr = ring_invD(5)[OF inv]
  show "2 \<le> C" "T = length P" "H \<le> T" by (rule C, rule T(1), rule T(2))
  have cl: "claims (pcs(a := pc)) = claims pcs" using c(2) by (intro claims_same)
  note seq = claim_seq[OF thr c(1)]
  show "slot_st C T H P (claims (pcs(a := pc))) i (S i) ((V(n mod C := v)) i)" if i: "i < C" for i
  proof (cases "i = n mod C")
    case True
    then have "slot_st C T H P (claims pcs) (n mod C) (if f then Suc n else n) (V i)" using slots[OF i] seq(1) by simp
    then have "slot_st C T H P (claims pcs) (n mod C) (if f then Suc n else n) v"
      by (cases rule: slot_stE) (use seq(2) T(2) Suc_mod_neq[OF C] Suc_mod_neq[OF C, THEN not_sym] in \<open>auto simp: slot_st_def split: if_splits\<close>)
    then show ?thesis using True seq(1) by (simp add: cl)
  qed (use slots[OF i] cl in simp)
  have o: "claim (pcs b) \<noteq> Some (n, f)" if "b \<noteq> a" for b using one_ownerD[OF ring_invD(6)[OF inv] c(1)] that by blast
  show "thread_st C T H P S (V(n mod C := v)) ((pcs(a := pc)) b)" for b
    using others_keep[OF C thr c(1) thr o, of b "S (n mod C)" v] pc by (cases "b = a") simp_all
  show "one_owner (pcs(a := pc))" "pops_ok H P R (claims (pcs(a := pc)))"
    using ring_invD(6,7)[OF inv] cl c(2) by (auto simp: one_owner_def)
  show "placed C T H S" by (rule ring_invD(8)[OF inv])
qed

text \<open>The stores that give a slot away, after a push and after a pop.\<close>

lemma inv_give:
  assumes inv: "ring_inv C T H P R S V pcs" and c: "claim (pcs a) = Some (n, f)" "claim pc = None"
    and pc: "\<And>S' V'. thread_st C T H P S' V' pc"
    and st: "slot_st C T H P (claims pcs - {(n, f)}) (n mod C) s (V (n mod C))"
    and pops: "pops_ok H P R' (claims pcs - {(n, f)})" and next_pos: "\<not> f \<Longrightarrow> s = Suc n"
  shows "ring_inv C T H P R' (S(n mod C := s)) V (pcs(a := pc))"
proof (rule ring_invI)
  note C = ring_invD(1)[OF inv] and T = ring_invD(2,3)[OF inv] and slots = ring_invD(4)[OF inv] and thr = ring_invD(5)[OF inv]
    and own = ring_invD(6)[OF inv]
  show "2 \<le> C" "T = length P" "H \<le> T" by (rule C, rule T(1), rule T(2))
  have o: "claim (pcs b) \<noteq> Some (n, f)" if "b \<noteq> a" for b using one_ownerD[OF own c(1)] that by blast
  then have cl: "claims (pcs(a := pc)) = claims pcs - {(n, f)}" by (intro claims_gone c) blast
  show "slot_st C T H P (claims (pcs(a := pc))) i ((S(n mod C := s)) i) (V i)" if i: "i < C" for i
  proof (cases "i = n mod C")
    case False
    then have ne: "m \<noteq> n" if "m mod C = i" for m using that by auto
    from slots[OF i] have "slot_st C T H P (claims pcs - {(n, f)}) i (S i) (V i)"
    proof (cases rule: slot_stE)
      case (full m)
      then show ?thesis unfolding slot_st_def by (intro disjI2 exI[of _ m]) simp
    next
      case (reading m)
      then show ?thesis using ne[OF reading(2)] unfolding slot_st_def by (intro disjI2 exI[of _ m]) simp
    qed (use ne in \<open>simp_all add: slot_st_def\<close>)
    then show ?thesis using False by (simp add: cl)
  qed (use st cl in simp)
  show "thread_st C T H P (S(n mod C := s)) V ((pcs(a := pc)) b)" for b
    using others_keep[OF C thr c(1) thr o, of b s "V (n mod C)"] pc by (cases "b = a") simp_all
  show "one_owner (pcs(a := pc))" using own c(2) by (rule owner_gone)
  show "pops_ok H P R' (claims (pcs(a := pc)))" using pops cl by simp
  show "placed C T H (S(n mod C := s))"
    unfolding placed_def
  proof (intro allI impI)
    fix p assume p: "H \<le> p" "p < T"
    then have at: "S (p mod C) = p \<or> S (p mod C) = Suc p" using ring_invD(8)[OF inv] by (simp add: placed_def)
    show "(S(n mod C := s)) (p mod C) = p \<or> (S(n mod C := s)) (p mod C) = Suc p"
    proof (cases "p mod C = n mod C")
      case True
      then have "(if f then Suc n else n) = p \<or> (if f then Suc n else n) = Suc p" using at claim_seq(1)[OF thr c(1)] by simp
      then have "p = n" using True Suc_mod_neq[OF C, of n] Suc_mod_neq[OF C, of p] by (auto split: if_splits)
      then show ?thesis using p(1) claim_seq(2)[OF thr c(1)] next_pos by (auto split: if_splits)
    qed (use at in simp)
  qed
qed

lemma owned_slot:
  assumes inv: "ring_inv C T H P R S V pcs" and c: "claim (pcs a) = Some (n, f)"
  shows "T \<le> n + C" "n < T" "\<not> f \<Longrightarrow> H \<le> n"
proof -
  note C = ring_invD(1)[OF inv] and T = ring_invD(3)[OF inv] and seq = claim_seq[OF ring_invD(5)[OF inv] c]
  have "slot_st C T H P (claims pcs) (n mod C) (if f then Suc n else n) (V (n mod C))"
    using ring_invD(4)[OF inv, of "n mod C"] C seq(1) by simp
  then have "T \<le> n + C \<and> (\<not> f \<longrightarrow> H \<le> n)"
    by (cases rule: slot_stE)
      (use seq(2) T Suc_mod_neq[OF C] Suc_mod_neq[OF C, THEN not_sym] in \<open>auto split: if_splits\<close>)
  then show "T \<le> n + C" "\<not> f \<Longrightarrow> H \<le> n" by auto
  show "n < T" using seq(2) T by (auto split: if_splits)
qed

lemma inv_push_store:
  assumes inv: "ring_inv C T H P R S V pcs" and a: "pcs a = Push_Store t"
  shows "ring_inv C T H P R (S(unat t mod C := Suc (unat t))) V (pcs(a := Push_Ret r))"
proof (rule inv_give[OF inv])
  show c: "claim (pcs a) = Some (unat t, False)" by (simp add: a claim_def)
  have "V (unat t mod C) = Some (P ! unat t)" using ring_invD(5)[OF inv, of a] a by (simp add: thread_st_def)
  then show "slot_st C T H P (claims pcs - {(unat t, False)}) (unat t mod C) (Suc (unat t)) (V (unat t mod C))"
    using owned_slot[OF inv c] by (simp add: slot_st_def)
  show "pops_ok H P R (claims pcs - {(unat t, False)})" using ring_invD(7)[OF inv] by (auto simp: pops_ok_def)
qed (simp_all add: claim_def thread_st_def)

lemma inv_pop_store:
  assumes inv: "ring_inv C T H P R S V pcs" and a: "pcs a = Pop_Store h v"
  shows "ring_inv C T H P (R @ [(unat h, v)]) (S(unat h mod C := unat h + C)) V (pcs(a := Pop_Ret r))"
proof (rule inv_give[OF inv])
  show c: "claim (pcs a) = Some (unat h, True)" by (simp add: a claim_def)
  have v: "V (unat h mod C) = None" "v = P ! unat h" "unat h < H" using ring_invD(5)[OF inv, of a] a by (simp_all add: thread_st_def)
  show "slot_st C T H P (claims pcs - {(unat h, True)}) (unat h mod C) (unat h + C) (V (unat h mod C))"
    using owned_slot[OF inv c] v(1) by (simp add: slot_st_def)
  have "(unat h, True) \<in> claims pcs" using c by (auto simp: claims_def)
  then have "unat h \<notin> fst ` set R" using ring_invD(7)[OF inv] v(3) by (auto simp: pops_ok_def)
  then show "pops_ok H P (R @ [(unat h, v)]) (claims pcs - {(unat h, True)})"
    using ring_invD(7)[OF inv] v by (auto simp: pops_ok_def)
qed (simp_all add: claim_def thread_st_def)

section \<open>Every step keeps the invariant\<close>

definition sys_inv :: "nat \<Rightarrow> 'a mpmc_sys \<Rightarrow> bool" where
  "sys_inv k s \<longleftrightarrow> ring_shape k (sy_q s) \<and>
     ring_inv (2 ^ k) (unat (mq_tail (sy_q s))) (unat (mq_head (sy_q s))) (sy_pushed s) (sy_popped s)
       (\<lambda>i. unat (ms_seq (mq_buffer (sy_q s) ! i))) (\<lambda>i. ms_val (mq_buffer (sy_q s) ! i)) (sy_pc s)"

lemma sys_inv_start:
  assumes "mpmc_new capacity = Inr q"
  shows "\<exists>k. unat capacity = 2 ^ k \<and> sys_inv k \<lparr>sy_q = q, sy_pc = (\<lambda>_. Idle), sy_pushed = [], sy_popped = []\<rparr>"
proof -
  have "capacity \<ge> 2" "is_power_of_two capacity" using assms by (auto simp: mpmc_new_def split: if_splits)
  then obtain k where k: "unat capacity = 2 ^ k" "ring_repr k q []" using assms by (metis ring_new Inr_inject)
  have q: "q = \<lparr>mq_mask = capacity - 1, mq_buffer = map (\<lambda>i. \<lparr>ms_seq = of_nat i, ms_val = None\<rparr>) [0..<unat capacity],
                mq_tail = 0, mq_head = 0\<rparr>" using assms by (simp add: mpmc_new_def split: if_splits)
  have sh: "ring_shape k q" using k(2) by (simp add: ring_repr_def)
  then have "1 \<le> k" "k \<le> 63" by (auto simp: ring_shape_def)
  then have C: "(2::nat) ^ 1 \<le> 2 ^ k" "(2::nat) ^ k \<le> 2 ^ 63" by (intro power_increasing; simp)+
  have "unat (of_nat i :: u64) = i" if "i < 2 ^ k" for i using that C(2) by (simp add: unat_of_nat)
  then have "ring_inv (2 ^ k) 0 0 [] [] (\<lambda>i. unat (ms_seq (mq_buffer q ! i))) (\<lambda>i. ms_val (mq_buffer q ! i)) (\<lambda>_. Idle)"
    using C(1) k(1) by (intro ring_invI) (simp_all add: q slot_st_def thread_st_def one_owner_def claim_def pops_ok_def placed_def)
  then show ?thesis using k(1) sh by (auto simp: sys_inv_def q)
qed

text \<open>Updating one slot, seen through \<open>S\<close> and \<open>V\<close>.\<close>

lemma set_slot_view:
  assumes "ring_shape k q"
  shows "ring_shape k (set_slot pos sl q)" "mq_tail (set_slot pos sl q) = mq_tail q" "mq_head (set_slot pos sl q) = mq_head q"
    "(\<lambda>i. ms_val (mq_buffer (set_slot pos sl q) ! i)) = (\<lambda>i. ms_val (mq_buffer q ! i))(unat pos mod 2 ^ k := ms_val sl)"
    "(\<lambda>i. unat (ms_seq (mq_buffer (set_slot pos sl q) ! i))) = (\<lambda>i. unat (ms_seq (mq_buffer q ! i)))(unat pos mod 2 ^ k := unat (ms_seq sl))"
proof -
  have l: "length (mq_buffer q) = 2 ^ k" using assms by (simp add: ring_shape_def)
  show "ring_shape k (set_slot pos sl q)" using assms by (simp add: ring_shape_def set_slot_def)
  show "(\<lambda>i. ms_val (mq_buffer (set_slot pos sl q) ! i)) = (\<lambda>i. ms_val (mq_buffer q ! i))(unat pos mod 2 ^ k := ms_val sl)"
    "(\<lambda>i. unat (ms_seq (mq_buffer (set_slot pos sl q) ! i))) = (\<lambda>i. unat (ms_seq (mq_buffer q ! i)))(unat pos mod 2 ^ k := unat (ms_seq sl))"
    using l by (auto simp: set_slot_def slot_idx_mod[OF assms] nth_list_update fun_eq_iff)
qed (simp_all add: set_slot_def)

lemma nth_update_field: "f (g (xs ! j)) = f (xs ! j) \<Longrightarrow> f (xs[j := g (xs ! j)] ! i) = f (xs ! i)"
  by (cases "j < length xs"; cases "i = j") (simp_all add: list_update_beyond)

lemma set_slot_keeps:
  "(\<lambda>i. unat (ms_seq (mq_buffer (set_slot pos ((mq_buffer q ! slot_idx q pos)\<lparr>ms_val := v\<rparr>) q) ! i))) =
     (\<lambda>i. unat (ms_seq (mq_buffer q ! i)))"
  "(\<lambda>i. ms_val (mq_buffer (set_slot pos ((mq_buffer q ! slot_idx q pos)\<lparr>ms_seq := s\<rparr>) q) ! i)) =
     (\<lambda>i. ms_val (mq_buffer q ! i))"
  by (simp_all add: set_slot_def nth_update_field)

lemma unat_Suc_word: "Suc (unat w) < 2 ^ 64 \<Longrightarrow> unat (w + 1 :: u64) = Suc (unat w)"
  by (simp add: unat_word_ariths)

lemma unat_pow2: "k < 64 \<Longrightarrow> unat (2 ^ k :: u64) = 2 ^ k"
proof -
  assume "k < 64"
  then have "(2::nat) ^ k < 2 ^ 64" by (intro power_strict_increasing) simp_all
  then have "unat (of_nat (2 ^ k) :: u64) = 2 ^ k" by (simp only: unat_of_nat) simp
  then show "unat (2 ^ k :: u64) = 2 ^ k" by simp
qed

lemma step_inv:
  assumes inv: "sys_inv k s" and step: "mpmc_step sp (sy_q s) (sy_pc s a) = (q, pc)"
    and bound: "length (sy_pushed s @ log_push (sy_pc s a) pc) + 2 ^ k \<le> 2 ^ 64"
  shows "sys_inv k \<lparr>sy_q = q, sy_pc = (sy_pc s)(a := pc), sy_pushed = sy_pushed s @ log_push (sy_pc s a) pc,
     sy_popped = sy_popped s @ log_pop (sy_pc s a)\<rparr>"
proof -
  let ?q = "sy_q s" and ?P = "sy_pushed s" and ?R = "sy_popped s" and ?pcs = "sy_pc s"
  let ?T = "unat (mq_tail ?q)" and ?H = "unat (mq_head ?q)"
  let ?S = "\<lambda>i. unat (ms_seq (mq_buffer ?q ! i))" and ?V = "\<lambda>i. ms_val (mq_buffer ?q ! i)"
  have sh: "ring_shape k ?q" and ri: "ring_inv (2 ^ k) ?T ?H ?P ?R ?S ?V ?pcs" using inv by (auto simp: sys_inv_def)
  note T = ring_invD(2,3)[OF ri] and me = ring_invD(5)[OF ri, of a] and idx = slot_idx_less[OF sh] slot_idx_mod[OF sh]
  have k: "1 \<le> k" "k \<le> 63" "length (mq_buffer ?q) = 2 ^ k" using sh by (auto simp: ring_shape_def)
  have Tb: "?T + 2 ^ k \<le> 2 ^ 64" using bound T(1) by simp
  then have C: "Suc ?T < 2 ^ 64" using ring_invD(1)[OF ri] by linarith
  have local: ?thesis if "q = ?q" "log_push (?pcs a) pc = []" "log_pop (?pcs a) = []" "claim pc = claim (?pcs a)"
    "thread_st (2 ^ k) ?T ?H ?P ?S ?V pc"
    using that inv_local[OF ri that(4,5)] sh by (simp add: sys_inv_def)
  show ?thesis
  proof (cases "?pcs a")
    case (Push_Seq d t)
    then show ?thesis using step me idx[of t] k by (intro local) (auto simp: thread_st_def claim_def log_push_def log_pop_def split: if_splits)
  next
    case (Push_Cas d t)
    show ?thesis
    proof (cases "mq_tail ?q = t \<and> \<not> sp")
      case True
      then have "q = ?q\<lparr>mq_tail := t + 1\<rparr>" "pc = Push_Write d t" using step Push_Cas by auto
      moreover have "Suc ?T + 2 ^ k \<le> 2 ^ 64" using bound T(1) Push_Cas calculation by (simp add: log_push_def)
      then have "Suc ?T < 2 ^ 64" using ring_invD(1)[OF ri] by linarith
      then have "unat (t + 1) = Suc ?T" using True by (subst unat_Suc_word) auto
      moreover have "ring_inv (2 ^ k) (Suc ?T) ?H (?P @ [d]) ?R ?S ?V (?pcs(a := Push_Write d t))"
        using inv_claim_push[OF ri Push_Cas] True by simp
      ultimately show ?thesis using sh Push_Cas by (simp add: sys_inv_def log_push_def log_pop_def ring_shape_def)
    qed (use step me Push_Cas in \<open>intro local, auto simp: thread_st_def claim_def log_push_def log_pop_def\<close>)
  next
    case (Push_Write d t)
    note own = set_slot_view(1-4)[OF sh, of t] set_slot_keeps(1)[where q = ?q and pos = t]
    have "unat t < ?T" "?P ! unat t = d" "?S (unat t mod 2 ^ k) = unat t" using me Push_Write by (simp_all add: thread_st_def)
    then have "ring_inv (2 ^ k) ?T ?H ?P ?R ?S (?V(unat t mod 2 ^ k := Some d)) (?pcs(a := Push_Store t))"
      using Push_Write by (intro inv_own_value[OF ri, of a "unat t" False]) (simp_all add: claim_def thread_st_def)
    then show ?thesis using step Push_Write own by (auto simp: sys_inv_def log_push_def log_pop_def)
  next
    case (Push_Store t)
    note own = set_slot_view(1,2,3,5)[OF sh, of t] set_slot_keeps(2)[where q = ?q and pos = t]
    have "unat t < ?T" using me Push_Store by (simp add: thread_st_def)
    then have "unat (t + 1) = Suc (unat t)" using C by (intro unat_Suc_word) linarith
    then show ?thesis
      using step Push_Store own inv_push_store[OF ri Push_Store] by (auto simp: sys_inv_def log_push_def log_pop_def)
  next
    case (Pop_Seq h)
    have "unat (h + 1) = Suc (unat h)" using C me T(2) Pop_Seq by (intro unat_Suc_word) (simp add: thread_st_def)
    then show ?thesis using step me idx[of h] k Pop_Seq
      by (intro local) (auto simp: thread_st_def claim_def log_push_def log_pop_def split: if_splits)
  next
    case (Pop_Cas h)
    show ?thesis
    proof (cases "mq_head ?q = h \<and> \<not> sp")
      case True
      then have "q = ?q\<lparr>mq_head := h + 1\<rparr>" "pc = Pop_Read h" using step Pop_Cas by auto
      moreover have "unat (h + 1) = Suc ?H" using True C T(2) by (subst unat_Suc_word) auto
      moreover have "ring_inv (2 ^ k) ?T (Suc ?H) ?P ?R ?S ?V (?pcs(a := Pop_Read h))"
        using inv_claim_pop[OF ri Pop_Cas] True by simp
      ultimately show ?thesis using sh Pop_Cas by (simp add: sys_inv_def log_push_def log_pop_def ring_shape_def)
    qed (use step me Pop_Cas in \<open>intro local, auto simp: thread_st_def claim_def log_push_def log_pop_def\<close>)
  next
    case (Pop_Read h)
    note own = set_slot_view(1-4)[OF sh, of h] set_slot_keeps(1)[where q = ?q and pos = h]
    have h: "unat h < ?H" "?S (unat h mod 2 ^ k) = Suc (unat h)" "?V (unat h mod 2 ^ k) = Some (?P ! unat h)"
      using me Pop_Read by (simp_all add: thread_st_def)
    then have "ring_inv (2 ^ k) ?T ?H ?P ?R ?S (?V(unat h mod 2 ^ k := None)) (?pcs(a := Pop_Store h (?P ! unat h)))"
      using Pop_Read by (intro inv_own_value[OF ri, of a "unat h" True]) (simp_all add: claim_def thread_st_def)
    then show ?thesis using step Pop_Read own h(3) idx(2)[of h] by (auto simp: sys_inv_def log_push_def log_pop_def)
  next
    case (Pop_Store h v)
    note own = set_slot_view(1,2,3,5)[OF sh, of h] set_slot_keeps(2)[where q = ?q and pos = h]
    have "unat h < ?H" using me Pop_Store by (simp add: thread_st_def)
    then have "unat h + 2 ^ k < 2 ^ 64" using Tb T(2) by simp
    moreover have "mq_mask ?q + 1 = 2 ^ k" using sh by (simp add: ring_shape_def)
    moreover have "unat (2 ^ k :: u64) = 2 ^ k" using k(2) unat_pow2 by simp
    ultimately have "unat (h + (mq_mask ?q + 1)) = unat h + 2 ^ k" by (simp add: unat_word_ariths)
    then show ?thesis
      using step Pop_Store own inv_pop_store[OF ri Pop_Store] by (auto simp: sys_inv_def log_push_def log_pop_def)
  next
    case Idle
    then have "q = ?q" "pc = ?pcs a" using step by simp_all
    then show ?thesis using me Idle by (intro local) (simp_all add: log_push_def log_pop_def)
  next
    case (Push_Load d)
    then show ?thesis using step me by (intro local) (auto simp: thread_st_def claim_def log_push_def log_pop_def)
  next
    case (Push_Ret r)
    then have "q = ?q" "pc = ?pcs a" using step by simp_all
    then show ?thesis using me Push_Ret by (intro local) (simp_all add: log_push_def log_pop_def)
  next
    case Pop_Load
    then show ?thesis using step me by (intro local) (auto simp: thread_st_def claim_def log_push_def log_pop_def)
  next
    case (Pop_Ret r)
    then have "q = ?q" "pc = ?pcs a" using step by simp_all
    then show ?thesis using me Pop_Ret by (intro local) (simp_all add: log_push_def log_pop_def)
  next
    case Crashed
    then show ?thesis using me by (simp add: thread_st_def)
  qed
qed

lemma step_grows: "sys_step s s' \<Longrightarrow> length (sy_pushed s) \<le> length (sy_pushed s')"
  by (induction rule: sys_step.induct) simp_all

lemma reach_inv:
  assumes "sys_reach capacity s" "length (sy_pushed s) + unat capacity \<le> 2 ^ 64"
  shows "\<exists>k. unat capacity = 2 ^ k \<and> sys_inv k s"
  using assms
proof induction
  case (sys_start q)
  then show ?case using sys_inv_start by blast
next
  case (sys_more s s')
  then obtain k where k: "unat capacity = 2 ^ k" "sys_inv k s" using step_grows[OF sys_more.hyps(2)] by fastforce
  have "sys_inv k s'" using sys_more.hyps(2)
  proof cases
    case (call_push a data)
    then show ?thesis using k(2) inv_local[where pc = "Push_Load data" and a = a and pcs = "sy_pc s"]
      by (auto simp: sys_inv_def claim_def thread_st_def finished_def split: pc.splits)
  next
    case (call_pop a)
    then show ?thesis using k(2) inv_local[where pc = Pop_Load and a = a and pcs = "sy_pc s"]
      by (auto simp: sys_inv_def claim_def thread_st_def finished_def split: pc.splits)
  next
    case (run_step spurious a q pc)
    then show ?thesis using step_inv[OF k(2) run_step(2)] sys_more.prems k(1) by simp
  qed
  then show ?case using k(1) by blast
qed

section \<open>At rest\<close>

lemma mslot_eqI: "unat (ms_seq sl) = n \<Longrightarrow> ms_val sl = v \<Longrightarrow> sl = \<lparr>ms_seq = of_nat n, ms_val = v\<rparr>"
  by (cases sl) auto

lemma rest_repr:
  assumes "sys_inv k s" "\<And>a. finished (sy_pc s a)" "length (sy_pushed s) + 2 ^ k \<le> 2 ^ 64"
  shows "ring_repr k (sy_q s) (drop (unat (mq_head (sy_q s))) (sy_pushed s))"
    "mset (map snd (sy_popped s)) = mset (take (unat (mq_head (sy_q s))) (sy_pushed s))"
proof -
  let ?q = "sy_q s" and ?P = "sy_pushed s" and ?R = "sy_popped s"
  let ?H = "unat (mq_head ?q)" and ?S = "\<lambda>i. unat (ms_seq (mq_buffer ?q ! i))" and ?V = "\<lambda>i. ms_val (mq_buffer ?q ! i)"
  have sh: "ring_shape k ?q" and inv: "ring_inv (2 ^ k) (unat (mq_tail ?q)) ?H ?P ?R ?S ?V (sy_pc s)"
    using assms(1) by (auto simp: sys_inv_def)
  note C = ring_invD(1)[OF inv] and T = ring_invD(2,3)[OF inv]
  have "claim (sy_pc s a) = None" for a using assms(2)[of a] by (simp add: claim_def finished_def split: pc.splits)
  then have cl: "claims (sy_pc s) = {}" by (simp add: claims_def)
  have slots: "slot_st (2 ^ k) (length ?P) ?H ?P {} i (?S i) (?V i)" if "i < 2 ^ k" for i
    using ring_invD(4)[OF inv that] unfolding cl T(1) .
  have H: "?H \<le> length ?P" using T by simp
  have at: "?S (p mod 2 ^ k) = Suc p \<and> ?V (p mod 2 ^ k) = Some (?P ! p) \<and> length ?P \<le> p + 2 ^ k" if p: "?H \<le> p" "p < length ?P" for p
  proof -
    have "?S (p mod 2 ^ k) = p \<or> ?S (p mod 2 ^ k) = Suc p" using ring_invD(8)[OF inv] p T(1) by (simp add: placed_def)
    moreover from slots[of "p mod 2 ^ k"] have "slot_st (2 ^ k) (length ?P) ?H ?P {} (p mod 2 ^ k) (?S (p mod 2 ^ k)) (?V (p mod 2 ^ k))" by simp
    ultimately show ?thesis
      using p Suc_mod_neq[OF C] Suc_mod_neq[OF C, THEN not_sym] by (elim slot_stE) auto
  qed
  have len: "length ?P \<le> ?H + 2 ^ k" using at[of ?H] H by (cases "?H < length ?P") auto
  have pops: "distinct (map fst ?R)" "\<And>r. r \<in> set ?R \<Longrightarrow> fst r < ?H \<and> snd r = ?P ! fst r" "\<And>n. n < ?H \<Longrightarrow> n \<in> fst ` set ?R"
    using ring_invD(7)[OF inv] unfolding cl by (auto simp: pops_ok_def)
  have "mset (map fst ?R) = mset [0..<?H]"
    using pops by (subst set_eq_iff_mset_eq_distinct[symmetric]) auto
  then have "mset (map ((!) ?P) (map fst ?R)) = mset (map ((!) ?P) [0..<?H])" by (simp only: mset_map)
  moreover have "map ((!) ?P) (map fst ?R) = map snd ?R" using pops(2) by simp
  moreover have "map ((!) ?P) [0..<?H] = take ?H ?P" using H by (intro nth_equalityI) simp_all
  ultimately show "mset (map snd ?R) = mset (take ?H ?P)" by metis
  have "mq_buffer ?q ! ((?H + j) mod 2 ^ k) =
      (if j < length (drop ?H ?P) then \<lparr>ms_seq = of_nat (?H + j + 1), ms_val = Some (drop ?H ?P ! j)\<rparr>
       else \<lparr>ms_seq = of_nat (?H + j), ms_val = None\<rparr>)" if j: "j < 2 ^ k" for j
  proof (cases "?H + j < length ?P")
    case True
    then have "mq_buffer ?q ! ((?H + j) mod 2 ^ k) = \<lparr>ms_seq = of_nat (Suc (?H + j)), ms_val = Some (?P ! (?H + j))\<rparr>"
      using at[of "?H + j"] by (intro mslot_eqI) auto
    then show ?thesis using True by (simp add: add.commute)
  next
    case False
    let ?i = "(?H + j) mod 2 ^ k"
    have "slot_st (2 ^ k) (length ?P) ?H ?P {} ?i (?S ?i) (?V ?i)" by (intro slots) simp
    then have "?S ?i = ?H + j \<and> ?V ?i = None"
    proof (cases rule: slot_stE)
      case free
      obtain m n where m: "?S ?i = length ?P + m" "?H + j = length ?P + n" using free(2) False by (metis le_iff_add not_less)
      then have "m < 2 ^ k" "n < 2 ^ k" using free(3) j H by simp_all
      then show ?thesis using mod_offset_eq[of "length ?P" m "2 ^ k" n] free(1,4) m by simp
    next
      case (full n)
      then obtain m where m: "n = ?H + m" by (metis le_iff_add)
      then have "m < 2 ^ k" using full len by simp
      then show ?thesis using mod_offset_eq[of ?H m "2 ^ k" j] full m j False by simp
    qed auto
    then have "mq_buffer ?q ! ?i = \<lparr>ms_seq = of_nat (?H + j), ms_val = None\<rparr>" by (intro mslot_eqI) auto
    then show ?thesis using False by simp
  qed
  moreover have "mq_tail ?q = of_nat (length ?P)" unfolding T(1)[symmetric] by simp
  ultimately show "ring_repr k ?q (drop ?H ?P)"
    unfolding ring_repr_def using sh len T by (intro conjI exI[of _ ?H]) auto
qed

section \<open>Schedules\<close>

datatype 'a move = Call_Push nat 'a | Call_Pop nat | Run nat

fun run_sched :: "'a move list \<Rightarrow> 'a mpmc_sys \<Rightarrow> 'a mpmc_sys" where
  "run_sched [] s = s"
| "run_sched (Call_Push a data # ms) s =
     (if finished (sy_pc s a) \<and> sy_pc s a \<noteq> Crashed then run_sched ms (s\<lparr>sy_pc := (sy_pc s)(a := Push_Load data)\<rparr>) else run_sched ms s)"
| "run_sched (Call_Pop a # ms) s =
     (if finished (sy_pc s a) \<and> sy_pc s a \<noteq> Crashed then run_sched ms (s\<lparr>sy_pc := (sy_pc s)(a := Pop_Load)\<rparr>) else run_sched ms s)"
| "run_sched (Run a # ms) s =
     (let (q, pc) = mpmc_step False (sy_q s) (sy_pc s a) in
      run_sched ms \<lparr>sy_q = q, sy_pc = (sy_pc s)(a := pc), sy_pushed = sy_pushed s @ log_push (sy_pc s a) pc,
                    sy_popped = sy_popped s @ log_pop (sy_pc s a)\<rparr>)"

lemma run_sched_reach: "sys_reach capacity s \<Longrightarrow> sys_reach capacity (run_sched ms s)"
proof (induction ms s rule: run_sched.induct)
  case (4 a ms s)
  obtain q pc where step: "mpmc_step False (sy_q s) (sy_pc s a) = (q, pc)" by (cases "mpmc_step False (sy_q s) (sy_pc s a)")
  from 4(1)[OF step[symmetric] refl] sys_more[OF 4(2) run_step[OF step]] step show ?case by simp
qed (auto intro: sys_more call_push call_pop)

section \<open>Properties\<close>

text \<open>
  C12. Safety under any interleaving of any number of threads: no thread reads an empty slot or
  indexes outside the buffer, and the pops that have returned took distinct places in the order
  of the pushes, each with the value pushed at its place. Nothing is lost, duplicated or torn.
\<close>

theorem mpmc_interleaving_safe:
  assumes "sys_reach capacity s" "length (sy_pushed s) + unat capacity \<le> 2 ^ 64"
  shows "sy_pc s a \<noteq> Crashed \<and> distinct (map fst (sy_popped s)) \<and>
    (\<forall>r\<in>set (sy_popped s). fst r < length (sy_pushed s) \<and> snd r = sy_pushed s ! fst r)"
proof -
  obtain k where "sys_inv k s" using reach_inv[OF assms] by blast
  then have inv: "ring_inv (2 ^ k) (unat (mq_tail (sy_q s))) (unat (mq_head (sy_q s))) (sy_pushed s) (sy_popped s)
       (\<lambda>i. unat (ms_seq (mq_buffer (sy_q s) ! i))) (\<lambda>i. ms_val (mq_buffer (sy_q s) ! i)) (sy_pc s)"
    by (simp add: sys_inv_def)
  have "sy_pc s a \<noteq> Crashed" using ring_invD(5)[OF inv, of a] by (auto simp: thread_st_def)
  then show ?thesis using ring_invD(2,3,7)[OF inv] by (auto simp: pops_ok_def)
qed

text \<open>
  C13. When no call is in progress, the queue holds exactly the values pushed and not popped, in
  the order of the pushes: the pops have returned the first values pushed, each once, and
  dropping the queue drops the others in order.
\<close>

theorem mpmc_rest_fifo:
  assumes "sys_reach capacity s" "length (sy_pushed s) + unat capacity \<le> 2 ^ 64" "\<And>a. finished (sy_pc s a)"
  shows "\<exists>n. mset (map snd (sy_popped s)) = mset (take n (sy_pushed s)) \<and>
    mpmc_drop (Suc (length (sy_pushed s))) (sy_q s) = Inr (drop n (sy_pushed s))"
proof -
  obtain k where k: "unat capacity = 2 ^ k" "sys_inv k s" using reach_inv[OF assms(1,2)] by blast
  then have "length (sy_pushed s) + 2 ^ k \<le> 2 ^ 64" using assms(2) by simp
  note r = rest_repr[OF k(2) assms(3) this]
  show ?thesis using r(2) ring_drop[OF r(1), of "Suc (length (sy_pushed s))"] by auto
qed

text \<open>
  A run: thread 1 finds the queue empty between the claim and the store of thread 0, which pushes
  7 and then 8; thread 1 pops 7.
\<close>

lemma run_sched_example:
  "\<exists>s. sys_reach 2 s \<and> sy_pushed s = [7, 8 :: nat] \<and> sy_popped s = [(0, 7)] \<and> (\<forall>a. finished (sy_pc s a))"
proof -
  let ?q = "\<lparr>mq_mask = 1, mq_buffer = [\<lparr>ms_seq = 0, ms_val = None\<rparr>, \<lparr>ms_seq = 1, ms_val = None\<rparr>],
      mq_tail = 0, mq_head = 0\<rparr> :: nat mpmc"
  let ?s = "run_sched ([Call_Push 0 7, Run 0, Run 0, Run 0, Call_Pop 1, Run 1, Run 1, Run 0, Run 0, Call_Push 0 8, Call_Pop 1,
    Run 1, Run 0, Run 1, Run 0, Run 1, Run 0, Run 1, Run 0, Run 1, Run 0]) \<lparr>sy_q = ?q, sy_pc = (\<lambda>_. Idle), sy_pushed = [], sy_popped = []\<rparr>"
  have "is_power_of_two (2 :: u64)" by (simp add: is_power_of_two_def list_ex_iff) (rule bexI[of _ 1], simp_all)
  then have "mpmc_new 2 = Inr ?q" by (simp add: mpmc_new_def upt_rec)
  then have "sys_reach 2 ?s" by (intro run_sched_reach sys_start)
  moreover have "sy_pushed ?s = [7, 8] \<and> sy_popped ?s = [(0, 7)] \<and> (\<forall>a. finished (sy_pc ?s a))"
    by (simp add: slot_idx_def set_slot_def log_push_def log_pop_def numeral_eq_Suc)
  ultimately show ?thesis by blast
qed

theorem mpmc_interleaving_safe_witness:
  "\<exists>s. sys_reach 2 s \<and> length (sy_pushed s) + unat (2 :: u64) \<le> 2 ^ 64 \<and> sy_popped s = [(0, 7 :: nat)] \<and>
     sy_pc s 0 \<noteq> Crashed \<and> (\<forall>r\<in>set (sy_popped s). snd r = sy_pushed s ! fst r)"
proof -
  obtain s where s: "sys_reach 2 s" "sy_pushed s = [7, 8 :: nat]" "sy_popped s = [(0, 7)]" using run_sched_example by blast
  then have "length (sy_pushed s) + unat (2 :: u64) \<le> 2 ^ 64" by simp
  from mpmc_interleaving_safe[OF s(1) this, of 0] this s show ?thesis by blast
qed

theorem mpmc_rest_fifo_witness:
  "\<exists>s n. sys_reach 2 s \<and> sy_pushed s = [7, 8 :: nat] \<and> mset (map snd (sy_popped s)) = mset (take n (sy_pushed s)) \<and>
    mpmc_drop 3 (sy_q s) = Inr (drop n (sy_pushed s))"
proof -
  obtain s where s: "sys_reach 2 s" "sy_pushed s = [7, 8 :: nat]" "\<And>a. finished (sy_pc s a)" using run_sched_example by blast
  then have "length (sy_pushed s) + unat (2 :: u64) \<le> 2 ^ 64" "Suc (length (sy_pushed s)) = 3" by simp_all
  with mpmc_rest_fifo[OF s(1) this(1) s(3)] s show ?thesis by metis
qed

end
