(* ===== verification/Mpmc_Progress.thy ===== *)
theory Mpmc_Progress
  imports Mpmc_Concurrent
begin

text \<open>
  Progress of the queue of \<^verbatim>\<open>src/tier2_concurrency/src/queue.rs\<close>: wherever the other threads have been stopped,
  also in the middle of a call, a thread that runs alone finishes its own call after a bounded number of
  steps. (Under contention a call may be overtaken again and again; the code promises no more.)
\<close>

section \<open>Progress by a rank\<close>

locale bounded_progress =
  fixes step :: "'s \<Rightarrow> 's" and ok :: "'s \<Rightarrow> bool" and final :: "'s \<Rightarrow> bool" and rank :: "'s \<Rightarrow> nat"
  assumes ok_step: "ok s \<Longrightarrow> ok (step s)"
    and final_step: "ok s \<Longrightarrow> final s \<Longrightarrow> final (step s)"
    and rank_step: "ok s \<Longrightarrow> \<not> final s \<Longrightarrow> rank (step s) < rank s"
begin

lemma stays_final: "ok s \<Longrightarrow> final s \<Longrightarrow> ok ((step ^^ n) s) \<and> final ((step ^^ n) s)"
  by (induction n) (auto intro: ok_step final_step)

lemma reaches_final: "ok s \<Longrightarrow> rank s \<le> n \<Longrightarrow> ok ((step ^^ n) s) \<and> final ((step ^^ n) s)"
proof (induction n arbitrary: s)
  case 0
  then show ?case using rank_step by fastforce
next
  case (Suc n)
  show ?case
  proof (cases "final s")
    case True
    then show ?thesis using stays_final[OF Suc.prems(1)] by blast
  next
    case False
    then have "rank (step s) \<le> n" using rank_step[OF Suc.prems(1)] Suc.prems(2) by fastforce
    from Suc.IH[OF ok_step[OF Suc.prems(1)] this] show ?thesis by (simp add: funpow_swap1)
  qed
qed

end

section \<open>The slots at tail and head\<close>

lemma seq_behind:
  fixes a b :: u64
  assumes "unat a < unat b" "unat b \<le> unat a + 2 ^ 63"
  shows "a - b \<noteq> 0" "sint (a - b) < 0"
proof -
  have "a - b = of_int (int (unat a) - int (unat b))" by simp
  moreover have "int (unat a) < int (unat b)" "int (unat b) \<le> int (unat a + 2 ^ 63)" using assms by (simp_all only: of_nat_less_iff of_nat_le_iff)
  then have "- (2 ^ 63) \<le> int (unat a) - int (unat b)" "int (unat a) - int (unat b) < 0" by simp_all
  ultimately show "a - b \<noteq> 0" "sint (a - b) < 0" by (rule sint_neg)+
qed

text \<open>A slot is ready for the position at the tail, or the queue is full; it is never ahead.\<close>

lemma tail_turn:
  assumes "sys_inv k s"
  defines "q \<equiv> sy_q s"
  defines "seq \<equiv> ms_seq (mq_buffer q ! slot_idx q (mq_tail q))"
  shows "seq = mq_tail q \<or> seq - mq_tail q \<noteq> 0 \<and> sint (seq - mq_tail q) < 0"
proof -
  let ?T = "unat (mq_tail q)"
  have sh: "ring_shape k q" and ri: "ring_inv (2 ^ k) ?T (unat (mq_head q)) (sy_pushed s) (sy_popped s)
      (\<lambda>i. unat (ms_seq (mq_buffer q ! i))) (\<lambda>i. ms_val (mq_buffer q ! i)) (sy_pc s)"
    using assms(1) by (simp_all add: sys_inv_def q_def)
  note C = ring_invD(1)[OF ri]
  have k: "(2 :: nat) ^ k \<le> 2 ^ 63" using sh by (intro power_increasing) (simp_all add: ring_shape_def)
  have i: "slot_idx q (mq_tail q) = ?T mod 2 ^ k" by (rule slot_idx_mod[OF sh])
  have "slot_st (2 ^ k) ?T (unat (mq_head q)) (sy_pushed s) (claims (sy_pc s)) (?T mod 2 ^ k) (unat seq)
      (ms_val (mq_buffer q ! (?T mod 2 ^ k)))"
    using ring_invD(4)[OF ri, of "?T mod 2 ^ k"] by (simp add: seq_def i)
  then have "unat seq = ?T \<or> unat seq < ?T \<and> ?T \<le> unat seq + 2 ^ k"
  proof (cases rule: slot_stE)
    case free
    then obtain m where m: "unat seq = ?T + m" by (metis le_iff_add)
    then show ?thesis using mod_offset_eq[of ?T m "2 ^ k" 0] free by simp
  next
    case (full n)
    then show ?thesis using Suc_mod_neq[OF C, of n] by (cases "Suc n = ?T") auto
  next
    case (reading n)
    then show ?thesis using Suc_mod_neq[OF C, of n] by (cases "Suc n = ?T") auto
  qed simp
  moreover have "seq = mq_tail q" if "unat seq = ?T" using that by (simp add: word_unat_eq_iff)
  ultimately show ?thesis using seq_behind[of seq "mq_tail q"] k by auto
qed

text \<open>A slot holds the value of the position at the head, or the queue is empty or its push is not over.\<close>

lemma head_turn:
  assumes "sys_inv k s" "length (sy_pushed s) + 2 ^ k \<le> 2 ^ 64"
  defines "q \<equiv> sy_q s"
  defines "seq \<equiv> ms_seq (mq_buffer q ! slot_idx q (mq_head q))"
  shows "seq = mq_head q + 1 \<or> seq - (mq_head q + 1) \<noteq> 0 \<and> sint (seq - (mq_head q + 1)) < 0"
proof -
  let ?T = "unat (mq_tail q)" and ?H = "unat (mq_head q)"
  have sh: "ring_shape k q" and ri: "ring_inv (2 ^ k) ?T ?H (sy_pushed s) (sy_popped s)
      (\<lambda>i. unat (ms_seq (mq_buffer q ! i))) (\<lambda>i. ms_val (mq_buffer q ! i)) (sy_pc s)"
    using assms(1) by (simp_all add: sys_inv_def q_def)
  note C = ring_invD(1)[OF ri] and T = ring_invD(2,3)[OF ri]
  have k: "(2 :: nat) ^ k \<le> 2 ^ 63" using sh by (intro power_increasing) (simp_all add: ring_shape_def)
  have H: "unat (mq_head q + 1) = Suc ?H" using T C assms(2) by (intro unat_Suc_word) linarith
  have i: "slot_idx q (mq_head q) = ?H mod 2 ^ k" by (rule slot_idx_mod[OF sh])
  have "unat seq = Suc ?H \<or> unat seq < Suc ?H \<and> Suc ?H \<le> unat seq + 2 ^ k"
  proof (cases "?H < ?T")
    case True
    then have "unat seq = ?H \<or> unat seq = Suc ?H" using ring_invD(8)[OF ri] by (auto simp: placed_def seq_def i)
    then show ?thesis using C by auto
  next
    case False
    have "slot_st (2 ^ k) ?T ?H (sy_pushed s) (claims (sy_pc s)) (?H mod 2 ^ k) (unat seq) (ms_val (mq_buffer q ! (?H mod 2 ^ k)))"
      using ring_invD(4)[OF ri, of "?H mod 2 ^ k"] by (simp add: seq_def i)
    then show ?thesis
    proof (cases rule: slot_stE)
      case free
      then obtain m where m: "unat seq = ?T + m" by (metis le_iff_add)
      then have "m = 0" using mod_offset_eq[of ?T m "2 ^ k" 0] free False T by simp
      then show ?thesis using m False T C by simp
    qed (use False T in auto)
  qed
  moreover have "seq = mq_head q + 1" if "unat seq = Suc ?H" using that H by (simp add: word_unat_eq_iff)
  ultimately show ?thesis using seq_behind[of seq "mq_head q + 1"] H k by auto
qed

section \<open>A thread alone\<close>

definition run_one :: "nat \<Rightarrow> 'a mpmc_sys \<Rightarrow> 'a mpmc_sys" where
  "run_one a s = run_sched [Run a] s"

lemma run_one_funpow: "run_sched (replicate n (Run a)) s = (run_one a ^^ n) s"
  by (induction n arbitrary: s) (simp_all add: run_one_def funpow_swap1 split: prod.splits)

text \<open>Pushes the thread may still add to the order.\<close>

definition pending :: "'a pc \<Rightarrow> nat" where
  "pending pc = (case pc of Push_Load _ \<Rightarrow> 1 | Push_Seq _ _ \<Rightarrow> 1 | Push_Cas _ _ \<Rightarrow> 1 | _ \<Rightarrow> 0)"

definition solo_ok :: "nat \<Rightarrow> nat \<Rightarrow> 'a mpmc_sys \<Rightarrow> bool" where
  "solo_ok k a s \<longleftrightarrow> sys_inv k s \<and> length (sy_pushed s) + pending (sy_pc s a) + 2 ^ k \<le> 2 ^ 64"

definition pc_rank :: "'a mpmc \<Rightarrow> 'a pc \<Rightarrow> nat" where
  "pc_rank q pc = (case pc of
       Push_Load _ \<Rightarrow> 5
     | Push_Seq _ t \<Rightarrow> if t = mq_tail q then 4 else 6
     | Push_Cas _ t \<Rightarrow> if t = mq_tail q then 3 else 5
     | Push_Write _ _ \<Rightarrow> 2 | Push_Store _ \<Rightarrow> 1
     | Pop_Load \<Rightarrow> 5
     | Pop_Seq h \<Rightarrow> if h = mq_head q then 4 else 6
     | Pop_Cas h \<Rightarrow> if h = mq_head q then 3 else 5
     | Pop_Read _ \<Rightarrow> 2 | Pop_Store _ _ \<Rightarrow> 1
     | _ \<Rightarrow> 0)"

lemma pc_rank_simps [simp]:
  "pc_rank q (Push_Load d) = 5" "pc_rank q (Push_Seq d t) = (if t = mq_tail q then 4 else 6)"
  "pc_rank q (Push_Cas d t) = (if t = mq_tail q then 3 else 5)" "pc_rank q (Push_Write d t) = 2" "pc_rank q (Push_Store t) = 1"
  "pc_rank q Pop_Load = 5" "pc_rank q (Pop_Seq t) = (if t = mq_head q then 4 else 6)"
  "pc_rank q (Pop_Cas t) = (if t = mq_head q then 3 else 5)" "pc_rank q (Pop_Read t) = 2" "pc_rank q (Pop_Store t d) = 1"
  "pc_rank q (Push_Ret r) = 0" "pc_rank q (Pop_Ret r') = 0" "pc_rank q Crashed = 0" "pc_rank q Idle = 0"
  by (simp_all add: pc_rank_def)

definition solo_rank :: "nat \<Rightarrow> 'a mpmc_sys \<Rightarrow> nat" where
  "solo_rank a s = pc_rank (sy_q s) (sy_pc s a)"

lemma pc_rank_step:
  assumes "mpmc_step False q pc = (q', pc')" "\<not> finished pc"
    and "let seq = ms_seq (mq_buffer q ! slot_idx q (mq_tail q)) in seq = mq_tail q \<or> seq - mq_tail q \<noteq> 0 \<and> sint (seq - mq_tail q) < 0"
    and "let seq = ms_seq (mq_buffer q ! slot_idx q (mq_head q)) in seq = mq_head q + 1 \<or> seq - (mq_head q + 1) \<noteq> 0 \<and> sint (seq - (mq_head q + 1)) < 0"
  shows "pc_rank q' pc' < pc_rank q pc"
proof (cases pc)
  case (Push_Seq d t)
  then show ?thesis using assms(1,3) by (cases "t = mq_tail q") (auto simp: Let_def split: if_splits)
next
  case (Pop_Seq h)
  then show ?thesis using assms(1,4) by (cases "h = mq_head q") (auto simp: Let_def split: if_splits)
qed (use assms(1,2) in \<open>auto split: if_splits option.splits\<close>)

lemma run_one_eq:
  assumes "mpmc_step False (sy_q s) (sy_pc s a) = (q, pc)"
  shows "run_one a s = \<lparr>sy_q = q, sy_pc = (sy_pc s)(a := pc), sy_pushed = sy_pushed s @ log_push (sy_pc s a) pc,
    sy_popped = sy_popped s @ log_pop (sy_pc s a)\<rparr>"
  using assms by (simp add: run_one_def)

lemma pending_step:
  "mpmc_step False q pc = (q', pc') \<Longrightarrow> length (log_push pc pc') + pending pc' \<le> pending pc"
  by (cases pc) (auto simp: log_push_def pending_def split: if_splits option.splits)

lemma solo_step: "solo_ok k a s \<Longrightarrow> solo_ok k a (run_one a s)"
proof -
  assume ok: "solo_ok k a s"
  obtain q pc where st: "mpmc_step False (sy_q s) (sy_pc s a) = (q, pc)" by fastforce
  note p = pending_step[OF st]
  have "length (sy_pushed s @ log_push (sy_pc s a) pc) + 2 ^ k \<le> 2 ^ 64" using ok p by (simp add: solo_ok_def)
  from step_inv[OF _ st this] ok p show "solo_ok k a (run_one a s)" by (simp add: solo_ok_def run_one_eq[OF st])
qed

lemma solo_rank_step:
  assumes "solo_ok k a s" "\<not> finished (sy_pc s a)"
  shows "solo_rank a (run_one a s) < solo_rank a s"
proof -
  have inv: "sys_inv k s" and b: "length (sy_pushed s) + 2 ^ k \<le> 2 ^ 64" using assms(1) by (auto simp: solo_ok_def)
  obtain q pc where st: "mpmc_step False (sy_q s) (sy_pc s a) = (q, pc)" by fastforce
  from pc_rank_step[OF this assms(2)] tail_turn[OF inv] head_turn[OF inv b] show ?thesis
    by (simp add: solo_rank_def run_one_eq[OF st] Let_def)
qed

interpretation solo: bounded_progress "run_one a" "solo_ok k a" "\<lambda>s. finished (sy_pc s a)" "solo_rank a" for k a
proof unfold_locales
  show "finished (sy_pc (run_one a s) a)" if "finished (sy_pc s a)" for s :: "'a mpmc_sys"
  proof -
    have "mpmc_step False (sy_q s) (sy_pc s a) = (sy_q s, sy_pc s a)"
      using that by (cases "sy_pc s a") simp_all
    then show ?thesis using that by (simp add: run_one_eq)
  qed
qed (simp_all add: solo_step solo_rank_step)

lemma solo_rank_bound: "solo_rank a s \<le> 6"
  by (simp add: solo_rank_def pc_rank_def split: pc.splits)

section \<open>Property\<close>



end
