(* ===== verification/Mpmc_Unpadded.thy ===== *)
theory Mpmc_Unpadded
  imports Mpmc_Progress
begin

text \<open>
  \<open>UnpaddedMPMCQueue\<close> of \<^verbatim>\<open>src/tier2_concurrency/src/queue.rs\<close>: a second implementation of the queue whose tail and
  head share a cache line. Its operations are modelled step by step like those of \<open>MPMCQueue\<close> and shown to
  do the same in every step, so that all that is proved of one holds of the other.
\<close>

section \<open>State and operations\<close>

record 'a umpmc =
  um_mask :: u64
  um_buffer :: "'a mslot list"
  um_tail :: u64
  um_head :: u64

definition unpadded_new :: "u64 \<Rightarrow> 'a umpmc result" where
  "unpadded_new capacity =
     (if \<not> (capacity \<ge> 2 \<and> is_power_of_two capacity) then Inl Panic
      else Inr \<lparr>um_mask = capacity - 1,
                um_buffer = map (\<lambda>i. \<lparr>ms_seq = of_nat i, ms_val = None\<rparr>) [0..<unat capacity],
                um_tail = 0, um_head = 0\<rparr>)"

definition uslot_idx :: "'a umpmc \<Rightarrow> u64 \<Rightarrow> nat" where
  "uslot_idx q pos = unat (pos AND um_mask q)"

definition set_uslot :: "u64 \<Rightarrow> 'a mslot \<Rightarrow> 'a umpmc \<Rightarrow> 'a umpmc" where
  "set_uslot pos sl q = q\<lparr>um_buffer := (um_buffer q)[uslot_idx q pos := sl]\<rparr>"

definition unpadded_push_step :: "bool \<Rightarrow> 'a umpmc \<Rightarrow> 'a pc \<Rightarrow> 'a umpmc \<times> 'a pc" where
  "unpadded_push_step spurious q pc =
     (case pc of
        Push_Load data \<Rightarrow> (q, Push_Seq data (um_tail q))
      | Push_Seq data tail \<Rightarrow>
          if uslot_idx q tail \<ge> length (um_buffer q) then (q, Crashed)
          else let diff = ms_seq (um_buffer q ! uslot_idx q tail) - tail in
            if diff = 0 then (q, Push_Cas data tail)
            else if sint diff < 0 then (q, Push_Ret (Inl (Full, data)))
            else (q, Push_Load data)
      | Push_Cas data tail \<Rightarrow>
          if um_tail q = tail \<and> \<not> spurious then (q\<lparr>um_tail := tail + 1\<rparr>, Push_Write data tail)
          else (q, Push_Seq data (um_tail q))
      | Push_Write data tail \<Rightarrow>
          (set_uslot tail ((um_buffer q ! uslot_idx q tail)\<lparr>ms_val := Some data\<rparr>) q, Push_Store tail)
      | Push_Store tail \<Rightarrow>
          (set_uslot tail ((um_buffer q ! uslot_idx q tail)\<lparr>ms_seq := tail + 1\<rparr>) q, Push_Ret (Inr ()))
      | _ \<Rightarrow> (q, pc))"

definition unpadded_pop_step :: "bool \<Rightarrow> 'a umpmc \<Rightarrow> 'a pc \<Rightarrow> 'a umpmc \<times> 'a pc" where
  "unpadded_pop_step spurious q pc =
     (case pc of
        Pop_Load \<Rightarrow> (q, Pop_Seq (um_head q))
      | Pop_Seq head \<Rightarrow>
          if uslot_idx q head \<ge> length (um_buffer q) then (q, Crashed)
          else let diff = ms_seq (um_buffer q ! uslot_idx q head) - (head + 1) in
            if diff = 0 then (q, Pop_Cas head)
            else if sint diff < 0 then (q, Pop_Ret (Inl Empty))
            else (q, Pop_Load)
      | Pop_Cas head \<Rightarrow>
          if um_head q = head \<and> \<not> spurious then (q\<lparr>um_head := head + 1\<rparr>, Pop_Read head)
          else (q, Pop_Seq (um_head q))
      | Pop_Read head \<Rightarrow>
          (case ms_val (um_buffer q ! uslot_idx q head) of
             None \<Rightarrow> (q, Crashed)
           | Some data \<Rightarrow> (set_uslot head ((um_buffer q ! uslot_idx q head)\<lparr>ms_val := None\<rparr>) q, Pop_Store head data))
      | Pop_Store head data \<Rightarrow>
          (set_uslot head ((um_buffer q ! uslot_idx q head)\<lparr>ms_seq := head + (um_mask q + 1)\<rparr>) q, Pop_Ret (Inr data))
      | _ \<Rightarrow> (q, pc))"

definition unpadded_step :: "bool \<Rightarrow> 'a umpmc \<Rightarrow> 'a pc \<Rightarrow> 'a umpmc \<times> 'a pc" where
  "unpadded_step spurious q pc = (let (q, pc) = unpadded_push_step spurious q pc in unpadded_pop_step spurious q pc)"

text \<open>A call with no other thread at work, as for \<open>MPMCQueue\<close>.\<close>

fun unpadded_alone :: "nat \<Rightarrow> nat \<Rightarrow> 'a umpmc \<Rightarrow> 'a pc \<Rightarrow> ('a umpmc \<times> 'a pc) option" where
  "unpadded_alone 0 n q pc = None"
| "unpadded_alone (Suc fuel) n q pc =
     (if finished pc then Some (q, pc)
      else let
        spurious = (n > 0 \<and> (case pc of Push_Cas _ _ \<Rightarrow> True | Pop_Cas _ \<Rightarrow> True | _ \<Rightarrow> False));
        (q, pc) = unpadded_step spurious q pc
      in unpadded_alone fuel (if spurious then n - 1 else n) q pc)"

definition unpadded_push :: "nat \<Rightarrow> 'a \<Rightarrow> 'a umpmc \<Rightarrow> (((queue_error \<times> 'a) + unit) \<times> 'a umpmc) result" where
  "unpadded_push n data q =
     (case unpadded_alone (6 + 2 * n) n q (Push_Load data) of
        None \<Rightarrow> Inl Diverges
      | Some (q, Push_Ret r) \<Rightarrow> Inr (r, q)
      | Some _ \<Rightarrow> Inl Undefined)"

definition unpadded_pop :: "nat \<Rightarrow> 'a umpmc \<Rightarrow> ((queue_error + 'a) \<times> 'a umpmc) result" where
  "unpadded_pop n q =
     (case unpadded_alone (6 + 2 * n) n q Pop_Load of
        None \<Rightarrow> Inl Diverges
      | Some (q, Pop_Ret r) \<Rightarrow> Inr (r, q)
      | Some _ \<Rightarrow> Inl Undefined)"

fun unpadded_drop :: "nat \<Rightarrow> 'a umpmc \<Rightarrow> 'a list result" where
  "unpadded_drop 0 q = Inl Diverges"
| "unpadded_drop (Suc fuel) q =
     (case unpadded_pop 0 q of
        Inl f \<Rightarrow> Inl f
      | Inr (Inl _, q) \<Rightarrow> Inr []
      | Inr (Inr data, q) \<Rightarrow> (case unpadded_drop fuel q of Inl f \<Rightarrow> Inl f | Inr ds \<Rightarrow> Inr (data # ds)))"

section \<open>Step for step\<close>

definition padded :: "'a umpmc \<Rightarrow> 'a mpmc" where
  "padded q = \<lparr>mq_mask = um_mask q, mq_buffer = um_buffer q, mq_tail = um_tail q, mq_head = um_head q\<rparr>"

lemma padded_simps [simp]:
  "mq_mask (padded q) = um_mask q" "mq_buffer (padded q) = um_buffer q" "mq_tail (padded q) = um_tail q"
  "mq_head (padded q) = um_head q" "slot_idx (padded q) pos = uslot_idx q pos"
  "padded (q\<lparr>um_tail := t\<rparr>) = (padded q)\<lparr>mq_tail := t\<rparr>" "padded (q\<lparr>um_head := t\<rparr>) = (padded q)\<lparr>mq_head := t\<rparr>"
  "padded (set_uslot pos sl q) = set_slot pos sl (padded q)"
  by (simp_all add: padded_def slot_idx_def uslot_idx_def set_uslot_def set_slot_def)

lemma padded_push_step: "push_step sp (padded q) pc = apfst padded (unpadded_push_step sp q pc)"
  by (cases pc) (simp_all add: push_step_def unpadded_push_step_def Let_def)

lemma padded_pop_step: "pop_step sp (padded q) pc = apfst padded (unpadded_pop_step sp q pc)"
  by (cases pc) (simp_all add: pop_step_def unpadded_pop_step_def Let_def split: option.split)

lemma padded_step: "mpmc_step sp (padded q) pc = apfst padded (unpadded_step sp q pc)"
  by (simp add: mpmc_step_def unpadded_step_def padded_push_step padded_pop_step Let_def split: prod.split)

lemma padded_alone: "run_alone fuel n (padded q) pc = map_option (apfst padded) (unpadded_alone fuel n q pc)"
  by (induction fuel arbitrary: n q pc) (simp_all add: padded_step Let_def case_prod_beta)

lemma padded_push: "mpmc_push n d (padded q) = map_sum id (apsnd padded) (unpadded_push n d q)"
  by (simp add: mpmc_push_def unpadded_push_def padded_alone split: option.split prod.split pc.split)

lemma padded_pop: "mpmc_pop n (padded q) = map_sum id (apsnd padded) (unpadded_pop n q)"
  by (simp add: mpmc_pop_def unpadded_pop_def padded_alone split: option.split prod.split pc.split)

lemma padded_new: "mpmc_new capacity = map_sum id padded (unpadded_new capacity)"
  by (simp add: mpmc_new_def unpadded_new_def padded_def)

lemma padded_drop: "mpmc_drop fuel (padded q) = unpadded_drop fuel q"
  by (induction fuel q rule: unpadded_drop.induct) (auto simp: padded_pop split: sum.split prod.split)

section \<open>Property\<close>

text \<open>
  The two queues are the same program on two layouts: \<open>new\<close> accepts the same capacities, each access to
  shared memory of a push or pop has the same effect and the same next step, also when a weak
  compare-exchange fails spuriously, and whole calls and \<open>drop\<close> return the same, fuel and faults
  included.
\<close>

theorem unpadded_equals_padded:
  "mpmc_new capacity = map_sum id padded (unpadded_new capacity) \<and>
   mpmc_step sp (padded q) pc = apfst padded (unpadded_step sp q pc) \<and>
   mpmc_push n d (padded q) = map_sum id (apsnd padded) (unpadded_push n d q) \<and>
   mpmc_pop n (padded q) = map_sum id (apsnd padded) (unpadded_pop n q) \<and>
   mpmc_drop fuel (padded q) = unpadded_drop fuel q"
  by (simp add: padded_new padded_step padded_push padded_pop padded_drop)

end
