(* ===== verification/Ebr.thy ===== *)
theory Ebr
  imports Prelude
begin

text \<open>
  Epoch based reclamation, \<^verbatim>\<open>src/tier2_concurrency/src/ebr.rs\<close>: threads register, pin the current epoch
  while they may hold pointers, and put what they have unlinked into the bag of the epoch; the
  bag of two epochs ago is reclaimed when the epoch moves.

  Here each operation runs as one step; the theory \<open>Ebr_Fine\<close> interleaves their single loads and
  stores. Running a destructor is reported: operations return the list of what they
  have reclaimed, in order. The fixed arrays are lists; the initialised part of a bag's array is
  the whole list.
\<close>

section \<open>State\<close>

definition UNPINNED :: u64 where
  "UNPINNED = 2 ^ 64 - 1"

definition MAX_THREADS :: nat where
  "MAX_THREADS = 128"

definition BAG_CAPACITY :: nat where
  "BAG_CAPACITY = 64"

record 'd deferred =
  df_ptr :: nat
  df_dtor :: 'd

record 'd bag =
  bg_items :: "'d deferred list"

record thread_state =
  ts_epoch :: u64
  ts_active :: u64

record collector =
  co_global_epoch :: u64
  co_registry :: "thread_state list"

record 'd thread_local =
  tl_index :: nat
  tl_bags :: "'d bag list"

section \<open>Operations\<close>

definition bag_new :: "'d bag" where
  "bag_new = \<lparr>bg_items = []\<rparr>"

definition bag_is_full :: "'d bag \<Rightarrow> bool" where
  "bag_is_full b \<longleftrightarrow> length (bg_items b) = BAG_CAPACITY"

definition bag_push :: "'d deferred \<Rightarrow> 'd bag \<Rightarrow> 'd bag option" where
  "bag_push d b = (if bag_is_full b then None else Some (b\<lparr>bg_items := bg_items b @ [d]\<rparr>))"

definition bag_reclaim_all :: "'d bag \<Rightarrow> 'd deferred list \<times> 'd bag" where
  "bag_reclaim_all b = (bg_items b, b\<lparr>bg_items := []\<rparr>)"

definition collector_new :: collector where
  "collector_new = \<lparr>co_global_epoch = 0, co_registry = replicate MAX_THREADS \<lparr>ts_epoch = UNPINNED, ts_active = 0\<rparr>\<rparr>"

definition ebr_register :: "collector \<Rightarrow> (nat \<times> collector) result" where
  "ebr_register c =
     (case List.find (\<lambda>i. ts_active (co_registry c ! i) = 0) [0..<MAX_THREADS] of
        None \<Rightarrow> Inl Panic
      | Some i \<Rightarrow> Inr (i, c\<lparr>co_registry := (co_registry c)[i := (co_registry c ! i)\<lparr>ts_active := 1\<rparr>]\<rparr>))"

definition ebr_unregister :: "nat \<Rightarrow> collector \<Rightarrow> collector result" where
  "ebr_unregister index c =
     (if \<not> index < MAX_THREADS then Inl Panic
      else Inr (c\<lparr>co_registry := (co_registry c)[index := \<lparr>ts_epoch = UNPINNED, ts_active = 0\<rparr>]\<rparr>))"

definition ebr_pin :: "nat \<Rightarrow> collector \<Rightarrow> collector result" where
  "ebr_pin index c =
     (if \<not> index < length (co_registry c) then Inl Panic
      else Inr (c\<lparr>co_registry := (co_registry c)[index := (co_registry c ! index)\<lparr>ts_epoch := co_global_epoch c\<rparr>]\<rparr>))"

definition guard_drop :: "nat \<Rightarrow> collector \<Rightarrow> collector" where
  "guard_drop index c =
     c\<lparr>co_registry := (co_registry c)[index := (co_registry c ! index)\<lparr>ts_epoch := UNPINNED\<rparr>]\<rparr>"

definition try_advance :: "collector \<Rightarrow> bool \<times> collector" where
  "try_advance c =
     (let current_global = co_global_epoch c in
      if list_ex (\<lambda>t. ts_active t \<noteq> 0 \<and> ts_epoch t \<noteq> UNPINNED \<and> ts_epoch t \<noteq> current_global) (co_registry c)
      then (False, c)
      else (True, c\<lparr>co_global_epoch := (current_global + 1) mod 3\<rparr>))"

definition local_new :: "collector \<Rightarrow> ('d thread_local \<times> collector) result" where
  "local_new c =
     (case ebr_register c of
        Inl f \<Rightarrow> Inl f
      | Inr (idx, c) \<Rightarrow> Inr (\<lparr>tl_index = idx, tl_bags = [bag_new, bag_new, bag_new]\<rparr>, c))"

definition local_destroy :: "'d thread_local \<Rightarrow> collector \<Rightarrow> ('d deferred list \<times> collector) result" where
  "local_destroy l c =
     (case ebr_unregister (tl_index l) c of
        Inl f \<Rightarrow> Inl f
      | Inr c \<Rightarrow> Inr (concat (map (\<lambda>b. fst (bag_reclaim_all b)) (tl_bags l)), c))"

definition local_drop :: "'d thread_local \<Rightarrow> 'd deferred list" where
  "local_drop l = concat (map (\<lambda>b. fst (bag_reclaim_all b)) (tl_bags l))"

text \<open>The reclamation after an epoch has moved, in \<open>defer\<close> and in \<open>flush\<close>.\<close>

definition reclaim_old :: "collector \<Rightarrow> 'd bag list \<Rightarrow> ('d deferred list \<times> 'd bag list) result" where
  "reclaim_old c bags =
     (let reclaim_idx = unat ((co_global_epoch c + 1) mod 3) in
      if reclaim_idx \<ge> length bags then Inl Panic
      else let (freed, b) = bag_reclaim_all (bags ! reclaim_idx) in Inr (freed, bags[reclaim_idx := b]))"

definition local_defer ::
  "'d deferred \<Rightarrow> collector \<Rightarrow> 'd thread_local \<Rightarrow> ('d deferred list \<times> collector \<times> 'd thread_local) result" where
  "local_defer d c l =
     (let global_epoch = unat (co_global_epoch c); bags = tl_bags l in
      if global_epoch \<ge> length bags then Inl Panic
      else case bag_push d (bags ! global_epoch) of
        Some b \<Rightarrow> Inr ([], c, l\<lparr>tl_bags := bags[global_epoch := b]\<rparr>)
      | None \<Rightarrow>
          let (moved, c) = try_advance c in
          case (if moved then reclaim_old c bags else Inr ([], bags)) of
            Inl f \<Rightarrow> Inl f
          | Inr (freed, bags) \<Rightarrow>
              let fresh_global = unat (co_global_epoch c) in
              if fresh_global \<ge> length bags then Inl Panic
              else case bag_push d (bags ! fresh_global) of
                Some b \<Rightarrow> Inr (freed, c, l\<lparr>tl_bags := bags[fresh_global := b]\<rparr>)
              | None \<Rightarrow> Inr (freed @ [d], c, l\<lparr>tl_bags := bags\<rparr>))"

definition local_flush ::
  "collector \<Rightarrow> 'd thread_local \<Rightarrow> ('d deferred list \<times> collector \<times> 'd thread_local) result" where
  "local_flush c l =
     (let (moved, c) = try_advance c in
      case (if moved then reclaim_old c (tl_bags l) else Inr ([], tl_bags l)) of
        Inl f \<Rightarrow> Inl f
      | Inr (freed, bags) \<Rightarrow> Inr (freed, c, l\<lparr>tl_bags := bags\<rparr>))"

section \<open>Threads\<close>

text \<open>
  The operations of all threads in any order. The code never looks at what a destructor is, so
  here it is the time at which the object was deferred; \<open>es_pins\<close> records when each pinned thread
  pinned, and \<open>es_moves i\<close> how often the epoch has moved up to time \<open>i\<close>. A thread pins after it has
  registered, and does not pin again before it has dropped its guard (the inner guard would
  unpin the outer one).
\<close>

record ebr_sys =
  es_col :: collector
  es_locals :: "nat \<Rightarrow> nat thread_local option"
  es_now :: nat
  es_moves :: "nat \<Rightarrow> nat"
  es_pins :: "nat \<Rightarrow> nat option"

definition tick :: "collector \<Rightarrow> ebr_sys \<Rightarrow> ebr_sys" where
  "tick c s = s\<lparr>es_col := c, es_now := Suc (es_now s),
     es_moves := (es_moves s)(Suc (es_now s) :=
       es_moves s (es_now s) + (if co_global_epoch c = co_global_epoch (es_col s) then 0 else 1))\<rparr>"

inductive ebr_step :: "ebr_sys \<Rightarrow> ebr_sys \<Rightarrow> bool" where
  e_new: "local_new (es_col s) = Inr (l, c) \<Longrightarrow>
    ebr_step s ((tick c s)\<lparr>es_locals := (es_locals s)(tl_index l \<mapsto> l)\<rparr>)"
| e_pin: "es_pins s t = None \<Longrightarrow> ts_active (co_registry (es_col s) ! t) \<noteq> 0 \<Longrightarrow> ebr_pin t (es_col s) = Inr c \<Longrightarrow>
    ebr_step s ((tick c s)\<lparr>es_pins := (es_pins s)(t \<mapsto> Suc (es_now s))\<rparr>)"
| e_unpin: "es_pins s t = Some p \<Longrightarrow> ebr_step s ((tick (guard_drop t (es_col s)) s)\<lparr>es_pins := (es_pins s)(t := None)\<rparr>)"
| e_defer: "es_locals s t = Some l \<Longrightarrow>
    local_defer \<lparr>df_ptr = ptr, df_dtor = Suc (es_now s)\<rparr> (es_col s) l = Inr (freed, c, l') \<Longrightarrow>
    ebr_step s ((tick c s)\<lparr>es_locals := (es_locals s)(t \<mapsto> l')\<rparr>)"
| e_flush: "es_locals s t = Some l \<Longrightarrow> local_flush (es_col s) l = Inr (freed, c, l') \<Longrightarrow>
    ebr_step s ((tick c s)\<lparr>es_locals := (es_locals s)(t \<mapsto> l')\<rparr>)"
| e_destroy: "es_locals s t = Some l \<Longrightarrow> es_pins s (tl_index l) = None \<Longrightarrow> local_destroy l (es_col s) = Inr (freed, c) \<Longrightarrow>
    ebr_step s ((tick c s)\<lparr>es_locals := (es_locals s)(t := None)\<rparr>)"
| e_drop: "es_locals s t = Some l \<Longrightarrow> ebr_step s ((tick (es_col s) s)\<lparr>es_locals := (es_locals s)(t := None)\<rparr>)"

inductive ebr_reach :: "ebr_sys \<Rightarrow> bool" where
  ebr_start: "ebr_reach \<lparr>es_col = collector_new, es_locals = (\<lambda>_. None), es_now = 0, es_moves = (\<lambda>_. 0), es_pins = (\<lambda>_. None)\<rparr>"
| ebr_more: "ebr_reach s \<Longrightarrow> ebr_step s s' \<Longrightarrow> ebr_reach s'"

section \<open>The invariant\<close>

definition epoch_at :: "(nat \<Rightarrow> nat) \<Rightarrow> nat \<Rightarrow> u64" where
  "epoch_at moves i = of_nat (moves i mod 3)"

definition bags_ok :: "(nat \<Rightarrow> nat) \<Rightarrow> nat \<Rightarrow> nat bag list \<Rightarrow> bool" where
  "bags_ok moves now bags \<longleftrightarrow> length bags = 3 \<and>
     (\<forall>i<3. \<forall>x\<in>set (bg_items (bags ! i)). df_dtor x \<le> now \<and> moves (df_dtor x) mod 3 = i)"

definition pins_ok :: "(nat \<Rightarrow> nat) \<Rightarrow> nat \<Rightarrow> thread_state list \<Rightarrow> (nat \<Rightarrow> nat option) \<Rightarrow> bool" where
  "pins_ok moves now reg pins \<longleftrightarrow> (\<forall>t p. pins t = Some p \<longrightarrow>
     t < length reg \<and> p \<le> now \<and> moves now \<le> moves p + 1 \<and> ts_active (reg ! t) \<noteq> 0 \<and> ts_epoch (reg ! t) = epoch_at moves p)"

definition ebr_inv :: "ebr_sys \<Rightarrow> bool" where
  "ebr_inv s \<longleftrightarrow> co_global_epoch (es_col s) = epoch_at (es_moves s) (es_now s) \<and>
     length (co_registry (es_col s)) = MAX_THREADS \<and>
     (\<forall>i j. i \<le> j \<longrightarrow> j \<le> es_now s \<longrightarrow> es_moves s i \<le> es_moves s j) \<and>
     (\<forall>t l. es_locals s t = Some l \<longrightarrow> bags_ok (es_moves s) (es_now s) (tl_bags l)) \<and>
     pins_ok (es_moves s) (es_now s) (co_registry (es_col s)) (es_pins s)"

lemma unat_epoch_at: "unat (epoch_at moves i) = moves i mod 3"
proof -
  have "moves i mod 3 < 3" by simp
  then have "moves i mod 3 < 2 ^ 64" by (rule less_trans) simp
  then show ?thesis by (simp add: epoch_at_def unat_of_nat)
qed

lemma epoch_at_eq: "epoch_at moves i = epoch_at moves j \<longleftrightarrow> moves i mod 3 = moves j mod 3"
  by (metis unat_epoch_at epoch_at_def)

lemma epoch_at_pinned: "epoch_at moves i \<noteq> UNPINNED"
proof
  assume "epoch_at moves i = UNPINNED"
  then have "moves i mod 3 = unat UNPINNED" by (metis unat_epoch_at)
  moreover have "unat UNPINNED = 2 ^ 64 - 1" by (simp add: UNPINNED_def)
  moreover have "moves i mod 3 < 3" by simp
  ultimately show False by simp
qed

lemma next_epoch: "(epoch_at moves i + 1) mod 3 = of_nat (Suc (moves i) mod 3)"
proof -
  have "moves i mod 3 < 3" by simp
  then consider "moves i mod 3 = 0" | "moves i mod 3 = 1" | "moves i mod 3 = 2" by linarith
  then show ?thesis by cases (simp_all add: epoch_at_def mod_Suc)
qed

lemma bags_okD:
  "bags_ok moves now bags \<Longrightarrow> length bags = 3"
  "bags_ok moves now bags \<Longrightarrow> i < 3 \<Longrightarrow> x \<in> set (bg_items (bags ! i)) \<Longrightarrow> df_dtor x \<le> now \<and> moves (df_dtor x) mod 3 = i"
  by (simp_all add: bags_ok_def)

lemma bags_ok_mono:
  assumes "bags_ok moves now bags"
  shows "bags_ok (moves(Suc now := m)) (Suc now) bags"
  unfolding bags_ok_def
proof (intro conjI allI impI ballI)
  fix i x
  assume "i < 3" "x \<in> set (bg_items (bags ! i))"
  from bags_okD(2)[OF assms this] show "df_dtor x \<le> Suc now" "(moves(Suc now := m)) (df_dtor x) mod 3 = i" by auto
qed (use assms bags_okD(1) in blast)

lemma bags_ok_upd:
  assumes "bags_ok moves now bags" "i < 3"
    and "\<And>x. x \<in> set (bg_items b) \<Longrightarrow> x \<in> set (bg_items (bags ! i)) \<or> df_dtor x \<le> now \<and> moves (df_dtor x) mod 3 = i"
  shows "bags_ok moves now (bags[i := b])"
  unfolding bags_ok_def
proof (intro conjI allI impI ballI)
  fix j x
  assume j: "j < 3" "x \<in> set (bg_items (bags[i := b] ! j))"
  then have "df_dtor x \<le> now \<and> moves (df_dtor x) mod 3 = j"
    using bags_okD[OF assms(1)] assms(2,3) by (cases "j = i") auto
  then show "df_dtor x \<le> now" "moves (df_dtor x) mod 3 = j" by auto
qed (use assms bags_okD(1) in auto)

text \<open>The epoch moves only when every registered, pinned thread has pinned the current one.\<close>

definition may_advance :: "collector \<Rightarrow> bool" where
  "may_advance c \<longleftrightarrow> (\<forall>t\<in>set (co_registry c). ts_active t \<noteq> 0 \<longrightarrow> ts_epoch t = UNPINNED \<or> ts_epoch t = co_global_epoch c)"

lemma try_advance_spec:
  "try_advance c = (if may_advance c then (True, c\<lparr>co_global_epoch := (co_global_epoch c + 1) mod 3\<rparr>) else (False, c))"
  by (auto simp: try_advance_def may_advance_def list_ex_iff Let_def)

lemma reclaim_old_ok:
  assumes "bags_ok moves now bags" "co_global_epoch c = of_nat (n mod 3)"
  obtains freed bags' where "reclaim_old c bags = Inr (freed, bags')" "bags_ok moves now bags'"
    "\<And>x. x \<in> set freed \<Longrightarrow> df_dtor x \<le> now \<and> moves (df_dtor x) mod 3 = Suc n mod 3"
    "mset (concat (map bg_items bags)) = mset freed + mset (concat (map bg_items bags'))"
proof -
  let ?i = "Suc n mod 3"
  have "unat ((co_global_epoch c + 1) mod 3) = ?i"
    using next_epoch[of "\<lambda>_. n" 0] unat_epoch_at[of "\<lambda>_. Suc n" 0] assms(2) by (simp add: epoch_at_def)
  moreover have i: "?i < length bags" "?i < 3" using bags_okD(1)[OF assms(1)] by simp_all
  ultimately have r: "reclaim_old c bags = Inr (bg_items (bags ! ?i), bags[?i := (bags ! ?i)\<lparr>bg_items := []\<rparr>])"
    by (simp add: reclaim_old_def bag_reclaim_all_def Let_def)
  have "mset (concat (map bg_items bags)) =
      mset (bg_items (bags ! ?i)) + mset (concat (map bg_items (bags[?i := (bags ! ?i)\<lparr>bg_items := []\<rparr>])))"
    using i(1) by (subst (1) id_take_nth_drop[OF i(1)], subst upd_conv_take_nth_drop[OF i(1)]) simp
  moreover have "bags_ok moves now (bags[?i := (bags ! ?i)\<lparr>bg_items := []\<rparr>])" by (intro bags_ok_upd[OF assms(1) i(2)]) simp
  ultimately show thesis using that[OF r] bags_okD(2)[OF assms(1) i(2)] by blast
qed

lemma bag_push_ok:
  assumes "bags_ok moves now bags" "i < 3" "moves (df_dtor d) mod 3 = i" "df_dtor d \<le> now" "bag_push d (bags ! i) = Some b"
  shows "bags_ok moves now (bags[i := b])" "mset (concat (map bg_items (bags[i := b]))) = add_mset d (mset (concat (map bg_items bags)))"
proof -
  have b: "b = (bags ! i)\<lparr>bg_items := bg_items (bags ! i) @ [d]\<rparr>" using assms(5) by (auto simp: bag_push_def split: if_splits)
  then show "bags_ok moves now (bags[i := b])" using assms(2,3,4) by (intro bags_ok_upd[OF assms(1)]) auto
  have i: "i < length bags" using assms(2) bags_okD(1)[OF assms(1)] by simp
  show "mset (concat (map bg_items (bags[i := b]))) = add_mset d (mset (concat (map bg_items bags)))"
    using i b by (subst (2) id_take_nth_drop[OF i], subst upd_conv_take_nth_drop[OF i]) simp
qed

text \<open>One call: the collector it leaves, and what it has moved, freed and kept.\<close>

definition moved_to :: "collector \<Rightarrow> collector \<Rightarrow> bool" where
  "moved_to c c' \<longleftrightarrow> c' = c \<or> may_advance c \<and> c' = c\<lparr>co_global_epoch := (co_global_epoch c + 1) mod 3\<rparr>"

abbreviation items :: "'d thread_local \<Rightarrow> 'd deferred list" where
  "items l \<equiv> concat (map bg_items (tl_bags l))"

lemma tick_moves:
  assumes "ebr_inv s" "may_advance (es_col s)" "c = (es_col s)\<lparr>co_global_epoch := (co_global_epoch (es_col s) + 1) mod 3\<rparr>"
  shows "es_moves (tick c s) = (es_moves s)(Suc (es_now s) := Suc (es_moves s (es_now s)))"
    "co_global_epoch c = of_nat (Suc (es_moves s (es_now s)) mod 3)"
proof -
  let ?n = "es_moves s (es_now s)"
  have g: "co_global_epoch (es_col s) = epoch_at (es_moves s) (es_now s)" using assms(1) by (simp add: ebr_inv_def)
  show c: "co_global_epoch c = of_nat (Suc ?n mod 3)" using assms(3) g next_epoch by simp
  have "Suc ?n mod 3 \<noteq> ?n mod 3" by (simp add: mod_Suc)
  then have "co_global_epoch c \<noteq> co_global_epoch (es_col s)"
    using c g unat_epoch_at[of "es_moves s" "es_now s"] unat_epoch_at[of "\<lambda>_. Suc ?n" 0] by (metis epoch_at_def)
  then show "es_moves (tick c s) = (es_moves s)(Suc (es_now s) := Suc ?n)" by (simp add: tick_def)
qed

lemma tick_same: "es_moves (tick (es_col s) s) = (es_moves s)(Suc (es_now s) := es_moves s (es_now s))"
  by (simp add: tick_def)

definition old_enough :: "ebr_sys \<Rightarrow> nat deferred \<Rightarrow> bool" where
  "old_enough s x \<longleftrightarrow> may_advance (es_col s) \<and> df_dtor x \<le> es_now s \<and>
     es_moves s (df_dtor x) mod 3 = Suc (Suc (es_moves s (es_now s))) mod 3"

lemma flush_ok:
  assumes inv: "ebr_inv s" and l: "es_locals s t = Some l"
  obtains freed c l' where "local_flush (es_col s) l = Inr (freed, c, l')" "moved_to (es_col s) c"
    "bags_ok (es_moves (tick c s)) (Suc (es_now s)) (tl_bags l')" "\<And>x. x \<in> set freed \<Longrightarrow> old_enough s x"
    "mset (items l) = mset freed + mset (items l')"
proof -
  let ?c = "es_col s" and ?n = "es_moves s (es_now s)"
  have bags: "bags_ok (es_moves s) (es_now s) (tl_bags l)" using inv l by (auto simp: ebr_inv_def)
  show thesis
  proof (cases "may_advance ?c")
    case True
    let ?c' = "?c\<lparr>co_global_epoch := (co_global_epoch ?c + 1) mod 3\<rparr>"
    note tk = tick_moves[OF inv True refl]
    from bags tk(2) obtain freed bags' where r: "reclaim_old ?c' (tl_bags l) = Inr (freed, bags')" "bags_ok (es_moves s) (es_now s) bags'"
      "\<And>x. x \<in> set freed \<Longrightarrow> df_dtor x \<le> es_now s \<and> es_moves s (df_dtor x) mod 3 = Suc (Suc ?n) mod 3"
      "mset (items l) = mset freed + mset (concat (map bg_items bags'))" by (rule reclaim_old_ok) blast
    have "local_flush ?c l = Inr (freed, ?c', l\<lparr>tl_bags := bags'\<rparr>)" using True r(1) by (simp add: local_flush_def try_advance_spec)
    then show thesis using that[of freed ?c' "l\<lparr>tl_bags := bags'\<rparr>"] True r bags_ok_mono[OF r(2)] tk(1)
      by (simp add: moved_to_def old_enough_def)
  next
    case False
    then have "local_flush ?c l = Inr ([], ?c, l)" by (simp add: local_flush_def try_advance_spec)
    then show thesis using that[of "[]" ?c l] bags_ok_mono[OF bags] tick_same by (simp add: moved_to_def)
  qed
qed

lemma defer_ok:
  assumes inv: "ebr_inv s" and l: "es_locals s t = Some l" and d: "df_dtor d = Suc (es_now s)"
  obtains freed c l' where "local_defer d (es_col s) l = Inr (freed, c, l')" "moved_to (es_col s) c"
    "bags_ok (es_moves (tick c s)) (Suc (es_now s)) (tl_bags l')" "\<And>x. x \<in> set freed \<Longrightarrow> x = d \<or> old_enough s x"
    "add_mset d (mset (items l)) = mset freed + mset (items l')"
proof -
  let ?c = "es_col s" and ?n = "es_moves s (es_now s)"
  let ?i = "?n mod 3"
  have bags: "bags_ok (es_moves s) (es_now s) (tl_bags l)" using inv l by (auto simp: ebr_inv_def)
  have g: "unat (co_global_epoch ?c) = ?i" using inv unat_epoch_at by (simp add: ebr_inv_def)
  have len: "length (tl_bags l) = 3" by (rule bags_okD(1)[OF bags])
  note same = bags_ok_mono[OF bags, of ?n]
  show thesis
  proof (cases "bag_push d (tl_bags l ! ?i)")
    case (Some b)
    have "bags_ok (es_moves (tick ?c s)) (Suc (es_now s)) ((tl_bags l)[?i := b])"
      "mset (concat (map bg_items ((tl_bags l)[?i := b]))) = add_mset d (mset (items l))"
      unfolding tick_same using d Some by (intro bag_push_ok[OF same]; simp)+
    moreover have "local_defer d ?c l = Inr ([], ?c, l\<lparr>tl_bags := (tl_bags l)[?i := b]\<rparr>)"
      using g len Some by (simp add: local_defer_def Let_def not_le)
    ultimately show thesis using that[of "[]" ?c "l\<lparr>tl_bags := (tl_bags l)[?i := b]\<rparr>"] by (simp add: moved_to_def)
  next
    case None
    show thesis
    proof (cases "may_advance ?c")
      case False
      then have "local_defer d ?c l = Inr ([d], ?c, l)" using g len None by (simp add: local_defer_def try_advance_spec Let_def not_le)
      then show thesis using that[of "[d]" ?c l] same tick_same by (simp add: moved_to_def)
    next
      case True
      let ?c' = "?c\<lparr>co_global_epoch := (co_global_epoch ?c + 1) mod 3\<rparr>" and ?j = "Suc ?n mod 3"
      note tk = tick_moves[OF inv True refl]
      have j: "unat (co_global_epoch ?c') = ?j" using tk(2) unat_epoch_at[of "\<lambda>_. Suc ?n" 0] by (simp add: epoch_at_def)
      from bags tk(2) obtain freed bags' where r: "reclaim_old ?c' (tl_bags l) = Inr (freed, bags')" "bags_ok (es_moves s) (es_now s) bags'"
        "\<And>x. x \<in> set freed \<Longrightarrow> df_dtor x \<le> es_now s \<and> es_moves s (df_dtor x) mod 3 = Suc (Suc ?n) mod 3"
        "mset (items l) = mset freed + mset (concat (map bg_items bags'))" by (rule reclaim_old_ok) blast
      have old: "old_enough s x" if "x \<in> set freed" for x using r(3)[OF that] True by (simp add: old_enough_def)
      note ok = bags_ok_mono[OF r(2), of "Suc ?n", folded tk(1)]
      show thesis
      proof (cases "bag_push d (bags' ! ?j)")
        case (Some b)
        have "bags_ok (es_moves (tick ?c' s)) (Suc (es_now s)) (bags'[?j := b])"
          "mset (concat (map bg_items (bags'[?j := b]))) = add_mset d (mset (concat (map bg_items bags')))"
          using d Some tk(1) by (intro bag_push_ok[OF ok]; simp)+
        moreover have "local_defer d ?c l = Inr (freed, ?c', l\<lparr>tl_bags := bags'[?j := b]\<rparr>)"
          using g j len None True r(1) Some bags_okD(1)[OF r(2)] by (simp add: local_defer_def try_advance_spec Let_def not_le)
        ultimately show thesis
          using that[of freed ?c' "l\<lparr>tl_bags := bags'[?j := b]\<rparr>"] True r(4) old by (simp add: moved_to_def)
      next
        case full: None
        have "local_defer d ?c l = Inr (freed @ [d], ?c', l\<lparr>tl_bags := bags'\<rparr>)"
          using g j len None True r(1) full bags_okD(1)[OF r(2)] by (simp add: local_defer_def try_advance_spec Let_def not_le)
        then show thesis using that[of "freed @ [d]" ?c' "l\<lparr>tl_bags := bags'\<rparr>"] True ok r(4) old by (auto simp: moved_to_def)
      qed
    qed
  qed
qed

section \<open>Every step keeps the invariant\<close>

lemma moves_tick:
  assumes "ebr_inv s" "co_global_epoch c = co_global_epoch (es_col s) \<or> moved_to (es_col s) c"
  shows "\<exists>m. es_moves (tick c s) = (es_moves s)(Suc (es_now s) := m) \<and> es_moves s (es_now s) \<le> m \<and>
      co_global_epoch c = of_nat (m mod 3) \<and> (m = es_moves s (es_now s) \<or> m = Suc (es_moves s (es_now s)) \<and> may_advance (es_col s))"
proof (cases "co_global_epoch c = co_global_epoch (es_col s)")
  case True
  then show ?thesis using assms(1) by (auto simp: tick_def ebr_inv_def epoch_at_def)
next
  case False
  then have "may_advance (es_col s)" "c = (es_col s)\<lparr>co_global_epoch := (co_global_epoch (es_col s) + 1) mod 3\<rparr>"
    using assms(2) by (auto simp: moved_to_def)
  from tick_moves[OF assms(1) this] this(1) show ?thesis by auto
qed

lemma ebr_invI:
  assumes inv: "ebr_inv s" and g: "co_global_epoch c = co_global_epoch (es_col s) \<or> moved_to (es_col s) c"
    and len: "length (co_registry c) = MAX_THREADS"
    and L: "\<And>t l. L t = Some l \<Longrightarrow> es_locals s t = Some l \<or> bags_ok (es_moves (tick c s)) (Suc (es_now s)) (tl_bags l)"
    and Q: "pins_ok (es_moves (tick c s)) (Suc (es_now s)) (co_registry c) Q"
  shows "ebr_inv ((tick c s)\<lparr>es_locals := L, es_pins := Q\<rparr>)"
proof -
  obtain m where m: "es_moves (tick c s) = (es_moves s)(Suc (es_now s) := m)" "es_moves s (es_now s) \<le> m" "co_global_epoch c = of_nat (m mod 3)"
    using moves_tick[OF inv g] by blast
  have mono: "es_moves s i \<le> es_moves s j" if "i \<le> j" "j \<le> es_now s" for i j using inv that by (simp add: ebr_inv_def)
  have "((es_moves s)(Suc (es_now s) := m)) i \<le> ((es_moves s)(Suc (es_now s) := m)) j" if "i \<le> j" "j \<le> Suc (es_now s)" for i j
    using that mono[of i j] mono[of i "es_now s"] m(2) by (auto simp: le_Suc_eq intro: order_trans)
  moreover have "bags_ok (es_moves (tick c s)) (Suc (es_now s)) (tl_bags l)" if "L t = Some l" for t l
    using L[OF that] bags_ok_mono[of "es_moves s" "es_now s" "tl_bags l" m] inv m(1) by (auto simp: ebr_inv_def)
  ultimately show ?thesis using len Q m by (auto simp: ebr_inv_def tick_def epoch_at_def)
qed

text \<open>When the epoch may move, every pinned thread has pinned it since its last move.\<close>

lemma advance_pinned:
  assumes inv: "ebr_inv s" and "may_advance (es_col s)" "es_pins s t = Some p"
  shows "es_moves s p = es_moves s (es_now s)"
proof -
  let ?n = "es_moves s (es_now s)"
  have p: "t < length (co_registry (es_col s))" "?n \<le> es_moves s p + 1" "ts_active (co_registry (es_col s) ! t) \<noteq> 0"
    "ts_epoch (co_registry (es_col s) ! t) = epoch_at (es_moves s) p" "es_moves s p \<le> ?n"
    using inv assms(3) by (auto simp: ebr_inv_def pins_ok_def)
  have "ts_epoch (co_registry (es_col s) ! t) = co_global_epoch (es_col s)"
    using assms(2) p(1,3,4) epoch_at_pinned nth_mem unfolding may_advance_def by metis
  then have "es_moves s p mod 3 = ?n mod 3" using p(4) inv epoch_at_eq by (simp add: ebr_inv_def)
  then have "?n \<noteq> Suc (es_moves s p)" by (auto simp: mod_Suc split: if_splits)
  then show ?thesis using p(2,5) by auto
qed

lemma pins_tick:
  assumes inv: "ebr_inv s" and g: "co_global_epoch c = co_global_epoch (es_col s) \<or> moved_to (es_col s) c"
    and reg: "\<And>t p. Q t = Some p \<Longrightarrow> es_pins s t = Some p \<and> t < length (co_registry c) \<and>
        ts_active (co_registry c ! t) \<noteq> 0 \<and> ts_epoch (co_registry c ! t) = ts_epoch (co_registry (es_col s) ! t)"
  shows "pins_ok (es_moves (tick c s)) (Suc (es_now s)) (co_registry c) Q"
  unfolding pins_ok_def
proof (intro allI impI)
  fix t p
  assume Q: "Q t = Some p"
  then have t: "es_pins s t = Some p" using reg by blast
  let ?n = "es_moves s (es_now s)"
  have p: "t < length (co_registry (es_col s))" "p \<le> es_now s" "?n \<le> es_moves s p + 1" "ts_active (co_registry (es_col s) ! t) \<noteq> 0"
    "ts_epoch (co_registry (es_col s) ! t) = epoch_at (es_moves s) p" "es_moves s p \<le> ?n"
    using inv t by (auto simp: ebr_inv_def pins_ok_def)
  obtain m where m: "es_moves (tick c s) = (es_moves s)(Suc (es_now s) := m)" "m = ?n \<or> m = Suc ?n \<and> may_advance (es_col s)"
    using moves_tick[OF inv g] by blast
  have "m \<le> es_moves s p + 1"
  proof (cases "m = ?n")
    case False
    then have "es_moves s p = ?n" using advance_pinned[OF inv _ t] m(2) by blast
    then show ?thesis using m(2) by auto
  qed (use p(3) in simp)
  then show "t < length (co_registry c) \<and> p \<le> Suc (es_now s) \<and> es_moves (tick c s) (Suc (es_now s)) \<le> es_moves (tick c s) p + 1 \<and>
      ts_active (co_registry c ! t) \<noteq> 0 \<and> ts_epoch (co_registry c ! t) = epoch_at (es_moves (tick c s)) p"
    using reg[OF Q] p(2,5) m(1) by (auto simp: epoch_at_def)
qed

lemma inv_pinned: "ebr_inv s \<Longrightarrow> es_pins s t = Some p \<Longrightarrow> t < MAX_THREADS \<and> ts_active (co_registry (es_col s) ! t) \<noteq> 0"
  by (auto simp: ebr_inv_def pins_ok_def)

text \<open>Operations that change one entry of the registry, or none.\<close>

lemma entry_tick:
  assumes inv: "ebr_inv s" and c: "c = (es_col s)\<lparr>co_registry := (co_registry (es_col s))[i := x]\<rparr>"
  shows "co_global_epoch c = co_global_epoch (es_col s) \<or> moved_to (es_col s) c" "length (co_registry c) = MAX_THREADS"
    "(\<And>t p. Q t = Some p \<Longrightarrow> es_pins s t = Some p \<and> t \<noteq> i) \<Longrightarrow>
      pins_ok (es_moves (tick c s)) (Suc (es_now s)) (co_registry c) Q"
proof -
  show g: "co_global_epoch c = co_global_epoch (es_col s) \<or> moved_to (es_col s) c" by (simp add: c)
  show len: "length (co_registry c) = MAX_THREADS" using inv by (simp add: c ebr_inv_def)
  assume Q: "\<And>t p. Q t = Some p \<Longrightarrow> es_pins s t = Some p \<and> t \<noteq> i"
  show "pins_ok (es_moves (tick c s)) (Suc (es_now s)) (co_registry c) Q"
  proof (rule pins_tick[OF inv g])
    fix t p
    assume "Q t = Some p"
    from Q[OF this] inv_pinned[OF inv] len show "es_pins s t = Some p \<and> t < length (co_registry c) \<and>
        ts_active (co_registry c ! t) \<noteq> 0 \<and> ts_epoch (co_registry c ! t) = ts_epoch (co_registry (es_col s) ! t)"
      by (auto simp: c)
  qed
qed

lemma ebr_invI_locals:
  assumes "ebr_inv s" "co_global_epoch c = co_global_epoch (es_col s) \<or> moved_to (es_col s) c" "length (co_registry c) = MAX_THREADS"
    "\<And>t l. L t = Some l \<Longrightarrow> es_locals s t = Some l \<or> bags_ok (es_moves (tick c s)) (Suc (es_now s)) (tl_bags l)"
    "pins_ok (es_moves (tick c s)) (Suc (es_now s)) (co_registry c) (es_pins s)"
  shows "ebr_inv ((tick c s)\<lparr>es_locals := L\<rparr>)"
  using ebr_invI[OF assms] by (simp add: tick_def)

lemma ebr_invI_pins:
  assumes "ebr_inv s" "co_global_epoch c = co_global_epoch (es_col s) \<or> moved_to (es_col s) c" "length (co_registry c) = MAX_THREADS"
    "pins_ok (es_moves (tick c s)) (Suc (es_now s)) (co_registry c) Q"
  shows "ebr_inv ((tick c s)\<lparr>es_pins := Q\<rparr>)"
  using ebr_invI[OF assms(1,2,3) disjI1 assms(4), of "es_locals s"] by (simp add: tick_def)

lemma inv_call:
  assumes inv: "ebr_inv s" and "moved_to (es_col s) c" "bags_ok (es_moves (tick c s)) (Suc (es_now s)) (tl_bags l')"
  shows "ebr_inv ((tick c s)\<lparr>es_locals := (es_locals s)(t \<mapsto> l')\<rparr>)"
proof (rule ebr_invI_locals[OF inv disjI2[OF assms(2)]])
  have r: "co_registry c = co_registry (es_col s)" using assms(2) by (auto simp: moved_to_def)
  then show len: "length (co_registry c) = MAX_THREADS" using inv by (simp add: ebr_inv_def)
  show "pins_ok (es_moves (tick c s)) (Suc (es_now s)) (co_registry c) (es_pins s)"
    using inv_pinned[OF inv] len r by (intro pins_tick[OF inv disjI2[OF assms(2)]]) simp
qed (use assms(3) in \<open>auto split: if_splits\<close>)

lemma ebr_step_inv:
  assumes "ebr_step s s'" "ebr_inv s"
  shows "ebr_inv s'"
  using assms
proof (induction rule: ebr_step.induct)
  case (e_new s l c)
  then obtain i where i: "ts_active (co_registry (es_col s) ! i) = 0"
    "c = (es_col s)\<lparr>co_registry := (co_registry (es_col s))[i := (co_registry (es_col s) ! i)\<lparr>ts_active := 1\<rparr>]\<rparr>"
    "l = \<lparr>tl_index = i, tl_bags = [bag_new, bag_new, bag_new]\<rparr>"
    by (auto simp: local_new_def ebr_register_def find_Some_iff split: option.splits)
  have "tl_bags l = replicate 3 bag_new" by (simp add: i(3) numeral_3_eq_3)
  then have b: "bags_ok M N (tl_bags l)" for M N by (simp add: bags_ok_def bag_new_def)
  have "t \<noteq> i" if "es_pins s t = Some p" for t p using inv_pinned[OF e_new.prems that] i(1) by auto
  then show ?case using entry_tick[OF e_new.prems i(2)] b e_new.prems by (intro ebr_invI_locals) (auto split: if_splits)
next
  case (e_pin s t c)
  then have c: "t < MAX_THREADS"
    "c = (es_col s)\<lparr>co_registry := (co_registry (es_col s))[t := (co_registry (es_col s) ! t)\<lparr>ts_epoch := co_global_epoch (es_col s)\<rparr>]\<rparr>"
    by (auto simp: ebr_pin_def ebr_inv_def split: if_splits)
  note tk = entry_tick[OF e_pin.prems c(2)]
  have "u \<noteq> t" if "es_pins s u = Some p" for u p using e_pin.hyps(1) that by auto
  then have "pins_ok (es_moves (tick c s)) (Suc (es_now s)) (co_registry c) (es_pins s)" by (intro tk(3)) simp
  moreover have "ts_epoch (co_registry c ! t) = epoch_at (es_moves (tick c s)) (Suc (es_now s))" "ts_active (co_registry c ! t) \<noteq> 0"
    using c e_pin.prems e_pin.hyps(2) by (auto simp: ebr_inv_def tick_def epoch_at_def)
  ultimately have "pins_ok (es_moves (tick c s)) (Suc (es_now s)) (co_registry c) ((es_pins s)(t \<mapsto> Suc (es_now s)))"
    using c(1) tk(2) by (simp add: pins_ok_def)
  then show ?case using tk(1,2) e_pin.prems by (intro ebr_invI_pins)
next
  case (e_unpin s t p)
  note tk = entry_tick[OF e_unpin.prems guard_drop_def]
  have "pins_ok (es_moves (tick (guard_drop t (es_col s)) s)) (Suc (es_now s)) (co_registry (guard_drop t (es_col s))) ((es_pins s)(t := None))"
    by (intro tk(3)) (auto split: if_splits)
  then show ?case using tk(1,2) e_unpin.prems by (intro ebr_invI_pins)
next
  case (e_defer s t l ptr freed c l')
  let ?d = "\<lparr>df_ptr = ptr, df_dtor = Suc (es_now s)\<rparr>"
  from e_defer.prems e_defer.hyps(1) have "moved_to (es_col s) c \<and> bags_ok (es_moves (tick c s)) (Suc (es_now s)) (tl_bags l')"
    by (rule defer_ok[where d = ?d]) (use e_defer.hyps(2) in auto)
  then show ?case using inv_call[OF e_defer.prems] by blast
next
  case (e_flush s t l freed c l')
  from e_flush.prems e_flush.hyps(1) have "moved_to (es_col s) c \<and> bags_ok (es_moves (tick c s)) (Suc (es_now s)) (tl_bags l')"
    by (rule flush_ok) (use e_flush.hyps(2) in auto)
  then show ?case using inv_call[OF e_flush.prems] by blast
next
  case (e_destroy s t l freed c)
  then have c: "c = (es_col s)\<lparr>co_registry := (co_registry (es_col s))[tl_index l := \<lparr>ts_epoch = UNPINNED, ts_active = 0\<rparr>]\<rparr>"
    by (auto simp: local_destroy_def ebr_unregister_def split: if_splits)
  have "u \<noteq> tl_index l" if "es_pins s u = Some p" for u p using e_destroy.hyps(2) that by auto
  then show ?case using entry_tick[OF e_destroy.prems c] e_destroy.prems by (intro ebr_invI_locals) (auto split: if_splits)
next
  case (e_drop s t l)
  have "moved_to (es_col s) (es_col s)" by (simp add: moved_to_def)
  from pins_tick[OF e_drop.prems disjI2[OF this], of "es_pins s"] inv_pinned[OF e_drop.prems] e_drop.prems
  show ?case by (intro ebr_invI_locals) (auto simp: ebr_inv_def split: if_splits)
qed

lemma ebr_reach_inv: "ebr_reach s \<Longrightarrow> ebr_inv s"
proof (induction rule: ebr_reach.induct)
  case ebr_start
  show ?case by (simp add: ebr_inv_def collector_new_def epoch_at_def pins_ok_def)
next
  case (ebr_more s s')
  then show ?case using ebr_step_inv by blast
qed

text \<open>What is old enough was deferred before any pinned thread pinned.\<close>

lemma old_before_pins:
  assumes inv: "ebr_inv s" and old: "old_enough s x" and u: "es_pins s u = Some p"
  shows "df_dtor x < p"
proof (rule ccontr)
  let ?n = "es_moves s (es_now s)" and ?d = "es_moves s (df_dtor x)"
  assume "\<not> df_dtor x < p"
  then have "es_moves s p \<le> ?d" "?d \<le> ?n" using inv old by (auto simp: ebr_inv_def old_enough_def)
  moreover have "es_moves s p = ?n" using advance_pinned[OF inv _ u] old by (simp add: old_enough_def)
  moreover have "?d mod 3 = Suc (Suc ?n) mod 3" using old by (simp add: old_enough_def)
  ultimately have "?n mod 3 = Suc (Suc ?n) mod 3" by simp
  then show False by presburger
qed

section \<open>Schedules\<close>

datatype ebr_op = Op_New | Op_Pin nat | Op_Defer nat nat | Op_Flush nat

definition ebr_init :: ebr_sys where
  "ebr_init = \<lparr>es_col = collector_new, es_locals = (\<lambda>_. None), es_now = 0, es_moves = (\<lambda>_. 0), es_pins = (\<lambda>_. None)\<rparr>"

definition ebr_do :: "ebr_op \<Rightarrow> ebr_sys \<Rightarrow> ebr_sys option" where
  "ebr_do x s = (case x of
       Op_New \<Rightarrow> (case local_new (es_col s) of Inl _ \<Rightarrow> None
         | Inr (l, c) \<Rightarrow> Some ((tick c s)\<lparr>es_locals := (es_locals s)(tl_index l \<mapsto> l)\<rparr>))
     | Op_Pin t \<Rightarrow> (case ebr_pin t (es_col s) of Inl _ \<Rightarrow> None
         | Inr c \<Rightarrow> if es_pins s t = None \<and> ts_active (co_registry (es_col s) ! t) \<noteq> 0
                   then Some ((tick c s)\<lparr>es_pins := (es_pins s)(t \<mapsto> Suc (es_now s))\<rparr>) else None)
     | Op_Defer t ptr \<Rightarrow> (case es_locals s t of None \<Rightarrow> None | Some l \<Rightarrow>
         (case local_defer \<lparr>df_ptr = ptr, df_dtor = Suc (es_now s)\<rparr> (es_col s) l of Inl _ \<Rightarrow> None
          | Inr (_, c, l') \<Rightarrow> Some ((tick c s)\<lparr>es_locals := (es_locals s)(t \<mapsto> l')\<rparr>)))
     | Op_Flush t \<Rightarrow> (case es_locals s t of None \<Rightarrow> None | Some l \<Rightarrow>
         (case local_flush (es_col s) l of Inl _ \<Rightarrow> None
          | Inr (_, c, l') \<Rightarrow> Some ((tick c s)\<lparr>es_locals := (es_locals s)(t \<mapsto> l')\<rparr>))))"

fun ebr_run :: "ebr_op list \<Rightarrow> ebr_sys \<Rightarrow> ebr_sys option" where
  "ebr_run [] s = Some s"
| "ebr_run (x # xs) s = (case ebr_do x s of None \<Rightarrow> None | Some s \<Rightarrow> ebr_run xs s)"

lemma ebr_do_step: "ebr_do x s = Some s' \<Longrightarrow> ebr_step s s'"
  by (auto simp: ebr_do_def split: ebr_op.splits option.splits sum.splits prod.splits if_splits
      intro: e_new e_pin e_defer e_flush)

lemma ebr_run_reach: "ebr_run xs s = Some s' \<Longrightarrow> ebr_reach s \<Longrightarrow> ebr_reach s'"
  by (induction xs arbitrary: s) (auto split: option.splits dest: ebr_do_step intro: ebr_more)

section \<open>Properties\<close>

text \<open>
  The grace period: in any reachable state, what a thread's \<open>flush\<close> or \<open>defer\<close> reclaims was
  deferred before any thread that is pinned now pinned its epoch. The only exception is the
  object just passed to \<open>defer\<close>, which \<open>defer\<close> destroys at once when its bag is full.
\<close>

theorem ebr_grace_period:
  assumes "ebr_reach s" "es_locals s t = Some l" "es_pins s u = Some p"
    and "local_flush (es_col s) l = Inr (freed, c, l') \<or>
      local_defer d (es_col s) l = Inr (freed, c, l') \<and> df_dtor d = Suc (es_now s)"
    and "x \<in> set freed" "x \<noteq> d"
  shows "df_dtor x < p"
proof -
  have inv: "ebr_inv s" using assms(1) by (rule ebr_reach_inv)
  from assms(4) have "old_enough s x"
  proof
    assume "local_flush (es_col s) l = Inr (freed, c, l')"
    note f = this
    from inv assms(2) show ?thesis by (rule flush_ok) (use f assms(5) in auto)
  next
    assume f: "local_defer d (es_col s) l = Inr (freed, c, l') \<and> df_dtor d = Suc (es_now s)"
    from inv assms(2) conjunct2[OF f] show ?thesis by (rule defer_ok) (use f assms(5,6) in auto)
  qed
  then show ?thesis using old_before_pins[OF inv] assms(3) by blast
qed

text \<open>
  Nothing is leaked and nothing destroyed twice: in any reachable state \<open>flush\<close> and \<open>defer\<close>
  return (no bag index is out of range), and what was in the bags, with the object passed to
  \<open>defer\<close>, is what was reclaimed and what is in the bags now.
\<close>

theorem ebr_conserves:
  assumes "ebr_reach s" "es_locals s t = Some l" "df_dtor d = Suc (es_now s)"
  shows "\<exists>freed c l' freed' c' l''.
    local_flush (es_col s) l = Inr (freed, c, l') \<and> mset (items l) = mset freed + mset (items l') \<and>
    local_defer d (es_col s) l = Inr (freed', c', l'') \<and> add_mset d (mset (items l)) = mset freed' + mset (items l'')"
proof -
  have inv: "ebr_inv s" using assms(1) by (rule ebr_reach_inv)
  obtain freed c l' where f: "local_flush (es_col s) l = Inr (freed, c, l')" "mset (items l) = mset freed + mset (items l')"
    using inv assms(2) by (rule flush_ok)
  obtain freed' c' l'' where d: "local_defer d (es_col s) l = Inr (freed', c', l'')" "add_mset d (mset (items l)) = mset freed' + mset (items l'')"
    using inv assms(2,3) by (rule defer_ok)
  from f d show ?thesis by blast
qed

text \<open>
  A full bag breaks the grace period: when the bag of the epoch is full and the epoch cannot
  move, because another registered thread has pinned an older one, \<open>defer\<close> runs the destructor of
  the object at once, while that thread is pinned.
\<close>

theorem ebr_full_bag_frees_at_once:
  assumes "length (tl_bags l) = 3" "unat (co_global_epoch c) < 3"
    and "length (bg_items (tl_bags l ! unat (co_global_epoch c))) = BAG_CAPACITY"
    and "u < length (co_registry c)" "ts_active (co_registry c ! u) \<noteq> 0"
    and "ts_epoch (co_registry c ! u) \<noteq> UNPINNED" "ts_epoch (co_registry c ! u) \<noteq> co_global_epoch c"
  shows "local_defer d c l = Inr ([d], c, l)"
proof -
  have "\<not> may_advance c" using assms(4-7) by (auto simp: may_advance_def)
  then show ?thesis using assms(1-3) by (simp add: local_defer_def try_advance_spec bag_push_def bag_is_full_def Let_def)
qed

theorem ebr_full_bag_frees_at_once_witness:
  "\<exists>c l. c = \<lparr>co_global_epoch = 1, co_registry = [\<lparr>ts_epoch = UNPINNED, ts_active = 1\<rparr>, \<lparr>ts_epoch = 0, ts_active = 1\<rparr>]\<rparr> \<and>
     l = \<lparr>tl_index = 0, tl_bags = [bag_new, \<lparr>bg_items = map (\<lambda>i. \<lparr>df_ptr = i, df_dtor = ()\<rparr>) [0..<64]\<rparr>, bag_new]\<rparr> \<and>
     local_defer \<lparr>df_ptr = 64, df_dtor = ()\<rparr> c l = Inr ([\<lparr>df_ptr = 64, df_dtor = ()\<rparr>], c, l)"
proof -
  let ?c = "\<lparr>co_global_epoch = 1, co_registry = [\<lparr>ts_epoch = UNPINNED, ts_active = 1\<rparr>, \<lparr>ts_epoch = 0, ts_active = 1\<rparr>]\<rparr>"
  let ?l = "\<lparr>tl_index = 0, tl_bags = [bag_new, \<lparr>bg_items = map (\<lambda>i. \<lparr>df_ptr = i, df_dtor = ()\<rparr>) [0..<64]\<rparr>, bag_new]\<rparr>"
  have "local_defer \<lparr>df_ptr = 64, df_dtor = ()\<rparr> ?c ?l = Inr ([\<lparr>df_ptr = 64, df_dtor = ()\<rparr>], ?c, ?l)"
    by (rule ebr_full_bag_frees_at_once[of ?l ?c 1]) (simp_all add: BAG_CAPACITY_def UNPINNED_def)
  then show ?thesis by blast
qed

text \<open>A run: thread 0 defers an object and flushes; thread 1 registers and pins the epoch after that.\<close>

lemma ebr_example:
  "\<exists>s l freed c l'. ebr_reach s \<and> es_now s = 5 \<and> es_locals s 0 = Some l \<and> es_pins s 1 = Some 5 \<and>
     local_flush (es_col s) l = Inr (freed, c, l') \<and> \<lparr>df_ptr = 9, df_dtor = 2\<rparr> \<in> set freed"
proof -
  let ?run = "ebr_run [Op_New, Op_Defer 0 9, Op_Flush 0, Op_New, Op_Pin 1] ebr_init"
  have "case ?run of None \<Rightarrow> False | Some s \<Rightarrow> es_now s = 5 \<and> es_pins s 1 = Some 5 \<and>
     (case es_locals s 0 of None \<Rightarrow> False | Some l \<Rightarrow>
       (case local_flush (es_col s) l of Inl _ \<Rightarrow> False | Inr (freed, c, l') \<Rightarrow> freed = [\<lparr>df_ptr = 9, df_dtor = 2\<rparr>]))"
    by code_simp
  then obtain s l freed c l' where s: "?run = Some s" "es_now s = 5" "es_pins s 1 = Some 5" "es_locals s 0 = Some l"
    "local_flush (es_col s) l = Inr (freed, c, l')" "freed = [\<lparr>df_ptr = 9, df_dtor = 2\<rparr>]"
    by (auto split: option.splits sum.splits)
  have "ebr_reach s" using ebr_run_reach[OF s(1)] ebr_start by (simp add: ebr_init_def)
  then show ?thesis using s by auto
qed

theorem ebr_grace_period_witness:
  "\<exists>s l freed c l' x. ebr_reach s \<and> es_locals s 0 = Some l \<and> es_pins s 1 = Some 5 \<and>
     local_flush (es_col s) l = Inr (freed, c, l') \<and> x \<in> set freed \<and> df_dtor x < 5"
proof -
  let ?x = "\<lparr>df_ptr = 9, df_dtor = 2\<rparr>"
  obtain s l freed c l' where s: "ebr_reach s" "es_locals s 0 = Some l" "es_pins s 1 = Some 5"
    "local_flush (es_col s) l = Inr (freed, c, l')" "?x \<in> set freed" using ebr_example by blast
  have "?x \<noteq> \<lparr>df_ptr = 10, df_dtor = 0\<rparr>" by simp
  from ebr_grace_period[OF s(1,2,3) disjI1[OF s(4)] s(5) this] s show ?thesis by blast
qed

theorem ebr_conserves_witness:
  "\<exists>s l freed c l'. ebr_reach s \<and> es_locals s 0 = Some l \<and>
     local_defer \<lparr>df_ptr = 7, df_dtor = 6\<rparr> (es_col s) l = Inr (freed, c, l') \<and>
     add_mset \<lparr>df_ptr = 7, df_dtor = 6\<rparr> (mset (items l)) = mset freed + mset (items l')"
proof -
  obtain s l where s: "ebr_reach s" "es_locals s 0 = Some l" "es_now s = 5" using ebr_example by blast
  then have "df_dtor \<lparr>df_ptr = 7, df_dtor = 6\<rparr> = Suc (es_now s)" by simp
  from ebr_conserves[OF s(1,2) this] s show ?thesis by blast
qed

end
