(* ===== verification/Ebr_Liveness.thy ===== *)
theory Ebr_Liveness
  imports Ebr
begin

text \<open>
  Memory is given back: once no thread is pinned, three calls of \<open>flush\<close>
  (\<^verbatim>\<open>src/tier2_concurrency/src/ebr.rs\<close>) empty the bags of a thread, however they were filled; and as long
  as one thread stays pinned in an older epoch, no call of \<open>flush\<close> reclaims anything.
\<close>

section \<open>Threads that are not pinned\<close>

definition idle_ok :: "ebr_sys \<Rightarrow> bool" where
  "idle_ok s \<longleftrightarrow> (\<forall>t<MAX_THREADS. es_pins s t = None \<longrightarrow> ts_epoch (co_registry (es_col s) ! t) = UNPINNED)"

lemma idle_okD: "idle_ok s \<Longrightarrow> t < MAX_THREADS \<Longrightarrow> es_pins s t = None \<Longrightarrow> ts_epoch (co_registry (es_col s) ! t) = UNPINNED"
  by (simp add: idle_ok_def)

lemma moved_registry: "moved_to c c' \<Longrightarrow> co_registry c' = co_registry c"
  by (auto simp: moved_to_def)

lemma step_idle:
  assumes "ebr_step s s'" "ebr_inv s" "idle_ok s"
  shows "idle_ok s'"
  using assms
proof (induction rule: ebr_step.induct)
  case (e_new s l c)
  then obtain i where "i < MAX_THREADS"
    "c = (es_col s)\<lparr>co_registry := (co_registry (es_col s))[i := (co_registry (es_col s) ! i)\<lparr>ts_active := 1\<rparr>]\<rparr>"
    by (auto simp: local_new_def ebr_register_def find_Some_iff split: option.splits)
  then show ?case using idle_okD[OF e_new.prems(2)] e_new.prems(1) by (auto simp: idle_ok_def tick_def nth_list_update ebr_inv_def)
next
  case (e_pin s t c)
  then have "c = (es_col s)\<lparr>co_registry := (co_registry (es_col s))[t := (co_registry (es_col s) ! t)\<lparr>ts_epoch := co_global_epoch (es_col s)\<rparr>]\<rparr>"
    by (auto simp: ebr_pin_def split: if_splits)
  then show ?case using idle_okD[OF e_pin.prems(2)] by (auto simp: idle_ok_def tick_def nth_list_update split: if_splits)
next
  case (e_unpin s t p)
  then show ?case using idle_okD[OF e_unpin.prems(2)]
    by (auto simp: idle_ok_def tick_def guard_drop_def ebr_inv_def nth_list_update split: if_splits)
next
  case (e_defer s t l ptr freed c l')
  let ?d = "\<lparr>df_ptr = ptr, df_dtor = Suc (es_now s)\<rparr>"
  from e_defer.prems(1) e_defer.hyps(1) have "moved_to (es_col s) c"
    by (rule defer_ok[where d = ?d]) (use e_defer.hyps(2) in auto)
  from moved_registry[OF this] e_defer.prems(2) show ?case by (simp add: idle_ok_def tick_def)
next
  case (e_flush s t l freed c l')
  from e_flush.prems(1) e_flush.hyps(1) have "moved_to (es_col s) c" by (rule flush_ok) (use e_flush.hyps(2) in auto)
  from moved_registry[OF this] e_flush.prems(2) show ?case by (simp add: idle_ok_def tick_def)
next
  case (e_destroy s t l freed c)
  then have "tl_index l < MAX_THREADS"
    "c = (es_col s)\<lparr>co_registry := (co_registry (es_col s))[tl_index l := \<lparr>ts_epoch = UNPINNED, ts_active = 0\<rparr>]\<rparr>"
    by (auto simp: local_destroy_def ebr_unregister_def split: if_splits)
  then show ?case using idle_okD[OF e_destroy.prems(2)] e_destroy.prems(1)
    by (auto simp: idle_ok_def tick_def nth_list_update ebr_inv_def)
next
  case (e_drop s t l)
  then show ?case by (simp add: idle_ok_def tick_def)
qed

lemma ebr_reach_idle: "ebr_reach s \<Longrightarrow> idle_ok s"
proof (induction rule: ebr_reach.induct)
  case ebr_start
  show ?case by (simp add: idle_ok_def collector_new_def)
next
  case (ebr_more s s')
  then show ?case using step_idle ebr_reach_inv by blast
qed

section \<open>Rounds of flushing\<close>

fun flushes :: "nat \<Rightarrow> collector \<Rightarrow> 'd thread_local \<Rightarrow> ('d deferred list \<times> collector \<times> 'd thread_local) result" where
  "flushes 0 c l = Inr ([], c, l)"
| "flushes (Suc n) c l =
     (case local_flush c l of
        Inl f \<Rightarrow> Inl f
      | Inr (freed, c, l) \<Rightarrow> (case flushes n c l of Inl f \<Rightarrow> Inl f | Inr (freed', c, l) \<Rightarrow> Inr (freed @ freed', c, l)))"

definition quiet :: "collector \<Rightarrow> bool" where
  "quiet c \<longleftrightarrow> (\<forall>t\<in>set (co_registry c). ts_epoch t = UNPINNED)"

lemma flush_quiet:
  fixes l :: "'d thread_local"
  assumes "quiet c" "co_global_epoch c = of_nat (n mod 3)" "length (tl_bags l) = 3"
  shows "\<exists>c'. local_flush c l = Inr (bg_items (tl_bags l ! (Suc (Suc n) mod 3)), c',
      l\<lparr>tl_bags := (tl_bags l)[Suc (Suc n) mod 3 := bag_new]\<rparr>) \<and> quiet c' \<and> co_global_epoch c' = of_nat (Suc n mod 3)"
proof -
  let ?c = "c\<lparr>co_global_epoch := (co_global_epoch c + 1) mod 3\<rparr>"
  have e: "co_global_epoch ?c = of_nat (Suc n mod 3)" "unat ((co_global_epoch ?c + 1) mod 3) = Suc (Suc n) mod 3"
    using assms(2) next_epoch[of "\<lambda>_. n" 0] next_epoch[of "\<lambda>_. Suc n" 0] unat_epoch_at[of "\<lambda>_. Suc (Suc n)" 0]
    by (simp_all add: epoch_at_def)
  have bag_new: "b\<lparr>bg_items := []\<rparr> = bag_new" for b :: "'d bag" by (cases b) (simp add: bag_new_def)
  have "may_advance c" using assms(1) by (simp add: may_advance_def quiet_def)
  then have "local_flush c l = Inr (bg_items (tl_bags l ! (Suc (Suc n) mod 3)), ?c, l\<lparr>tl_bags := (tl_bags l)[Suc (Suc n) mod 3 := bag_new]\<rparr>)"
    using e(2) assms(3) by (simp add: local_flush_def try_advance_spec reclaim_old_def bag_reclaim_all_def bag_new Let_def)
  then show ?thesis using e(1) assms(1) by (intro exI[of _ ?c]) (simp add: quiet_def)
qed

lemma three_flushes:
  assumes "quiet c" "co_global_epoch c = of_nat (n mod 3)" "length (tl_bags l) = 3"
  shows "\<exists>freed c' l'. flushes 3 c l = Inr (freed, c', l') \<and> mset freed = mset (items l) \<and> items l' = []"
proof -
  let ?b = "tl_bags l"
  define i j k where "i = Suc (Suc n) mod 3" and "j = Suc (Suc (Suc n)) mod 3" and "k = Suc (Suc (Suc (Suc n))) mod 3"
  obtain c1 where 1: "local_flush c l = Inr (bg_items (?b ! i), c1, l\<lparr>tl_bags := ?b[i := bag_new]\<rparr>)"
    "quiet c1" "co_global_epoch c1 = of_nat (Suc n mod 3)" using flush_quiet[OF assms] unfolding i_def by blast
  obtain c2 where 2: "local_flush c1 (l\<lparr>tl_bags := ?b[i := bag_new]\<rparr>) =
      Inr (bg_items (?b[i := bag_new] ! j), c2, l\<lparr>tl_bags := ?b[i := bag_new, j := bag_new]\<rparr>)"
    "quiet c2" "co_global_epoch c2 = of_nat (Suc (Suc n) mod 3)"
    using flush_quiet[OF 1(2,3), of "l\<lparr>tl_bags := ?b[i := bag_new]\<rparr>"] assms(3) unfolding j_def by auto
  obtain c3 where 3: "local_flush c2 (l\<lparr>tl_bags := ?b[i := bag_new, j := bag_new]\<rparr>) =
      Inr (bg_items (?b[i := bag_new, j := bag_new] ! k), c3, l\<lparr>tl_bags := ?b[i := bag_new, j := bag_new, k := bag_new]\<rparr>)"
    using flush_quiet[OF 2(2,3), of "l\<lparr>tl_bags := ?b[i := bag_new, j := bag_new]\<rparr>"] assms(3) unfolding k_def by auto
  obtain x y z where b: "?b = [x, y, z]" using assms(3) by (auto simp: numeral_3_eq_3 length_Suc_conv)
  have "n mod 3 < 3" by simp
  then consider "n mod 3 = 0" | "n mod 3 = 1" | "n mod 3 = 2" by linarith
  then have ijk: "(i, j, k) \<in> {(2, 0, 1), (0, 1, 2), (1, 2, 0)}" by cases (simp_all add: i_def j_def k_def mod_Suc)
  then have "mset (bg_items (?b ! i) @ bg_items (?b[i := bag_new] ! j) @ bg_items (?b[i := bag_new, j := bag_new] ! k)) = mset (items l)"
    "concat (map bg_items (?b[i := bag_new, j := bag_new, k := bag_new])) = []"
    unfolding b by (auto simp: bag_new_def numeral_2_eq_2)
  then show ?thesis using 1(1) 2(1) 3 by (simp add: numeral_3_eq_3)
qed

text \<open>A thread that stays pinned in an older epoch stops all reclamation by \<open>flush\<close>.\<close>

lemma stalled_reader_blocks:
  assumes "ebr_reach s" "es_pins s u = Some p" "es_moves s p \<noteq> es_moves s (es_now s)"
  shows "local_flush (es_col s) l = Inr ([], es_col s, l)"
proof -
  have "\<not> may_advance (es_col s)" using advance_pinned[OF ebr_reach_inv[OF assms(1)] _ assms(2)] assms(3) by auto
  then show ?thesis by (simp add: local_flush_def try_advance_spec)
qed

section \<open>Property\<close>

text \<open>
  C18. Everything deferred is reclaimed in the end: in any reachable state in which no thread is
  pinned, three calls of \<open>flush\<close> by any thread run the destructors of all that its bags hold, each
  once, and leave them empty.
\<close>

theorem ebr_flush_reclaims_all:
  assumes "ebr_reach s" "es_locals s t = Some l" "\<forall>u. es_pins s u = None"
  shows "\<exists>freed c l'. flushes 3 (es_col s) l = Inr (freed, c, l') \<and> mset freed = mset (items l) \<and> items l' = []"
proof (rule three_flushes)
  have inv: "ebr_inv s" and idle: "idle_ok s" using assms(1) ebr_reach_inv ebr_reach_idle by blast+
  show "quiet (es_col s)" using inv idle assms(3) by (auto simp: quiet_def idle_ok_def ebr_inv_def in_set_conv_nth)
  show "co_global_epoch (es_col s) = of_nat (es_moves s (es_now s) mod 3)" using inv by (simp add: ebr_inv_def epoch_at_def)
  show "length (tl_bags l) = 3" using inv assms(2) bags_okD(1) unfolding ebr_inv_def by blast
qed

theorem ebr_flush_reclaims_all_witness:
  "\<exists>s l freed c l'. ebr_reach s \<and> es_locals s 0 = Some l \<and> items l = [\<lparr>df_ptr = 9, df_dtor = 2\<rparr>, \<lparr>df_ptr = 8, df_dtor = 4\<rparr>] \<and>
     flushes 3 (es_col s) l = Inr (freed, c, l') \<and> mset freed = mset (items l) \<and> items l' = []"
proof -
  let ?run = "ebr_run [Op_New, Op_Defer 0 9, Op_Flush 0, Op_Defer 0 8] ebr_init"
  have "case ?run of None \<Rightarrow> False | Some s \<Rightarrow>
     (case es_locals s 0 of None \<Rightarrow> False | Some l \<Rightarrow> items l = [\<lparr>df_ptr = 9, df_dtor = 2\<rparr>, \<lparr>df_ptr = 8, df_dtor = 4\<rparr>])"
    by code_simp
  then obtain s l where s: "?run = Some s" "es_locals s 0 = Some l"
    "items l = [\<lparr>df_ptr = 9, df_dtor = 2\<rparr>, \<lparr>df_ptr = 8, df_dtor = 4\<rparr>]"
    by (auto split: option.splits)
  have r: "ebr_reach s" using ebr_run_reach[OF s(1)] ebr_start by (simp add: ebr_init_def)
  have "\<forall>u. es_pins s u = None" using s(1) by (auto simp: ebr_do_def tick_def ebr_init_def split: option.splits sum.splits prod.splits)
  from ebr_flush_reclaims_all[OF r s(2) this] r s(2,3) show ?thesis by blast
qed

end
