(* ===== verification/Ebr_Fine.thy ===== *)
theory Ebr_Fine
  imports Ebr
begin

text \<open>
  Epoch based reclamation (\<^verbatim>\<open>src/tier2_concurrency/src/ebr.rs\<close>) access by access: every load and store of
  the global epoch and of the registry is a step of its own, and threads are interrupted between
  any two of them. \<open>register\<close> stays one step: no slot is given back here, so the slots before
  the one it takes are taken, whenever it looked at them. \<open>destroy\<close> and the drop of a thread's bags are left out;
  they free without looking at other threads.
\<close>

section \<open>Accesses\<close>

text \<open>What \<open>try_advance\<close> was called for, and where a thread is in its call.\<close>

datatype 'd purpose = For_Flush | For_Defer "'d deferred"

datatype 'd epc = Rest | Pin_Load | Pin_Store u64 | Unpin_Store
  | Defer_Load "'d deferred" | Fresh_Load "'d deferred"
  | Adv_Load "'d purpose" | Adv_Active "'d purpose" u64 nat | Adv_Epoch "'d purpose" u64 nat | Adv_Store "'d purpose" u64
  | Reclaim_Load "'d purpose"

definition adv_done :: "'d purpose \<Rightarrow> 'd epc" where
  "adv_done k = (case k of For_Flush \<Rightarrow> Rest | For_Defer d \<Rightarrow> Fresh_Load d)"

definition adv_slot :: "'d purpose \<Rightarrow> u64 \<Rightarrow> nat \<Rightarrow> 'd epc" where
  "adv_slot k cur i = (if i < MAX_THREADS then Adv_Active k cur i else Adv_Store k cur)"

fun fine_access :: "'d epc \<Rightarrow> collector \<Rightarrow> 'd thread_local \<Rightarrow> ('d epc \<times> collector \<times> 'd thread_local \<times> 'd deferred list) result" where
  "fine_access Rest c l = Inr (Rest, c, l, [])"
| "fine_access Pin_Load c l =
     (if \<not> tl_index l < length (co_registry c) then Inl Panic else Inr (Pin_Store (co_global_epoch c), c, l, []))"
| "fine_access (Pin_Store global) c l =
     Inr (Rest, c\<lparr>co_registry := (co_registry c)[tl_index l := (co_registry c ! tl_index l)\<lparr>ts_epoch := global\<rparr>]\<rparr>, l, [])"
| "fine_access Unpin_Store c l = Inr (Rest, guard_drop (tl_index l) c, l, [])"
| "fine_access (Defer_Load d) c l =
     (let global_epoch = unat (co_global_epoch c); bags = tl_bags l in
      if global_epoch \<ge> length bags then Inl Panic
      else case bag_push d (bags ! global_epoch) of
        Some b \<Rightarrow> Inr (Rest, c, l\<lparr>tl_bags := bags[global_epoch := b]\<rparr>, [])
      | None \<Rightarrow> Inr (Adv_Load (For_Defer d), c, l, []))"
| "fine_access (Fresh_Load d) c l =
     (let fresh_global = unat (co_global_epoch c); bags = tl_bags l in
      if fresh_global \<ge> length bags then Inl Panic
      else case bag_push d (bags ! fresh_global) of
        Some b \<Rightarrow> Inr (Rest, c, l\<lparr>tl_bags := bags[fresh_global := b]\<rparr>, [])
      | None \<Rightarrow> Inr (Rest, c, l, [d]))"
| "fine_access (Adv_Load k) c l = Inr (adv_slot k (co_global_epoch c) 0, c, l, [])"
| "fine_access (Adv_Active k cur i) c l =
     Inr (if ts_active (co_registry c ! i) \<noteq> 0 then Adv_Epoch k cur i else adv_slot k cur (Suc i), c, l, [])"
| "fine_access (Adv_Epoch k cur i) c l =
     (let thread_epoch = ts_epoch (co_registry c ! i) in
      Inr (if thread_epoch \<noteq> UNPINNED \<and> thread_epoch \<noteq> cur then adv_done k else adv_slot k cur (Suc i), c, l, []))"
| "fine_access (Adv_Store k cur) c l = Inr (Reclaim_Load k, c\<lparr>co_global_epoch := (cur + 1) mod 3\<rparr>, l, [])"
| "fine_access (Reclaim_Load k) c l =
     (case reclaim_old c (tl_bags l) of
        Inl f \<Rightarrow> Inl f
      | Inr (freed, bags) \<Rightarrow> Inr (adv_done k, c, l\<lparr>tl_bags := bags\<rparr>, freed))"

section \<open>A call that is not interrupted\<close>

fun fine_alone :: "nat \<Rightarrow> 'd epc \<Rightarrow> collector \<Rightarrow> 'd thread_local \<Rightarrow> ('d deferred list \<times> collector \<times> 'd thread_local) result" where
  "fine_alone n Rest c l = Inr ([], c, l)"
| "fine_alone 0 pc c l = Inl Diverges"
| "fine_alone (Suc n) pc c l =
     (case fine_access pc c l of
        Inl f \<Rightarrow> Inl f
      | Inr (pc, c, l, freed) \<Rightarrow> (case fine_alone n pc c l of Inl f \<Rightarrow> Inl f | Inr (freed', r) \<Rightarrow> Inr (freed @ freed', r)))"

lemma fine_alone_Suc:
  "pc \<noteq> Rest \<Longrightarrow> fine_alone (Suc n) pc c l =
     (case fine_access pc c l of
        Inl f \<Rightarrow> Inl f
      | Inr (pc, c, l, freed) \<Rightarrow> (case fine_alone n pc c l of Inl f \<Rightarrow> Inl f | Inr (freed', r) \<Rightarrow> Inr (freed @ freed', r)))"
  by (cases pc) simp_all

lemma adv_slot_not_Rest [simp]: "adv_slot k cur i \<noteq> Rest"
  by (simp add: adv_slot_def)

text \<open>The scan from slot \<open>i\<close> on, in at most two accesses a slot.\<close>

lemma scan_alone:
  assumes "length (co_registry c) = MAX_THREADS" "i \<le> MAX_THREADS" "2 * (MAX_THREADS - i) \<le> n"
  shows "\<exists>m. n \<le> m + 2 * (MAX_THREADS - i) \<and> fine_alone n (adv_slot k cur i) c l =
    fine_alone m (if list_ex (\<lambda>t. ts_active t \<noteq> 0 \<and> ts_epoch t \<noteq> UNPINNED \<and> ts_epoch t \<noteq> cur) (drop i (co_registry c))
      then adv_done k else Adv_Store k cur) c l"
  using assms(2,3)
proof (induction "MAX_THREADS - i" arbitrary: i n)
  case 0
  then show ?case using assms(1) by (auto simp: adv_slot_def)
next
  case (Suc j)
  have i: "i < MAX_THREADS" using Suc.hyps(2) by simp
  then have d: "drop i (co_registry c) = co_registry c ! i # drop (Suc i) (co_registry c)"
    using assms(1) by (simp add: Cons_nth_drop_Suc)
  have j: "j = MAX_THREADS - Suc i" "Suc i \<le> MAX_THREADS" using Suc.hyps(2) i by simp_all
  define n' where "n' = n - 2"
  have n: "n = Suc (Suc n')" "2 * (MAX_THREADS - Suc i) \<le> n'" using Suc.prems(2) Suc.hyps(2) j(1) by (simp_all add: n'_def)
  have s: "fine_alone (Suc m) (adv_slot k cur i) c l =
      fine_alone m (if ts_active (co_registry c ! i) \<noteq> 0 then Adv_Epoch k cur i else adv_slot k cur (Suc i)) c l" for m
    using i by (simp add: adv_slot_def split: sum.splits)
  have e: "fine_alone (Suc m) (Adv_Epoch k cur i) c l =
      fine_alone m (if ts_epoch (co_registry c ! i) \<noteq> UNPINNED \<and> ts_epoch (co_registry c ! i) \<noteq> cur then adv_done k else adv_slot k cur (Suc i)) c l" for m
    by (simp add: Let_def split: sum.splits)
  let ?t = "co_registry c ! i"
  consider "ts_active ?t = 0" | "ts_active ?t \<noteq> 0" "ts_epoch ?t \<noteq> UNPINNED \<and> ts_epoch ?t \<noteq> cur"
    | "ts_active ?t \<noteq> 0" "\<not> (ts_epoch ?t \<noteq> UNPINNED \<and> ts_epoch ?t \<noteq> cur)" by blast
  then show ?case
  proof cases
    case 1
    have "2 * (MAX_THREADS - Suc i) \<le> Suc n'" using n(2) by simp
    from Suc.hyps(1)[OF j this] obtain m where m: "Suc n' \<le> m + 2 * (MAX_THREADS - Suc i)" "fine_alone (Suc n') (adv_slot k cur (Suc i)) c l =
        fine_alone m (if list_ex (\<lambda>t. ts_active t \<noteq> 0 \<and> ts_epoch t \<noteq> UNPINNED \<and> ts_epoch t \<noteq> cur) (drop (Suc i) (co_registry c))
          then adv_done k else Adv_Store k cur) c l" by blast
    have "n \<le> m + 2 * (MAX_THREADS - i)" using m(1) n(1) i by linarith
    moreover have "fine_alone n (adv_slot k cur i) c l = fine_alone (Suc n') (adv_slot k cur (Suc i)) c l" unfolding n(1) s using 1 by simp
    ultimately show ?thesis using m(2) 1 unfolding d by (intro exI[of _ m]) simp
  next
    case 2
    then have "fine_alone n (adv_slot k cur i) c l = fine_alone n' (adv_done k) c l" unfolding n(1) s by (simp add: e del: fine_alone.simps)
    then show ?thesis using 2 n(1) i unfolding d by (intro exI[of _ n']) simp
  next
    case 3
    from Suc.hyps(1)[OF j n(2)] obtain m where m: "n' \<le> m + 2 * (MAX_THREADS - Suc i)" "fine_alone n' (adv_slot k cur (Suc i)) c l =
        fine_alone m (if list_ex (\<lambda>t. ts_active t \<noteq> 0 \<and> ts_epoch t \<noteq> UNPINNED \<and> ts_epoch t \<noteq> cur) (drop (Suc i) (co_registry c))
          then adv_done k else Adv_Store k cur) c l" by blast
    have "n \<le> m + 2 * (MAX_THREADS - i)" using m(1) n(1) i by linarith
    moreover have "fine_alone n (adv_slot k cur i) c l = fine_alone n' (adv_slot k cur (Suc i)) c l" unfolding n(1) s using 3 by (auto simp: e simp del: fine_alone.simps)
    ultimately show ?thesis using m(2) 3 unfolding d by (intro exI[of _ m]) auto
  qed
qed

lemma advance_alone:
  assumes "length (co_registry c) = MAX_THREADS" "2 * MAX_THREADS + 5 \<le> n"
  shows "\<exists>m\<ge>2. fine_alone n (Adv_Load k) c l =
    (let (moved, c) = try_advance c in fine_alone m (if moved then Reclaim_Load k else adv_done k) c l)"
proof -
  define n' where "n' = n - 1"
  have n: "n = Suc n'" "2 * (MAX_THREADS - 0) \<le> n'" "2 * MAX_THREADS + 4 \<le> n'" using assms(2) by (simp_all add: n'_def)
  let ?b = "list_ex (\<lambda>t. ts_active t \<noteq> 0 \<and> ts_epoch t \<noteq> UNPINNED \<and> ts_epoch t \<noteq> co_global_epoch c) (drop 0 (co_registry c))"
  from scan_alone[OF assms(1) le0 n(2), of k "co_global_epoch c" l] obtain m where m: "n' \<le> m + 2 * MAX_THREADS"
    "fine_alone n' (adv_slot k (co_global_epoch c) 0) c l = fine_alone m (if ?b then adv_done k else Adv_Store k (co_global_epoch c)) c l" by auto
  obtain m' where m': "m = Suc m'" "2 \<le> m'" using m(1) n(3) by (cases m) auto
  have "fine_alone n (Adv_Load k) c l = fine_alone m (if ?b then adv_done k else Adv_Store k (co_global_epoch c)) c l"
    unfolding n(1) m(2)[symmetric] by (simp split: sum.splits)
  then show ?thesis using m(1) n(3) m'
    by (cases ?b) (auto simp: try_advance_def Let_def split: sum.splits intro: exI[of _ m] exI[of _ m'])
qed

lemma fine_alone_Rest: "fine_alone n Rest c l = Inr ([], c, l)"
  by (cases n) simp_all

lemma flush_alone:
  assumes "length (co_registry c) = MAX_THREADS" "2 * MAX_THREADS + 5 \<le> n"
  shows "fine_alone n (Adv_Load For_Flush) c l = local_flush c l"
proof -
  obtain m where m: "2 \<le> m" "fine_alone n (Adv_Load For_Flush) c l =
    (let (moved, c) = try_advance c in fine_alone m (if moved then Reclaim_Load For_Flush else adv_done For_Flush) c l)"
    using advance_alone[OF assms] by blast
  obtain m' where "m = Suc m'" using m(1) by (cases m) auto
  then show ?thesis unfolding m(2) local_flush_def
    by (auto simp: adv_done_def fine_alone_Rest Let_def split: sum.splits prod.splits)
qed

lemma defer_alone:
  assumes "length (co_registry c) = MAX_THREADS" "2 * MAX_THREADS + 6 \<le> n"
  shows "fine_alone n (Defer_Load d) c l = local_defer d c l"
proof -
  define n' where "n' = n - 1"
  have n: "n = Suc n'" "2 * MAX_THREADS + 5 \<le> n'" using assms(2) by (simp_all add: n'_def)
  obtain m where m: "2 \<le> m" "fine_alone n' (Adv_Load (For_Defer d)) c l =
    (let (moved, c) = try_advance c in fine_alone m (if moved then Reclaim_Load (For_Defer d) else adv_done (For_Defer d)) c l)"
    using advance_alone[OF assms(1) n(2)] by blast
  obtain m' where m': "m = Suc (Suc m')" using m(1) by (cases m; cases "m - 1") auto
  have f: "fine_alone (Suc q) (Fresh_Load d) c l =
     (let g = unat (co_global_epoch c); bags = tl_bags l in
      if g \<ge> length bags then Inl Panic
      else case bag_push d (bags ! g) of Some b \<Rightarrow> Inr ([], c, l\<lparr>tl_bags := bags[g := b]\<rparr>) | None \<Rightarrow> Inr ([d], c, l))" for q c and l :: "'a thread_local"
    by (auto simp: Let_def fine_alone_Rest split: option.splits)
  show ?thesis unfolding n(1) local_defer_def
    by (auto simp: Let_def fine_alone_Rest m(2) m' f adv_done_def split: option.splits sum.splits prod.splits)
qed




section \<open>Threads\<close>

text \<open>
  As in the call-by-call model, the destructor of a deferred object is the time at which \<open>defer\<close> was
  called for it, \<open>fs_pins\<close> holds the time of the store that pinned a thread, and \<open>fs_moves i\<close> counts the
  stores of the epoch up to time \<open>i\<close>; \<open>fs_load\<close> is the time at which a thread last read the epoch for a pin
  or an advance. The clock ticks with every step but the reads of a scan.

  \<open>fs_timely\<close> tells whether every store so far came in time: a thread that pinned had missed at most one
  move since it read the epoch (\<open>fs_pins_timely\<close>), and one that stored a new epoch had missed none (\<open>fs_moves_timely\<close>).
\<close>

record fine_sys =
  fs_col :: collector
  fs_local :: "nat \<Rightarrow> nat thread_local option"
  fs_pc :: "nat \<Rightarrow> nat epc"
  fs_now :: nat
  fs_moves :: "nat \<Rightarrow> nat"
  fs_load :: "nat \<Rightarrow> nat"
  fs_pins :: "nat \<Rightarrow> nat option"
  fs_pins_timely :: bool
  fs_moves_timely :: bool

definition fine_start :: fine_sys where
  "fine_start = \<lparr>fs_col = collector_new, fs_local = (\<lambda>_. None), fs_pc = (\<lambda>_. Rest), fs_now = 0, fs_moves = (\<lambda>_. 0),
     fs_load = (\<lambda>_. 0), fs_pins = (\<lambda>_. None), fs_pins_timely = True, fs_moves_timely = True\<rparr>"

definition clocked :: "nat \<Rightarrow> fine_sys \<Rightarrow> fine_sys" where
  "clocked m s = s\<lparr>fs_now := Suc (fs_now s), fs_moves := (fs_moves s)(Suc (fs_now s) := fs_moves s (fs_now s) + m)\<rparr>"

definition scans :: "'d epc \<Rightarrow> bool" where
  "scans pc = (case pc of Adv_Active _ _ _ \<Rightarrow> True | Adv_Epoch _ _ _ \<Rightarrow> True | _ \<Rightarrow> False)"

definition after_access :: "nat \<Rightarrow> nat epc \<Rightarrow> collector \<Rightarrow> nat thread_local \<Rightarrow> fine_sys \<Rightarrow> fine_sys" where
  "after_access t pc c l s =
     (let old = fs_pc s t; m = fs_moves s (fs_now s); i = Suc (fs_now s) in
      (clocked (case old of Adv_Store _ _ \<Rightarrow> 1 | _ \<Rightarrow> 0) s)\<lparr>
        fs_col := c, fs_local := (fs_local s)(t \<mapsto> l), fs_pc := (fs_pc s)(t := pc),
        fs_load := (case old of Pin_Load \<Rightarrow> (fs_load s)(t := i) | Adv_Load _ \<Rightarrow> (fs_load s)(t := i) | _ \<Rightarrow> fs_load s),
        fs_pins := (case old of Pin_Store _ \<Rightarrow> (fs_pins s)(t \<mapsto> i) | Unpin_Store \<Rightarrow> (fs_pins s)(t := None) | _ \<Rightarrow> fs_pins s),
        fs_pins_timely := (fs_pins_timely s \<and> (case old of Pin_Store _ \<Rightarrow> m \<le> fs_moves s (fs_load s t) + 1 | _ \<Rightarrow> True)),
        fs_moves_timely := (fs_moves_timely s \<and> (case old of Adv_Store _ _ \<Rightarrow> m = fs_moves s (fs_load s t) | _ \<Rightarrow> True))\<rparr>)"

definition fs_timely :: "fine_sys \<Rightarrow> bool" where
  "fs_timely s \<longleftrightarrow> fs_pins_timely s \<and> fs_moves_timely s"

inductive fine_step :: "fine_sys \<Rightarrow> fine_sys \<Rightarrow> bool" where
  f_register: "local_new (fs_col s) = Inr (l, c) \<Longrightarrow>
    fine_step s ((clocked 0 s)\<lparr>fs_col := c, fs_local := (fs_local s)(tl_index l \<mapsto> l)\<rparr>)"
| f_pin: "fs_local s t = Some l \<Longrightarrow> fs_pc s t = Rest \<Longrightarrow> fs_pins s t = None \<Longrightarrow> fine_step s (s\<lparr>fs_pc := (fs_pc s)(t := Pin_Load)\<rparr>)"
| f_unpin: "fs_pc s t = Rest \<Longrightarrow> fs_pins s t = Some p \<Longrightarrow> fine_step s (s\<lparr>fs_pc := (fs_pc s)(t := Unpin_Store)\<rparr>)"
| f_defer: "fs_local s t = Some l \<Longrightarrow> fs_pc s t = Rest \<Longrightarrow>
    fine_step s ((clocked 0 s)\<lparr>fs_pc := (fs_pc s)(t := Defer_Load \<lparr>df_ptr = ptr, df_dtor = Suc (fs_now s)\<rparr>)\<rparr>)"
| f_flush: "fs_local s t = Some l \<Longrightarrow> fs_pc s t = Rest \<Longrightarrow> fine_step s (s\<lparr>fs_pc := (fs_pc s)(t := Adv_Load For_Flush)\<rparr>)"
| f_scan: "fs_local s t = Some l \<Longrightarrow> scans (fs_pc s t) \<Longrightarrow> fine_access (fs_pc s t) (fs_col s) l = Inr (pc, c, l', freed) \<Longrightarrow>
    fine_step s (s\<lparr>fs_pc := (fs_pc s)(t := pc)\<rparr>)"
| f_run: "fs_local s t = Some l \<Longrightarrow> fs_pc s t \<noteq> Rest \<Longrightarrow> \<not> scans (fs_pc s t) \<Longrightarrow>
    fine_access (fs_pc s t) (fs_col s) l = Inr (pc, c, l', freed) \<Longrightarrow> fine_step s (after_access t pc c l' s)"

inductive fine_reach :: "fine_sys \<Rightarrow> bool" where
  fine_init: "fine_reach fine_start"
| fine_more: "fine_reach s \<Longrightarrow> fine_step s s' \<Longrightarrow> fine_reach s'"


section \<open>The invariant\<close>

definition bags_fine :: "(nat \<Rightarrow> nat) \<Rightarrow> nat \<Rightarrow> nat bag list \<Rightarrow> bool" where
  "bags_fine moves now bags \<longleftrightarrow> length bags = 3 \<and>
     (\<forall>i<3. \<forall>x\<in>set (bg_items (bags ! i)). \<exists>l\<le>now. df_dtor x \<le> l \<and> moves l mod 3 = i)"

definition local_fine :: "(nat \<Rightarrow> nat) \<Rightarrow> nat \<Rightarrow> thread_state list \<Rightarrow> nat \<Rightarrow> nat thread_local \<Rightarrow> bool" where
  "local_fine moves now reg t l \<longleftrightarrow> tl_index l = t \<and> t < MAX_THREADS \<and> ts_active (reg ! t) \<noteq> 0 \<and> bags_fine moves now (tl_bags l)"

text \<open>The epoch is at most one move beyond the pin, and the pinned value at most one move before it.\<close>

definition pin_fine :: "(nat \<Rightarrow> nat) \<Rightarrow> nat \<Rightarrow> thread_state list \<Rightarrow> nat \<Rightarrow> nat \<Rightarrow> bool" where
  "pin_fine moves now reg t p \<longleftrightarrow> p \<le> now \<and> moves now \<le> moves p + 1 \<and>
     (\<exists>l\<le>p. ts_epoch (reg ! t) = epoch_at moves l \<and> moves p \<le> moves l + 1)"

text \<open>What a scan that read \<open>cur\<close> at time \<open>ld\<close> knows of the slots before \<open>i\<close>: who is pinned there pinned later, or has pinned \<open>cur\<close>.\<close>

definition seen :: "thread_state list \<Rightarrow> (nat \<Rightarrow> nat option) \<Rightarrow> nat \<Rightarrow> u64 \<Rightarrow> nat \<Rightarrow> bool" where
  "seen reg pins ld cur i \<longleftrightarrow> (\<forall>u p. pins u = Some p \<longrightarrow> u < i \<longrightarrow> ld < p \<or> ts_epoch (reg ! u) = cur)"

definition called :: "nat \<Rightarrow> nat purpose \<Rightarrow> bool" where
  "called now k = (case k of For_Flush \<Rightarrow> True | For_Defer d \<Rightarrow> df_dtor d \<le> now)"

fun pc_fine :: "(nat \<Rightarrow> nat) \<Rightarrow> nat \<Rightarrow> thread_state list \<Rightarrow> (nat \<Rightarrow> nat option) \<Rightarrow> nat \<Rightarrow> nat option \<Rightarrow> nat epc \<Rightarrow> bool" where
  "pc_fine moves now reg pins ld pin Pin_Load = (pin = None)"
| "pc_fine moves now reg pins ld pin (Pin_Store g) = (pin = None \<and> ld \<le> now \<and> g = epoch_at moves ld)"
| "pc_fine moves now reg pins ld pin (Defer_Load d) = (df_dtor d \<le> now)"
| "pc_fine moves now reg pins ld pin (Fresh_Load d) = (df_dtor d \<le> now)"
| "pc_fine moves now reg pins ld pin (Adv_Load k) = called now k"
| "pc_fine moves now reg pins ld pin (Adv_Active k cur i) = (called now k \<and> ld \<le> now \<and> cur = epoch_at moves ld \<and> seen reg pins ld cur i)"
| "pc_fine moves now reg pins ld pin (Adv_Epoch k cur i) = (called now k \<and> ld \<le> now \<and> cur = epoch_at moves ld \<and> seen reg pins ld cur i)"
| "pc_fine moves now reg pins ld pin (Adv_Store k cur) = (called now k \<and> ld \<le> now \<and> cur = epoch_at moves ld \<and> seen reg pins ld cur MAX_THREADS)"
| "pc_fine moves now reg pins ld pin (Reclaim_Load k) = called now k"
| "pc_fine moves now reg pins ld pin pc = True"

definition fine_inv :: "fine_sys \<Rightarrow> bool" where
  "fine_inv s \<longleftrightarrow> (\<forall>i j. i \<le> j \<longrightarrow> j \<le> fs_now s \<longrightarrow> fs_moves s i \<le> fs_moves s j) \<and>
     co_global_epoch (fs_col s) = epoch_at (fs_moves s) (fs_now s) \<and> length (co_registry (fs_col s)) = MAX_THREADS \<and>
     (\<forall>t l. fs_local s t = Some l \<longrightarrow> local_fine (fs_moves s) (fs_now s) (co_registry (fs_col s)) t l) \<and>
     (\<forall>t p. fs_pins s t = Some p \<longrightarrow> fs_local s t \<noteq> None \<and> pin_fine (fs_moves s) (fs_now s) (co_registry (fs_col s)) t p) \<and>
     (\<forall>t. pc_fine (fs_moves s) (fs_now s) (co_registry (fs_col s)) (fs_pins s) (fs_load s t) (fs_pins s t) (fs_pc s t))"

lemma fine_invD:
  assumes "fine_inv s"
  shows "i \<le> j \<Longrightarrow> j \<le> fs_now s \<Longrightarrow> fs_moves s i \<le> fs_moves s j"
    and "co_global_epoch (fs_col s) = epoch_at (fs_moves s) (fs_now s)" "length (co_registry (fs_col s)) = MAX_THREADS"
    and "fs_local s t = Some l \<Longrightarrow> local_fine (fs_moves s) (fs_now s) (co_registry (fs_col s)) t l"
    and "fs_pins s t = Some p \<Longrightarrow> fs_local s t \<noteq> None \<and> pin_fine (fs_moves s) (fs_now s) (co_registry (fs_col s)) t p"
    and "pc_fine (fs_moves s) (fs_now s) (co_registry (fs_col s)) (fs_pins s) (fs_load s t) (fs_pins s t) (fs_pc s t)"
  using assms unfolding fine_inv_def by blast+

text \<open>The clock ticks.\<close>

lemma epoch_at_later: "l \<le> now \<Longrightarrow> epoch_at (moves(Suc now := m)) l = epoch_at moves l"
  by (simp add: epoch_at_def)

lemma bags_fine_later: "bags_fine moves now bags \<Longrightarrow> bags_fine (moves(Suc now := m)) (Suc now) bags"
  unfolding bags_fine_def by (metis fun_upd_other le_SucI Suc_n_not_le_n)

lemma local_fine_later: "local_fine moves now reg t l \<Longrightarrow> local_fine (moves(Suc now := m)) (Suc now) reg t l"
  by (simp add: local_fine_def bags_fine_later)

lemma pin_fine_later:
  assumes "pin_fine moves now reg t p" "m \<le> moves p + 1"
  shows "pin_fine (moves(Suc now := m)) (Suc now) reg t p"
proof -
  obtain l where l: "p \<le> now" "l \<le> p" "ts_epoch (reg ! t) = epoch_at moves l" "moves p \<le> moves l + 1"
    using assms(1) by (auto simp: pin_fine_def)
  then show ?thesis using assms(2) unfolding pin_fine_def by (intro conjI exI[of _ l]) (auto simp: epoch_at_later)
qed

lemma called_later: "called now k \<Longrightarrow> called (Suc now) k"
  by (simp add: called_def split: purpose.splits)

lemma pc_fine_later:
  "pc_fine moves now reg pins ld pin pc \<Longrightarrow> pc_fine (moves(Suc now := m)) (Suc now) reg pins ld pin pc"
  by (cases pc) (auto simp: epoch_at_later called_later)

lemma seen_mono: "seen reg pins ld cur i \<Longrightarrow> j \<le> i \<Longrightarrow> seen reg pins ld cur j"
  by (auto simp: seen_def)


lemma seen_cong:
  "seen reg pins ld cur i \<Longrightarrow> (\<And>u p. pins' u = Some p \<Longrightarrow> ld < p \<or> pins u = Some p \<and> ts_epoch (reg' ! u) = ts_epoch (reg ! u)) \<Longrightarrow>
   seen reg' pins' ld cur i"
  unfolding seen_def by metis

lemma pc_fine_cong:
  assumes "pc_fine moves now reg pins ld pin pc"
    and "\<And>u p. pins' u = Some p \<Longrightarrow> now < p \<or> pins u = Some p \<and> ts_epoch (reg' ! u) = ts_epoch (reg ! u)"
  shows "pc_fine moves now reg' pins' ld pin pc"
proof -
  have "seen reg pins ld cur i \<Longrightarrow> ld \<le> now \<Longrightarrow> seen reg' pins' ld cur i" for cur i
    by (erule seen_cong) (use assms(2) in fastforce)
  then show ?thesis using assms(1) by (cases pc) auto
qed

lemma local_fine_cong:
  "local_fine moves now reg t l \<Longrightarrow> (ts_active (reg ! t) \<noteq> 0 \<Longrightarrow> ts_active (reg' ! t) \<noteq> 0) \<Longrightarrow> local_fine moves now reg' t l"
  by (simp add: local_fine_def)

lemma pin_fine_cong: "pin_fine moves now reg t p \<Longrightarrow> ts_epoch (reg' ! t) = ts_epoch (reg ! t) \<Longrightarrow> pin_fine moves now reg' t p"
  by (simp add: pin_fine_def)

text \<open>A step that pins and unpins nobody.\<close>

lemma fine_inv_quiet:
  assumes inv: "fine_inv s" and clock: "fs_now s' = Suc (fs_now s)" "fs_moves s' = (fs_moves s)(Suc (fs_now s) := m)"
    and move: "fs_moves s (fs_now s) \<le> m" "\<And>u p. fs_pins s u = Some p \<Longrightarrow> m \<le> fs_moves s p + 1"
    and glob: "co_global_epoch (fs_col s') = epoch_at (\<lambda>_. m) 0"
    and reg: "length (co_registry (fs_col s')) = MAX_THREADS"
      "\<And>i. i < MAX_THREADS \<Longrightarrow> ts_epoch (co_registry (fs_col s') ! i) = ts_epoch (co_registry (fs_col s) ! i)"
      "\<And>i. i < MAX_THREADS \<Longrightarrow> ts_active (co_registry (fs_col s) ! i) \<noteq> 0 \<Longrightarrow> ts_active (co_registry (fs_col s') ! i) \<noteq> 0"
    and loc: "\<And>t l. fs_local s' t = Some l \<Longrightarrow> fs_local s t = Some l \<or> local_fine (fs_moves s) (fs_now s) (co_registry (fs_col s')) t l"
      "\<And>t. fs_local s t \<noteq> None \<Longrightarrow> fs_local s' t \<noteq> None"
    and pins: "fs_pins s' = fs_pins s"
    and pcs: "\<And>t. fs_pc s' t = fs_pc s t \<and> fs_load s' t = fs_load s t \<or>
      pc_fine (fs_moves s') (fs_now s') (co_registry (fs_col s')) (fs_pins s') (fs_load s' t) (fs_pins s' t) (fs_pc s' t)"
  shows "fine_inv s'"
  unfolding fine_inv_def
proof (intro conjI allI impI)
  fix i j
  assume "i \<le> j" "j \<le> fs_now s'"
  then show "fs_moves s' i \<le> fs_moves s' j"
    using fine_invD(1)[OF inv, of i j] fine_invD(1)[OF inv, of i "fs_now s"] move(1) unfolding clock by (cases "j = Suc (fs_now s)") auto
next
  show "co_global_epoch (fs_col s') = epoch_at (fs_moves s') (fs_now s')" using glob unfolding clock by (simp add: epoch_at_def)
  show "length (co_registry (fs_col s')) = MAX_THREADS" by (rule reg)
next
  fix t l
  assume "fs_local s' t = Some l"
  then have "local_fine (fs_moves s) (fs_now s) (co_registry (fs_col s')) t l"
    using loc(1) local_fine_cong[OF fine_invD(4)[OF inv]] reg(3) fine_invD(4)[OF inv] by (metis local_fine_def)
  then show "local_fine (fs_moves s') (fs_now s') (co_registry (fs_col s')) t l" unfolding clock by (rule local_fine_later)
next
  fix t p
  assume "fs_pins s' t = Some p"
  then have p: "fs_pins s t = Some p" by (simp add: pins)
  have b: "t < MAX_THREADS" using fine_invD(5)[OF inv p] fine_invD(4)[OF inv] by (auto simp: local_fine_def)
  show "fs_local s' t \<noteq> None" using fine_invD(5)[OF inv p] loc(2) by blast
  show "pin_fine (fs_moves s') (fs_now s') (co_registry (fs_col s')) t p"
    using pin_fine_later[OF pin_fine_cong[OF conjunct2[OF fine_invD(5)[OF inv p]] reg(2)[OF b]] move(2)[OF p]] unfolding clock .
next
  fix t
  have "pc_fine (fs_moves s) (fs_now s) (co_registry (fs_col s')) (fs_pins s) (fs_load s t) (fs_pins s t) (fs_pc s t)"
  proof (rule pc_fine_cong[OF fine_invD(6)[OF inv]])
    fix u p
    assume "fs_pins s u = Some p"
    then have "u < MAX_THREADS" using fine_invD(5)[OF inv] fine_invD(4)[OF inv] by (fastforce simp: local_fine_def)
    then show "fs_now s < p \<or> fs_pins s u = Some p \<and> ts_epoch (co_registry (fs_col s') ! u) = ts_epoch (co_registry (fs_col s) ! u)"
      using \<open>fs_pins s u = Some p\<close> reg(2) by blast
  qed
  from pc_fine_later[OF this] show "pc_fine (fs_moves s') (fs_now s') (co_registry (fs_col s')) (fs_pins s') (fs_load s' t) (fs_pins s' t) (fs_pc s' t)"
    using pcs[of t] unfolding clock pins by metis
qed


lemma fine_inv_pc:
  assumes "fine_inv s" "pc_fine (fs_moves s) (fs_now s) (co_registry (fs_col s)) (fs_pins s) (fs_load s t) (fs_pins s t) pc"
  shows "fine_inv (s\<lparr>fs_pc := (fs_pc s)(t := pc)\<rparr>)"
  using assms by (auto simp: fine_inv_def)

text \<open>A store to the slot of one thread, that pins or unpins it.\<close>

lemma fine_inv_slot:
  assumes inv: "fine_inv s" and l: "fs_local s t = Some l"
    and pin: "q = None \<or> q = Some (Suc (fs_now s)) \<and> e = epoch_at (fs_moves s) ld \<and> ld \<le> fs_now s \<and>
      fs_moves s (fs_now s) \<le> fs_moves s ld + 1"
  shows "fine_inv ((clocked 0 s)\<lparr>fs_col := (fs_col s)\<lparr>co_registry := (co_registry (fs_col s))[t := (co_registry (fs_col s) ! t)\<lparr>ts_epoch := e\<rparr>]\<rparr>,
    fs_local := (fs_local s)(t \<mapsto> l), fs_pc := (fs_pc s)(t := Rest), fs_pins := (fs_pins s)(t := q)\<rparr>)" (is "fine_inv ?s")
proof -
  let ?reg = "co_registry (fs_col s)" and ?M = "fs_moves s" and ?n = "fs_now s"
  let ?reg' = "?reg[t := (?reg ! t)\<lparr>ts_epoch := e\<rparr>]" and ?M' = "(fs_moves s)(Suc (fs_now s) := fs_moves s (fs_now s))"
  have len: "length ?reg = MAX_THREADS" by (rule fine_invD(3)[OF inv])
  have t: "t < length ?reg" using fine_invD(4)[OF inv l] len by (simp add: local_fine_def)
  have act: "ts_active (?reg' ! u) = ts_active (?reg ! u)" for u using t by (cases "u = t") simp_all
  have loc: "local_fine ?M' (Suc ?n) ?reg' u k" if "fs_local s u = Some k" for u k
    using local_fine_later[OF local_fine_cong[OF fine_invD(4)[OF inv that]]] act by simp
  have other: "pin_fine ?M' (Suc ?n) ?reg' u p" if "fs_pins s u = Some p" "u \<noteq> t" for u p
    using pin_fine_later[OF pin_fine_cong[OF conjunct2[OF fine_invD(5)[OF inv that(1)]]]] that(2) fine_invD(5)[OF inv that(1)]
    by (simp add: pin_fine_def)
  have own: "pin_fine ?M' (Suc ?n) ?reg' t p" if "q = Some p" for p
    unfolding pin_fine_def using pin that t by (intro conjI exI[of _ ld]) (auto simp: epoch_at_later)
  have "pc_fine ?M ?n ?reg' ((fs_pins s)(t := q)) (fs_load s u) (fs_pins s u) (fs_pc s u)" for u
    by (rule pc_fine_cong[OF fine_invD(6)[OF inv]]) (use pin in \<open>auto split: if_splits\<close>)
  note pcs = pc_fine_later[OF this, where m = "fs_moves s (fs_now s)"]
  have mono: "?M' i \<le> ?M' j" if "i \<le> j" "j \<le> Suc ?n" for i j
    using fine_invD(1)[OF inv, of i j] fine_invD(1)[OF inv, of i ?n] that by (cases "j = Suc ?n") auto
  have glob: "co_global_epoch (fs_col s) = epoch_at ?M' (Suc ?n)" using fine_invD(2)[OF inv] by (simp add: epoch_at_def)
  show ?thesis unfolding fine_inv_def
    using mono glob len loc l other own pcs fine_invD(5)[OF inv]
    by (auto simp: clocked_def)
qed

text \<open>Bags.\<close>

lemma bags_fine_upd:
  assumes "bags_fine moves now bags" "i < 3"
    and "\<And>x. x \<in> set (bg_items b) \<Longrightarrow> x \<in> set (bg_items (bags ! i)) \<or> (\<exists>l\<le>now. df_dtor x \<le> l \<and> moves l mod 3 = i)"
  shows "bags_fine moves now (bags[i := b])"
  using assms unfolding bags_fine_def by (auto simp: nth_list_update)

lemma bags_fine_push:
  assumes "bags_fine moves now bags" "df_dtor d \<le> now" "bag_push d (bags ! (moves now mod 3)) = Some b"
  shows "bags_fine moves now (bags[moves now mod 3 := b])"
  using assms(2,3) by (intro bags_fine_upd[OF assms(1)]) (auto simp: bag_push_def split: if_splits)

lemma reclaim_fine:
  assumes "bags_fine moves now bags" "co_global_epoch c = epoch_at moves now" "reclaim_old c bags = Inr (freed, bags')"
  shows "bags_fine moves now bags'" "x \<in> set freed \<Longrightarrow> \<exists>l\<le>now. df_dtor x \<le> l \<and> moves l mod 3 = Suc (moves now) mod 3"
proof -
  let ?i = "Suc (moves now) mod 3"
  have "unat ((co_global_epoch c + 1) mod 3) = ?i"
    using next_epoch[of moves now] unat_epoch_at[of "\<lambda>_. Suc (moves now)" 0] assms(2) by (simp add: epoch_at_def)
  then have r: "freed = bg_items (bags ! ?i)" "bags' = bags[?i := (bags ! ?i)\<lparr>bg_items := []\<rparr>]"
    using assms(1,3) by (auto simp: reclaim_old_def bag_reclaim_all_def Let_def bags_fine_def split: if_splits)
  show "bags_fine moves now bags'" unfolding r(2) by (rule bags_fine_upd[OF assms(1)]) simp_all
  show "\<exists>l\<le>now. df_dtor x \<le> l \<and> moves l mod 3 = ?i" if "x \<in> set freed"
    using assms(1) that unfolding r(1) bags_fine_def by simp
qed

lemma mod3_close:
  fixes a b :: nat
  assumes "a mod 3 = b mod 3" "a \<le> b" "b \<le> a + 2"
  shows "a = b"
proof -
  have "3 dvd b - a" using mod_eq_dvd_iff_nat[OF assms(2)] assms(1) by metis
  then show ?thesis using assms(2,3) by (auto dest: dvd_imp_le)
qed

text \<open>A store of the epoch that comes in time finds nobody pinned before the epoch it replaces.\<close>

lemma advance_fine:
  assumes inv: "fine_inv s" and pc: "fs_pc s t = Adv_Store k cur" and "fs_moves s (fs_now s) = fs_moves s (fs_load s t)"
    and pin: "fs_pins s u = Some p"
  shows "fs_moves s (fs_now s) \<le> fs_moves s p"
proof -
  let ?M = "fs_moves s"
  have k: "fs_load s t \<le> fs_now s" "cur = epoch_at ?M (fs_load s t)" "seen (co_registry (fs_col s)) (fs_pins s) (fs_load s t) cur MAX_THREADS"
    using fine_invD(6)[OF inv, of t] unfolding pc pc_fine.simps by blast+
  have "u < MAX_THREADS" using fine_invD(5)[OF inv pin] fine_invD(4)[OF inv] by (auto simp: local_fine_def)
  then consider "fs_load s t < p" | "ts_epoch (co_registry (fs_col s) ! u) = cur" using k(3) pin by (auto simp: seen_def)
  then show ?thesis
  proof cases
    case 1
    then show ?thesis using fine_invD(1)[OF inv, of "fs_load s t" p] fine_invD(5)[OF inv pin] assms(3) by (simp add: pin_fine_def)
  next
    case 2
    obtain l where l: "p \<le> fs_now s" "?M (fs_now s) \<le> ?M p + 1" "l \<le> p" "epoch_at ?M l = cur" "?M p \<le> ?M l + 1"
      using fine_invD(5)[OF inv pin] 2 by (auto simp: pin_fine_def)
    have m: "?M l mod 3 = ?M (fs_now s) mod 3" using l(4) k(2) assms(3) by (simp add: epoch_at_eq)
    have le: "?M l \<le> ?M p" "?M p \<le> ?M (fs_now s)" using fine_invD(1)[OF inv] l(1,3) by auto
    have "?M (fs_now s) \<le> ?M l + 2" using l(2,5) by linarith
    from mod3_close[OF m order_trans[OF le] this] have "?M l = ?M (fs_now s)" .
    then show ?thesis using le by simp
  qed
qed


lemma scan_fine:
  assumes inv: "fine_inv s" and l: "fs_local s t = Some l" and sc: "scans (fs_pc s t)"
    and a: "fine_access (fs_pc s t) (fs_col s) l = Inr (pc, c, l', freed)"
  shows "pc_fine (fs_moves s) (fs_now s) (co_registry (fs_col s)) (fs_pins s) (fs_load s t) (fs_pins s t) pc"
proof -
  let ?reg = "co_registry (fs_col s)"
  have pinned: "ts_active (?reg ! u) \<noteq> 0 \<and> ts_epoch (?reg ! u) \<noteq> UNPINNED" if pin: "fs_pins s u = Some p" for u p
  proof -
    obtain k where "fs_local s u = Some k" using fine_invD(5)[OF inv pin] by blast
    then have "ts_active (?reg ! u) \<noteq> 0" using fine_invD(4)[OF inv] by (simp add: local_fine_def)
    moreover obtain i where "ts_epoch (?reg ! u) = epoch_at (fs_moves s) i" using fine_invD(5)[OF inv pin] by (auto simp: pin_fine_def)
    ultimately show ?thesis using epoch_at_pinned by simp
  qed
  have next_slot: "pc_fine (fs_moves s) (fs_now s) ?reg (fs_pins s) ld pin (adv_slot k cur (Suc i))"
    if "called (fs_now s) k" "ld \<le> fs_now s" "cur = epoch_at (fs_moves s) ld" "seen ?reg (fs_pins s) ld cur i"
      "ts_active (?reg ! i) = 0 \<or> ts_epoch (?reg ! i) = UNPINNED \<or> ts_epoch (?reg ! i) = cur" for k ld pin cur i
  proof -
    have "seen ?reg (fs_pins s) ld cur (Suc i)" unfolding seen_def
    proof (intro allI impI)
      fix u p
      assume u: "fs_pins s u = Some p" "u < Suc i"
      then show "ld < p \<or> ts_epoch (?reg ! u) = cur"
        using that(4,5) pinned[OF u(1)] by (cases "u = i") (simp_all add: seen_def)
    qed
    then show ?thesis using that(1-3) seen_mono[of ?reg "fs_pins s" ld cur "Suc i" MAX_THREADS] by (simp add: adv_slot_def)
  qed
  have finished: "called (fs_now s) k \<Longrightarrow> pc_fine (fs_moves s) (fs_now s) ?reg (fs_pins s) ld pin (adv_done k)" for k ld pin
    by (simp add: adv_done_def called_def split: purpose.splits)
  show ?thesis
  proof (cases "fs_pc s t")
    case (Adv_Active k cur i)
    have "pc = (if ts_active (?reg ! i) \<noteq> 0 then Adv_Epoch k cur i else adv_slot k cur (Suc i))" using a unfolding Adv_Active by auto
    then show ?thesis using fine_invD(6)[OF inv, of t] next_slot[of k "fs_load s t" cur i "fs_pins s t"] unfolding Adv_Active by auto
  next
    case (Adv_Epoch k cur i)
    have "pc = (if ts_epoch (?reg ! i) \<noteq> UNPINNED \<and> ts_epoch (?reg ! i) \<noteq> cur then adv_done k else adv_slot k cur (Suc i))"
      using a unfolding Adv_Epoch by (auto simp: Let_def)
    then show ?thesis using fine_invD(6)[OF inv, of t] next_slot[of k "fs_load s t" cur i "fs_pins s t"] finished[of k] unfolding Adv_Epoch by auto
  qed (use sc in \<open>simp_all add: scans_def\<close>)
qed

text \<open>The steps of a thread that change nothing but its own bags and place.\<close>

lemma fine_inv_own:
  assumes inv: "fine_inv s" and l: "fs_local s t = Some l"
    and bags: "tl_index l' = tl_index l" "bags_fine (fs_moves s) (fs_now s) (tl_bags l')"
    and pc: "pc_fine ((fs_moves s)(Suc (fs_now s) := fs_moves s (fs_now s))) (Suc (fs_now s)) (co_registry (fs_col s)) (fs_pins s) ld (fs_pins s t) pc"
  shows "fine_inv ((clocked 0 s)\<lparr>fs_col := fs_col s, fs_local := (fs_local s)(t \<mapsto> l'), fs_pc := (fs_pc s)(t := pc),
    fs_load := (fs_load s)(t := ld), fs_pins := fs_pins s\<rparr>)" (is "fine_inv ?s")
proof (rule fine_inv_quiet[OF inv, where m = "fs_moves s (fs_now s)"])
  have "local_fine (fs_moves s) (fs_now s) (co_registry (fs_col s)) t l'"
    using fine_invD(4)[OF inv l] bags by (simp add: local_fine_def)
  then show "fs_local s u = Some k \<or> local_fine (fs_moves s) (fs_now s) (co_registry (fs_col ?s)) u k"
    if "fs_local ?s u = Some k" for u k using that by (auto split: if_splits)
  show "fs_moves s (fs_now s) \<le> fs_moves s p + 1" if "fs_pins s u = Some p" for u p
    using fine_invD(5)[OF inv that] by (simp add: pin_fine_def)
  show "co_global_epoch (fs_col ?s) = epoch_at (\<lambda>_. fs_moves s (fs_now s)) 0"
    using fine_invD(2)[OF inv] by (simp add: epoch_at_def)
qed (use pc fine_invD(3)[OF inv] in \<open>simp_all add: clocked_def\<close>)


lemma global_fine:
  assumes "fine_inv s"
  shows "unat (co_global_epoch (fs_col s)) = fs_moves s (fs_now s) mod 3"
  by (simp add: fine_invD(2)[OF assms] unat_epoch_at)

lemma advance_inv:
  assumes inv: "fine_inv s" and l: "fs_local s t = Some l" and pc: "fs_pc s t = Adv_Store k cur"
    and timely: "fs_moves s (fs_now s) = fs_moves s (fs_load s t)"
  shows "fine_inv ((clocked 1 s)\<lparr>fs_col := (fs_col s)\<lparr>co_global_epoch := (cur + 1) mod 3\<rparr>, fs_local := (fs_local s)(t \<mapsto> l),
    fs_pc := (fs_pc s)(t := Reclaim_Load k)\<rparr>)" (is "fine_inv ?s")
proof (rule fine_inv_quiet[OF inv, where m = "Suc (fs_moves s (fs_now s))"])
  have k: "called (fs_now s) k" "cur = epoch_at (fs_moves s) (fs_load s t)"
    using fine_invD(6)[OF inv, of t] unfolding pc pc_fine.simps by blast+
  show "co_global_epoch (fs_col ?s) = epoch_at (\<lambda>_. Suc (fs_moves s (fs_now s))) 0"
    using next_epoch[of "fs_moves s" "fs_load s t"] k(2) timely by (simp add: epoch_at_def)
  show "Suc (fs_moves s (fs_now s)) \<le> fs_moves s p + 1" if "fs_pins s u = Some p" for u p
    using advance_fine[OF inv pc timely that] by simp
  show "fs_pc ?s u = fs_pc s u \<and> fs_load ?s u = fs_load s u \<or>
      pc_fine (fs_moves ?s) (fs_now ?s) (co_registry (fs_col ?s)) (fs_pins ?s) (fs_load ?s u) (fs_pins ?s u) (fs_pc ?s u)" for u
    using called_later[OF k(1)] by (simp add: clocked_def)
qed (use l fine_invD(3)[OF inv] in \<open>auto simp: clocked_def split: if_splits\<close>)

lemma fine_inv_same:
  assumes "fine_inv s" "fs_now s' = fs_now s" "fs_moves s' = fs_moves s" "fs_col s' = fs_col s" "fs_local s' = fs_local s"
    "fs_pc s' = fs_pc s" "fs_load s' = fs_load s" "fs_pins s' = fs_pins s"
  shows "fine_inv s'"
  using assms(1) unfolding fine_inv_def assms(2-) .

lemma run_pin_inv:
  assumes inv: "fine_inv s" and l: "fs_local s t = Some l" and kind: "fs_pc s t \<in> {Pin_Load, Unpin_Store} \<union> range Pin_Store"
    and a: "fine_access (fs_pc s t) (fs_col s) l = Inr (pc, c, l', freed)" and timely: "fs_timely (after_access t pc c l' s)"
  shows "fine_inv (after_access t pc c l' s)"
proof -
  note own = fine_inv_own[OF inv l] and pcf = fine_invD(6)[OF inv, of t]
  have t: "tl_index l = t" and bags: "bags_fine (fs_moves s) (fs_now s) (tl_bags l)"
    using fine_invD(4)[OF inv l] by (simp_all add: local_fine_def)
  show ?thesis
  proof (cases "fs_pc s t")
    case Pin_Load
    have "pc = Pin_Store (co_global_epoch (fs_col s))" "c = fs_col s" "l' = l" using a unfolding Pin_Load by (auto split: if_splits)
    then show ?thesis using pcf bags fine_invD(2)[OF inv] unfolding Pin_Load
      by (intro fine_inv_same[OF own[of l "Suc (fs_now s)" pc]]) (simp_all add: after_access_def clocked_def Let_def epoch_at_def Pin_Load)
  next
    case (Pin_Store g)
    have r: "pc = Rest" "c = (fs_col s)\<lparr>co_registry := (co_registry (fs_col s))[t := (co_registry (fs_col s) ! t)\<lparr>ts_epoch := g\<rparr>]\<rparr>" "l' = l"
      using a t unfolding Pin_Store by auto
    have "fs_load s t \<le> fs_now s" "g = epoch_at (fs_moves s) (fs_load s t)" using pcf unfolding Pin_Store pc_fine.simps by blast+
    moreover have "fs_moves s (fs_now s) \<le> fs_moves s (fs_load s t) + 1" using timely by (simp add: after_access_def Let_def Pin_Store fs_timely_def)
    ultimately show ?thesis unfolding r
      by (intro fine_inv_same[OF fine_inv_slot[OF inv l, of "Some (Suc (fs_now s))" g "fs_load s t"]]) (simp_all add: after_access_def clocked_def Let_def Pin_Store)
  next
    case Unpin_Store
    have r: "pc = Rest" "c = guard_drop t (fs_col s)" "l' = l" using a t unfolding Unpin_Store by auto
    then show ?thesis unfolding r
      by (intro fine_inv_same[OF fine_inv_slot[OF inv l, of None UNPINNED]]) (simp_all add: after_access_def clocked_def Let_def Unpin_Store guard_drop_def)
  qed (use kind in auto)
qed

lemma run_advance_inv:
  assumes inv: "fine_inv s" and l: "fs_local s t = Some l" and kind: "fs_pc s t \<in> range Adv_Load \<union> range (case_prod Adv_Store)"
    and a: "fine_access (fs_pc s t) (fs_col s) l = Inr (pc, c, l', freed)" and timely: "fs_timely (after_access t pc c l' s)"
  shows "fine_inv (after_access t pc c l' s)"
proof -
  note own = fine_inv_own[OF inv l] and pcf = fine_invD(6)[OF inv, of t]
  have t: "tl_index l = t" and bags: "bags_fine (fs_moves s) (fs_now s) (tl_bags l)"
    using fine_invD(4)[OF inv l] by (simp_all add: local_fine_def)
  show ?thesis
  proof (cases "fs_pc s t")
    case (Adv_Load k)
    have r: "pc = Adv_Active k (co_global_epoch (fs_col s)) 0" "c = fs_col s" "l' = l"
      using a unfolding Adv_Load by (auto simp: adv_slot_def MAX_THREADS_def)
    have "called (Suc (fs_now s)) k" using pcf called_later unfolding Adv_Load by simp
    then show ?thesis unfolding r using bags fine_invD(2)[OF inv]
      by (intro fine_inv_same[OF own[of l "Suc (fs_now s)" pc]]) (simp_all add: after_access_def clocked_def Let_def epoch_at_def Adv_Load r seen_def)
  next
    case (Adv_Store k cur)
    have r: "pc = Reclaim_Load k" "c = (fs_col s)\<lparr>co_global_epoch := (cur + 1) mod 3\<rparr>" "l' = l" using a unfolding Adv_Store by auto
    have "fs_moves s (fs_now s) = fs_moves s (fs_load s t)" using timely by (simp add: after_access_def Let_def Adv_Store fs_timely_def)
    then show ?thesis unfolding r
      by (intro fine_inv_same[OF advance_inv[OF inv l Adv_Store]]) (simp_all add: after_access_def clocked_def Let_def Adv_Store)
  qed (use kind in auto)
qed

lemma run_bag_inv:
  assumes inv: "fine_inv s" and l: "fs_local s t = Some l" and kind: "fs_pc s t \<in> range Defer_Load \<union> range Fresh_Load \<union> range Reclaim_Load"
    and a: "fine_access (fs_pc s t) (fs_col s) l = Inr (pc, c, l', freed)" and timely: "fs_timely (after_access t pc c l' s)"
  shows "fine_inv (after_access t pc c l' s)"
proof -
  note own = fine_inv_own[OF inv l] and pcf = fine_invD(6)[OF inv, of t]
  have t: "tl_index l = t" and bags: "bags_fine (fs_moves s) (fs_now s) (tl_bags l)"
    using fine_invD(4)[OF inv l] by (simp_all add: local_fine_def)
  have done_fine: "called (fs_now s) k \<Longrightarrow> pc_fine M (Suc (fs_now s)) reg pins ld pin (adv_done k)" for k M reg pins ld pin
    by (simp add: adv_done_def called_def split: purpose.splits)
  show ?thesis
  proof (cases "fs_pc s t")
    case (Defer_Load d)
    have d: "df_dtor d \<le> fs_now s" using pcf unfolding Defer_Load by simp
    from a global_fine[OF inv] consider b where "bag_push d (tl_bags l ! (fs_moves s (fs_now s) mod 3)) = Some b" "pc = Rest" "c = fs_col s"
        "l' = l\<lparr>tl_bags := (tl_bags l)[fs_moves s (fs_now s) mod 3 := b]\<rparr>"
      | "pc = Adv_Load (For_Defer d)" "c = fs_col s" "l' = l"
      unfolding Defer_Load by (auto simp: Let_def split: if_splits option.splits)
    then show ?thesis using d bags bags_fine_push[OF bags d]
      by cases (rule fine_inv_same[OF own[of l' "fs_load s t" pc]]; simp add: after_access_def clocked_def Let_def Defer_Load called_def)+
  next
    case (Fresh_Load d)
    have d: "df_dtor d \<le> fs_now s" using pcf unfolding Fresh_Load by simp
    from a global_fine[OF inv] consider b where "bag_push d (tl_bags l ! (fs_moves s (fs_now s) mod 3)) = Some b" "pc = Rest" "c = fs_col s"
        "l' = l\<lparr>tl_bags := (tl_bags l)[fs_moves s (fs_now s) mod 3 := b]\<rparr>"
      | "pc = Rest" "c = fs_col s" "l' = l"
      unfolding Fresh_Load by (auto simp: Let_def split: if_splits option.splits)
    then show ?thesis using bags bags_fine_push[OF bags d]
      by cases (rule fine_inv_same[OF own[of l' "fs_load s t" pc]]; simp add: after_access_def clocked_def Let_def Fresh_Load)+
  next
    case (Reclaim_Load k)
    obtain bags' where r: "reclaim_old (fs_col s) (tl_bags l) = Inr (freed, bags')" "pc = adv_done k" "c = fs_col s" "l' = l\<lparr>tl_bags := bags'\<rparr>"
      using a unfolding Reclaim_Load by (auto split: sum.splits)
    have "called (fs_now s) k" using pcf unfolding Reclaim_Load by simp
    then show ?thesis using reclaim_fine(1)[OF bags fine_invD(2)[OF inv] r(1)] done_fine[of k]
      by (intro fine_inv_same[OF own[of l' "fs_load s t" pc]]) (simp_all add: after_access_def clocked_def Let_def Reclaim_Load r)
  qed (use kind in auto)
qed

lemma run_inv:
  assumes "fine_inv s" "fs_local s t = Some l" "fs_pc s t \<noteq> Rest" "\<not> scans (fs_pc s t)"
    and "fine_access (fs_pc s t) (fs_col s) l = Inr (pc, c, l', freed)" "fs_timely (after_access t pc c l' s)"
  shows "fine_inv (after_access t pc c l' s)"
proof -
  have "fs_pc s t \<in> {Pin_Load, Unpin_Store} \<union> range Pin_Store \<or> fs_pc s t \<in> range Adv_Load \<union> range (case_prod Adv_Store) \<or>
      fs_pc s t \<in> range Defer_Load \<union> range Fresh_Load \<union> range Reclaim_Load"
    using assms(3,4) by (cases "fs_pc s t") (auto simp: scans_def image_iff)
  then show ?thesis
    using run_pin_inv[OF assms(1,2) _ assms(5,6)] run_advance_inv[OF assms(1,2) _ assms(5,6)] run_bag_inv[OF assms(1,2) _ assms(5,6)] by blast
qed

lemma register_inv:
  assumes inv: "fine_inv s" and new: "local_new (fs_col s) = Inr (l, c)"
  shows "fine_inv ((clocked 0 s)\<lparr>fs_col := c, fs_local := (fs_local s)(tl_index l \<mapsto> l)\<rparr>)" (is "fine_inv ?s")
proof (rule fine_inv_quiet[OF inv, where m = "fs_moves s (fs_now s)"])
  let ?reg = "co_registry (fs_col s)"
  from new obtain i where i: "i < MAX_THREADS" "l = \<lparr>tl_index = i, tl_bags = [bag_new, bag_new, bag_new]\<rparr>"
    "c = (fs_col s)\<lparr>co_registry := ?reg[i := (?reg ! i)\<lparr>ts_active := 1\<rparr>]\<rparr>"
    by (auto simp: local_new_def ebr_register_def find_Some_iff split: sum.splits option.splits)
  have len: "length ?reg = MAX_THREADS" by (rule fine_invD(3)[OF inv])
  have "bags_fine (fs_moves s) (fs_now s) [bag_new, bag_new, bag_new]"
    by (auto simp: bags_fine_def bag_new_def nth_Cons' split: if_splits)
  then have "local_fine (fs_moves s) (fs_now s) (co_registry c) i l" using i len by (simp add: local_fine_def)
  then show "fs_local s u = Some k \<or> local_fine (fs_moves s) (fs_now s) (co_registry (fs_col ?s)) u k" if "fs_local ?s u = Some k" for u k
    using that i(2) by (auto split: if_splits)
  show "length (co_registry (fs_col ?s)) = MAX_THREADS" using len i(3) by simp
  show "ts_epoch (co_registry (fs_col ?s) ! j) = ts_epoch (?reg ! j)" "ts_active (?reg ! j) \<noteq> 0 \<Longrightarrow> ts_active (co_registry (fs_col ?s) ! j) \<noteq> 0" if "j < MAX_THREADS" for j
    using that len i(3) by (cases "j = i"; simp)+
  show "co_global_epoch (fs_col ?s) = epoch_at (\<lambda>_. fs_moves s (fs_now s)) 0" using fine_invD(2)[OF inv] i(3) by (simp add: epoch_at_def)
  show "fs_moves s (fs_now s) \<le> fs_moves s p + 1" if "fs_pins s u = Some p" for u p
    using fine_invD(5)[OF inv that] by (simp add: pin_fine_def)
qed (simp_all add: clocked_def)

lemma fine_step_inv:
  assumes "fine_step s s'" "fs_timely s'" "fs_timely s \<Longrightarrow> fine_inv s"
  shows "fine_inv s'"
  using assms(1)
proof cases
  case (f_register l c)
  then show ?thesis using register_inv assms(2,3) by (simp add: clocked_def fs_timely_def)
next
  case (f_pin t l)
  then show ?thesis using fine_inv_pc[of s t Pin_Load] assms(2,3) by (simp add: fs_timely_def)
next
  case (f_unpin t p)
  then show ?thesis using fine_inv_pc[of s t Unpin_Store] assms(2,3) by (simp add: fs_timely_def)
next
  case (f_defer t l ptr)
  have inv: "fine_inv s" using f_defer assms(2,3) by (simp add: clocked_def fs_timely_def)
  show ?thesis
    by (rule fine_inv_same[OF fine_inv_own[OF inv f_defer(2), of l "fs_load s t" "Defer_Load \<lparr>df_ptr = ptr, df_dtor = Suc (fs_now s)\<rparr>"]])
      (use fine_invD(4)[OF inv f_defer(2)] f_defer(1,2) in \<open>auto simp: clocked_def local_fine_def\<close>)
next
  case (f_flush t l)
  then show ?thesis using fine_inv_pc[of s t "Adv_Load For_Flush"] assms(2,3) by (simp add: called_def fs_timely_def)
next
  case (f_scan t l pc c l' freed)
  then show ?thesis using fine_inv_pc[of s t pc] scan_fine[of s t] assms(2,3) by (simp add: fs_timely_def)
next
  case (f_run t l pc c l' freed)
  then have "fs_timely s" using assms(2) by (simp add: after_access_def Let_def fs_timely_def)
  then show ?thesis using f_run run_inv[of s t] assms(2,3) by blast
qed

lemma fine_reach_inv: "fine_reach s \<Longrightarrow> fs_timely s \<Longrightarrow> fine_inv s"
proof (induction rule: fine_reach.induct)
  case fine_init
  then show ?case by (simp add: fine_inv_def fine_start_def epoch_at_def collector_new_def)
next
  case (fine_more s s')
  then show ?case using fine_step_inv by blast
qed

section \<open>Schedules\<close>

text \<open>Steps by name; \<open>Ev_Scan\<close> is all the reads of a scan that finds nobody in its way.\<close>

datatype fine_event = Ev_Register | Ev_Pin nat | Ev_Defer nat nat | Ev_Flush nat | Ev_Scan nat | Ev_Run nat

definition passes :: "u64 \<Rightarrow> thread_state \<Rightarrow> bool" where
  "passes cur t \<longleftrightarrow> ts_active t = 0 \<or> ts_epoch t = UNPINNED \<or> ts_epoch t = cur"

definition fine_do :: "fine_event \<Rightarrow> fine_sys \<Rightarrow> fine_sys option" where
  "fine_do x s = (case x of
       Ev_Register \<Rightarrow> (case local_new (fs_col s) of Inl _ \<Rightarrow> None
         | Inr (l, c) \<Rightarrow> Some ((clocked 0 s)\<lparr>fs_col := c, fs_local := (fs_local s)(tl_index l \<mapsto> l)\<rparr>))
     | Ev_Pin t \<Rightarrow> if fs_local s t \<noteq> None \<and> fs_pc s t = Rest \<and> fs_pins s t = None then Some (s\<lparr>fs_pc := (fs_pc s)(t := Pin_Load)\<rparr>) else None
     | Ev_Defer t ptr \<Rightarrow> if fs_local s t \<noteq> None \<and> fs_pc s t = Rest
         then Some ((clocked 0 s)\<lparr>fs_pc := (fs_pc s)(t := Defer_Load \<lparr>df_ptr = ptr, df_dtor = Suc (fs_now s)\<rparr>)\<rparr>) else None
     | Ev_Flush t \<Rightarrow> if fs_local s t \<noteq> None \<and> fs_pc s t = Rest then Some (s\<lparr>fs_pc := (fs_pc s)(t := Adv_Load For_Flush)\<rparr>) else None
     | Ev_Scan t \<Rightarrow> (case fs_pc s t of
           Adv_Active k cur i \<Rightarrow> if fs_local s t \<noteq> None \<and> i = 0 \<and> list_all (passes cur) (co_registry (fs_col s))
             then Some (s\<lparr>fs_pc := (fs_pc s)(t := Adv_Store k cur)\<rparr>) else None
         | _ \<Rightarrow> None)
     | Ev_Run t \<Rightarrow> (case fs_local s t of None \<Rightarrow> None | Some l \<Rightarrow>
         if fs_pc s t = Rest \<or> scans (fs_pc s t) then None
         else case fine_access (fs_pc s t) (fs_col s) l of Inl _ \<Rightarrow> None | Inr (pc, c, l', _) \<Rightarrow> Some (after_access t pc c l' s)))"

fun fine_run :: "fine_event list \<Rightarrow> fine_sys \<Rightarrow> fine_sys option" where
  "fine_run [] s = Some s"
| "fine_run (x # xs) s = (case fine_do x s of None \<Rightarrow> None | Some s \<Rightarrow> fine_run xs s)"

lemma fine_registry: "fine_reach s \<Longrightarrow> length (co_registry (fs_col s)) = MAX_THREADS"
proof (induction rule: fine_reach.induct)
  case (fine_more s s')
  have acc: "fine_access pc c l = Inr (pc', c', l', freed) \<Longrightarrow> length (co_registry c') = length (co_registry c)" for pc pc' c c' freed and l l' :: "nat thread_local"
    by (cases pc) (auto simp: Let_def guard_drop_def split: if_splits option.splits sum.splits)
  from fine_more.hyps(2) fine_more.IH show ?case
    by (induction rule: fine_step.induct)
      (auto simp: clocked_def after_access_def Let_def local_new_def ebr_register_def split: sum.splits option.splits dest: acc)
qed (simp add: fine_start_def collector_new_def)

lemma scan_reach:
  assumes "fs_local s t = Some l" "length (co_registry (fs_col s)) = MAX_THREADS" "list_all (passes cur) (co_registry (fs_col s))"
    and "i \<le> MAX_THREADS" "fine_reach (s\<lparr>fs_pc := (fs_pc s)(t := adv_slot k cur i)\<rparr>)"
  shows "fine_reach (s\<lparr>fs_pc := (fs_pc s)(t := Adv_Store k cur)\<rparr>)"
  using assms(4,5)
proof (induction "MAX_THREADS - i" arbitrary: i)
  case 0
  then show ?case by (simp add: adv_slot_def)
next
  case (Suc j)
  let ?t = "co_registry (fs_col s) ! i" and ?at = "\<lambda>pc. s\<lparr>fs_pc := (fs_pc s)(t := pc)\<rparr>"
  have i: "i < MAX_THREADS" "Suc i \<le> MAX_THREADS" "j = MAX_THREADS - Suc i" using Suc.hyps(2) by simp_all
  have p: "passes cur ?t" using assms(2,3) i(1) by (simp add: list_all_length)
  have r: "fine_reach (?at (Adv_Active k cur i))" using Suc.prems(2) i(1) by (simp add: adv_slot_def)
  have step: "fine_reach (?at pc')" if "fine_reach (?at pc)" "scans pc" "fine_access pc (fs_col s) l = Inr (pc', fs_col s, l, [])" for pc pc'
    using fine_more[OF that(1) f_scan[of "?at pc" t l pc' "fs_col s" l "[]"]] that(2,3) assms(1) by simp
  have "fine_reach (?at (adv_slot k cur (Suc i)))"
  proof (cases "ts_active ?t = 0")
    case True
    then show ?thesis using step[OF r, of "adv_slot k cur (Suc i)"] by (simp add: scans_def)
  next
    case False
    have "fine_reach (?at (Adv_Epoch k cur i))" using step[OF r, of "Adv_Epoch k cur i"] False by (simp add: scans_def)
    from step[OF this, of "adv_slot k cur (Suc i)"] show ?thesis using p False by (auto simp: scans_def passes_def Let_def)
  qed
  then show ?case using Suc.hyps(1)[OF i(3) i(2)] by blast
qed

lemma fine_do_reach:
  assumes "fine_reach s" "fine_do x s = Some s'"
  shows "fine_reach s'"
proof (cases x)
  case (Ev_Scan t)
  then obtain k cur l where "fs_pc s t = Adv_Active k cur 0" "fs_local s t = Some l" "list_all (passes cur) (co_registry (fs_col s))"
    "s' = s\<lparr>fs_pc := (fs_pc s)(t := Adv_Store k cur)\<rparr>"
    using assms(2) by (auto simp: fine_do_def split: epc.splits if_splits)
  moreover from this have "s\<lparr>fs_pc := (fs_pc s)(t := adv_slot k cur 0)\<rparr> = s" by (simp add: adv_slot_def MAX_THREADS_def fun_upd_idem)
  ultimately show ?thesis using scan_reach[of s t l cur 0 k] fine_registry[OF assms(1)] assms(1) by simp
qed (use assms fine_more[OF assms(1)] in \<open>auto simp: fine_do_def split: option.splits sum.splits prod.splits if_splits intro: fine_step.intros\<close>)

lemma fine_run_reach: "fine_reach s \<Longrightarrow> fine_run xs s = Some s' \<Longrightarrow> fine_reach s'"
  by (induction xs arbitrary: s) (auto split: option.splits dest: fine_do_reach)

section \<open>Properties\<close>



lemma fine_run_ex:
  assumes "case fine_run xs fine_start of None \<Rightarrow> False | Some s \<Rightarrow> P s"
  shows "\<exists>s. fine_reach s \<and> P s"
proof -
  obtain s where "fine_run xs fine_start = Some s" "P s" using assms by (cases "fine_run xs fine_start") simp_all
  then show ?thesis using fine_run_reach[OF fine_init] by blast
qed

text \<open>What a step of thread \<open>t\<close> would reclaim now.\<close>

definition about_to_free :: "nat \<Rightarrow> fine_sys \<Rightarrow> nat deferred list" where
  "about_to_free t s = (case fs_local s t of None \<Rightarrow> [] | Some l \<Rightarrow>
     (case fine_access (fs_pc s t) (fs_col s) l of Inl _ \<Rightarrow> [] | Inr (_, _, _, freed) \<Rightarrow> freed))"

definition flush_evs :: "nat \<Rightarrow> fine_event list" where
  "flush_evs t = [Ev_Flush t, Ev_Run t, Ev_Scan t, Ev_Run t, Ev_Run t]"

text \<open>A run in which every store comes in time: thread 0 defers an object and flushes, thread 1 pins, thread 0 flushes again.\<close>

lemma fine_example:
  "\<exists>s. fine_reach s \<and> fs_timely s \<and> fs_pins s 1 = Some 9 \<and> fs_pc s 0 = Reclaim_Load For_Flush \<and>
     about_to_free 0 s = [\<lparr>df_ptr = 9, df_dtor = 3\<rparr>]"
  by (rule fine_run_ex[where xs = "[Ev_Register, Ev_Register, Ev_Defer 0 9, Ev_Run 0] @ flush_evs 0 @
    [Ev_Pin 1, Ev_Run 1, Ev_Run 1, Ev_Flush 0, Ev_Run 0, Ev_Scan 0, Ev_Run 0]"]) code_simp


text \<open>
  C17. Both conditions are needed. A thread stopped inside \<open>pin\<close> for two moves, or a thread stopped inside
  \<open>try_advance\<close> for two moves whose store then sets the epoch back, lets \<open>flush\<close> free an object
  that was deferred after a thread had pinned that is still pinned: epochs count modulo three, and neither store is checked against the
  epoch it was computed from.
\<close>

theorem fine_late_store_frees_pinned:
  "(\<exists>s u t p x. fine_reach s \<and> fs_moves_timely s \<and> fs_pins s u = Some p \<and> fs_pc s t = Reclaim_Load For_Flush \<and>
      x \<in> set (about_to_free t s) \<and> p < df_dtor x) \<and>
   (\<exists>s u t p x. fine_reach s \<and> fs_pins_timely s \<and> fs_pins s u = Some p \<and> fs_pc s t = Reclaim_Load For_Flush \<and>
      x \<in> set (about_to_free t s) \<and> p < df_dtor x)"
proof -
  have "\<exists>s. fine_reach s \<and> fs_moves_timely s \<and> fs_pins s 0 = Some 12 \<and> fs_pc s 2 = Reclaim_Load For_Flush \<and>
      about_to_free 2 s = [\<lparr>df_ptr = 9, df_dtor = 13\<rparr>]"
    by (rule fine_run_ex[where xs = "[Ev_Register, Ev_Register, Ev_Register, Ev_Pin 0, Ev_Run 0] @ flush_evs 1 @ flush_evs 1 @
      [Ev_Flush 1, Ev_Run 1, Ev_Scan 1, Ev_Run 0, Ev_Defer 2 9, Ev_Run 2, Ev_Run 1, Ev_Flush 2, Ev_Run 2, Ev_Scan 2, Ev_Run 2]"]) code_simp
  then obtain s where s: "fine_reach s" "fs_moves_timely s" "fs_pins s 0 = Some 12" "fs_pc s 2 = Reclaim_Load For_Flush"
      "about_to_free 2 s = [\<lparr>df_ptr = 9, df_dtor = 13\<rparr>]" by blast
  have "\<exists>s. fine_reach s \<and> fs_pins_timely s \<and> fs_pins s 2 = Some 12 \<and> fs_pc s 1 = Reclaim_Load For_Flush \<and>
      about_to_free 1 s = [\<lparr>df_ptr = 9, df_dtor = 13\<rparr>]"
    by (rule fine_run_ex[where xs = "[Ev_Register, Ev_Register, Ev_Register, Ev_Flush 0, Ev_Run 0, Ev_Scan 0] @ flush_evs 1 @ flush_evs 1 @
      [Ev_Pin 2, Ev_Run 2, Ev_Run 2, Ev_Defer 1 9, Ev_Run 1, Ev_Flush 1, Ev_Run 1, Ev_Scan 1, Ev_Run 1, Ev_Run 0]"]) code_simp
  then obtain s' where s': "fine_reach s'" "fs_pins_timely s'" "fs_pins s' 2 = Some 12" "fs_pc s' 1 = Reclaim_Load For_Flush"
      "about_to_free 1 s' = [\<lparr>df_ptr = 9, df_dtor = 13\<rparr>]" by blast
  let ?x = "\<lparr>df_ptr = 9, df_dtor = 13\<rparr> :: nat deferred"
  have "?x \<in> set (about_to_free 2 s)" "?x \<in> set (about_to_free 1 s')" "12 < df_dtor ?x" unfolding s(5) s'(5) by simp_all
  then show ?thesis using s(1-4) s'(1-4) by blast
qed

end
