(* ===== verification/Conc_Map.thy ===== *)
theory Conc_Map
  imports Ebr Mpmc_Queue
begin

text \<open>
  The hash map of \<^verbatim>\<open>src/tier2_concurrency/src/map.rs\<close>: open addressing with linear probing in a table
  of entry pointers, tombstones for removed entries, and replaced or removed entries handed to
  the epoch collector.

  Each operation runs as one step, so a compare-exchange sees the pointer just loaded; \<open>Conc_Map_Fine\<close>
  interrupts the operations between their accesses. An entry
  does not change once it is in the table, so a slot holds the entry with its address. \<open>hasher\<close> is
  what \<open>DefaultHasher\<close> computes for a key, \<open>addr\<close> the address of the box \<open>insert\<close> allocates. Operations
  return the destructors they have run.
\<close>

section \<open>State\<close>

datatype ('k, 'v) cslot = Null | Tombstone | Entry nat 'k 'v

datatype entry_dtor = Drop_Entry_Node | Free_Entry_Shell

record ('k, 'v) cmap =
  cm_capacity :: nat
  cm_mask :: u64
  cm_table :: "('k, 'v) cslot list"
  cm_collector :: collector

type_synonym frees = "entry_dtor deferred list"

section \<open>Operations\<close>

definition cmap_new :: "u64 \<Rightarrow> ('k, 'v) cmap result" where
  "cmap_new capacity =
     (if \<not> is_power_of_two capacity then Inl Panic
      else Inr \<lparr>cm_capacity = unat capacity, cm_mask = capacity - 1, cm_table = replicate (unat capacity) Null,
                cm_collector = collector_new\<rparr>)"

definition cm_hash :: "('k \<Rightarrow> u64) \<Rightarrow> ('k, 'v) cmap \<Rightarrow> 'k \<Rightarrow> u64" where
  "cm_hash hasher m key = hasher key AND cm_mask m"

fun cm_get_loop :: "nat \<Rightarrow> ('k, 'v) cmap \<Rightarrow> 'k \<Rightarrow> u64 \<Rightarrow> 'v option result" where
  "cm_get_loop 0 m key idx = Inr None"
| "cm_get_loop (Suc n) m key idx =
     (if unat idx \<ge> length (cm_table m) then Inl Panic
      else case cm_table m ! unat idx of
          Null \<Rightarrow> Inr None
        | Tombstone \<Rightarrow> cm_get_loop n m key ((idx + 1) AND cm_mask m)
        | Entry addr k v \<Rightarrow> if k = key then Inr (Some v) else cm_get_loop n m key ((idx + 1) AND cm_mask m))"

definition cm_get :: "('k \<Rightarrow> u64) \<Rightarrow> ('k, 'v) cmap \<Rightarrow> 'k \<Rightarrow> 'd thread_local \<Rightarrow> ('v option \<times> ('k, 'v) cmap) result" where
  "cm_get hasher m key l =
     (case ebr_pin (tl_index l) (cm_collector m) of
        Inl f \<Rightarrow> Inl f
      | Inr c \<Rightarrow>
          (case cm_get_loop (cm_capacity m) m key (cm_hash hasher m key) of
             Inl f \<Rightarrow> Inl f
           | Inr r \<Rightarrow> Inr (r, m\<lparr>cm_collector := guard_drop (tl_index l) c\<rparr>)))"

text \<open>The slot an insert takes: the first that is null, a tombstone, or has the key.\<close>

fun cm_insert_loop :: "nat \<Rightarrow> ('k, 'v) cmap \<Rightarrow> 'k \<Rightarrow> u64 \<Rightarrow> u64 option result" where
  "cm_insert_loop 0 m key idx = Inr None"
| "cm_insert_loop (Suc n) m key idx =
     (if unat idx \<ge> length (cm_table m) then Inl Panic
      else case cm_table m ! unat idx of
          Null \<Rightarrow> Inr (Some idx)
        | Tombstone \<Rightarrow> Inr (Some idx)
        | Entry addr k v \<Rightarrow> if k = key then Inr (Some idx) else cm_insert_loop n m key ((idx + 1) AND cm_mask m))"

definition cm_insert ::
  "('k \<Rightarrow> u64) \<Rightarrow> nat \<Rightarrow> 'k \<Rightarrow> 'v \<Rightarrow> ('k, 'v) cmap \<Rightarrow> entry_dtor thread_local \<Rightarrow>
   (bool \<times> frees \<times> ('k, 'v) cmap \<times> entry_dtor thread_local) result" where
  "cm_insert hasher addr key val m l =
     (case ebr_pin (tl_index l) (cm_collector m) of
        Inl f \<Rightarrow> Inl f
      | Inr c \<Rightarrow>
          (case cm_insert_loop (cm_capacity m) m key (cm_hash hasher m key) of
             Inl f \<Rightarrow> Inl f
           | Inr None \<Rightarrow>
               Inr (False, [\<lparr>df_ptr = addr, df_dtor = Drop_Entry_Node\<rparr>], m\<lparr>cm_collector := guard_drop (tl_index l) c\<rparr>, l)
           | Inr (Some idx) \<Rightarrow> let
               table = (cm_table m)[unat idx := Entry addr key val]
             in case cm_table m ! unat idx of
                 Entry old _ _ \<Rightarrow>
                   (case local_defer \<lparr>df_ptr = old, df_dtor = Drop_Entry_Node\<rparr> c l of
                      Inl f \<Rightarrow> Inl f
                    | Inr (freed, c, l) \<Rightarrow>
                        Inr (True, freed, m\<lparr>cm_table := table, cm_collector := guard_drop (tl_index l) c\<rparr>, l))
               | _ \<Rightarrow> Inr (True, [], m\<lparr>cm_table := table, cm_collector := guard_drop (tl_index l) c\<rparr>, l)))"

text \<open>The slot with the entry a remove takes.\<close>

fun cm_remove_loop :: "nat \<Rightarrow> ('k, 'v) cmap \<Rightarrow> 'k \<Rightarrow> u64 \<Rightarrow> (u64 \<times> nat \<times> 'v) option result" where
  "cm_remove_loop 0 m key idx = Inr None"
| "cm_remove_loop (Suc n) m key idx =
     (if unat idx \<ge> length (cm_table m) then Inl Panic
      else case cm_table m ! unat idx of
          Null \<Rightarrow> Inr None
        | Tombstone \<Rightarrow> cm_remove_loop n m key ((idx + 1) AND cm_mask m)
        | Entry addr k v \<Rightarrow> if k = key then Inr (Some (idx, addr, v)) else cm_remove_loop n m key ((idx + 1) AND cm_mask m))"

definition cm_remove ::
  "('k \<Rightarrow> u64) \<Rightarrow> 'k \<Rightarrow> ('k, 'v) cmap \<Rightarrow> entry_dtor thread_local \<Rightarrow>
   ('v option \<times> frees \<times> ('k, 'v) cmap \<times> entry_dtor thread_local) result" where
  "cm_remove hasher key m l =
     (case ebr_pin (tl_index l) (cm_collector m) of
        Inl f \<Rightarrow> Inl f
      | Inr c \<Rightarrow>
          (case cm_remove_loop (cm_capacity m) m key (cm_hash hasher m key) of
             Inl f \<Rightarrow> Inl f
           | Inr None \<Rightarrow> Inr (None, [], m\<lparr>cm_collector := guard_drop (tl_index l) c\<rparr>, l)
           | Inr (Some (idx, addr, val)) \<Rightarrow>
               (case local_defer \<lparr>df_ptr = addr, df_dtor = Free_Entry_Shell\<rparr> c l of
                  Inl f \<Rightarrow> Inl f
                | Inr (freed, c, l) \<Rightarrow>
                    Inr (Some val, freed, m\<lparr>cm_table := (cm_table m)[unat idx := Tombstone],
                                           cm_collector := guard_drop (tl_index l) c\<rparr>, l))))"

definition cm_drop :: "('k, 'v) cmap \<Rightarrow> frees" where
  "cm_drop m = concat (map (\<lambda>sl. case sl of Entry addr _ _ \<Rightarrow> [\<lparr>df_ptr = addr, df_dtor = Drop_Entry_Node\<rparr>] | _ \<Rightarrow> []) (cm_table m))"

section \<open>Probing\<close>

definition cm_shape :: "nat \<Rightarrow> ('k, 'v) cmap \<Rightarrow> bool" where
  "cm_shape k m \<longleftrightarrow> k \<le> 63 \<and> cm_capacity m = 2 ^ k \<and> cm_mask m = 2 ^ k - 1 \<and> length (cm_table m) = 2 ^ k"

text \<open>The slots in the order a probe for a key visits them, and the entries with a key among them.\<close>

definition home :: "('k \<Rightarrow> u64) \<Rightarrow> ('k, 'v) cmap \<Rightarrow> 'k \<Rightarrow> nat" where
  "home hasher m key = unat (cm_hash hasher m key)"

definition probe :: "('k \<Rightarrow> u64) \<Rightarrow> ('k, 'v) cmap \<Rightarrow> 'k \<Rightarrow> ('k, 'v) cslot list" where
  "probe hasher m key = rotate (home hasher m key) (cm_table m)"

fun has_key :: "'k \<Rightarrow> ('k, 'v) cslot \<Rightarrow> bool" where
  "has_key key (Entry _ k _) \<longleftrightarrow> k = key"
| "has_key key _ \<longleftrightarrow> False"

fun slot_val :: "('k, 'v) cslot \<Rightarrow> 'v option" where
  "slot_val (Entry _ _ v) = Some v"
| "slot_val _ = None"

definition takes :: "'k \<Rightarrow> ('k, 'v) cslot \<Rightarrow> bool" where
  "takes key sl \<longleftrightarrow> sl = Null \<or> sl = Tombstone \<or> has_key key sl"

definition cm_view :: "('k \<Rightarrow> u64) \<Rightarrow> ('k, 'v) cmap \<Rightarrow> 'k \<Rightarrow> 'v option" where
  "cm_view hasher m key = Option.bind (List.find (has_key key) (probe hasher m key)) slot_val"

text \<open>No entry lies behind a null slot on the probe of its key.\<close>

definition cm_inv :: "nat \<Rightarrow> ('k \<Rightarrow> u64) \<Rightarrow> ('k, 'v) cmap \<Rightarrow> bool" where
  "cm_inv k hasher m \<longleftrightarrow> cm_shape k m \<and>
     (\<forall>key i j. i < j \<longrightarrow> j < 2 ^ k \<longrightarrow> has_key key (probe hasher m key ! j) \<longrightarrow> probe hasher m key ! i \<noteq> Null)"

lemma and_mask_unat: "cm_shape k m \<Longrightarrow> unat (w AND cm_mask m) = unat w mod 2 ^ k"
proof -
  assume "cm_shape k m"
  then have "w AND cm_mask m = take_bit k w" by (simp add: cm_shape_def take_bit_eq_mask mask_eq_exp_minus_1)
  then have "unat (w AND cm_mask m) = take_bit k (unat w)" by (simp only: unsigned_take_bit_eq)
  then show "unat (w AND cm_mask m) = unat w mod 2 ^ k" by (simp only: take_bit_eq_mod)
qed

lemma next_idx:
  assumes "cm_shape k m" "unat idx = i mod 2 ^ k"
  shows "unat ((idx + 1) AND cm_mask m) = Suc i mod 2 ^ k"
proof -
  have "k \<le> 63" using assms(1) by (simp add: cm_shape_def)
  then have "(2::nat) ^ k dvd 2 ^ 64" by (intro le_imp_power_dvd) simp
  then have "unat (idx + 1) mod 2 ^ k = Suc (unat idx) mod 2 ^ k" by (simp add: unat_word_ariths mod_mod_cancel)
  then show ?thesis unfolding and_mask_unat[OF assms(1)] using assms(2) by (simp add: mod_Suc_eq)
qed

lemma probe_nth: "cm_shape k m \<Longrightarrow> i < 2 ^ k \<Longrightarrow> probe hasher m key ! i = cm_table m ! ((home hasher m key + i) mod 2 ^ k)"
  by (simp add: probe_def nth_rotate cm_shape_def)

lemma length_probe: "cm_shape k m \<Longrightarrow> length (probe hasher m key) = 2 ^ k"
  by (simp add: probe_def cm_shape_def)

lemma remove_loop_spec:
  assumes "cm_shape k m" "i + n = 2 ^ k" "unat idx = (home hasher m key + i) mod 2 ^ k"
  shows "(cm_remove_loop n m key idx = Inr None \<and>
      (\<exists>j\<ge>i. (\<forall>l. i \<le> l \<and> l < j \<longrightarrow> \<not> has_key key (probe hasher m key ! l)) \<and> (j = 2 ^ k \<or> j < 2 ^ k \<and> probe hasher m key ! j = Null))) \<or>
    (\<exists>j idx' a v. i \<le> j \<and> j < 2 ^ k \<and> probe hasher m key ! j = Entry a key v \<and>
      (\<forall>l. i \<le> l \<and> l < j \<longrightarrow> \<not> has_key key (probe hasher m key ! l)) \<and>
      unat idx' = (home hasher m key + j) mod 2 ^ k \<and> cm_remove_loop n m key idx = Inr (Some (idx', a, v)))"
  using assms(2,3)
proof (induction n arbitrary: i idx)
  case 0
  then show ?case by (intro disjI1 conjI exI[of _ i]) auto
next
  case (Suc n)
  let ?P = "probe hasher m key"
  have i: "i < 2 ^ k" "Suc i + n = 2 ^ k" using Suc.prems(1) by auto
  have len: "unat idx < length (cm_table m)" using Suc.prems(2) assms(1) by (simp add: cm_shape_def)
  have at: "?P ! i = cm_table m ! unat idx" using probe_nth[OF assms(1) i(1)] Suc.prems(2) by simp
  have nxt: "unat ((idx + 1) AND cm_mask m) = (home hasher m key + Suc i) mod 2 ^ k"
    using next_idx[OF assms(1) Suc.prems(2)] by simp
  note IH = Suc.IH[OF i(2) nxt]
  have more: "(\<forall>l. i \<le> l \<and> l < j \<longrightarrow> \<not> has_key key (?P ! l)) \<longleftrightarrow> \<not> has_key key (?P ! i) \<and> (\<forall>l. Suc i \<le> l \<and> l < j \<longrightarrow> \<not> has_key key (?P ! l))"
    if "Suc i \<le> j" for j
  proof -
    have "i \<le> l \<longleftrightarrow> l = i \<or> Suc i \<le> l" for l by auto
    then show ?thesis using that by (auto simp: Suc_le_eq)
  qed
  have step: ?case if "\<not> has_key key (?P ! i)" "cm_remove_loop (Suc n) m key idx = cm_remove_loop n m key ((idx + 1) AND cm_mask m)"
    using IH unfolding that(2)
  proof (elim disjE exE conjE, goal_cases)
    case (1 j)
    then show ?case using more[of j] that(1) by (intro disjI1) (auto intro!: exI[of _ j])
  next
    case (2 j)
    then show ?case using more[of j] that(1) by (intro disjI1) (auto intro!: exI[of _ j])
  next
    case (3 j idx' a v)
    then show ?case using more[of j] that(1) by (intro disjI2 exI[of _ j] exI[of _ idx'] exI[of _ a] exI[of _ v]) auto
  qed
  show ?case
  proof (cases "?P ! i")
    case Null
    then show ?thesis using at len i by (intro disjI1) (auto intro!: exI[of _ i])
  next
    case Tombstone
    then show ?thesis using at len by (intro step) auto
  next
    case (Entry a k' v)
    show ?thesis
    proof (cases "k' = key")
      case True
      then show ?thesis using Entry at len i Suc.prems(2)
        by (intro disjI2 exI[of _ i] exI[of _ idx] exI[of _ a] exI[of _ v]) auto
    next
      case False
      then show ?thesis using Entry at len by (intro step) auto
    qed
  qed
qed

lemma get_loop_remove_loop: "cm_get_loop n m key idx = map_sum id (map_option (\<lambda>(_, _, v). v)) (cm_remove_loop n m key idx)"
  by (induction n m key idx rule: cm_get_loop.induct) (simp_all split: cslot.split)

lemma insert_loop_spec:
  assumes "cm_shape k m" "i + n = 2 ^ k" "unat idx = (home hasher m key + i) mod 2 ^ k"
  shows "cm_insert_loop n m key idx = Inr None \<and> (\<forall>l. i \<le> l \<and> l < 2 ^ k \<longrightarrow> \<not> takes key (probe hasher m key ! l)) \<or>
    (\<exists>j idx'. i \<le> j \<and> j < 2 ^ k \<and> (\<forall>l. i \<le> l \<and> l < j \<longrightarrow> \<not> has_key key (probe hasher m key ! l) \<and> probe hasher m key ! l \<noteq> Null) \<and>
      takes key (probe hasher m key ! j) \<and> unat idx' = (home hasher m key + j) mod 2 ^ k \<and> cm_insert_loop n m key idx = Inr (Some idx'))"
  using assms(2,3)
proof (induction n arbitrary: i idx)
  case (Suc n)
  let ?P = "probe hasher m key"
  have i: "i < 2 ^ k" "Suc i + n = 2 ^ k" using Suc.prems(1) by auto
  have len: "unat idx < length (cm_table m)" using Suc.prems(2) assms(1) by (simp add: cm_shape_def)
  have at: "?P ! i = cm_table m ! unat idx" using probe_nth[OF assms(1) i(1)] Suc.prems(2) by simp
  have nxt: "unat ((idx + 1) AND cm_mask m) = (home hasher m key + Suc i) mod 2 ^ k"
    using next_idx[OF assms(1) Suc.prems(2)] by simp
  note IH = Suc.IH[OF i(2) nxt]
  show ?case
  proof (cases "takes key (?P ! i)")
    case True
    then have "cm_insert_loop (Suc n) m key idx = Inr (Some idx)" 
    proof (cases "cm_table m ! unat idx")
      case (Entry a k' v)
      then show ?thesis using True at len by (simp add: takes_def)
    qed (use len in simp_all)
    then show ?thesis using True i Suc.prems(2) by (intro disjI2 exI[of _ i] exI[of _ idx]) auto
  next
    case False
    then obtain a k' v where e: "?P ! i = Entry a k' v" "k' \<noteq> key" by (cases "?P ! i") (auto simp: takes_def)
    then have r: "cm_insert_loop (Suc n) m key idx = cm_insert_loop n m key ((idx + 1) AND cm_mask m)" using at len by auto
    show ?thesis
    proof (cases "cm_insert_loop n m key ((idx + 1) AND cm_mask m) = Inr None")
      case False
      then obtain j idx' where j: "Suc i \<le> j" "j < 2 ^ k" "\<And>l. Suc i \<le> l \<Longrightarrow> l < j \<Longrightarrow> \<not> has_key key (?P ! l) \<and> ?P ! l \<noteq> Null"
        "takes key (?P ! j)" "unat idx' = (home hasher m key + j) mod 2 ^ k"
        "cm_insert_loop n m key ((idx + 1) AND cm_mask m) = Inr (Some idx')" using IH by auto
      have "\<not> has_key key (?P ! l) \<and> ?P ! l \<noteq> Null" if "i \<le> l" "l < j" for l
        using that e j(3)[of l] by (cases "l = i") auto
      then show ?thesis using j r by (intro disjI2 exI[of _ j] exI[of _ idx']) simp
    next
      case True
      then have "\<not> takes key (?P ! l)" if "Suc i \<le> l" "l < 2 ^ k" for l using IH that by auto
      then have "\<not> takes key (?P ! l)" if "i \<le> l" "l < 2 ^ k" for l using False that by (cases "l = i") auto
      then show ?thesis using True r by simp
    qed
  qed
qed auto

section \<open>What the table stands for\<close>

lemma cm_invD:
  "cm_inv k hasher m \<Longrightarrow> i < j \<Longrightarrow> j < 2 ^ k \<Longrightarrow> has_key key (probe hasher m key ! j) \<Longrightarrow> probe hasher m key ! i \<noteq> Null"
  unfolding cm_inv_def by blast

lemma home_less: "cm_shape k m \<Longrightarrow> home hasher m key < 2 ^ k"
  by (simp add: home_def cm_hash_def and_mask_unat)

lemma find_first: "j < length xs \<Longrightarrow> P (xs ! j) \<Longrightarrow> (\<And>l. l < j \<Longrightarrow> \<not> P (xs ! l)) \<Longrightarrow> List.find P xs = Some (xs ! j)"
  by (auto simp: find_Some_iff)

lemma remove_loop_view:
  assumes "cm_inv k hasher m"
  shows "cm_remove_loop (cm_capacity m) m key (cm_hash hasher m key) = Inr None \<and> List.find (has_key key) (probe hasher m key) = None \<or>
    (\<exists>j idx a v. j < 2 ^ k \<and> unat idx = (home hasher m key + j) mod 2 ^ k \<and> probe hasher m key ! j = Entry a key v \<and>
      (\<forall>l<j. \<not> has_key key (probe hasher m key ! l)) \<and>
      cm_remove_loop (cm_capacity m) m key (cm_hash hasher m key) = Inr (Some (idx, a, v)) \<and>
      List.find (has_key key) (probe hasher m key) = Some (Entry a key v))"
proof -
  let ?P = "probe hasher m key"
  have sh: "cm_shape k m" using assms by (simp add: cm_inv_def)
  have C: "0 + cm_capacity m = 2 ^ k" using sh by (simp add: cm_shape_def)
  have "unat (cm_hash hasher m key) = (home hasher m key + 0) mod 2 ^ k" using home_less[OF sh, of hasher key] by (simp add: home_def)
  from remove_loop_spec[OF sh C this] show ?thesis
  proof (elim disjE exE conjE, goal_cases)
    case (1 j)
    then show ?case using length_probe[OF sh, of hasher key] by (auto simp: find_None_iff in_set_conv_nth)
  next
    case (2 j)
    have "\<not> has_key key (?P ! l)" if "l < 2 ^ k" for l
    proof (cases "l < j")
      case False
      then show ?thesis using cm_invD[OF assms, of j l key] 2(5) that by (cases "l = j") auto
    qed (use 2(3) in simp)
    then show ?case using 2(1) length_probe[OF sh, of hasher key] by (auto simp: find_None_iff in_set_conv_nth)
  next
    case (3 j idx a v)
    then have "List.find (has_key key) ?P = Some (?P ! j)"
      using length_probe[OF sh, of hasher key] by (intro find_first) auto
    then show ?case using 3 by auto
  qed
qed

lemma get_loop_view:
  assumes "cm_inv k hasher m"
  shows "cm_get_loop (cm_capacity m) m key (cm_hash hasher m key) = Inr (cm_view hasher m key)"
  using remove_loop_view[OF assms, of key] by (auto simp: get_loop_remove_loop cm_view_def)

lemma mod_target: "h < C \<Longrightarrow> p < C \<Longrightarrow> \<exists>j<C. (h + j) mod C = (p::nat)"
  by (intro exI[of _ "(p + (C - h)) mod C"]) (simp add: mod_add_right_eq)

lemma probe_update:
  assumes sh: "cm_shape k m" and m': "m' = m\<lparr>cm_table := (cm_table m)[p := x], cm_collector := c\<rparr>" and p: "p < 2 ^ k"
  obtains j where "j < 2 ^ k" "(home hasher m key + j) mod 2 ^ k = p" "probe hasher m' key = (probe hasher m key)[j := x]"
    "probe hasher m key ! j = cm_table m ! p"
proof -
  obtain j where j: "j < 2 ^ k" "(home hasher m key + j) mod 2 ^ k = p" using mod_target[OF home_less[OF sh] p] by blast
  have sh': "cm_shape k m'" and h: "home hasher m' key = home hasher m key" using sh by (simp_all add: m' cm_shape_def home_def cm_hash_def)
  have "probe hasher m' key = (probe hasher m key)[j := x]"
  proof (rule nth_equalityI)
    show "length (probe hasher m' key) = length ((probe hasher m key)[j := x])" using length_probe[OF sh] length_probe[OF sh'] by simp
    fix i
    assume "i < length (probe hasher m' key)"
    then have i: "i < 2 ^ k" using length_probe[OF sh'] by simp
    have len: "length (cm_table m) = 2 ^ k" using sh by (simp add: cm_shape_def)
    show "probe hasher m' key ! i = (probe hasher m key)[j := x] ! i"
    proof (cases "i = j")
      case True
      then show ?thesis using probe_nth[OF sh' i] h j(2) len p i length_probe[OF sh] by (simp add: m')
    next
      case False
      then have "(home hasher m key + i) mod 2 ^ k \<noteq> p" using mod_offset_eq[OF _ i j(1)] j(2) by metis
      then show ?thesis using probe_nth[OF sh' i] probe_nth[OF sh i] h False by (simp add: m')
    qed
  qed
  then show thesis using that[OF j] probe_nth[OF sh j(1)] j(2) by simp
qed

text \<open>A slot that was not, and does not become, an entry of a key does not change its lookups.\<close>

lemma find_update_other: "\<not> P (xs ! j) \<Longrightarrow> \<not> P x \<Longrightarrow> List.find P (xs[j := x]) = List.find P xs"
  by (induction xs arbitrary: j) (auto split: nat.splits)

lemma update_inv:
  assumes inv: "cm_inv k hasher m" and m': "m' = m\<lparr>cm_table := (cm_table m)[p := x], cm_collector := c\<rparr>" and p: "p < 2 ^ k"
    and x: "x \<noteq> Null" "\<And>key i j. has_key key x \<Longrightarrow> (home hasher m key + j) mod 2 ^ k = p \<Longrightarrow> i < j \<Longrightarrow> j < 2 ^ k \<Longrightarrow> probe hasher m key ! i \<noteq> Null"
  shows "cm_inv k hasher m'"
  unfolding cm_inv_def
proof (intro conjI allI impI)
  have sh: "cm_shape k m" using inv by (simp add: cm_inv_def)
  then show "cm_shape k m'" by (simp add: m' cm_shape_def)
  fix key i j
  assume ij: "i < j" "j < 2 ^ k" "has_key key (probe hasher m' key ! j)"
  obtain q where q: "q < 2 ^ k" "(home hasher m key + q) mod 2 ^ k = p" "probe hasher m' key = (probe hasher m key)[q := x]"
    using probe_update[OF sh m' p, of hasher key] by blast
  have "probe hasher m key ! i \<noteq> Null" if "i \<noteq> q"
  proof (cases "j = q")
    case True
    then show ?thesis using x(2)[OF _ q(2)] ij q(1,3) length_probe[OF sh] by simp
  next
    case False
    then show ?thesis using inv ij q(3) unfolding cm_inv_def by simp
  qed
  then show "probe hasher m' key ! i \<noteq> Null"
    using q(1,3) x(1) length_probe[OF sh] by (cases "i = q") simp_all
qed

text \<open>A thread that has registered with the map's collector.\<close>

definition cm_ready :: "('k, 'v) cmap \<Rightarrow> 'd thread_local \<Rightarrow> bool" where
  "cm_ready m l \<longleftrightarrow> tl_index l < length (co_registry (cm_collector m)) \<and> length (tl_bags l) = 3 \<and> unat (co_global_epoch (cm_collector m)) < 3"

lemma defer_total:
  assumes "length (tl_bags l) = 3" "unat (co_global_epoch c) < 3"
  shows "\<exists>freed c' l'. local_defer d c l = Inr (freed, c', l') \<and> co_registry c' = co_registry c \<and> unat (co_global_epoch c') < 3 \<and>
    tl_index l' = tl_index l \<and> length (tl_bags l') = 3"
proof -
  have m: "unat (w mod 3 :: u64) < 3" for w by (simp add: unat_mod)
  show ?thesis
  proof (cases "bag_push d (tl_bags l ! unat (co_global_epoch c))")
    case (Some b)
    then show ?thesis using assms by (simp add: local_defer_def Let_def)
  next
    case None
    show ?thesis
    proof (cases "may_advance c")
      case False
      then show ?thesis using assms None by (simp add: local_defer_def Let_def try_advance_spec)
    next
      case True
      then show ?thesis using assms None m
        by (simp add: local_defer_def Let_def try_advance_spec reclaim_old_def bag_reclaim_all_def not_le split: option.split)
    qed
  qed
qed

lemma pin_ready: "cm_ready m l \<Longrightarrow> \<exists>c. ebr_pin (tl_index l) (cm_collector m) = Inr c \<and>
    length (co_registry c) = length (co_registry (cm_collector m)) \<and> co_global_epoch c = co_global_epoch (cm_collector m)"
  by (simp add: cm_ready_def ebr_pin_def)

lemma guard_drop_fields [simp]:
  "length (co_registry (guard_drop i c)) = length (co_registry c)" "co_global_epoch (guard_drop i c) = co_global_epoch c"
  by (simp_all add: guard_drop_def)

lemma collector_only:
  "probe hasher (m\<lparr>cm_collector := c\<rparr>) key = probe hasher m key" "cm_view hasher (m\<lparr>cm_collector := c\<rparr>) = cm_view hasher m"
  "cm_inv k hasher (m\<lparr>cm_collector := c\<rparr>) = cm_inv k hasher m"
  by (auto simp: fun_eq_iff cm_view_def probe_def home_def cm_hash_def cm_inv_def cm_shape_def)

lemma insert_view:
  assumes inv: "cm_inv k hasher m" and j: "j < 2 ^ k" "\<And>l. l < j \<Longrightarrow> \<not> has_key key (probe hasher m key ! l) \<and> probe hasher m key ! l \<noteq> Null"
    "takes key (probe hasher m key ! j)" and p: "p = (home hasher m key + j) mod 2 ^ k"
    and m': "m' = m\<lparr>cm_table := (cm_table m)[p := Entry addr key val], cm_collector := c\<rparr>"
  shows "cm_inv k hasher m'" "cm_view hasher m' key' = (if key' = key then Some val else cm_view hasher m key')"
proof -
  have sh: "cm_shape k m" using inv by (simp add: cm_inv_def)
  have pl: "p < 2 ^ k" using p by simp
  have at: "takes key (cm_table m ! p)" using j(3) probe_nth[OF sh j(1)] p by metis
  show "cm_inv k hasher m'"
  proof (rule update_inv[OF inv m' pl])
    fix key'' i q
    assume q: "has_key key'' (Entry addr key val)" "(home hasher m key'' + q) mod 2 ^ k = p" "i < q" "q < 2 ^ k"
    then have "q = j" using mod_offset_eq[of "home hasher m key" q "2 ^ k" j] j(1) p by simp
    then show "probe hasher m key'' ! i \<noteq> Null" using j(2)[of i] q(1,3) by simp
  qed simp
  obtain q where q: "q < 2 ^ k" "(home hasher m key' + q) mod 2 ^ k = p" "probe hasher m' key' = (probe hasher m key')[q := Entry addr key val]"
    "probe hasher m key' ! q = cm_table m ! p" using probe_update[OF sh m' pl, of hasher key'] by blast
  show "cm_view hasher m' key' = (if key' = key then Some val else cm_view hasher m key')"
  proof (cases "key' = key")
    case True
    then have "q = j" using mod_offset_eq[of "home hasher m key" q "2 ^ k" j] j(1) q(1,2) p by simp
    then have "List.find (has_key key) ((probe hasher m key)[j := Entry addr key val]) = Some (((probe hasher m key)[j := Entry addr key val]) ! j)"
      using j length_probe[OF sh] by (intro find_first) auto
    then show ?thesis using True q(3) \<open>q = j\<close> j(1) length_probe[OF sh] by (simp add: cm_view_def)
  next
    case False
    then have "\<not> has_key key' (probe hasher m key' ! q)" using at q(4) by (cases "cm_table m ! p") (auto simp: takes_def)
    then show ?thesis using False find_update_other[of "has_key key'" "probe hasher m key'" q "Entry addr key val"] q(3)
      by (simp add: cm_view_def)
  qed
qed

lemma insert_ok:
  assumes inv: "cm_inv k hasher m" and l: "cm_ready m l"
  obtains b freed m' l' where "cm_insert hasher addr key val m l = Inr (b, freed, m', l')" "cm_inv k hasher m'" "cm_ready m' l'"
    "\<And>key'. cm_view hasher m' key' = (if b \<and> key' = key then Some val else cm_view hasher m key')"
    "b \<longleftrightarrow> (\<exists>sl\<in>set (cm_table m). takes key sl)"
proof -
  let ?P = "probe hasher m key"
  have sh: "cm_shape k m" using inv by (simp add: cm_inv_def)
  have tbl: "set ?P = set (cm_table m)" by (simp add: probe_def)
  obtain c where c: "ebr_pin (tl_index l) (cm_collector m) = Inr c" "length (co_registry c) = length (co_registry (cm_collector m))"
    "co_global_epoch c = co_global_epoch (cm_collector m)" using pin_ready[OF l] by blast
  have C: "0 + cm_capacity m = 2 ^ k" using sh by (simp add: cm_shape_def)
  have "unat (cm_hash hasher m key) = (home hasher m key + 0) mod 2 ^ k" using home_less[OF sh, of hasher key] by (simp add: home_def)
  from insert_loop_spec[OF sh C this] show thesis
  proof (elim disjE exE conjE)
    assume loop: "cm_insert_loop (cm_capacity m) m key (cm_hash hasher m key) = Inr None"
      and none: "\<forall>l. 0 \<le> l \<and> l < 2 ^ k \<longrightarrow> \<not> takes key (?P ! l)"
    have "\<not> (\<exists>sl\<in>set (cm_table m). takes key sl)"
      using none length_probe[OF sh, of hasher key] unfolding tbl[symmetric] by (auto simp: in_set_conv_nth)
    then show thesis
      using that[of False] loop c l inv by (simp add: cm_insert_def collector_only cm_ready_def)
  next
    fix j idx
    assume j: "j < 2 ^ k" "\<forall>l. 0 \<le> l \<and> l < j \<longrightarrow> \<not> has_key key (?P ! l) \<and> ?P ! l \<noteq> Null" "takes key (?P ! j)"
      "unat idx = (home hasher m key + j) mod 2 ^ k" "cm_insert_loop (cm_capacity m) m key (cm_hash hasher m key) = Inr (Some idx)"
    have b: "\<exists>sl\<in>set (cm_table m). takes key sl" using j(1,3) length_probe[OF sh, of hasher key] unfolding tbl[symmetric] by (metis nth_mem)
    have view: "cm_inv k hasher (m\<lparr>cm_table := (cm_table m)[unat idx := Entry addr key val], cm_collector := c'\<rparr>)"
      "cm_view hasher (m\<lparr>cm_table := (cm_table m)[unat idx := Entry addr key val], cm_collector := c'\<rparr>) key' =
        (if key' = key then Some val else cm_view hasher m key')" for c' key'
      using insert_view(1,2)[OF inv j(1) _ j(3,4) refl, where addr = addr and val = val and c = c'] j(2) by auto
    show thesis
    proof (cases "cm_table m ! unat idx")
      case (Entry old k' v')
      obtain freed c' l' where d: "local_defer \<lparr>df_ptr = old, df_dtor = Drop_Entry_Node\<rparr> c l = Inr (freed, c', l')"
        "co_registry c' = co_registry c" "unat (co_global_epoch c') < 3" "tl_index l' = tl_index l" "length (tl_bags l') = 3"
        using defer_total[of l c "\<lparr>df_ptr = old, df_dtor = Drop_Entry_Node\<rparr>"] l c(3) by (auto simp: cm_ready_def)
      then show thesis using that[of True freed] Entry c j(5) b view l by (simp add: cm_insert_def cm_ready_def)
    qed (use that[of True "[]"] c j(5) b view l in \<open>simp_all add: cm_insert_def cm_ready_def\<close>)
  qed
qed

lemma remove_ok:
  assumes inv: "cm_inv k hasher m" and l: "cm_ready m l"
  obtains freed m' l' where "cm_remove hasher key m l = Inr (cm_view hasher m key, freed, m', l')" "cm_inv k hasher m'" "cm_ready m' l'"
    "\<And>key'. key' \<noteq> key \<Longrightarrow> cm_view hasher m' key' = cm_view hasher m key'"
    "length (filter (has_key key) (cm_table m)) \<le> 1 \<Longrightarrow> cm_view hasher m' key = None"
proof -
  let ?P = "probe hasher m key"
  have sh: "cm_shape k m" using inv by (simp add: cm_inv_def)
  obtain c where c: "ebr_pin (tl_index l) (cm_collector m) = Inr c" "length (co_registry c) = length (co_registry (cm_collector m))"
    "co_global_epoch c = co_global_epoch (cm_collector m)" using pin_ready[OF l] by blast
  from remove_loop_view[OF inv, of key] show thesis
  proof (elim disjE exE conjE)
    assume "cm_remove_loop (cm_capacity m) m key (cm_hash hasher m key) = Inr None" "List.find (has_key key) ?P = None"
    then show thesis using that[of "[]"] c l inv by (simp add: cm_remove_def collector_only cm_ready_def cm_view_def)
  next
    fix j idx a v
    assume j: "j < 2 ^ k" "unat idx = (home hasher m key + j) mod 2 ^ k" "?P ! j = Entry a key v" "\<forall>l<j. \<not> has_key key (?P ! l)"
      "cm_remove_loop (cm_capacity m) m key (cm_hash hasher m key) = Inr (Some (idx, a, v))" "List.find (has_key key) ?P = Some (Entry a key v)"
    obtain freed c' l' where d: "local_defer \<lparr>df_ptr = a, df_dtor = Free_Entry_Shell\<rparr> c l = Inr (freed, c', l')"
      "co_registry c' = co_registry c" "unat (co_global_epoch c') < 3" "tl_index l' = tl_index l" "length (tl_bags l') = 3"
      using defer_total[of l c "\<lparr>df_ptr = a, df_dtor = Free_Entry_Shell\<rparr>"] l c(3) by (auto simp: cm_ready_def)
    define m' where "m' = m\<lparr>cm_table := (cm_table m)[unat idx := Tombstone], cm_collector := guard_drop (tl_index l') c'\<rparr>"
    have r: "cm_remove hasher key m l = Inr (cm_view hasher m key, freed, m', l')"
      using c(1) d j(5,6) by (simp add: cm_remove_def m'_def cm_view_def)
    have p: "unat idx < 2 ^ k" using j(2) by simp
    have at: "cm_table m ! unat idx = Entry a key v" using probe_nth[OF sh j(1)] j(2,3) by metis
    have i: "cm_inv k hasher m'" by (rule update_inv[OF inv m'_def p]) simp_all
    have other: "cm_view hasher m' key' = cm_view hasher m key'" if "key' \<noteq> key" for key'
    proof -
      obtain q where q: "probe hasher m' key' = (probe hasher m key')[q := Tombstone]" "probe hasher m key' ! q = cm_table m ! unat idx"
        using probe_update[OF sh m'_def p, of hasher key'] by blast
      then show ?thesis using find_update_other[of "has_key key'" "probe hasher m key'" q Tombstone] that at by (simp add: cm_view_def)
    qed
    have gone: "cm_view hasher m' key = None" if one: "length (filter (has_key key) (cm_table m)) \<le> 1"
    proof -
      have "filter (has_key key) (cm_table m') = []"
      proof -
        have u: "unat idx < length (cm_table m)" using p sh by (simp add: cm_shape_def)
        have "length (filter (has_key key) (cm_table m)) = Suc (length (filter (has_key key) (cm_table m')))"
          using at u by (subst (1) id_take_nth_drop[OF u]) (simp add: m'_def upd_conv_take_nth_drop)
        then show ?thesis using one by simp
      qed
      then have "List.find (has_key key) (probe hasher m' key) = None" by (simp add: find_None_iff probe_def filter_empty_conv)
      then show ?thesis by (simp add: cm_view_def)
    qed
    have "cm_ready m' l'" using l c d by (simp add: cm_ready_def m'_def)
    then show thesis using that[OF r i _ other gone] by blast
  qed
qed

section \<open>Reachable maps\<close>

text \<open>Maps that calls of any registered threads lead to, with registrations and flushes in between.\<close>

inductive cm_reach :: "('k \<Rightarrow> u64) \<Rightarrow> ('k, 'v) cmap \<Rightarrow> bool" for hasher where
  cm_start: "cmap_new capacity = Inr m \<Longrightarrow> cm_reach hasher m"
| cm_collect: "cm_reach hasher m \<Longrightarrow>
    local_new (cm_collector m) = Inr (l :: entry_dtor thread_local, c) \<or> local_flush (cm_collector m) l = Inr (freed, c, l') \<Longrightarrow> cm_reach hasher (m\<lparr>cm_collector := c\<rparr>)"
| cm_ins: "cm_reach hasher m \<Longrightarrow> cm_ready m l \<Longrightarrow> cm_insert hasher addr key val m l = Inr (b, freed, m', l') \<Longrightarrow> cm_reach hasher m'"
| cm_rem: "cm_reach hasher m \<Longrightarrow> cm_ready m l \<Longrightarrow> cm_remove hasher key m l = Inr (r, freed, m', l') \<Longrightarrow> cm_reach hasher m'"
| cm_look: "cm_reach hasher m \<Longrightarrow> cm_get hasher m key (l :: entry_dtor thread_local) = Inr (r, m') \<Longrightarrow> cm_reach hasher m'"

lemma cmap_new_inv:
  assumes "cmap_new capacity = Inr m"
  shows "\<exists>k. cm_inv k hasher m"
proof -
  obtain k where k: "k < 64" "capacity = 2 ^ k" using assms by (auto simp: cmap_new_def is_power_of_two_def list_ex_iff split: if_splits)
  have "capacity = of_nat (2 ^ k)" using k by simp
  moreover have "(2::nat) ^ k < 2 ^ 64" using k(1) by (intro power_strict_increasing) simp_all
  ultimately have u: "unat capacity = 2 ^ k" by (simp only: unat_of_nat) simp
  have m: "m = \<lparr>cm_capacity = 2 ^ k, cm_mask = capacity - 1, cm_table = replicate (2 ^ k) Null, cm_collector = collector_new\<rparr>"
    using assms u by (simp add: cmap_new_def split: if_splits)
  have sh: "cm_shape k m" using k by (simp add: m cm_shape_def)
  have "probe hasher m key ! j = Null" if "j < 2 ^ k" for key j using probe_nth[OF sh that, of hasher key] by (simp add: m)
  then show ?thesis using sh by (auto simp: cm_inv_def)
qed

lemma cm_reach_inv: "cm_reach hasher m \<Longrightarrow> \<exists>k. cm_inv k hasher m"
proof (induction rule: cm_reach.induct)
  case (cm_start capacity m)
  then show ?case by (rule cmap_new_inv)
next
  case (cm_collect m l c freed l')
  then show ?case by (simp add: collector_only)
next
  case (cm_ins m l addr key val b freed m' l')
  then obtain k where "cm_inv k hasher m" by blast
  then have "cm_inv k hasher m'" using cm_ins.hyps(2) by (rule insert_ok[where addr = addr and key = key and val = val]) (use cm_ins.hyps(3) in auto)
  then show ?case by blast
next
  case (cm_rem m l key r freed m' l')
  then obtain k where "cm_inv k hasher m" by blast
  then have "cm_inv k hasher m'" using cm_rem.hyps(2) by (rule remove_ok[where key = key]) (use cm_rem.hyps(3) in auto)
  then show ?case by blast
next
  case (cm_look m key l r m')
  then show ?case by (auto simp: cm_get_def collector_only split: sum.splits)
qed

lemma cm_get_view:
  assumes "cm_inv k hasher m" "cm_ready m l"
  shows "map_sum id fst (cm_get hasher m key l) = Inr (cm_view hasher m key)"
  using pin_ready[OF assms(2)] get_loop_view[OF assms(1)] by (auto simp: cm_get_def)

section \<open>Properties\<close>

text \<open>
  C36. Insert, then get, on any reachable map, tombstones and replaced entries included: \<open>insert\<close>
  returns, with \<open>true\<close> iff some slot is free or has the key; then \<open>get\<close> finds the new value
  under its key, and every other key answers as before. When the table is full nothing changes.
\<close>

theorem cmap_insert_then_get:
  assumes "cm_reach hasher m" "cm_ready m l"
  shows "\<exists>b freed m' l'. cm_insert hasher addr key val m l = Inr (b, freed, m', l') \<and> cm_ready m' l' \<and>
    (b \<longleftrightarrow> (\<exists>sl\<in>set (cm_table m). takes key sl)) \<and>
    (\<forall>k. map_sum id fst (cm_get hasher m' k l') = (if b \<and> k = key then Inr (Some val) else map_sum id fst (cm_get hasher m k l)))"
proof -
  obtain n where inv: "cm_inv n hasher m" using cm_reach_inv[OF assms(1)] by blast
  obtain b freed m' l' where i: "cm_insert hasher addr key val m l = Inr (b, freed, m', l')" "cm_inv n hasher m'" "cm_ready m' l'"
    "\<And>k. cm_view hasher m' k = (if b \<and> k = key then Some val else cm_view hasher m k)" "b \<longleftrightarrow> (\<exists>sl\<in>set (cm_table m). takes key sl)"
    using insert_ok[OF inv assms(2), where addr = addr and key = key and val = val] by blast
  have "map_sum id fst (cm_get hasher m' k l') = (if b \<and> k = key then Inr (Some val) else map_sum id fst (cm_get hasher m k l))" for k
    using cm_get_view[OF i(2,3), of k] cm_get_view[OF inv assms(2), of k] i(4)[of k] by simp
  then show ?thesis using i(1,3,5) by blast
qed

text \<open>
  Remove on any reachable map: it returns what \<open>get\<close> would find, every other key answers as
  before, and if the table holds the key at most once, the key is gone.
\<close>

theorem cmap_remove_then_get:
  assumes "cm_reach hasher m" "cm_ready m l"
  shows "\<exists>r freed m' l'. cm_remove hasher key m l = Inr (r, freed, m', l') \<and> cm_ready m' l' \<and>
    map_sum id fst (cm_get hasher m key l) = Inr r \<and>
    (\<forall>k. k \<noteq> key \<longrightarrow> map_sum id fst (cm_get hasher m' k l') = map_sum id fst (cm_get hasher m k l)) \<and>
    (length (filter (has_key key) (cm_table m)) \<le> 1 \<longrightarrow> map_sum id fst (cm_get hasher m' key l') = Inr None)"
proof -
  obtain n where inv: "cm_inv n hasher m" using cm_reach_inv[OF assms(1)] by blast
  obtain freed m' l' where r: "cm_remove hasher key m l = Inr (cm_view hasher m key, freed, m', l')" "cm_inv n hasher m'" "cm_ready m' l'"
    "\<And>k. k \<noteq> key \<Longrightarrow> cm_view hasher m' k = cm_view hasher m k"
    "length (filter (has_key key) (cm_table m)) \<le> 1 \<Longrightarrow> cm_view hasher m' key = None"
    using remove_ok[OF inv assms(2), where key = key] by blast
  show ?thesis
    using r(1,3,4,5) cm_get_view[OF r(2,3)] cm_get_view[OF inv assms(2)]
    by (intro exI[of _ "cm_view hasher m key"] exI[of _ freed] exI[of _ m'] exI[of _ l']) simp
qed

text \<open>One thread on a map of two slots in which all keys collide.\<close>

fun cm_script :: "(nat \<times> nat + nat) list \<Rightarrow> (nat, nat) cmap \<Rightarrow> entry_dtor thread_local \<Rightarrow> ((nat, nat) cmap \<times> entry_dtor thread_local) option" where
  "cm_script [] m l = Some (m, l)"
| "cm_script (Inl (key, val) # xs) m l =
     (case cm_insert (\<lambda>_. 0) 7 key val m l of Inr (True, _, m, l) \<Rightarrow> cm_script xs m l | _ \<Rightarrow> None)"
| "cm_script (Inr key # xs) m l =
     (case cm_remove (\<lambda>_. 0) key m l of Inr (Some _, _, m, l) \<Rightarrow> cm_script xs m l | _ \<Rightarrow> None)"

definition small_map :: "(nat, nat) cmap" where
  "small_map = \<lparr>cm_capacity = 2, cm_mask = 1, cm_table = [Null, Null], cm_collector = \<lparr>co_global_epoch = 0,
     co_registry = \<lparr>ts_epoch = UNPINNED, ts_active = 1\<rparr> # replicate 127 \<lparr>ts_epoch = UNPINNED, ts_active = 0\<rparr>\<rparr>\<rparr>"

definition small_local :: "entry_dtor thread_local" where
  "small_local = \<lparr>tl_index = 0, tl_bags = [bag_new, bag_new, bag_new]\<rparr>"

lemma small_map_reach: "cm_reach (\<lambda>_. 0) small_map" "cm_ready small_map small_local"
proof -
  have "cmap_new 2 = Inr (\<lparr>cm_capacity = 2, cm_mask = 1, cm_table = [Null, Null], cm_collector = collector_new\<rparr> :: (nat, nat) cmap)"
    by code_simp
  then have "cm_reach (\<lambda>_. 0) (\<lparr>cm_capacity = 2, cm_mask = 1, cm_table = [Null, Null], cm_collector = collector_new\<rparr> :: (nat, nat) cmap)"
    by (rule cm_start)
  moreover have "local_new collector_new = Inr (small_local, cm_collector small_map)" by code_simp
  ultimately show "cm_reach (\<lambda>_. 0) small_map"
    using cm_collect[of "\<lambda>_. 0" _ small_local "cm_collector small_map"] by (fastforce simp: small_map_def)
  show "cm_ready small_map small_local" by code_simp
qed

theorem cmap_insert_then_get_witness:
  "\<exists>freed m' l'. cm_insert (\<lambda>_. 0) 7 1 10 small_map small_local = Inr (True, freed, m', l') \<and>
     map_sum id fst (cm_get (\<lambda>_. 0) m' 1 l') = Inr (Some 10)"
proof -
  have "\<exists>sl\<in>set (cm_table small_map). takes 1 sl" by (simp add: small_map_def takes_def)
  then show ?thesis using cmap_insert_then_get[OF small_map_reach, of 7 1 10] by auto
qed

theorem cmap_remove_then_get_witness:
  "\<exists>freed m' l'. cm_remove (\<lambda>_. 0) 1 small_map small_local = Inr (None, freed, m', l') \<and>
     map_sum id fst (cm_get (\<lambda>_. 0) m' 1 l') = Inr None"
proof -
  have "map_sum id fst (cm_get (\<lambda>_. 0) small_map 1 small_local) = Inr None" by code_simp
  then show ?thesis using cmap_remove_then_get[OF small_map_reach, of 1] by (auto simp: small_map_def)
qed

text \<open>
  An insert that meets a tombstone before the entry of its key leaves two entries of the key
  in the table: with two colliding keys, insert 1, insert 2, remove 1, insert 2 again with a new
  value, remove 2, and the key 2 is still there, with the value it had at first.
\<close>

theorem cmap_removed_key_comes_back:
  "\<exists>m l. cm_script [Inl (1, 10), Inl (2, 20), Inr 1, Inl (2, 21), Inr 2] small_map small_local = Some (m, l) \<and>
     map_sum id fst (cm_get (\<lambda>_. 0) m 2 l) = Inr (Some 20)"
proof -
  have "case cm_script [Inl (1, 10), Inl (2, 20), Inr 1, Inl (2, 21), Inr 2] small_map small_local of
      None \<Rightarrow> False | Some (m, l) \<Rightarrow> map_sum id fst (cm_get (\<lambda>_. 0) m 2 l) = Inr (Some 20)"
    by code_simp
  then show ?thesis by (auto split: option.splits)
qed

end
