(* ===== verification/Conc_Map_Fine.thy ===== *)
theory Conc_Map_Fine
  imports Conc_Map
begin

text \<open>
  The hash map of \<^verbatim>\<open>src/tier2_concurrency/src/map.rs\<close> access by access: every load of a slot and every
  compare-exchange is a step of its own, and calls of any number of threads are interrupted between any two of
  them, so that a compare-exchange can find a slot changed.

  An entry does not change once it is in the table, so reading it belongs to the step that loaded its pointer. A box
  is named by a number of its own: that an address is not used again while a thread may still compare
  with it is what the pin around every call is for (\<open>Ebr\<close>, \<open>Ebr_Fine\<close>). Handing an entry to \<open>defer\<close> is an item of
  the log.
\<close>

section \<open>Accesses\<close>

datatype ('k, 'v) map_pc = At_Rest
  | Get_Probe 'k u64 nat | Get_Ret 'k "'v option"
  | Ins_Probe nat 'k 'v u64 nat | Ins_Cas nat 'k 'v u64 nat "('k, 'v) cslot" | Ins_Ret 'k bool
  | Rem_Probe 'k u64 nat | Rem_Cas 'k u64 nat nat 'v | Rem_Ret 'k "'v option"
  | Out_Of_Range

text \<open>What a step does to boxes: link one into the table, retire one to the collector, or give an unused one back.\<close>

datatype ('k, 'v) map_log = Link nat 'k 'v | Retire nat entry_dtor | Discard nat

fun slot_ptr :: "('k, 'v) cslot \<Rightarrow> nat" where
  "slot_ptr Null = 0"
| "slot_ptr Tombstone = 1"
| "slot_ptr (Entry a _ _) = a"

definition at_slot :: "('k, 'v) cslot list \<Rightarrow> u64 \<Rightarrow> (('k, 'v) cslot \<Rightarrow> ('k, 'v) map_pc) \<Rightarrow> ('k, 'v) map_pc" where
  "at_slot table idx f = (if unat idx \<ge> length table then Out_Of_Range else f (table ! unat idx))"

definition get_at :: "u64 \<Rightarrow> 'k \<Rightarrow> u64 \<Rightarrow> nat \<Rightarrow> ('k, 'v) cslot \<Rightarrow> ('k, 'v) map_pc" where
  "get_at msk key idx n sl =
     (let next_slot = Get_Probe key ((idx + 1) AND msk) n in
      case sl of
        Null \<Rightarrow> Get_Ret key None
      | Tombstone \<Rightarrow> next_slot
      | Entry a k v \<Rightarrow> if k = key then Get_Ret key (Some v) else next_slot)"

definition insert_at :: "u64 \<Rightarrow> nat \<Rightarrow> 'k \<Rightarrow> 'v \<Rightarrow> u64 \<Rightarrow> nat \<Rightarrow> ('k, 'v) cslot \<Rightarrow> ('k, 'v) map_pc" where
  "insert_at msk new_entry key val idx n cur =
     (case cur of
        Null \<Rightarrow> Ins_Cas new_entry key val idx n cur
      | Tombstone \<Rightarrow> Ins_Cas new_entry key val idx n cur
      | Entry a k v \<Rightarrow> if k = key then Ins_Cas new_entry key val idx n cur
                       else Ins_Probe new_entry key val ((idx + 1) AND msk) n)"

definition remove_at :: "u64 \<Rightarrow> 'k \<Rightarrow> u64 \<Rightarrow> nat \<Rightarrow> ('k, 'v) cslot \<Rightarrow> ('k, 'v) map_pc" where
  "remove_at msk key idx n cur =
     (let next_slot = Rem_Probe key ((idx + 1) AND msk) n in
      case cur of
        Null \<Rightarrow> Rem_Ret key None
      | Tombstone \<Rightarrow> next_slot
      | Entry a k v \<Rightarrow> if k = key then Rem_Cas key idx n a v else next_slot)"

text \<open>
  One access. A compare-exchange that fails goes on with the next round of the loop, at the same slot: the round is used up.
\<close>

fun map_access :: "u64 \<Rightarrow> ('k, 'v) map_pc \<Rightarrow> ('k, 'v) cslot list \<Rightarrow> ('k, 'v) map_pc \<times> ('k, 'v) cslot list \<times> ('k, 'v) map_log list" where
  "map_access msk (Get_Probe key idx 0) table = (Get_Ret key None, table, [])"
| "map_access msk (Get_Probe key idx (Suc n)) table = (at_slot table idx (get_at msk key idx n), table, [])"
| "map_access msk (Ins_Probe new_entry key val idx 0) table = (Ins_Ret key False, table, [Discard new_entry])"
| "map_access msk (Ins_Probe new_entry key val idx (Suc n)) table = (at_slot table idx (insert_at msk new_entry key val idx n), table, [])"
| "map_access msk (Ins_Cas new_entry key val idx n cur) table =
     (if slot_ptr (table ! unat idx) = slot_ptr cur
      then (Ins_Ret key True, table[unat idx := Entry new_entry key val],
            Link new_entry key val # (case cur of Entry a _ _ \<Rightarrow> [Retire a Drop_Entry_Node] | _ \<Rightarrow> []))
      else (Ins_Probe new_entry key val idx n, table, []))"
| "map_access msk (Rem_Probe key idx 0) table = (Rem_Ret key None, table, [])"
| "map_access msk (Rem_Probe key idx (Suc n)) table = (at_slot table idx (remove_at msk key idx n), table, [])"
| "map_access msk (Rem_Cas key idx n a v) table =
     (if slot_ptr (table ! unat idx) = a
      then (Rem_Ret key (Some v), table[unat idx := Tombstone], [Retire a Free_Entry_Shell])
      else (Rem_Probe key idx n, table, []))"
| "map_access msk pc table = (pc, table, [])"

definition map_idle :: "('k, 'v) map_pc \<Rightarrow> bool" where
  "map_idle pc = (case pc of At_Rest \<Rightarrow> True | Get_Ret _ _ \<Rightarrow> True | Ins_Ret _ _ \<Rightarrow> True | Rem_Ret _ _ \<Rightarrow> True | _ \<Rightarrow> False)"

section \<open>Threads\<close>

record ('k, 'v) map_sys =
  my_table :: "('k, 'v) cslot list"
  my_pc :: "nat \<Rightarrow> ('k, 'v) map_pc"
  my_boxes :: nat
  my_log :: "('k, 'v) map_log list"

text \<open>\<open>my_boxes\<close> numbers the boxes; 0 and 1 are the null pointer and the tombstone.\<close>

definition map_start :: "('k, 'v) cmap \<Rightarrow> ('k, 'v) map_sys" where
  "map_start m = \<lparr>my_table = cm_table m, my_pc = (\<lambda>_. At_Rest), my_boxes = 2, my_log = []\<rparr>"

definition map_calls :: "nat \<Rightarrow> ('k, 'v) map_pc \<Rightarrow> ('k, 'v) map_sys \<Rightarrow> ('k, 'v) map_sys" where
  "map_calls t pc s = s\<lparr>my_pc := (my_pc s)(t := pc)\<rparr>"

definition map_runs :: "u64 \<Rightarrow> nat \<Rightarrow> ('k, 'v) map_sys \<Rightarrow> ('k, 'v) map_sys" where
  "map_runs msk t s =
     (let (pc, table, log) = map_access msk (my_pc s t) (my_table s) in
      s\<lparr>my_table := table, my_pc := (my_pc s)(t := pc), my_log := my_log s @ log\<rparr>)"

inductive map_step :: "('k \<Rightarrow> u64) \<Rightarrow> ('k, 'v) cmap \<Rightarrow> ('k, 'v) map_sys \<Rightarrow> ('k, 'v) map_sys \<Rightarrow> bool" for hasher m where
  call_get: "map_idle (my_pc s t) \<Longrightarrow> map_step hasher m s (map_calls t (Get_Probe key (cm_hash hasher m key) (cm_capacity m)) s)"
| call_insert: "map_idle (my_pc s t) \<Longrightarrow>
    map_step hasher m s ((map_calls t (Ins_Probe (my_boxes s) key val (cm_hash hasher m key) (cm_capacity m)) s)\<lparr>my_boxes := Suc (my_boxes s)\<rparr>)"
| call_remove: "map_idle (my_pc s t) \<Longrightarrow> map_step hasher m s (map_calls t (Rem_Probe key (cm_hash hasher m key) (cm_capacity m)) s)"
| map_run: "map_step hasher m s (map_runs (cm_mask m) t s)"

inductive map_reach :: "u64 \<Rightarrow> ('k \<Rightarrow> u64) \<Rightarrow> ('k, 'v) cmap \<Rightarrow> ('k, 'v) map_sys \<Rightarrow> bool" for capacity hasher m where
  map_init: "cmap_new capacity = Inr m \<Longrightarrow> map_reach capacity hasher m (map_start m)"
| map_more: "map_reach capacity hasher m s \<Longrightarrow> map_step hasher m s s' \<Longrightarrow> map_reach capacity hasher m s'"

section \<open>The invariant\<close>

fun linked :: "('k, 'v) map_log list \<Rightarrow> nat list" where
  "linked [] = []"
| "linked (Link a _ _ # xs) = a # linked xs"
| "linked (_ # xs) = linked xs"

fun retired :: "('k, 'v) map_log list \<Rightarrow> nat list" where
  "retired [] = []"
| "retired (Retire a _ # xs) = a # retired xs"
| "retired (_ # xs) = retired xs"

fun in_table :: "('k, 'v) cslot list \<Rightarrow> nat list" where
  "in_table [] = []"
| "in_table (Entry a _ _ # xs) = a # in_table xs"
| "in_table (_ # xs) = in_table xs"

text \<open>The box a thread has allocated and not yet linked.\<close>

definition own_box :: "('k, 'v) map_pc \<Rightarrow> nat option" where
  "own_box pc = (case pc of Ins_Probe a _ _ _ _ \<Rightarrow> Some a | Ins_Cas a _ _ _ _ _ \<Rightarrow> Some a | _ \<Rightarrow> None)"

text \<open>The slot a thread is at, and what it has read: entries that were linked.\<close>

fun map_pc_ok :: "nat \<Rightarrow> ('k, 'v) map_log list \<Rightarrow> ('k, 'v) map_pc \<Rightarrow> bool" where
  "map_pc_ok len log (Get_Probe key idx n) \<longleftrightarrow> unat idx < len"
| "map_pc_ok len log (Get_Ret key r) \<longleftrightarrow> (\<forall>v. r = Some v \<longrightarrow> (\<exists>a. Link a key v \<in> set log))"
| "map_pc_ok len log (Ins_Probe a key val idx n) \<longleftrightarrow> unat idx < len"
| "map_pc_ok len log (Ins_Cas a key val idx n cur) \<longleftrightarrow> unat idx < len \<and> (\<forall>b k v. cur = Entry b k v \<longrightarrow> k = key \<and> Link b k v \<in> set log)"
| "map_pc_ok len log (Rem_Probe key idx n) \<longleftrightarrow> unat idx < len"
| "map_pc_ok len log (Rem_Cas key idx n a v) \<longleftrightarrow> unat idx < len \<and> Link a key v \<in> set log"
| "map_pc_ok len log (Rem_Ret key r) \<longleftrightarrow> (\<forall>v. r = Some v \<longrightarrow> (\<exists>a. Link a key v \<in> set log))"
| "map_pc_ok len log Out_Of_Range \<longleftrightarrow> False"
| "map_pc_ok len log pc \<longleftrightarrow> True"

definition map_inv :: "nat \<Rightarrow> ('k, 'v) map_sys \<Rightarrow> bool" where
  "map_inv len s \<longleftrightarrow> length (my_table s) = len \<and>
     mset (linked (my_log s)) = mset (in_table (my_table s)) + mset (retired (my_log s)) \<and>
     distinct (linked (my_log s)) \<and> (\<forall>a\<in>set (linked (my_log s)). 2 \<le> a \<and> a < my_boxes s) \<and> 2 \<le> my_boxes s \<and>
     (\<forall>a k v. Entry a k v \<in> set (my_table s) \<longrightarrow> Link a k v \<in> set (my_log s)) \<and>
     (\<forall>t a. own_box (my_pc s t) = Some a \<longrightarrow> 2 \<le> a \<and> a < my_boxes s \<and> a \<notin> set (linked (my_log s))) \<and>
     (\<forall>t u a. own_box (my_pc s t) = Some a \<longrightarrow> own_box (my_pc s u) = Some a \<longrightarrow> t = u) \<and>
     (\<forall>t. map_pc_ok len (my_log s) (my_pc s t))"

lemma linked_append [simp]: "linked (xs @ ys) = linked xs @ linked ys"
  by (induction xs rule: linked.induct) simp_all

lemma retired_append [simp]: "retired (xs @ ys) = retired xs @ retired ys"
  by (induction xs rule: retired.induct) simp_all

lemma link_linked: "Link a k v \<in> set log \<Longrightarrow> a \<in> set (linked log)"
  by (induction log rule: linked.induct) auto

lemma link_unique: "distinct (linked log) \<Longrightarrow> Link a k v \<in> set log \<Longrightarrow> Link a k' v' \<in> set log \<Longrightarrow> k = k' \<and> v = v'"
  by (induction log rule: linked.induct) (auto dest: link_linked)

lemma in_table_append: "in_table (xs @ ys) = in_table xs @ in_table ys"
  by (induction xs rule: in_table.induct) simp_all

lemma in_table_update:
  assumes "i < length table"
  shows "mset (in_table (table[i := sl])) + mset (in_table [table ! i]) = mset (in_table table) + mset (in_table [sl])"
proof -
  have "mset (in_table (xs @ y # ys)) = mset (in_table xs) + mset (in_table [y]) + mset (in_table ys)" for xs y and ys :: "('a, 'b) cslot list"
    by (cases y) (simp_all add: in_table_append)
  then show ?thesis
    by (subst (2) id_take_nth_drop[OF assms], subst upd_conv_take_nth_drop[OF assms]) simp
qed

lemma map_pc_ok_mono: "map_pc_ok len log pc \<Longrightarrow> map_pc_ok len (log @ log') pc"
  by (cases pc) auto


lemma map_invD:
  assumes "map_inv len s"
  shows "length (my_table s) = len" "mset (linked (my_log s)) = mset (in_table (my_table s)) + mset (retired (my_log s))"
    "distinct (linked (my_log s))" "a \<in> set (linked (my_log s)) \<Longrightarrow> 2 \<le> a \<and> a < my_boxes s" "2 \<le> my_boxes s"
    "Entry a k v \<in> set (my_table s) \<Longrightarrow> Link a k v \<in> set (my_log s)"
    "own_box (my_pc s t) = Some a \<Longrightarrow> 2 \<le> a \<and> a < my_boxes s \<and> a \<notin> set (linked (my_log s))"
    "own_box (my_pc s t) = Some a \<Longrightarrow> own_box (my_pc s u) = Some a \<Longrightarrow> t = u"
    "map_pc_ok len (my_log s) (my_pc s t)"
  using assms unfolding map_inv_def by blast+

text \<open>A compare-exchange succeeds only on the slot as it was read.\<close>

lemma cas_exact:
  assumes inv: "map_inv len s" and i: "i < len" and ptr: "slot_ptr (my_table s ! i) = slot_ptr cur"
    and cur: "\<And>b k v. cur = Entry b k v \<Longrightarrow> Link b k v \<in> set (my_log s)"
  shows "my_table s ! i = cur"
proof -
  have e: "Link a k v \<in> set (my_log s) \<and> 2 \<le> a" if "my_table s ! i = Entry a k v" for a k v
  proof -
    have "Entry a k v \<in> set (my_table s)" using that i map_invD(1)[OF inv] by (metis nth_mem)
    then have l: "Link a k v \<in> set (my_log s)" by (rule map_invD(6)[OF inv])
    then show ?thesis using map_invD(4)[OF inv link_linked[OF l]] by simp
  qed
  show ?thesis
  proof (cases cur)
    case (Entry b k v)
    then have b: "Link b k v \<in> set (my_log s)" "2 \<le> b" using cur[OF Entry] map_invD(4)[OF inv link_linked] by blast+
    then show ?thesis using ptr Entry e link_unique[OF map_invD(3)[OF inv]] by (cases "my_table s ! i") auto
  qed (use ptr e in \<open>cases "my_table s ! i"; force\<close>)+
qed

text \<open>A step that leaves the table alone.\<close>

lemma map_inv_pc:
  assumes inv: "map_inv len s" and pc: "map_pc_ok len (my_log s) pc" and box: "own_box pc = None \<or> own_box pc = own_box (my_pc s t)"
    and log: "linked log = []" "retired log = []"
  shows "map_inv len (s\<lparr>my_pc := (my_pc s)(t := pc), my_log := my_log s @ log\<rparr>)"
proof -
  define P where "P = (my_pc s)(t := pc)"
  have ok: "map_pc_ok len (my_log s @ log) (P u)" for u
    using map_pc_ok_mono[OF pc] map_pc_ok_mono[OF map_invD(9)[OF inv]] by (simp add: P_def)
  have own: "own_box (my_pc s u) = Some a" if "own_box (P u) = Some a" for u a
    using box that by (auto simp: P_def split: if_splits)
  have "own_box (P u) = Some a \<Longrightarrow> 2 \<le> a \<and> a < my_boxes s \<and> a \<notin> set (linked (my_log s))"
    "own_box (P u) = Some a \<Longrightarrow> own_box (P v) = Some a \<Longrightarrow> u = v" for u v a
    using map_invD(7,8)[OF inv own] own by blast+
  then show ?thesis using inv ok unfolding map_inv_def P_def[symmetric] by (simp add: log)
qed

text \<open>A slot takes a box that was not linked before, and gives up the one that was there.\<close>

lemma map_inv_link:
  assumes inv: "map_inv len s" and i: "i < len" and box: "own_box (my_pc s t) = Some a"
    and log: "retired log = in_table [my_table s ! i]" "linked log = []"
  shows "map_inv len (s\<lparr>my_table := (my_table s)[i := Entry a key val], my_pc := (my_pc s)(t := Ins_Ret key True), my_log := my_log s @ Link a key val # log\<rparr>)"
proof -
  let ?T = "my_table s"
  note a = map_invD(7)[OF inv box]
  have "mset (in_table (?T[i := Entry a key val])) + mset (in_table [?T ! i]) = add_mset a (mset (in_table ?T))"
    using in_table_update[of i ?T "Entry a key val"] i map_invD(1)[OF inv] by simp
  then have "mset (linked (my_log s @ Link a key val # log)) = mset (in_table (?T[i := Entry a key val])) + mset (retired (my_log s @ Link a key val # log))"
    using map_invD(2)[OF inv] log by (simp add: union_assoc union_commute union_lcomm)
  moreover have "map_pc_ok len (my_log s @ Link a key val # log) (((my_pc s)(t := Ins_Ret key True)) u)" for u
    using map_pc_ok_mono[OF map_invD(9)[OF inv]] by simp
  moreover have "Link b k v \<in> set (my_log s @ Link a key val # log)" if "Entry b k v \<in> set (?T[i := Entry a key val])" for b k v
    using that map_invD(6)[OF inv] set_update_subset_insert[of ?T i "Entry a key val"] by auto
  moreover have "own_box (my_pc s u) \<noteq> Some a" if "u \<noteq> t" for u using map_invD(8)[OF inv box] that by blast
  ultimately show ?thesis using map_invD[OF inv] a log unfolding map_inv_def by (auto simp: own_box_def)
qed

lemma map_inv_unlink:
  assumes inv: "map_inv len s" and i: "i < len" and slot: "my_table s ! i = Entry a key val"
    and pc: "own_box (my_pc s t) = None"
  shows "map_inv len (s\<lparr>my_table := (my_table s)[i := Tombstone], my_pc := (my_pc s)(t := Rem_Ret key (Some val)), my_log := my_log s @ [Retire a d]\<rparr>)"
proof -
  let ?T = "my_table s"
  have "Entry a key val \<in> set ?T" using slot i map_invD(1)[OF inv] by (metis nth_mem)
  then have l: "Link a key val \<in> set (my_log s)" using map_invD(6)[OF inv] by blast
  have "mset (in_table (?T[i := Tombstone])) + {#a#} = mset (in_table ?T)"
    using in_table_update[of i ?T Tombstone] i map_invD(1)[OF inv] slot by simp
  then have "mset (linked (my_log s @ [Retire a d])) = mset (in_table (?T[i := Tombstone])) + mset (retired (my_log s @ [Retire a d]))"
    using map_invD(2)[OF inv] by (simp add: union_assoc union_commute union_lcomm)
  moreover have "map_pc_ok len (my_log s @ [Retire a d]) (((my_pc s)(t := Rem_Ret key (Some val))) u)" for u
    using map_pc_ok_mono[OF map_invD(9)[OF inv]] l by auto
  moreover have "Link b k v \<in> set (my_log s @ [Retire a d])" if "Entry b k v \<in> set (?T[i := Tombstone])" for b k v
    using that map_invD(6)[OF inv] set_update_subset_insert[of ?T i Tombstone] by auto
  ultimately show ?thesis using map_invD[OF inv] unfolding map_inv_def by (auto simp: own_box_def)
qed


lemma slot_linked:
  assumes "map_inv len s" "i < len" "my_table s ! i = Entry a k v"
  shows "Link a k v \<in> set (my_log s)"
  using map_invD(6)[OF assms(1)] map_invD(1)[OF assms(1)] assms(2,3) by (metis nth_mem)

lemma probe_access:
  assumes sh: "cm_shape k m" and inv: "map_inv (2 ^ k) s" and pc: "\<nexists>a key val idx n cur. my_pc s t = Ins_Cas a key val idx n cur"
    "\<nexists>key idx n a v. my_pc s t = Rem_Cas key idx n a v"
  shows "\<exists>pc log. map_access (cm_mask m) (my_pc s t) (my_table s) = (pc, my_table s, log) \<and> map_pc_ok (2 ^ k) (my_log s) pc \<and>
    (own_box pc = None \<or> own_box pc = own_box (my_pc s t)) \<and> linked log = [] \<and> retired log = []"
proof -
  note ok = map_invD(9)[OF inv, of t] and len = map_invD(1)[OF inv] and link = slot_linked[OF inv]
  have nxt: "unat (w AND cm_mask m) < 2 ^ k" for w by (simp add: and_mask_unat[OF sh])
  show ?thesis
  proof (cases "my_pc s t")
    case (Get_Probe key idx n)
    then show ?thesis using ok len link[of "unat idx"] nxt
      by (cases n; cases "my_table s ! unat idx") (auto simp: at_slot_def get_at_def own_box_def)
  next
    case (Ins_Probe a key val idx n)
    then show ?thesis using ok len link[of "unat idx"] nxt
      by (cases n; cases "my_table s ! unat idx") (auto simp: at_slot_def insert_at_def own_box_def)
  next
    case (Rem_Probe key idx n)
    then show ?thesis using ok len link[of "unat idx"] nxt
      by (cases n; cases "my_table s ! unat idx") (auto simp: at_slot_def remove_at_def own_box_def)
  qed (use ok pc in \<open>auto simp: own_box_def\<close>)
qed

lemma map_runs_same:
  assumes "map_inv len s" "map_access msk (my_pc s t) (my_table s) = (pc, my_table s, log)" "map_pc_ok len (my_log s) pc"
    "own_box pc = None \<or> own_box pc = own_box (my_pc s t)" "linked log = []" "retired log = []"
  shows "map_inv len (map_runs msk t s)"
  using map_inv_pc[OF assms(1,3-6)] assms(2) by (simp add: map_runs_def)

lemma map_runs_inv:
  assumes sh: "cm_shape k m" and inv: "map_inv (2 ^ k) s"
  shows "map_inv (2 ^ k) (map_runs (cm_mask m) t s)"
proof -
  note ok = map_invD(9)[OF inv, of t]
  consider a key val idx n cur where "my_pc s t = Ins_Cas a key val idx n cur" | key idx n a v where "my_pc s t = Rem_Cas key idx n a v"
    | "\<nexists>a key val idx n cur. my_pc s t = Ins_Cas a key val idx n cur" "\<nexists>key idx n a v. my_pc s t = Rem_Cas key idx n a v" by blast
  then show ?thesis
  proof cases
    case (1 a key val idx n cur)
    then have i: "unat idx < 2 ^ k" and c: "\<And>b k' v. cur = Entry b k' v \<Longrightarrow> Link b k' v \<in> set (my_log s)" using ok by auto
    show ?thesis
    proof (cases "slot_ptr (my_table s ! unat idx) = slot_ptr cur")
      case True
      have box: "own_box (my_pc s t) = Some a" by (simp add: 1 own_box_def)
      have "my_table s ! unat idx = cur" by (rule cas_exact[OF inv i True c])
      then show ?thesis using map_inv_link[OF inv i box, of "case cur of Entry a _ _ \<Rightarrow> [Retire a Drop_Entry_Node] | _ \<Rightarrow> []" key val] True
        by (auto simp: map_runs_def 1 split: cslot.splits)
    next
      case False
      then show ?thesis using 1 i by (intro map_runs_same[OF inv, where pc = "Ins_Probe a key val idx n" and log = "[]"]) (simp_all add: own_box_def)
    qed
  next
    case (2 key idx n a v)
    then have i: "unat idx < 2 ^ k" and c: "Link a key v \<in> set (my_log s)" using ok by auto
    show ?thesis
    proof (cases "slot_ptr (my_table s ! unat idx) = a")
      case True
      have "my_table s ! unat idx = Entry a key v" by (rule cas_exact[OF inv i]) (use True c in auto)
      then show ?thesis using map_inv_unlink[OF inv i, of a key v t Free_Entry_Shell] True by (simp add: map_runs_def 2 own_box_def)
    next
      case False
      then show ?thesis using 2 i by (intro map_runs_same[OF inv, where pc = "Rem_Probe key idx n" and log = "[]"]) (simp_all add: own_box_def)
    qed
  next
    case 3
    then show ?thesis using probe_access[OF sh inv] map_runs_same[OF inv] by blast
  qed
qed

lemma map_step_inv:
  assumes sh: "cm_shape k m" and inv: "map_inv (2 ^ k) s" and step: "map_step hasher m s s'"
  shows "map_inv (2 ^ k) s'"
  using step
proof cases
  case (call_get t key)
  then show ?thesis using map_inv_pc[OF inv, of "Get_Probe key (cm_hash hasher m key) (cm_capacity m)" t "[]"] and_mask_unat[OF sh]
    by (simp add: map_calls_def cm_hash_def own_box_def)
next
  case (call_remove t key)
  then show ?thesis using map_inv_pc[OF inv, of "Rem_Probe key (cm_hash hasher m key) (cm_capacity m)" t "[]"] and_mask_unat[OF sh]
    by (simp add: map_calls_def cm_hash_def own_box_def)
next
  case (map_run t)
  then show ?thesis using map_runs_inv[OF sh inv] by simp
next
  case (call_insert t key val)
  define P where "P = (my_pc s)(t := Ins_Probe (my_boxes s) key val (cm_hash hasher m key) (cm_capacity m))"
  have own: "own_box (P u) = Some a \<longleftrightarrow> (if u = t then a = my_boxes s else own_box (my_pc s u) = Some a)" for u a
    by (auto simp: P_def own_box_def)
  have "map_pc_ok (2 ^ k) (my_log s) (P u)" for u using map_invD(9)[OF inv] and_mask_unat[OF sh] by (simp add: P_def cm_hash_def)
  moreover have "own_box (P u) = Some a \<Longrightarrow> 2 \<le> a \<and> a < Suc (my_boxes s) \<and> a \<notin> set (linked (my_log s))"
    "own_box (P u) = Some a \<Longrightarrow> own_box (P v) = Some a \<Longrightarrow> u = v" for u v a
    using map_invD(4,5,7,8)[OF inv] unfolding own by (fastforce split: if_splits)+
  moreover have "a \<in> set (linked (my_log s)) \<Longrightarrow> 2 \<le> a \<and> a < Suc (my_boxes s)" for a using map_invD(4)[OF inv] by fastforce
  ultimately show ?thesis using inv call_insert unfolding map_inv_def map_calls_def P_def[symmetric] by simp
qed

lemma map_reach_inv:
  assumes "map_reach capacity hasher m s"
  shows "\<exists>k. cm_shape k m \<and> map_inv (2 ^ k) s"
  using assms
proof induction
  case map_init
  then obtain k where sh: "cm_shape k m" using cmap_new_inv[of capacity m hasher] by (auto simp: cm_inv_def)
  have t: "cm_table m = replicate (unat capacity) Null" using map_init by (auto simp: cmap_new_def split: if_splits)
  have "in_table (replicate n Null) = []" for n by (induction n) simp_all
  then show ?case using sh t by (auto simp: map_inv_def map_start_def own_box_def cm_shape_def)
next
  case (map_more s s')
  then show ?case using map_step_inv by blast
qed

section \<open>A call that is not interrupted\<close>

fun map_alone :: "nat \<Rightarrow> u64 \<Rightarrow> ('k, 'v) map_pc \<Rightarrow> ('k, 'v) cslot list \<Rightarrow> ('k, 'v) map_pc \<times> ('k, 'v) cslot list \<times> ('k, 'v) map_log list" where
  "map_alone 0 msk pc table = (pc, table, [])"
| "map_alone (Suc n) msk pc table =
     (let (pc, table, log) = map_access msk pc table; (pc, table, log') = map_alone n msk pc table in (pc, table, log @ log'))"

lemma map_alone_done: "map_idle pc \<or> pc = Out_Of_Range \<Longrightarrow> map_alone n msk pc table = (pc, table, [])"
proof (induction n)
  case (Suc n)
  then have "map_access msk pc table = (pc, table, [])" by (cases pc) (auto simp: map_idle_def)
  then show ?case using Suc by simp
qed simp

lemma map_alone_at:
  "map_alone n msk (at_slot table idx f) table =
     (if unat idx \<ge> length table then (Out_Of_Range, table, []) else map_alone n msk (f (table ! unat idx)) table)"
  by (simp add: at_slot_def map_alone_done)

lemma alone_probe:
  "map_alone (Suc f) msk (Get_Probe key idx (Suc n)) table =
     (if unat idx \<ge> length table then (Out_Of_Range, table, []) else map_alone f msk (get_at msk key idx n (table ! unat idx)) table)"
  "map_alone (Suc f) msk (Ins_Probe a key val idx (Suc n)) table =
     (if unat idx \<ge> length table then (Out_Of_Range, table, []) else map_alone f msk (insert_at msk a key val idx n (table ! unat idx)) table)"
  "map_alone (Suc f) msk (Rem_Probe key idx (Suc n)) table =
     (if unat idx \<ge> length table then (Out_Of_Range, table, []) else map_alone f msk (remove_at msk key idx n (table ! unat idx)) table)"
  by (simp_all add: map_alone_at Let_def split: prod.split)

lemma alone_cas:
  "table ! unat idx = cur \<Longrightarrow> map_alone (Suc f) msk (Ins_Cas a key val idx n cur) table =
     (Ins_Ret key True, table[unat idx := Entry a key val], Link a key val # (case cur of Entry b _ _ \<Rightarrow> [Retire b Drop_Entry_Node] | _ \<Rightarrow> []))"
  "table ! unat idx = Entry b k v \<Longrightarrow> map_alone (Suc f) msk (Rem_Cas key idx n b v) table =
     (Rem_Ret key (Some v), table[unat idx := Tombstone], [Retire b Free_Entry_Shell])"
  by (simp_all add: map_alone_done map_idle_def)

text \<open>Run without interruption, the accesses of a call find what its loop finds and change the table in the same way.\<close>

lemma get_alone:
  "map_alone (Suc n) (cm_mask m) (Get_Probe key idx n) (cm_table m) =
     (case cm_get_loop n m key idx of Inl _ \<Rightarrow> (Out_Of_Range, cm_table m, []) | Inr r \<Rightarrow> (Get_Ret key r, cm_table m, []))"
proof (induction n arbitrary: idx)
  case (Suc n)
  show ?case unfolding alone_probe using Suc.IH[of "(idx + 1) AND cm_mask m"]
    by (cases "cm_table m ! unat idx") (simp_all add: get_at_def map_alone_done map_idle_def Let_def del: map_alone.simps(2))
qed simp

lemma insert_alone:
  "map_alone (Suc (Suc n)) (cm_mask m) (Ins_Probe a key val idx n) (cm_table m) =
     (case cm_insert_loop n m key idx of
        Inl _ \<Rightarrow> (Out_Of_Range, cm_table m, [])
      | Inr None \<Rightarrow> (Ins_Ret key False, cm_table m, [Discard a])
      | Inr (Some i) \<Rightarrow> (Ins_Ret key True, (cm_table m)[unat i := Entry a key val],
          Link a key val # (case cm_table m ! unat i of Entry b _ _ \<Rightarrow> [Retire b Drop_Entry_Node] | _ \<Rightarrow> [])))"
proof (induction n arbitrary: idx)
  case (Suc n)
  show ?case unfolding alone_probe using Suc.IH[of "(idx + 1) AND cm_mask m"]
    by (cases "cm_table m ! unat idx") (simp_all add: insert_at_def alone_cas del: map_alone.simps(2))
qed (simp add: map_alone_done map_idle_def)

lemma remove_alone:
  "map_alone (Suc (Suc n)) (cm_mask m) (Rem_Probe key idx n) (cm_table m) =
     (case cm_remove_loop n m key idx of
        Inl _ \<Rightarrow> (Out_Of_Range, cm_table m, [])
      | Inr None \<Rightarrow> (Rem_Ret key None, cm_table m, [])
      | Inr (Some (i, a, v)) \<Rightarrow> (Rem_Ret key (Some v), (cm_table m)[unat i := Tombstone], [Retire a Free_Entry_Shell]))"
proof (induction n arbitrary: idx)
  case (Suc n)
  show ?case unfolding alone_probe using Suc.IH[of "(idx + 1) AND cm_mask m"]
    by (cases "cm_table m ! unat idx") (simp_all add: remove_at_def map_alone_done map_idle_def Let_def alone_cas del: map_alone.simps(2))
qed (simp add: map_alone_done map_idle_def)

section \<open>Schedules\<close>

datatype ('k, 'v) map_event = Call_Get nat 'k | Call_Insert nat 'k 'v | Call_Remove nat 'k | Step nat

definition map_do :: "('k \<Rightarrow> u64) \<Rightarrow> ('k, 'v) cmap \<Rightarrow> ('k, 'v) map_event \<Rightarrow> ('k, 'v) map_sys \<Rightarrow> ('k, 'v) map_sys" where
  "map_do hasher m x s = (case x of
       Call_Get t key \<Rightarrow> if map_idle (my_pc s t) then map_calls t (Get_Probe key (cm_hash hasher m key) (cm_capacity m)) s else map_runs (cm_mask m) t s
     | Call_Insert t key val \<Rightarrow> if map_idle (my_pc s t)
         then (map_calls t (Ins_Probe (my_boxes s) key val (cm_hash hasher m key) (cm_capacity m)) s)\<lparr>my_boxes := Suc (my_boxes s)\<rparr> else map_runs (cm_mask m) t s
     | Call_Remove t key \<Rightarrow> if map_idle (my_pc s t) then map_calls t (Rem_Probe key (cm_hash hasher m key) (cm_capacity m)) s else map_runs (cm_mask m) t s
     | Step t \<Rightarrow> map_runs (cm_mask m) t s)"

lemma map_do_step: "map_step hasher m s (map_do hasher m x s)"
  by (auto simp: map_do_def split: map_event.split intro: map_step.intros)

lemma map_sched_steps: "(map_step hasher m)\<^sup>*\<^sup>* s (fold (map_do hasher m) xs s)"
proof (induction xs arbitrary: s)
  case (Cons x xs)
  then show ?case using map_do_step[of hasher m s x] by (simp add: converse_rtranclp_into_rtranclp)
qed simp

lemma map_steps_reach: "(map_step hasher m)\<^sup>*\<^sup>* s s' \<Longrightarrow> map_reach capacity hasher m s \<Longrightarrow> map_reach capacity hasher m s'"
  by (induction rule: rtranclp_induct) (auto intro: map_more)

section \<open>Properties\<close>



definition one_slot :: "(nat, nat) cmap" where
  "one_slot = \<lparr>cm_capacity = 1, cm_mask = 0, cm_table = [Null], cm_collector = collector_new\<rparr>"

lemma one_slot_reach: "map_reach 1 (\<lambda>_. 0) one_slot (fold (map_do (\<lambda>_. 0) one_slot) xs (map_start one_slot))"
proof (rule map_steps_reach[OF map_sched_steps map_init])
  have "is_power_of_two (1 :: u64)" by code_simp
  then show "cmap_new 1 = Inr one_slot" by (simp add: cmap_new_def one_slot_def)
qed


text \<open>
  Run without interruption, the single accesses of \<open>get\<close>, \<open>insert\<close> and \<open>remove\<close> find what the loops of the whole
  operations find, and leave the same table.
\<close>

theorem fine_map_alone_equals:
  "map_alone (Suc n) (cm_mask m) (Get_Probe key idx n) (cm_table m) =
     (case cm_get_loop n m key idx of Inl _ \<Rightarrow> (Out_Of_Range, cm_table m, []) | Inr r \<Rightarrow> (Get_Ret key r, cm_table m, [])) \<and>
   map_alone (Suc (Suc n)) (cm_mask m) (Ins_Probe a key val idx n) (cm_table m) =
     (case cm_insert_loop n m key idx of
        Inl _ \<Rightarrow> (Out_Of_Range, cm_table m, [])
      | Inr None \<Rightarrow> (Ins_Ret key False, cm_table m, [Discard a])
      | Inr (Some i) \<Rightarrow> (Ins_Ret key True, (cm_table m)[unat i := Entry a key val],
          Link a key val # (case cm_table m ! unat i of Entry b _ _ \<Rightarrow> [Retire b Drop_Entry_Node] | _ \<Rightarrow> []))) \<and>
   map_alone (Suc (Suc n)) (cm_mask m) (Rem_Probe key idx n) (cm_table m) =
     (case cm_remove_loop n m key idx of
        Inl _ \<Rightarrow> (Out_Of_Range, cm_table m, [])
      | Inr None \<Rightarrow> (Rem_Ret key None, cm_table m, [])
      | Inr (Some (i, a, v)) \<Rightarrow> (Rem_Ret key (Some v), (cm_table m)[unat i := Tombstone], [Retire a Free_Entry_Shell]))"
  by (intro conjI get_alone insert_alone remove_alone)

text \<open>
  C20. A lost race uses up a round of the loop. An \<open>insert\<close> can return \<open>false\<close> and drop its value although every slot of
  the table would take its key, and a \<open>remove\<close> can return \<open>None\<close> for a key that is in the table from before the call until after it and is
  never removed.
\<close>

theorem fine_map_lost_race:
  "(\<exists>hasher m s t key. map_reach 1 hasher (m :: (nat, nat) cmap) s \<and> my_pc s t = Ins_Ret key False \<and> list_all (takes key) (my_table s)) \<and>
   (\<exists>hasher m s s' t key. map_reach 1 hasher (m :: (nat, nat) cmap) s \<and> map_idle (my_pc s t) \<and> list_ex (has_key key) (my_table s) \<and>
      (map_step hasher m)\<^sup>*\<^sup>* s s' \<and> my_pc s' t = Rem_Ret key None \<and> list_ex (has_key key) (my_table s') \<and>
      (\<forall>a. Retire a Free_Entry_Shell \<notin> set (my_log s')))"
proof -
  let ?run = "\<lambda>xs s. fold (map_do (\<lambda>_. 0) one_slot) xs s"
  let ?i = "?run [Call_Insert 0 7 8, Step 0, Call_Insert 1 7 9, Step 1, Step 1, Step 0, Step 0] (map_start one_slot)"
  have i: "my_pc ?i 0 = Ins_Ret 7 False \<and> list_all (takes 7) (my_table ?i)" by code_simp
  let ?s = "?run [Call_Insert 0 7 8, Step 0, Step 0] (map_start one_slot)"
  let ?s' = "?run [Call_Remove 1 7, Step 1, Call_Insert 0 7 9, Step 0, Step 0, Step 1, Step 1] ?s"
  have r: "map_idle (my_pc ?s 1) \<and> list_ex (has_key 7) (my_table ?s) \<and> my_pc ?s' 1 = Rem_Ret 7 None \<and>
      list_ex (has_key 7) (my_table ?s') \<and> my_log ?s' = [Link 2 7 8, Link 3 7 9, Retire 2 Drop_Entry_Node]" by code_simp
  then have "\<forall>a. Retire a Free_Entry_Shell \<notin> set (my_log ?s')" by simp
  then show ?thesis using i r one_slot_reach map_sched_steps[where s = ?s] by blast
qed

end
