(* ===== verification/Buf_Ring.thy ===== *)
theory Buf_Ring
  imports Prelude
begin

text \<open>
  The ring of provided buffers, \<^verbatim>\<open>src/uring-engine/src/buf_ring.rs\<close>. The kernel takes buffers
  from the ring between its own position and the tail that \<open>flush\<close> publishes; the published tail
  is the \<open>resv\<close> field of entry 0 (byte 14 of the ring), and the model keeps it there.

  The allocator and the registration call are answers the operations take as an argument. The
  kernel side of the ring is in the step relation below.
\<close>

section \<open>State\<close>

record io_uring_buf =
  ub_addr :: u64
  ub_len :: u32
  ub_bid :: u16
  ub_resv :: u16

record io_uring_buf_reg =
  reg_ring_addr :: u64
  reg_ring_entries :: u32
  reg_bgid :: u16
  reg_flags :: u16
  reg_resv :: "u64 list"

record buf_ring =
  br_bgid :: u16
  br_entries :: u32
  br_mask :: u16
  br_tail :: u16
  br_ring :: "io_uring_buf list"
  br_ring_ptr :: u64
  br_storage :: bytes
  br_storage_ptr :: u64
  br_size :: nat

definition IORING_REGISTER_PBUF_RING :: u32 where
  "IORING_REGISTER_PBUF_RING = 22"

section \<open>Operations\<close>

text \<open>\<open>add\<close>: the whole entry is written, its \<open>resv\<close> field included.\<close>

definition buf_add :: "u64 \<Rightarrow> u32 \<Rightarrow> u16 \<Rightarrow> buf_ring \<Rightarrow> buf_ring result" where
  "buf_add addr len bid br =
     (let idx = unat (br_tail br AND br_mask br) in
      if idx < length (br_ring br)
      then Inr (br\<lparr>br_ring := (br_ring br)[idx := \<lparr>ub_addr = addr, ub_len = len, ub_bid = bid, ub_resv = 0\<rparr>],
                   br_tail := br_tail br + 1\<rparr>)
      else Inl Undefined)"

definition get_buffer_ptr :: "buf_ring \<Rightarrow> u16 \<Rightarrow> u64" where
  "get_buffer_ptr br bid = br_storage_ptr br + of_nat (unat bid * br_size br)"

definition buf_recycle :: "u16 \<Rightarrow> buf_ring \<Rightarrow> buf_ring result" where
  "buf_recycle bid br = buf_add (get_buffer_ptr br bid) (of_nat (br_size br)) bid br"

definition buf_flush :: "buf_ring \<Rightarrow> buf_ring result" where
  "buf_flush br =
     (case br_ring br of
        [] \<Rightarrow> Inl Undefined
      | e # es \<Rightarrow> Inr (br\<lparr>br_ring := e\<lparr>ub_resv := br_tail br\<rparr> # es\<rparr>))"

fun buf_add_all :: "u16 list \<Rightarrow> buf_ring \<Rightarrow> buf_ring result" where
  "buf_add_all [] br = Inr br"
| "buf_add_all (bid # bids) br =
     (case buf_add (get_buffer_ptr br bid) (of_nat (br_size br)) bid br of
        Inl f \<Rightarrow> Inl f
      | Inr br \<Rightarrow> buf_add_all bids br)"

text \<open>\<open>Layout::from_size_align(n, 4096)\<close> succeeds.\<close>

definition layout_ok :: "nat \<Rightarrow> bool" where
  "layout_ok n \<longleftrightarrow> n + 4095 < 2 ^ 63"

record buf_answers =
  ba_ring :: "u64 option"
  ba_storage :: "u64 option"
  ba_register :: "i32 \<Rightarrow> u32 \<Rightarrow> io_uring_buf_reg \<Rightarrow> u32 \<Rightarrow> nat option"

text \<open>
  \<open>new\<close>, with the blocks that are allocated when it returns. The product of the sizes wraps at the
  width of \<open>usize\<close>, as in a release build; allocating no bytes is undefined.
\<close>

definition buf_ring_new :: "buf_answers \<Rightarrow> i32 \<Rightarrow> u16 \<Rightarrow> u32 \<Rightarrow> nat \<Rightarrow> u64 list \<times> buf_ring result" where
  "buf_ring_new ba ring_fd bgid entries buf_size =
     (if \<not> is_power_of_two entries then ([], Inl Panic)
      else if \<not> layout_ok (unat entries * 16) then ([], Inl (IoError Other))
      else case ba_ring ba of
        None \<Rightarrow> ([], Inl (IoError OutOfMemory))
      | Some ring_ptr \<Rightarrow>
          let total = unat entries * buf_size mod 2 ^ 64 in
          if \<not> layout_ok total then ([ring_ptr], Inl (IoError Other))
          else if total = 0 then ([ring_ptr], Inl Undefined)
          else case ba_storage ba of
            None \<Rightarrow> ([], Inl (IoError OutOfMemory))
          | Some storage_ptr \<Rightarrow>
              (case ba_register ba ring_fd IORING_REGISTER_PBUF_RING
                      \<lparr>reg_ring_addr = ring_ptr, reg_ring_entries = entries, reg_bgid = bgid,
                       reg_flags = 0, reg_resv = [0, 0, 0]\<rparr> 1 of
                 Some errno \<Rightarrow> ([], Inl (IoError (OsError errno)))
               | None \<Rightarrow>
                   let br = \<lparr>br_bgid = bgid, br_entries = entries, br_mask = ucast (entries - 1), br_tail = 0,
                             br_ring = replicate (unat entries) \<lparr>ub_addr = 0, ub_len = 0, ub_bid = 0, ub_resv = 0\<rparr>,
                             br_ring_ptr = ring_ptr, br_storage = replicate total 0,
                             br_storage_ptr = storage_ptr, br_size = buf_size\<rparr>
                   in ([storage_ptr, ring_ptr],
                       case buf_add_all (map of_nat [0..<unat (ucast entries :: u16)]) br of
                         Inl f \<Rightarrow> Inl f
                       | Inr br \<Rightarrow> buf_flush br)))"

text \<open>\<open>drop\<close>: the blocks it gives back, in order.\<close>

definition buf_ring_drop :: "buf_ring \<Rightarrow> u64 list" where
  "buf_ring_drop br = [br_storage_ptr br, br_ring_ptr br]"

section \<open>The ring as a queue of buffers\<close>

definition buf_shape :: "nat \<Rightarrow> buf_ring \<Rightarrow> bool" where
  "buf_shape k br \<longleftrightarrow> k \<le> 15 \<and> br_mask br = 2 ^ k - 1 \<and> length (br_ring br) = 2 ^ k"

text \<open>What the kernel reads as the tail, and the entry it would take next at its position.\<close>

definition published :: "buf_ring \<Rightarrow> u16" where
  "published br = ub_resv (br_ring br ! 0)"

definition kernel_next :: "u16 \<Rightarrow> buf_ring \<Rightarrow> io_uring_buf option" where
  "kernel_next head br =
     (if published br = head then None else Some (br_ring br ! unat (head AND br_mask br)))"

definition filled :: "u16 \<Rightarrow> buf_ring \<Rightarrow> io_uring_buf list" where
  "filled head br = window (br_ring br) (unat head) (unat (br_tail br - head))"

definition good_entry :: "buf_ring \<Rightarrow> io_uring_buf \<Rightarrow> bool" where
  "good_entry br e \<longleftrightarrow> ub_addr e = get_buffer_ptr br (ub_bid e) \<and> ub_len e = of_nat (br_size br)"

lemma buf_idx: "buf_shape k br \<Longrightarrow> unat (w AND br_mask br) = unat w mod 2 ^ k"
  by (simp add: buf_shape_def unat_and_mask)

lemma buf_tail_idx:
  assumes "buf_shape k br"
  shows "unat (br_tail br) mod 2 ^ k = (unat head + unat (br_tail br - head)) mod 2 ^ k"
proof -
  have "br_tail br = head + of_nat (unat (br_tail br - head))" by simp
  then show ?thesis using unat_add_mod[of k head "unat (br_tail br - head)"] assms by (simp add: buf_shape_def)
qed

text \<open>\<open>add\<close> appends to the queue while the ring has a free slot.\<close>

lemma buf_add_filled:
  assumes "buf_shape k br" "unat (br_tail br - head) < 2 ^ k"
  obtains br' where "buf_add addr len bid br = Inr br'" "buf_shape k br'"
    "filled head br' = filled head br @ [\<lparr>ub_addr = addr, ub_len = len, ub_bid = bid, ub_resv = 0\<rparr>]"
    "br_tail br' = br_tail br + 1" "br_storage_ptr br' = br_storage_ptr br" "br_size br' = br_size br"
    "br_storage br' = br_storage br" "br_entries br' = br_entries br" "br_ring_ptr br' = br_ring_ptr br"
proof -
  let ?n = "unat (br_tail br - head)" and ?e = "\<lparr>ub_addr = addr, ub_len = len, ub_bid = bid, ub_resv = 0\<rparr>"
  have k: "k \<le> 15" and len: "length (br_ring br) = 2 ^ k" using assms(1) by (auto simp: buf_shape_def)
  have idx: "unat (br_tail br AND br_mask br) = (unat head + ?n) mod length (br_ring br)"
    using buf_idx[OF assms(1)] buf_tail_idx[OF assms(1)] len by simp
  have pk: "(2::nat) ^ k \<le> 2 ^ 15" using k by (rule power_increasing) simp
  have suc: "unat (br_tail br + 1 - head) = Suc ?n" using assms(2) pk by (intro unat_dist_Suc) simp
  let ?br = "br\<lparr>br_ring := (br_ring br)[(unat head + ?n) mod length (br_ring br) := ?e], br_tail := br_tail br + 1\<rparr>"
  show thesis
  proof (rule that[of ?br])
    show "buf_add addr len bid br = Inr ?br" using len by (simp add: buf_add_def idx)
    show "filled head ?br = filled head br @ [?e]"
      using window_write[of ?n "br_ring br" "unat head"] assms(2) len suc by (simp add: filled_def)
  qed (use assms(1) in \<open>auto simp: buf_shape_def\<close>)
qed

lemma buf_recycle_filled:
  assumes "buf_shape k br" "unat (br_tail br - head) < 2 ^ k"
  obtains br' where "buf_recycle bid br = Inr br'" "buf_shape k br'"
    "filled head br' = filled head br @ [\<lparr>ub_addr = get_buffer_ptr br bid, ub_len = of_nat (br_size br), ub_bid = bid, ub_resv = 0\<rparr>]"
    "br_tail br' = br_tail br + 1" "br_storage_ptr br' = br_storage_ptr br" "br_size br' = br_size br"
    "br_storage br' = br_storage br" "br_entries br' = br_entries br" "br_ring_ptr br' = br_ring_ptr br"
  unfolding buf_recycle_def by (rule buf_add_filled[OF assms])

text \<open>\<open>flush\<close> publishes the tail and leaves every buffer id, address and length of the ring.\<close>

lemma buf_flush_ok:
  assumes "buf_shape k br"
  obtains br' where "buf_flush br = Inr br'" "buf_shape k br'" "published br' = br_tail br"
    "br' = br\<lparr>br_ring := br_ring br'\<rparr>"
    "map (\<lambda>e. (ub_bid e, ub_addr e, ub_len e)) (br_ring br') = map (\<lambda>e. (ub_bid e, ub_addr e, ub_len e)) (br_ring br)"
proof -
  obtain e es where e: "br_ring br = e # es" using assms by (cases "br_ring br") (auto simp: buf_shape_def)
  show thesis
    by (rule that[of "br\<lparr>br_ring := e\<lparr>ub_resv := br_tail br\<rparr> # es\<rparr>"])
      (use e assms in \<open>auto simp: buf_flush_def buf_shape_def published_def\<close>)
qed

lemma filled_cong:
  assumes "map f (br_ring br') = map f (br_ring br)" "br_tail br' = br_tail br" "br_ring br \<noteq> []"
  shows "map f (filled head br') = map f (filled head br)"
proof -
  have len: "length (br_ring br') = length (br_ring br)" using assms(1) by (rule map_eq_imp_length_eq)
  show ?thesis
  proof (rule nth_equalityI)
    fix i assume "i < length (map f (filled head br'))"
    moreover have "(unat head + i) mod length (br_ring br) < length (br_ring br)" using assms(3) by simp
    ultimately show "map f (filled head br') ! i = map f (filled head br) ! i"
      using assms(1,2) len by (simp add: filled_def) (metis len nth_map)
  qed (use assms(2) in \<open>simp add: filled_def\<close>)
qed

text \<open>Each \<open>add\<close> of the initial loop appends one buffer.\<close>

lemma buf_add_all_filled:
  assumes "buf_shape k br" "unat (br_tail br - head) + length bids \<le> 2 ^ k"
  shows "\<exists>br'. buf_add_all bids br = Inr br' \<and> buf_shape k br' \<and>
    filled head br' = filled head br @ map (\<lambda>bid. \<lparr>ub_addr = get_buffer_ptr br bid, ub_len = of_nat (br_size br),
      ub_bid = bid, ub_resv = 0\<rparr>) bids \<and>
    br_tail br' = br_tail br + of_nat (length bids) \<and> br_storage_ptr br' = br_storage_ptr br \<and>
    br_size br' = br_size br \<and> br_storage br' = br_storage br \<and> br_entries br' = br_entries br \<and> br_ring_ptr br' = br_ring_ptr br"
  using assms
proof (induction bids arbitrary: br)
  case (Cons bid bids)
  have k: "k \<le> 15" using Cons.prems(1) by (simp add: buf_shape_def)
  have pk: "(2::nat) ^ k \<le> 2 ^ 15" using k by (rule power_increasing) simp
  have room: "unat (br_tail br - head) < 2 ^ k" using Cons.prems(2) by simp
  from buf_add_filled[OF Cons.prems(1) room, of "get_buffer_ptr br bid" "of_nat (br_size br)" bid] obtain br1 where
    b: "buf_add (get_buffer_ptr br bid) (of_nat (br_size br)) bid br = Inr br1" "buf_shape k br1"
    "filled head br1 = filled head br @ [\<lparr>ub_addr = get_buffer_ptr br bid, ub_len = of_nat (br_size br), ub_bid = bid, ub_resv = 0\<rparr>]"
    "br_tail br1 = br_tail br + 1" "br_storage_ptr br1 = br_storage_ptr br" "br_size br1 = br_size br"
    "br_storage br1 = br_storage br" "br_entries br1 = br_entries br" "br_ring_ptr br1 = br_ring_ptr br" by blast
  have "unat (br_tail br1 - head) = Suc (unat (br_tail br - head))"
    unfolding b(4) using room pk by (intro unat_dist_Suc) simp
  then obtain br2 where "buf_add_all bids br1 = Inr br2" "buf_shape k br2"
    "filled head br2 = filled head br1 @ map (\<lambda>bid. \<lparr>ub_addr = get_buffer_ptr br1 bid, ub_len = of_nat (br_size br1),
      ub_bid = bid, ub_resv = 0\<rparr>) bids"
    "br_tail br2 = br_tail br1 + of_nat (length bids)" "br_storage_ptr br2 = br_storage_ptr br1"
    "br_size br2 = br_size br1" "br_storage br2 = br_storage br1" "br_entries br2 = br_entries br1"
    "br_ring_ptr br2 = br_ring_ptr br1"
    using Cons.IH[OF b(2)] Cons.prems(2) by auto
  then show ?case using b by (auto simp: get_buffer_ptr_def)
qed simp

section \<open>Construction\<close>

lemma is_power_of_two_pow [simp]: "k < LENGTH('a::len) \<Longrightarrow> is_power_of_two (2 ^ k :: 'a word)"
  by (auto simp: is_power_of_two_def list_ex_iff intro!: bexI[of _ k])

lemma unat_two_power: "k < LENGTH('a::len) \<Longrightarrow> unat (2 ^ k :: 'a word) = 2 ^ k"
  using unat_of_nat[of "2 ^ k", where 'a = 'a] by (simp add: power_strict_increasing)

lemma ucast_two_power:
  assumes "k \<le> 15"
  shows "unat (ucast (2 ^ k :: u32) :: u16) = 2 ^ k" "ucast (2 ^ k - 1 :: u32) = (2 ^ k - 1 :: u16)"
proof -
  have pk: "(2::nat) ^ k \<le> 2 ^ 15" using assms by (rule power_increasing) simp
  then show "unat (ucast (2 ^ k :: u32) :: u16) = 2 ^ k"
    using assms by (simp add: unsigned_ucast_eq unat_two_power take_bit_nat_eq_self)
  show "ucast (2 ^ k - 1 :: u32) = (2 ^ k - 1 :: u16)"
    unfolding mask_eq_exp_minus_1[symmetric] using assms by (simp add: ucast_mask_eq min_def)
qed

lemma buf_ring_new_cases:
  assumes "buf_ring_new ba ring_fd bgid (2 ^ k) buf_size = (bl, Inr br)" "k \<le> 15"
  shows "buf_shape k br" "br_tail br = 2 ^ k" "published br = 2 ^ k" "bl = buf_ring_drop br"
    "map (\<lambda>e. (ub_bid e, ub_addr e, ub_len e)) (filled 0 br) =
       map (\<lambda>bid. (bid, get_buffer_ptr br bid, of_nat (br_size br))) (map of_nat [0..<2 ^ k])"
proof -
  let ?bids = "map of_nat [0..<2 ^ k] :: u16 list"
  from assms obtain ring_ptr storage_ptr total where s: "bl = [storage_ptr, ring_ptr]" and
    n: "(case buf_add_all ?bids \<lparr>br_bgid = bgid, br_entries = 2 ^ k, br_mask = 2 ^ k - 1, br_tail = 0,
          br_ring = replicate (2 ^ k) \<lparr>ub_addr = 0, ub_len = 0, ub_bid = 0, ub_resv = 0\<rparr>,
          br_ring_ptr = ring_ptr, br_storage = replicate total 0, br_storage_ptr = storage_ptr, br_size = buf_size\<rparr> of
        Inl f \<Rightarrow> Inl f | Inr br \<Rightarrow> buf_flush br) = Inr br" (is "case_sum _ _ (buf_add_all _ ?b) = _")
    by (auto simp: buf_ring_new_def Let_def unat_two_power ucast_two_power split: if_splits option.splits)
  have sh: "buf_shape k ?b" using assms(2) by (simp add: buf_shape_def)
  have f0: "filled 0 ?b = []" by (simp add: filled_def)
  from buf_add_all_filled[OF sh, of 0 ?bids] f0 obtain br1 where b1: "buf_add_all ?bids ?b = Inr br1" "buf_shape k br1"
    "filled 0 br1 = map (\<lambda>bid. \<lparr>ub_addr = get_buffer_ptr ?b bid, ub_len = of_nat buf_size, ub_bid = bid, ub_resv = 0\<rparr>) ?bids"
    "br_tail br1 = 2 ^ k" "br_storage_ptr br1 = storage_ptr" "br_size br1 = buf_size" "br_ring_ptr br1 = ring_ptr" by auto
  have fl: "buf_flush br1 = Inr br" using n b1(1) by simp
  from buf_flush_ok[OF b1(2)] fl have br: "buf_shape k br" "published br = 2 ^ k" "br = br1\<lparr>br_ring := br_ring br\<rparr>"
    "map (\<lambda>e. (ub_bid e, ub_addr e, ub_len e)) (br_ring br) = map (\<lambda>e. (ub_bid e, ub_addr e, ub_len e)) (br_ring br1)"
    using b1(4) by auto
  have same: "br_tail br = br_tail br1" "br_storage_ptr br = storage_ptr" "br_size br = buf_size" "br_ring_ptr br = ring_ptr"
    using b1(5-) arg_cong[OF br(3), of br_tail] arg_cong[OF br(3), of br_storage_ptr] arg_cong[OF br(3), of br_size]
      arg_cong[OF br(3), of br_ring_ptr] by simp_all
  show "buf_shape k br" "published br = 2 ^ k" by (rule br)+
  show "br_tail br = 2 ^ k" "bl = buf_ring_drop br" using same b1(4) s by (simp_all add: buf_ring_drop_def)
  have ne: "br_ring br1 \<noteq> []" using b1(2) by (auto simp: buf_shape_def)
  show "map (\<lambda>e. (ub_bid e, ub_addr e, ub_len e)) (filled 0 br) =
       map (\<lambda>bid. (bid, get_buffer_ptr br bid, of_nat (br_size br))) ?bids"
    using filled_cong[OF br(4) same(1) ne, of 0] b1(3) same by (simp add: get_buffer_ptr_def)
qed

text \<open>
  Every error of \<open>new\<close> gives back what was allocated, but one: when the layout of the storage is
  refused, the ring stays allocated.
\<close>

lemma buf_ring_new_error:
  assumes "buf_ring_new ba ring_fd bgid entries buf_size = (bl, Inl (IoError e))"
  shows "bl = [] \<or> \<not> layout_ok (unat entries * buf_size mod 2 ^ 64)"
proof -
  have add: "buf_add a l b br \<noteq> Inl (IoError e)" for a l b br by (simp add: buf_add_def Let_def)
  have all: "buf_add_all bids br \<noteq> Inl (IoError e)" for bids br
    by (induction bids arbitrary: br) (use add in \<open>auto split: sum.splits\<close>)
  have "buf_flush br \<noteq> Inl (IoError e)" for br by (simp add: buf_flush_def split: list.splits)
  then show ?thesis using assms all
    by (auto simp: buf_ring_new_def Let_def split: if_splits option.splits sum.splits)
qed

section \<open>Buffers in use\<close>

text \<open>
  The kernel takes a buffer for a receive, the worker gives back a buffer it has, the worker
  flushes. The first rule is the documented consumer side of a provided-buffer ring: the kernel
  takes the entry at its position when that is not the published tail. It runs while the worker
  waits in \<open>io_uring_enter\<close>, when everything recycled is flushed.
\<close>

record buf_sys =
  bs_ring :: buf_ring
  bs_head :: u16
  bs_used :: "u16 list"

inductive buf_step :: "buf_sys \<Rightarrow> buf_sys \<Rightarrow> bool" where
  kernel_take: "published (bs_ring s) = br_tail (bs_ring s) \<Longrightarrow> kernel_next (bs_head s) (bs_ring s) = Some e \<Longrightarrow>
    buf_step s (s\<lparr>bs_head := bs_head s + 1, bs_used := ub_bid e # bs_used s\<rparr>)"
| give_back: "bid \<in> set (bs_used s) \<Longrightarrow> buf_recycle bid (bs_ring s) = Inr br \<Longrightarrow>
    buf_step s (s\<lparr>bs_ring := br, bs_used := remove1 bid (bs_used s)\<rparr>)"
| publish: "buf_flush (bs_ring s) = Inr br \<Longrightarrow> buf_step s (s\<lparr>bs_ring := br\<rparr>)"

inductive buf_reach :: "nat \<Rightarrow> buf_sys \<Rightarrow> bool" for k where
  reach_new: "buf_ring_new ba ring_fd bgid (2 ^ k) buf_size = (bl, Inr br) \<Longrightarrow>
    buf_reach k \<lparr>bs_ring = br, bs_head = 0, bs_used = []\<rparr>"
| reach_next: "buf_reach k s \<Longrightarrow> buf_step s s' \<Longrightarrow> buf_reach k s'"

definition buf_inv :: "nat \<Rightarrow> buf_sys \<Rightarrow> bool" where
  "buf_inv k s \<longleftrightarrow> buf_shape k (bs_ring s) \<and>
     mset (map ub_bid (filled (bs_head s) (bs_ring s))) + mset (bs_used s) = mset (map of_nat [0..<2 ^ k]) \<and>
     (\<forall>e\<in>set (filled (bs_head s) (bs_ring s)). good_entry (bs_ring s) e)"

lemma length_filled: "length (filled head br) = unat (br_tail br - head)"
  by (simp add: filled_def)

lemma buf_inv_count: "buf_inv k s \<Longrightarrow> unat (br_tail (bs_ring s) - bs_head s) + length (bs_used s) = 2 ^ k"
  unfolding buf_inv_def by (metis length_filled length_map length_upt minus_nat.diff_0 size_mset size_union)

lemma filled_Cons:
  assumes "buf_shape k br" "br_tail br \<noteq> head"
  shows "filled head br = br_ring br ! (unat head mod 2 ^ k) # filled (head + 1) br"
proof -
  have len: "length (br_ring br) = 2 ^ k" "k \<le> 15" using assms(1) by (auto simp: buf_shape_def)
  then have "Suc (unat head) mod length (br_ring br) = unat (head + 1) mod length (br_ring br)"
    using unat_add_mod[of k head 1] by simp
  then show ?thesis unfolding filled_def unat_dist_head[OF assms(2)] window_Cons
    using window_mod[of "Suc (unat head)" "br_ring br" "unat (head + 1)"] len by simp
qed

lemma buf_inv_step:
  assumes "buf_inv k s" "buf_step s s'"
  shows "buf_inv k s'"
  using assms(2)
proof cases
  case (kernel_take e)
  have sh: "buf_shape k (bs_ring s)" using assms(1) by (simp add: buf_inv_def)
  have ne: "br_tail (bs_ring s) \<noteq> bs_head s" and e: "e = br_ring (bs_ring s) ! (unat (bs_head s) mod 2 ^ k)"
    using kernel_take by (auto simp: kernel_next_def buf_idx[OF sh] split: if_splits)
  show ?thesis
    using assms(1) filled_Cons[OF sh ne] kernel_take(1) e by (auto simp: buf_inv_def)
next
  case (give_back bid br)
  have sh: "buf_shape k (bs_ring s)" using assms(1) by (simp add: buf_inv_def)
  have "0 < length (bs_used s)" using give_back(2) by (rule length_pos_if_in_set)
  then have room: "unat (br_tail (bs_ring s) - bs_head s) < 2 ^ k" using buf_inv_count[OF assms(1)] by linarith
  from buf_recycle_filled[OF sh room, of bid] give_back(3) have b: "buf_shape k br"
    "filled (bs_head s) br = filled (bs_head s) (bs_ring s) @ [\<lparr>ub_addr = get_buffer_ptr (bs_ring s) bid,
       ub_len = of_nat (br_size (bs_ring s)), ub_bid = bid, ub_resv = 0\<rparr>]"
    "br_storage_ptr br = br_storage_ptr (bs_ring s)" "br_size br = br_size (bs_ring s)" by auto
  have u: "mset (bs_used s) = add_mset bid (mset (remove1 bid (bs_used s)))" using give_back(2) by simp
  have "mset (map ub_bid (filled (bs_head s) br)) + mset (remove1 bid (bs_used s)) = mset (map of_nat [0..<2 ^ k])"
    using assms(1) unfolding buf_inv_def b(2) u by simp
  then show ?thesis using assms(1) b give_back(1)
    by (simp add: buf_inv_def good_entry_def get_buffer_ptr_def)
next
  case (publish br)
  have sh: "buf_shape k (bs_ring s)" using assms(1) by (simp add: buf_inv_def)
  from buf_flush_ok[OF sh] publish(2) have b: "buf_shape k br" "br = (bs_ring s)\<lparr>br_ring := br_ring br\<rparr>"
    "map (\<lambda>e. (ub_bid e, ub_addr e, ub_len e)) (br_ring br) = map (\<lambda>e. (ub_bid e, ub_addr e, ub_len e)) (br_ring (bs_ring s))"
    by auto
  have same: "br_tail br = br_tail (bs_ring s)" "br_storage_ptr br = br_storage_ptr (bs_ring s)" "br_size br = br_size (bs_ring s)"
    using arg_cong[OF b(2), of br_tail] arg_cong[OF b(2), of br_storage_ptr] arg_cong[OF b(2), of br_size] by simp_all
  have ne: "br_ring (bs_ring s) \<noteq> []" using sh by (auto simp: buf_shape_def)
  note f = filled_cong[OF b(3) same(1) ne, of "bs_head s"]
  have "map ub_bid (filled (bs_head s) br) = map ub_bid (filled (bs_head s) (bs_ring s))"
    using arg_cong[OF f, of "map fst"] by (simp add: comp_def)
  moreover have "list_all (\<lambda>(i, a, l). a = get_buffer_ptr br i \<and> l = of_nat (br_size br))
      (map (\<lambda>e. (ub_bid e, ub_addr e, ub_len e)) (filled (bs_head s) br))"
    unfolding f using assms(1) same by (auto simp: buf_inv_def list_all_iff good_entry_def get_buffer_ptr_def)
  ultimately show ?thesis using assms(1) b(1) publish(1) by (simp add: buf_inv_def list_all_iff good_entry_def)
qed

lemma buf_inv_reach:
  assumes "buf_reach k s" "k \<le> 15"
  shows "buf_inv k s"
  using assms(1)
proof induction
  case (reach_new ba ring_fd bgid buf_size bl br)
  note n = buf_ring_new_cases[OF reach_new assms(2)]
  have "map ub_bid (filled 0 br) = map of_nat [0..<2 ^ k]"
    using arg_cong[OF n(5), of "map fst"] by (simp add: comp_def)
  moreover have "list_all (\<lambda>(i, a, l). a = get_buffer_ptr br i \<and> l = of_nat (br_size br))
      (map (\<lambda>e. (ub_bid e, ub_addr e, ub_len e)) (filled 0 br))"
    unfolding n(5) by (simp add: list_all_iff)
  ultimately show ?case using n(1) by (simp add: buf_inv_def list_all_iff good_entry_def)
qed (rule buf_inv_step)

section \<open>Properties\<close>


text \<open>A ring of four one-byte buffers, and the kernel taking all of them.\<close>

definition ring4 :: buf_ring where
  "ring4 = \<lparr>br_bgid = 0, br_entries = 4, br_mask = 3, br_tail = 4,
     br_ring = [\<lparr>ub_addr = 8192, ub_len = 1, ub_bid = 0, ub_resv = 4\<rparr>, \<lparr>ub_addr = 8193, ub_len = 1, ub_bid = 1, ub_resv = 0\<rparr>,
                \<lparr>ub_addr = 8194, ub_len = 1, ub_bid = 2, ub_resv = 0\<rparr>, \<lparr>ub_addr = 8195, ub_len = 1, ub_bid = 3, ub_resv = 0\<rparr>],
     br_ring_ptr = 4096, br_storage = [0, 0, 0, 0], br_storage_ptr = 8192, br_size = 1\<rparr>"

lemma ring4_new:
  "buf_ring_new \<lparr>ba_ring = Some 4096, ba_storage = Some 8192, ba_register = \<lambda>_ _ _ _. None\<rparr> 3 0 (2 ^ 2) 1 = ([8192, 4096], Inr ring4)"
proof -
  have "case buf_add_all [0, 1, 2, 3] \<lparr>br_bgid = 0, br_entries = 4, br_mask = 3, br_tail = 0,
          br_ring = replicate 4 \<lparr>ub_addr = 0, ub_len = 0, ub_bid = 0, ub_resv = 0\<rparr>, br_ring_ptr = 4096,
          br_storage = [0, 0, 0, 0], br_storage_ptr = 8192, br_size = 1\<rparr> of
     Inr br \<Rightarrow> buf_flush br = Inr ring4 | Inl _ \<Rightarrow> False" by code_simp
  moreover have "is_power_of_two (4 :: u32)" using is_power_of_two_pow[of 2, where 'a = 32] by simp
  moreover have "[0..<4] = [0, 1, 2, 3]" "replicate 4 (0 :: byte) = [0, 0, 0, 0]"
    by (simp add: upt_rec) (simp add: numeral_eq_Suc)
  ultimately show ?thesis
    by (auto simp: buf_ring_new_def layout_ok_def Let_def split: sum.splits)
qed

lemma ring4_reach:
  assumes "n \<le> 4"
  shows "buf_reach 2 \<lparr>bs_ring = ring4, bs_head = of_nat n, bs_used = map of_nat (rev [0..<n])\<rparr>"
  using assms
proof (induction n)
  case 0
  then show ?case using reach_new[OF ring4_new] by simp
next
  case (Suc n)
  let ?s = "\<lparr>bs_ring = ring4, bs_head = of_nat n, bs_used = map of_nat (rev [0..<n])\<rparr>"
  have "list_all (\<lambda>i. kernel_next (of_nat i) ring4 = Some (br_ring ring4 ! i) \<and> ub_bid (br_ring ring4 ! i) = of_nat i) [0..<4]"
    by code_simp
  then have "kernel_next (of_nat n) ring4 = Some (br_ring ring4 ! n)" "ub_bid (br_ring ring4 ! n) = of_nat n"
    using Suc.prems by (auto simp: list_all_iff)
  moreover have "published ring4 = br_tail ring4" by code_simp
  ultimately show ?case
    using reach_next[OF Suc.IH, OF _ kernel_take[of ?s "br_ring ring4 ! n"]] Suc.prems by (simp add: add.commute)
qed


text \<open>
  Until \<open>flush\<close> runs, giving back a buffer into slot 0 takes the published tail away: \<open>add\<close>
  writes 0 over the \<open>resv\<close> field where it is kept. From a new ring of four whose buffers the kernel
  has all taken, one recycled buffer makes the tail the kernel reads 0 instead of 4, so that at its
  next positions the kernel finds the ring not empty, and takes from it a buffer that the worker
  still holds.
\<close>

theorem buf_ring_slot0_unpublishes:
  "\<exists>s br e. buf_reach 2 s \<and> published (bs_ring s) = 4 \<and> bs_head s = 4 \<and> buf_recycle 3 (bs_ring s) = Inr br \<and>
     published br = 0 \<and> br_tail br = 5 \<and> kernel_next (bs_head s + 1) br = Some e \<and>
     ub_bid e \<in> set (remove1 3 (bs_used s))"
proof -
  let ?s = "\<lparr>bs_ring = ring4, bs_head = of_nat 4, bs_used = map of_nat (rev [0..<4])\<rparr>"
  have r: "buf_reach 2 ?s" by (rule ring4_reach) simp
  have "case buf_recycle 3 ring4 of Inr br \<Rightarrow> published br = 0 \<and> br_tail br = 5 \<and>
     kernel_next 5 br = Some \<lparr>ub_addr = 8193, ub_len = 1, ub_bid = 1, ub_resv = 0\<rparr> | Inl _ \<Rightarrow> False" by code_simp
  then obtain br where "buf_recycle 3 ring4 = Inr br" "published br = 0" "br_tail br = 5"
    "kernel_next 5 br = Some \<lparr>ub_addr = 8193, ub_len = 1, ub_bid = 1, ub_resv = 0\<rparr>"
    by (auto split: sum.splits)
  moreover have "published ring4 = 4" by code_simp
  ultimately show ?thesis using r by (intro exI[of _ ?s] exI[of _ br]) (auto simp: upt_rec)
qed

end
