(* ===== verification/Uring_Op.thy ===== *)
theory Uring_Op
  imports Prelude
begin

text \<open>
  The submission and completion entries of \<^verbatim>\<open>src/uring-engine/src/sys.rs\<close> and the functions that fill
  them in, \<^verbatim>\<open>src/uring-engine/src/op.rs\<close>. The two flags of the \<open>libc\<close> package are
  arguments. A file descriptor is an \<open>i32\<close>; widening it to \<open>u64\<close> sign-extends.
\<close>

section \<open>Constants and entries\<close>

definition IORING_OP_ACCEPT :: byte where "IORING_OP_ACCEPT = 13"
definition IORING_OP_CLOSE :: byte where "IORING_OP_CLOSE = 19"
definition IORING_OP_SEND :: byte where "IORING_OP_SEND = 26"
definition IORING_OP_RECV :: byte where "IORING_OP_RECV = 27"
definition IOSQE_BUFFER_SELECT :: byte where "IOSQE_BUFFER_SELECT = push_bit 5 1"
definition IORING_ACCEPT_MULTISHOT :: u16 where "IORING_ACCEPT_MULTISHOT = push_bit 0 1"
definition IORING_RECV_MULTISHOT :: u16 where "IORING_RECV_MULTISHOT = push_bit 1 1"
definition IORING_CQE_F_BUFFER :: u32 where "IORING_CQE_F_BUFFER = push_bit 0 1"
definition IORING_CQE_F_MORE :: u32 where "IORING_CQE_F_MORE = push_bit 1 1"
definition IORING_CQE_BUFFER_SHIFT :: nat where "IORING_CQE_BUFFER_SHIFT = 16"

lemmas opcode_defs = IORING_OP_ACCEPT_def IORING_OP_CLOSE_def IORING_OP_SEND_def IORING_OP_RECV_def

record io_uring_sqe =
  sqe_opcode :: byte
  sqe_flags :: byte
  sqe_ioprio :: u16
  sqe_fd :: i32
  sqe_off :: u64
  sqe_addr :: u64
  sqe_len :: u32
  sqe_op_flags :: u32
  sqe_user_data :: u64
  sqe_buf_index :: u16
  sqe_personality :: u16
  sqe_splice_fd_in :: i32
  sqe_addr3 :: u64
  sqe_pad2 :: u64

text \<open>\<open>#[derive(Default)]\<close>.\<close>

definition sqe_default :: io_uring_sqe where
  "sqe_default = \<lparr>sqe_opcode = 0, sqe_flags = 0, sqe_ioprio = 0, sqe_fd = 0, sqe_off = 0, sqe_addr = 0,
     sqe_len = 0, sqe_op_flags = 0, sqe_user_data = 0, sqe_buf_index = 0, sqe_personality = 0,
     sqe_splice_fd_in = 0, sqe_addr3 = 0, sqe_pad2 = 0\<rparr>"

record io_uring_cqe =
  cqe_user_data :: u64
  cqe_res :: i32
  cqe_flags :: u32

section \<open>User data\<close>

definition encode_user_data :: "i32 \<Rightarrow> byte \<Rightarrow> u64" where
  "encode_user_data fd opc = (scast fd AND 0xFFFFFFFF) OR push_bit 32 (ucast opc)"

definition decode_fd :: "u64 \<Rightarrow> i32" where
  "decode_fd user_data = ucast (user_data AND 0xFFFFFFFF)"

definition decode_op :: "u64 \<Rightarrow> byte" where
  "decode_op user_data = ucast (drop_bit 32 user_data AND 0xFF)"

section \<open>Preparing entries\<close>

definition prep_accept_multishot :: "u32 \<Rightarrow> i32 \<Rightarrow> io_uring_sqe \<Rightarrow> io_uring_sqe" where
  "prep_accept_multishot sock_cloexec listen_fd sqe =
     sqe\<lparr>sqe_opcode := IORING_OP_ACCEPT, sqe_fd := listen_fd, sqe_addr := 0, sqe_off := 0, sqe_len := 0,
         sqe_ioprio := IORING_ACCEPT_MULTISHOT, sqe_op_flags := sock_cloexec,
         sqe_user_data := encode_user_data listen_fd IORING_OP_ACCEPT\<rparr>"

definition prep_recv_multishot :: "i32 \<Rightarrow> u16 \<Rightarrow> io_uring_sqe \<Rightarrow> io_uring_sqe" where
  "prep_recv_multishot fd bgid sqe =
     sqe\<lparr>sqe_opcode := IORING_OP_RECV, sqe_fd := fd, sqe_addr := 0, sqe_len := 0, sqe_off := 0,
         sqe_flags := IOSQE_BUFFER_SELECT, sqe_buf_index := bgid, sqe_ioprio := IORING_RECV_MULTISHOT,
         sqe_user_data := encode_user_data fd IORING_OP_RECV\<rparr>"

definition prep_send :: "u32 \<Rightarrow> i32 \<Rightarrow> u64 \<Rightarrow> u32 \<Rightarrow> io_uring_sqe \<Rightarrow> io_uring_sqe" where
  "prep_send msg_nosignal fd buf len sqe =
     sqe\<lparr>sqe_opcode := IORING_OP_SEND, sqe_fd := fd, sqe_addr := buf, sqe_len := len, sqe_off := 0,
         sqe_op_flags := msg_nosignal, sqe_user_data := encode_user_data fd IORING_OP_SEND\<rparr>"

definition prep_close :: "i32 \<Rightarrow> io_uring_sqe \<Rightarrow> io_uring_sqe" where
  "prep_close fd sqe =
     sqe\<lparr>sqe_opcode := IORING_OP_CLOSE, sqe_fd := fd, sqe_user_data := encode_user_data fd IORING_OP_CLOSE\<rparr>"

lemmas prep_defs = prep_accept_multishot_def prep_recv_multishot_def prep_send_def prep_close_def

section \<open>The round trip\<close>

lemma mask_32: "(0xFFFFFFFF :: u64) = mask 32"
  by (simp add: mask_eq_exp_minus_1)

lemma mask_8: "(0xFF :: u64) = mask 8"
  by (simp add: mask_eq_exp_minus_1)

lemma decode_fd_encode [simp]: "decode_fd (encode_user_data fd opc) = fd"
  unfolding decode_fd_def encode_user_data_def mask_32
  by (rule bit_word_eqI) (auto simp: bit_simps)

lemma decode_op_encode [simp]: "decode_op (encode_user_data fd opc) = opc"
  unfolding decode_op_def encode_user_data_def mask_32 mask_8
  by (rule bit_word_eqI) (auto simp: bit_simps)

text \<open>What a completion of an entry carries back in its user data: the descriptor and the operation.\<close>

definition tagged :: "io_uring_sqe \<Rightarrow> bool" where
  "tagged s \<longleftrightarrow> sqe_user_data s = encode_user_data (sqe_fd s) (sqe_opcode s) \<and>
     sqe_opcode s \<in> {IORING_OP_ACCEPT, IORING_OP_CLOSE, IORING_OP_SEND, IORING_OP_RECV}"

lemma tagged_prep [simp]:
  "tagged (prep_accept_multishot cl fd s)" "tagged (prep_recv_multishot fd g s)"
  "tagged (prep_send ns fd b n s)" "tagged (prep_close fd s)"
  by (simp_all add: tagged_def prep_defs)

text \<open>
  The user data of a submission is a lossless code: from what \<open>encode_user_data\<close> packs,
  \<open>decode_fd\<close> reads the descriptor back for every \<open>i32\<close>, negative ones included (the cast
  sign-extends and the mask cuts it off), and \<open>decode_op\<close> the opcode; so two submissions have the
  same user data only when they are the same operation on the same descriptor.
\<close>

theorem user_data_roundtrip:
  "decode_fd (encode_user_data fd opc) = fd \<and> decode_op (encode_user_data fd opc) = opc \<and>
   (encode_user_data fd opc = encode_user_data fd' opc' \<longleftrightarrow> fd = fd' \<and> opc = opc')"
  by (metis decode_fd_encode decode_op_encode)

end
