(* ===== verification/Uring.thy ===== *)
theory Uring
  imports Uring_Op
begin

text \<open>
  The submission and completion queues shared with the kernel, \<^verbatim>\<open>src/uring-engine/src/uring.rs\<close>.
  The memory both sides map is one record (\<open>uring_shm\<close>); what the kernel does in \<open>io_uring_enter\<close> is a
  function on it that the operations take as an argument. Setting up, the kernel answers with its
  parameters and the contents of the mapping; every access through a raw pointer is checked against
  the mapping (\<open>Undefined\<close> outside).
\<close>

section \<open>State\<close>

record io_sqring_offsets =
  so_head :: u32
  so_tail :: u32
  so_ring_mask :: u32
  so_ring_entries :: u32
  so_flags :: u32
  so_dropped :: u32
  so_array :: u32
  so_resv1 :: u32
  so_user_addr :: u64

record io_cqring_offsets =
  co_head :: u32
  co_tail :: u32
  co_ring_mask :: u32
  co_ring_entries :: u32
  co_overflow :: u32
  co_cqes :: u32
  co_flags :: u32
  co_resv1 :: u32
  co_user_addr :: u64

record io_uring_params =
  up_sq_entries :: u32
  up_cq_entries :: u32
  up_flags :: u32
  up_sq_thread_cpu :: u32
  up_sq_thread_idle :: u32
  up_features :: u32
  up_wq_fd :: u32
  up_resv :: "u32 list"
  up_sq_off :: io_sqring_offsets
  up_cq_off :: io_cqring_offsets

record uring_shm =
  um_sq_head :: u32
  um_sq_tail :: u32
  um_sq_array :: "u32 list"
  um_sqes :: "io_uring_sqe list"
  um_cq_head :: u32
  um_cq_tail :: u32
  um_cqes :: "io_uring_cqe list"

record uring =
  ur_fd :: i32
  ur_shm :: uring_shm
  ur_sq_mask :: u32
  ur_sq_entries :: u32
  ur_cq_mask :: u32
  ur_cq_entries :: u32
  ur_sq_tail_local :: u32
  ur_sq_head_cache :: u32
  ur_ring_sz :: nat
  ur_sqes_sz :: nat

definition IORING_SETUP_CLAMP :: u32 where "IORING_SETUP_CLAMP = push_bit 4 1"
definition IORING_SETUP_SINGLE_ISSUER :: u32 where "IORING_SETUP_SINGLE_ISSUER = push_bit 12 1"
definition IORING_FEAT_SINGLE_MMAP :: u32 where "IORING_FEAT_SINGLE_MMAP = push_bit 0 1"
definition IORING_ENTER_GETEVENTS :: u32 where "IORING_ENTER_GETEVENTS = push_bit 0 1"
definition IORING_REGISTER_BUFFERS :: u32 where "IORING_REGISTER_BUFFERS = 0"

section \<open>Set-up\<close>

definition params_default :: io_uring_params where
  "params_default = \<lparr>up_sq_entries = 0, up_cq_entries = 0, up_flags = 0, up_sq_thread_cpu = 0, up_sq_thread_idle = 0,
     up_features = 0, up_wq_fd = 0, up_resv = [0, 0, 0],
     up_sq_off = \<lparr>so_head = 0, so_tail = 0, so_ring_mask = 0, so_ring_entries = 0, so_flags = 0, so_dropped = 0,
                  so_array = 0, so_resv1 = 0, so_user_addr = 0\<rparr>,
     up_cq_off = \<lparr>co_head = 0, co_tail = 0, co_ring_mask = 0, co_ring_entries = 0, co_overflow = 0, co_cqes = 0,
                  co_flags = 0, co_resv1 = 0, co_user_addr = 0\<rparr>\<rparr>"

record setup_answers =
  sa_setup :: "u32 \<Rightarrow> io_uring_params \<Rightarrow> nat + (i32 \<times> io_uring_params)"
  sa_mmap_ring :: "nat option"
  sa_mmap_sqes :: "nat option"
  sa_ring :: "nat \<Rightarrow> byte"
  sa_sqes :: "nat \<Rightarrow> io_uring_sqe"

datatype resource = Open_Fd i32 | Mapped_Ring nat | Mapped_Sqes nat

text \<open>A \<open>u32\<close> and a completion entry read at an offset of the mapping.\<close>

definition ring_u32 :: "bytes \<Rightarrow> nat \<Rightarrow> u32" where
  "ring_u32 mem off = from_le_bytes (subslice mem off (off + 4))"

definition ring_cqe :: "bytes \<Rightarrow> nat \<Rightarrow> io_uring_cqe" where
  "ring_cqe mem off = \<lparr>cqe_user_data = from_le_bytes (subslice mem off (off + 8)),
     cqe_res = from_le_bytes (subslice mem (off + 8) (off + 12)),
     cqe_flags = from_le_bytes (subslice mem (off + 12) (off + 16))\<rparr>"

text \<open>
  \<open>new\<close>, with what is open and mapped when it returns. The reads through \<open>ring_base\<close> and the writes
  of \<open>sq_array\<close> have to lie in the mapping. Of the completion entries the model keeps those the
  mapping holds.
\<close>

definition uring_new :: "setup_answers \<Rightarrow> u32 \<Rightarrow> resource list \<times> uring result" where
  "uring_new sa entries =
     (let params = params_default\<lparr>up_flags := IORING_SETUP_SINGLE_ISSUER OR IORING_SETUP_CLAMP\<rparr> in
      case sa_setup sa entries params of
        Inl errno \<Rightarrow> ([], Inl (IoError (OsError errno)))
      | Inr (fd, params) \<Rightarrow> let
          sq_off = up_sq_off params;
          cq_off = up_cq_off params;
          sq_ring_sz = unat (so_array sq_off) + unat (up_sq_entries params) * 4;
          cq_ring_sz = unat (co_cqes cq_off) + unat (up_cq_entries params) * 16;
          sqes_sz = unat (up_sq_entries params) * 64;
          ring_sz = (if up_features params AND IORING_FEAT_SINGLE_MMAP \<noteq> 0 then max sq_ring_sz cq_ring_sz else sq_ring_sz)
        in case sa_mmap_ring sa of
          Some errno \<Rightarrow> ([], Inl (IoError (OsError errno)))
        | None \<Rightarrow>
          (case sa_mmap_sqes sa of
             Some errno \<Rightarrow> ([], Inl (IoError (OsError errno)))
           | None \<Rightarrow> ([Mapped_Sqes sqes_sz, Mapped_Ring ring_sz, Open_Fd fd],
               let mem = map (sa_ring sa) [0..<ring_sz] in
               if \<not> list_all (\<lambda>off. unat off + 4 \<le> ring_sz)
                      [so_head sq_off, so_tail sq_off, so_ring_mask sq_off, so_ring_entries sq_off,
                       co_head cq_off, co_tail cq_off, co_ring_mask cq_off, co_ring_entries cq_off]
               then Inl Undefined
               else let
                 sq_entries_kern = ring_u32 mem (unat (so_ring_entries sq_off));
                 cq_entries_kern = ring_u32 mem (unat (co_ring_entries cq_off))
               in if unat (so_array sq_off) + unat sq_entries_kern * 4 > ring_sz then Inl Undefined
               else Inr \<lparr>ur_fd = fd,
                  ur_shm = \<lparr>um_sq_head = ring_u32 mem (unat (so_head sq_off)),
                            um_sq_tail = ring_u32 mem (unat (so_tail sq_off)),
                            um_sq_array = map of_nat [0..<unat sq_entries_kern],
                            um_sqes = map (sa_sqes sa) [0..<unat (up_sq_entries params)],
                            um_cq_head = ring_u32 mem (unat (co_head cq_off)),
                            um_cq_tail = ring_u32 mem (unat (co_tail cq_off)),
                            um_cqes = map (\<lambda>i. ring_cqe mem (unat (co_cqes cq_off) + 16 * i))
                                        [0..<min (unat cq_entries_kern) ((ring_sz - unat (co_cqes cq_off)) div 16)]\<rparr>,
                  ur_sq_mask = ring_u32 mem (unat (so_ring_mask sq_off)), ur_sq_entries = sq_entries_kern,
                  ur_cq_mask = ring_u32 mem (unat (co_ring_mask cq_off)), ur_cq_entries = cq_entries_kern,
                  ur_sq_tail_local = 0, ur_sq_head_cache = 0, ur_ring_sz = ring_sz, ur_sqes_sz = sqes_sz\<rparr>)))"

text \<open>\<open>drop\<close>: what it unmaps and closes, in order.\<close>

definition uring_drop :: "uring \<Rightarrow> resource list" where
  "uring_drop u = [Mapped_Sqes (ur_sqes_sz u), Mapped_Ring (ur_ring_sz u), Open_Fd (ur_fd u)]"

definition uring_register_buffers :: "(i32 \<Rightarrow> u32 \<Rightarrow> (u64 \<times> nat) list \<Rightarrow> u32 \<Rightarrow> nat option) \<Rightarrow> (u64 \<times> nat) list \<Rightarrow> uring \<Rightarrow> unit result" where
  "uring_register_buffers register iovecs u =
     (case register (ur_fd u) IORING_REGISTER_BUFFERS iovecs (of_nat (length iovecs)) of
        Some errno \<Rightarrow> Inl (IoError (OsError errno))
      | None \<Rightarrow> Inr ())"

section \<open>Submission\<close>

text \<open>\<open>get_sqe\<close> gives the index of the entry it lends out; \<open>sqe_write\<close> is a write through that reference.\<close>

definition get_sqe :: "uring \<Rightarrow> (nat option \<times> uring) result" where
  "get_sqe u =
     (let u' = (if ur_sq_tail_local u - ur_sq_head_cache u \<ge> ur_sq_entries u
                then u\<lparr>ur_sq_head_cache := um_sq_head (ur_shm u)\<rparr> else u)
      in if ur_sq_tail_local u - ur_sq_head_cache u \<ge> ur_sq_entries u \<and>
            ur_sq_tail_local u' - ur_sq_head_cache u' \<ge> ur_sq_entries u'
         then Inr (None, u')
         else let
           idx = ur_sq_tail_local u' AND ur_sq_mask u';
           m = ur_shm u'
         in if unat idx < length (um_sqes m) \<and> unat idx < length (um_sq_array m)
            then Inr (Some (unat idx),
              u'\<lparr>ur_shm := m\<lparr>um_sqes := (um_sqes m)[unat idx := sqe_default],
                             um_sq_array := (um_sq_array m)[unat idx := idx]\<rparr>,
                 ur_sq_tail_local := ur_sq_tail_local u' + 1\<rparr>)
            else Inl Undefined)"

definition sqe_write :: "nat \<Rightarrow> (io_uring_sqe \<Rightarrow> io_uring_sqe) \<Rightarrow> uring \<Rightarrow> uring" where
  "sqe_write i f u = u\<lparr>ur_shm := (ur_shm u)\<lparr>um_sqes := (um_sqes (ur_shm u))[i := f (um_sqes (ur_shm u) ! i)]\<rparr>\<rparr>"

type_synonym kernel_enter = "i32 \<Rightarrow> u32 \<Rightarrow> u32 \<Rightarrow> u32 \<Rightarrow> uring_shm \<Rightarrow> (nat + u32) \<times> uring_shm"

definition uring_submit :: "kernel_enter \<Rightarrow> uring \<Rightarrow> u32 result \<times> uring" where
  "uring_submit enter u =
     (let to_submit = ur_sq_tail_local u - ur_sq_head_cache u in
      if to_submit = 0 then (Inr 0, u)
      else case enter (ur_fd u) to_submit 0 0 ((ur_shm u)\<lparr>um_sq_tail := ur_sq_tail_local u\<rparr>) of
          (Inl errno, m) \<Rightarrow> (Inl (IoError (OsError errno)), u\<lparr>ur_shm := m\<rparr>)
        | (Inr ret, m) \<Rightarrow> (Inr ret, u\<lparr>ur_shm := m, ur_sq_head_cache := um_sq_head m\<rparr>))"

definition submit_and_wait :: "kernel_enter \<Rightarrow> u32 \<Rightarrow> uring \<Rightarrow> u32 result \<times> uring" where
  "submit_and_wait enter min_complete u =
     (let to_submit = ur_sq_tail_local u - ur_sq_head_cache u in
      case enter (ur_fd u) to_submit min_complete IORING_ENTER_GETEVENTS
             ((ur_shm u)\<lparr>um_sq_tail := ur_sq_tail_local u\<rparr>) of
          (Inl errno, m) \<Rightarrow> (Inl (IoError (OsError errno)), u\<lparr>ur_shm := m\<rparr>)
        | (Inr ret, m) \<Rightarrow> (Inr ret, u\<lparr>ur_shm := m, ur_sq_head_cache := um_sq_head m\<rparr>))"

section \<open>Completion\<close>

definition peek_cqe :: "uring \<Rightarrow> io_uring_cqe option result" where
  "peek_cqe u =
     (let m = ur_shm u in
      if um_cq_head m = um_cq_tail m then Inr None
      else let idx = unat (um_cq_head m AND ur_cq_mask u) in
        if idx < length (um_cqes m) then Inr (Some (um_cqes m ! idx)) else Inl Undefined)"

definition advance_cq :: "u32 \<Rightarrow> uring \<Rightarrow> uring" where
  "advance_cq n u = u\<lparr>ur_shm := (ur_shm u)\<lparr>um_cq_head := um_cq_head (ur_shm u) + n\<rparr>\<rparr>"

text \<open>The loop of \<open>for_each_cqe\<close>; the closure is a function on the state it captures.\<close>

function cqe_loop :: "uring \<Rightarrow> (io_uring_cqe \<Rightarrow> 's \<Rightarrow> 's) \<Rightarrow> u32 \<Rightarrow> u32 \<Rightarrow> 's \<Rightarrow> (u32 \<times> 's) result" where
  "cqe_loop u f head tail s =
     (if head = tail then Inr (head, s)
      else let idx = unat (head AND ur_cq_mask u); cqes = um_cqes (ur_shm u) in
        if idx < length cqes then cqe_loop u f (head + 1) tail (f (cqes ! idx) s) else Inl Undefined)"
  by pat_completeness auto
termination
  by (relation "measure (\<lambda>(u, f, head, tail, s). unat (tail - head))")
    (auto simp: unat_dist_head[of tail head for tail head])

declare cqe_loop.simps [simp del]

definition for_each_cqe :: "(io_uring_cqe \<Rightarrow> 's \<Rightarrow> 's) \<Rightarrow> 's \<Rightarrow> uring \<Rightarrow> ('s \<times> uring) result" where
  "for_each_cqe f s u =
     (let m = ur_shm u in
      case cqe_loop u f (um_cq_head m) (um_cq_tail m) s of
        Inl e \<Rightarrow> Inl e
      | Inr (head, s) \<Rightarrow> Inr (s, if head \<noteq> um_cq_head m then u\<lparr>ur_shm := m\<lparr>um_cq_head := head\<rparr>\<rparr> else u))"

section \<open>The submission queue\<close>

text \<open>
  What the kernel has still to consume: the entries that the index array names between the kernel's
  position and the local tail.
\<close>

definition sq_queue :: "uring \<Rightarrow> io_uring_sqe list" where
  "sq_queue u = map (\<lambda>i. um_sqes (ur_shm u) ! unat i)
     (window (um_sq_array (ur_shm u)) (unat (um_sq_head (ur_shm u))) (unat (ur_sq_tail_local u - um_sq_head (ur_shm u))))"

text \<open>
  The shape of a ring with \<open>2^k\<close> entries, and positions in order: the cached head is not ahead of
  the kernel's head, and no more than a full ring lies before the tail.
\<close>

definition sq_shape :: "nat \<Rightarrow> uring \<Rightarrow> bool" where
  "sq_shape k u \<longleftrightarrow> k \<le> 15 \<and> ur_sq_mask u = 2 ^ k - 1 \<and> ur_sq_entries u = 2 ^ k \<and>
     length (um_sqes (ur_shm u)) = 2 ^ k \<and> um_sq_array (ur_shm u) = map of_nat [0..<2 ^ k]"

definition sq_inv :: "nat \<Rightarrow> uring \<Rightarrow> bool" where
  "sq_inv k u \<longleftrightarrow> sq_shape k u \<and>
     unat (ur_sq_tail_local u - um_sq_head (ur_shm u)) \<le> unat (ur_sq_tail_local u - ur_sq_head_cache u) \<and>
     unat (ur_sq_tail_local u - ur_sq_head_cache u) \<le> 2 ^ k"

lemma window_map: "xs \<noteq> [] \<Longrightarrow> window (map f xs) h n = map f (window xs h n)"
  by (simp add: window_def)

lemma window_upt: "0 < L \<Longrightarrow> window [0..<L] h n = map (\<lambda>j. (h + j) mod L) [0..<n]"
  by (simp add: window_def)

lemma sq_queue_window:
  assumes "sq_shape k u"
  shows "sq_queue u = window (um_sqes (ur_shm u)) (unat (um_sq_head (ur_shm u))) (unat (ur_sq_tail_local u - um_sq_head (ur_shm u)))"
proof -
  have k: "k \<le> 15" and a: "um_sq_array (ur_shm u) = map of_nat [0..<2 ^ k]" and l: "length (um_sqes (ur_shm u)) = 2 ^ k"
    using assms by (auto simp: sq_shape_def)
  have pk: "(2::nat) ^ k \<le> 32768" using k power_increasing[of k 15 "2::nat"] by simp
  have small: "unat (of_nat (i mod 2 ^ k) :: u32) = i mod 2 ^ k" for i
  proof -
    have "i mod 2 ^ k < 2 ^ k" by simp
    then have "i mod 2 ^ k < 4294967296" using pk by linarith
    then show ?thesis by (simp add: unat_of_nat)
  qed
  show ?thesis unfolding sq_queue_def a by (simp add: window_map window_upt window_def[of "um_sqes _"] comp_def small l)
qed

lemma length_sq_queue: "length (sq_queue u) = unat (ur_sq_tail_local u - um_sq_head (ur_shm u))"
  by (simp add: sq_queue_def)

lemma full_word:
  fixes d :: u32
  assumes "k \<le> 15"
  shows "2 ^ k \<le> d \<longleftrightarrow> 2 ^ k \<le> unat d"
  using assms unat_of_nat[of "2 ^ k", where 'a = 32] power_strict_increasing[of k 32 "2::nat"]
  by (simp add: word_le_nat_alt)

text \<open>\<open>get_sqe\<close> on a full ring, and with room.\<close>

lemma get_sqe_full:
  assumes "sq_inv k u" "length (sq_queue u) = 2 ^ k"
  shows "get_sqe u = Inr (None, u\<lparr>ur_sq_head_cache := um_sq_head (ur_shm u)\<rparr>)"
proof -
  have "k \<le> 15" "ur_sq_entries u = 2 ^ k" using assms(1) by (auto simp: sq_inv_def sq_shape_def)
  then show ?thesis using assms unfolding length_sq_queue sq_inv_def by (simp add: get_sqe_def Let_def full_word)
qed

lemma get_sqe_room:
  assumes "sq_inv k u" "length (sq_queue u) < 2 ^ k"
  obtains i u' where "get_sqe u = Inr (Some i, u')" "sq_inv k u'" "um_sqes (ur_shm u') ! i = sqe_default"
    "\<And>f. sq_queue (sqe_write i f u') = sq_queue u @ [f sqe_default]" "\<And>f. sq_inv k (sqe_write i f u')"
    "um_cq_head (ur_shm u') = um_cq_head (ur_shm u)" "um_cq_tail (ur_shm u') = um_cq_tail (ur_shm u)"
    "um_cqes (ur_shm u') = um_cqes (ur_shm u)" "ur_cq_mask u' = ur_cq_mask u"
proof -
  let ?m = "ur_shm u" and ?t = "ur_sq_tail_local u"
  let ?n = "unat (?t - um_sq_head ?m)" and ?h = "unat (um_sq_head ?m)"
  have sh: "sq_shape k u" and pos: "?n \<le> unat (?t - ur_sq_head_cache u)" "unat (?t - ur_sq_head_cache u) \<le> 2 ^ k"
    using assms(1) by (auto simp: sq_inv_def)
  have k: "k \<le> 15" and e: "ur_sq_entries u = 2 ^ k" "ur_sq_mask u = 2 ^ k - 1"
    and l: "length (um_sqes ?m) = 2 ^ k" and a: "um_sq_array ?m = map of_nat [0..<2 ^ k]"
    using sh by (auto simp: sq_shape_def)
  have pk: "(2::nat) ^ k \<le> 2 ^ 15" using k by (rule power_increasing) simp
  have room: "?n < 2 ^ k" using assms(2) by (simp add: length_sq_queue)
  define cache where "cache = (if 2 ^ k \<le> unat (?t - ur_sq_head_cache u) then um_sq_head ?m else ur_sq_head_cache u)"
  have cache: "?n \<le> unat (?t - cache)" "unat (?t - cache) < 2 ^ k" using pos room by (auto simp: cache_def)
  define i where "i = (?h + ?n) mod 2 ^ k"
  have idx: "unat (?t AND ur_sq_mask u) = i"
    using unat_add_mod[of k "um_sq_head ?m" ?n] k by (simp add: e unat_and_mask i_def)
  have il: "i < 2 ^ k" by (simp add: i_def)
  have ai: "(um_sq_array ?m)[i := ?t AND ur_sq_mask u] = um_sq_array ?m"
  proof -
    have "um_sq_array ?m ! i = ?t AND ur_sq_mask u" using a il by (simp flip: idx)
    then show ?thesis by (metis list_update_id)
  qed
  define u' where "u' = u\<lparr>ur_shm := ?m\<lparr>um_sqes := (um_sqes ?m)[i := sqe_default]\<rparr>, ur_sq_tail_local := ?t + 1, ur_sq_head_cache := cache\<rparr>"
  have get: "get_sqe u = Inr (Some i, u')"
    using cache room k il l a ai idx pos e by (auto simp: get_sqe_def Let_def full_word u'_def cache_def)
  have suc: "unat (?t + 1 - um_sq_head ?m) = Suc ?n" "unat (?t + 1 - cache) = Suc (unat (?t - cache))"
    using room cache(2) pk by (auto intro!: unat_dist_Suc)
  have inv: "sq_inv k (sqe_write i f u')" for f
    using sh cache suc by (auto simp: sq_inv_def sq_shape_def u'_def sqe_write_def)
  have "sq_queue (sqe_write i f u') = sq_queue u @ [f sqe_default]" for f
    using window_write[of ?n "um_sqes ?m" ?h "f sqe_default"] room suc(1) l il
      sq_queue_window[OF sh] inv[of f, unfolded sq_inv_def, THEN conjunct1, THEN sq_queue_window]
    by (simp add: u'_def sqe_write_def i_def)
  moreover have "sq_inv k u'" using sh cache suc by (auto simp: sq_inv_def sq_shape_def u'_def)
  ultimately show thesis using that[OF get] inv il l by (simp add: u'_def)
qed

text \<open>
  The contract of a submission queue that its client relies on: a queue of entries with a capacity,
  where a request for an entry fails exactly when the queue is full, and otherwise what is written
  to the entry comes last in the queue.
\<close>

locale submission_queue =
  fixes cap :: nat
    and ok :: "'q \<Rightarrow> bool"
    and queue :: "'q \<Rightarrow> 'e list"
    and get :: "'q \<Rightarrow> (nat option \<times> 'q) result"
    and fill :: "nat \<Rightarrow> ('e \<Rightarrow> 'e) \<Rightarrow> 'q \<Rightarrow> 'q"
    and blank :: 'e
  assumes bound: "ok q \<Longrightarrow> length (queue q) \<le> cap"
    and get_full: "ok q \<Longrightarrow> length (queue q) = cap \<Longrightarrow> \<exists>q'. get q = Inr (None, q') \<and> ok q' \<and> queue q' = queue q"
    and get_room: "ok q \<Longrightarrow> length (queue q) < cap \<Longrightarrow>
      \<exists>i q'. get q = Inr (Some i, q') \<and> (\<forall>f. ok (fill i f q') \<and> queue (fill i f q') = queue q @ [f blank])"
begin

text \<open>Queueing entries one after the other, each where there is room.\<close>

fun put_all :: "('e \<Rightarrow> 'e) list \<Rightarrow> 'q \<Rightarrow> 'q result" where
  "put_all [] q = Inr q"
| "put_all (f # fs) q =
     (case get q of
        Inl e \<Rightarrow> Inl e
      | Inr (None, q) \<Rightarrow> put_all fs q
      | Inr (Some i, q) \<Rightarrow> put_all fs (fill i f q))"

lemma put_all_queue:
  "ok q \<Longrightarrow> \<exists>q'. put_all fs q = Inr q' \<and> ok q' \<and> queue q' = take cap (queue q @ map (\<lambda>f. f blank) fs)"
proof (induction fs arbitrary: q)
  case Nil
  then show ?case using bound by simp
next
  case (Cons f fs)
  show ?case
  proof (cases "length (queue q) = cap")
    case True
    then show ?thesis using get_full[OF Cons.prems] Cons.IH by fastforce
  next
    case False
    then have "length (queue q) < cap" using bound[OF Cons.prems] by simp
    then obtain i q' where "get q = Inr (Some i, q')" "ok (fill i f q')" "queue (fill i f q') = queue q @ [f blank]"
      using get_room[OF Cons.prems] by blast
    then show ?thesis using Cons.IH[of "fill i f q'"] by simp
  qed
qed

end

interpretation sq: submission_queue "2 ^ k" "sq_inv k" sq_queue get_sqe sqe_write sqe_default for k
proof
  fix u
  assume inv: "sq_inv k u"
  then show "length (sq_queue u) \<le> 2 ^ k" by (auto simp: length_sq_queue sq_inv_def)
  show "\<exists>u'. get_sqe u = Inr (None, u') \<and> sq_inv k u' \<and> sq_queue u' = sq_queue u" if "length (sq_queue u) = 2 ^ k"
    using get_sqe_full[OF inv that] inv that by (auto simp: sq_inv_def sq_shape_def sq_queue_def)
  show "\<exists>i u'. get_sqe u = Inr (Some i, u') \<and> (\<forall>f. sq_inv k (sqe_write i f u') \<and> sq_queue (sqe_write i f u') = sq_queue u @ [f sqe_default])"
    if "length (sq_queue u) < 2 ^ k"
    by (rule get_sqe_room[OF inv that]) blast
qed

section \<open>The completion queue\<close>

definition cq_queue :: "uring \<Rightarrow> io_uring_cqe list" where
  "cq_queue u = window (um_cqes (ur_shm u)) (unat (um_cq_head (ur_shm u))) (unat (um_cq_tail (ur_shm u) - um_cq_head (ur_shm u)))"

definition cq_shape :: "nat \<Rightarrow> uring \<Rightarrow> bool" where
  "cq_shape j u \<longleftrightarrow> j < 32 \<and> ur_cq_mask u = 2 ^ j - 1 \<and> length (um_cqes (ur_shm u)) = 2 ^ j"

lemma cq_window_Cons:
  assumes "cq_shape j u" "head \<noteq> tail"
  shows "window (um_cqes (ur_shm u)) (unat head) (unat (tail - head)) =
    um_cqes (ur_shm u) ! unat (head AND ur_cq_mask u) # window (um_cqes (ur_shm u)) (unat (head + 1)) (unat (tail - (head + 1)))"
proof -
  let ?xs = "um_cqes (ur_shm u)"
  have l: "length ?xs = 2 ^ j" "j < 32" and m: "ur_cq_mask u = 2 ^ j - 1" using assms(1) by (auto simp: cq_shape_def)
  have "Suc (unat head) mod length ?xs = unat (head + 1) mod length ?xs" using unat_add_mod[of j head 1] l by simp
  then show ?thesis
    using unat_dist_head[of tail head] assms(2) window_Cons[of ?xs "unat head" "unat (tail - (head + 1))"]
      window_mod[of "Suc (unat head)" ?xs "unat (head + 1)"] l m by (simp add: unat_and_mask)
qed

lemma cq_idx: "cq_shape j u \<Longrightarrow> unat (head AND ur_cq_mask u) < length (um_cqes (ur_shm u))"
  by (simp add: cq_shape_def unat_and_mask)

lemma peek_cqe_queue:
  "cq_shape j u \<Longrightarrow> peek_cqe u = Inr (case cq_queue u of [] \<Rightarrow> None | c # _ \<Rightarrow> Some c)"
  using cq_idx[of j u "um_cq_head (ur_shm u)"] cq_window_Cons[of j u "um_cq_head (ur_shm u)" "um_cq_tail (ur_shm u)"]
  by (auto simp: peek_cqe_def Let_def cq_queue_def)

lemma advance_cq_queue:
  "cq_shape j u \<Longrightarrow> cq_queue u \<noteq> [] \<Longrightarrow> cq_queue (advance_cq 1 u) = tl (cq_queue u)"
  using cq_window_Cons[of j u "um_cq_head (ur_shm u)" "um_cq_tail (ur_shm u)"]
  by (cases "um_cq_head (ur_shm u) = um_cq_tail (ur_shm u)") (auto simp: advance_cq_def cq_queue_def)

lemma cqe_loop_fold:
  assumes "cq_shape j u"
  shows "cqe_loop u f head tail s = Inr (tail, fold f (window (um_cqes (ur_shm u)) (unat head) (unat (tail - head))) s)"
  using assms
proof (induction u f head tail s rule: cqe_loop.induct)
  case (1 u f head tail s)
  show ?case
  proof (cases "head = tail")
    case True
    then show ?thesis by (simp add: cqe_loop.simps)
  next
    case False
    then show ?thesis
      using 1 cq_idx[OF 1(2), of head] cq_window_Cons[OF 1(2) False] by (simp add: cqe_loop.simps[of u f head] Let_def)
  qed
qed

lemma cq_shape_cong:
  "ur_cq_mask u' = ur_cq_mask u \<Longrightarrow> length (um_cqes (ur_shm u')) = length (um_cqes (ur_shm u)) \<Longrightarrow> cq_shape j u' = cq_shape j u"
  by (simp add: cq_shape_def)

section \<open>The kernel\<close>

text \<open>
  What \<open>io_uring_enter\<close> is documented to do with the shared memory: it consumes from the head of the
  submission queue at most the number of entries it was asked for and at most those that were
  published, and returns that number; when it fails it has consumed nothing. It leaves the
  entries, the index array and the tail alone, and only appends to the completion queue.
\<close>

definition cq_window :: "uring_shm \<Rightarrow> io_uring_cqe list" where
  "cq_window m = window (um_cqes m) (unat (um_cq_head m)) (unat (um_cq_tail m - um_cq_head m))"

definition kernel_ok :: "kernel_enter \<Rightarrow> bool" where
  "kernel_ok enter \<longleftrightarrow> (\<forall>fd n mc fl m r m'. enter fd n mc fl m = (r, m') \<longrightarrow>
     um_sq_tail m' = um_sq_tail m \<and> um_sqes m' = um_sqes m \<and> um_sq_array m' = um_sq_array m \<and>
     um_cq_head m' = um_cq_head m \<and> length (um_cqes m') = length (um_cqes m) \<and>
     (\<exists>new. cq_window m' = cq_window m @ new) \<and>
     (case r of
        Inr ret \<Rightarrow> um_sq_head m' = um_sq_head m + ret \<and> ret \<le> n \<and> ret \<le> um_sq_tail m - um_sq_head m
      | Inl _ \<Rightarrow> um_sq_head m' = um_sq_head m))"

lemma cq_queue_window: "cq_queue u = cq_window (ur_shm u)"
  by (simp add: cq_queue_def cq_window_def)

lemma unat_diff_le: "(r :: 'a::len word) \<le> d \<Longrightarrow> unat (d - r) = unat d - unat r"
  by (simp add: unat_sub)

lemma sq_advance:
  assumes "sq_inv k u" "um_sqes m = um_sqes (ur_shm u)" "um_sq_array m = um_sq_array (ur_shm u)"
    "um_sq_head m = um_sq_head (ur_shm u) + ret" "ret \<le> ur_sq_tail_local u - um_sq_head (ur_shm u)"
    "u' = u\<lparr>ur_shm := m, ur_sq_head_cache := um_sq_head m\<rparr>"
  shows "sq_inv k u' \<and> sq_queue u' = drop (unat ret) (sq_queue u)"
proof -
  let ?h = "um_sq_head (ur_shm u)" and ?t = "ur_sq_tail_local u"
  have k: "k \<le> 15" and sh: "sq_shape k u" and n: "unat (?t - ?h) \<le> 2 ^ k"
    using assms(1) by (auto simp: sq_inv_def sq_shape_def)
  have sh': "sq_shape k u'" using sh assms(2,3,6) by (simp add: sq_shape_def)
  have d: "unat (?t - (?h + ret)) = unat (?t - ?h) - unat ret"
    using unat_diff_le[OF assms(5)] by (simp add: diff_diff_eq)
  have "unat (?h + ret) mod 2 ^ k = (unat ?h + unat ret) mod 2 ^ k" using unat_add_mod[of k ?h "unat ret"] k by simp
  then have "window (um_sqes (ur_shm u)) (unat (?h + ret)) (unat (?t - ?h) - unat ret) =
      window (um_sqes (ur_shm u)) (unat ?h + unat ret) (unat (?t - ?h) - unat ret)"
    using sh by (intro window_mod) (simp add: sq_shape_def)
  then have "sq_queue u' = drop (unat ret) (sq_queue u)"
    using sq_queue_window[OF sh] sq_queue_window[OF sh'] d assms(2,4,6) by (simp add: drop_window)
  moreover have "sq_inv k u'" using sh' n d assms(4,6) by (simp add: sq_inv_def)
  ultimately show ?thesis by blast
qed

lemma sq_unmoved:
  assumes "sq_inv k u" "um_sqes m = um_sqes (ur_shm u)" "um_sq_array m = um_sq_array (ur_shm u)"
    "um_sq_head m = um_sq_head (ur_shm u)"
  shows "sq_inv k (u\<lparr>ur_shm := m\<rparr>)" "sq_queue (u\<lparr>ur_shm := m\<rparr>) = sq_queue u"
  using assms by (auto simp: sq_inv_def sq_shape_def sq_queue_def)

lemma kernel_enter_queues:
  assumes "kernel_ok enter" "sq_inv k u"
    and "enter (ur_fd u) n mc fl ((ur_shm u)\<lparr>um_sq_tail := ur_sq_tail_local u\<rparr>) = (r, m)"
    and "u' = (case r of Inl _ \<Rightarrow> u\<lparr>ur_shm := m\<rparr> | Inr _ \<Rightarrow> u\<lparr>ur_shm := m, ur_sq_head_cache := um_sq_head m\<rparr>)"
  shows "sq_inv k u' \<and> sq_queue u' = (case r of Inl _ \<Rightarrow> sq_queue u | Inr ret \<Rightarrow> drop (unat ret) (sq_queue u)) \<and>
    um_sq_tail (ur_shm u') = ur_sq_tail_local u' \<and> cq_shape j u' = cq_shape j u \<and> (\<exists>new. cq_queue u' = cq_queue u @ new)"
proof -
  let ?m = "(ur_shm u)\<lparr>um_sq_tail := ur_sq_tail_local u\<rparr>"
  have k: "um_sq_tail m = um_sq_tail ?m \<and> um_sqes m = um_sqes ?m \<and> um_sq_array m = um_sq_array ?m \<and>
     um_cq_head m = um_cq_head ?m \<and> length (um_cqes m) = length (um_cqes ?m) \<and> (\<exists>new. cq_window m = cq_window ?m @ new) \<and>
     (case r of Inr ret \<Rightarrow> um_sq_head m = um_sq_head ?m + ret \<and> ret \<le> n \<and> ret \<le> um_sq_tail ?m - um_sq_head ?m
      | Inl _ \<Rightarrow> um_sq_head m = um_sq_head ?m)"
    using assms(1,3) unfolding kernel_ok_def by blast
  have "ur_shm u' = m" "ur_sq_tail_local u' = ur_sq_tail_local u" "ur_cq_mask u' = ur_cq_mask u"
    using assms(4) by (auto split: sum.splits)
  moreover have "cq_window ?m = cq_window (ur_shm u)" by (simp add: cq_window_def)
  ultimately have rest: "um_sq_tail (ur_shm u') = ur_sq_tail_local u'" "cq_shape j u' = cq_shape j u"
    "\<exists>new. cq_queue u' = cq_queue u @ new"
    using k by (auto simp: cq_queue_window cq_shape_def)
  show ?thesis
  proof (cases r)
    case (Inl e)
    then show ?thesis using sq_unmoved[OF assms(2), of m] k rest assms(4) by simp
  next
    case (Inr ret)
    then show ?thesis using sq_advance[OF assms(2), of m ret u'] k rest assms(4) by simp
  qed
qed

section \<open>Examples\<close>

text \<open>A ring of two whose counters are about to wrap, with two completions; a kernel that consumes all.\<close>

definition ring2 :: uring where
  "ring2 = \<lparr>ur_fd = 3,
     ur_shm = \<lparr>um_sq_head = 0xFFFFFFFF, um_sq_tail = 0xFFFFFFFF, um_sq_array = [0, 1], um_sqes = [sqe_default, sqe_default],
               um_cq_head = 0xFFFFFFFF, um_cq_tail = 1,
               um_cqes = [\<lparr>cqe_user_data = 0, cqe_res = 20, cqe_flags = 0\<rparr>, \<lparr>cqe_user_data = 0, cqe_res = 10, cqe_flags = 0\<rparr>]\<rparr>,
     ur_sq_mask = 1, ur_sq_entries = 2, ur_cq_mask = 1, ur_cq_entries = 2,
     ur_sq_tail_local = 0xFFFFFFFF, ur_sq_head_cache = 0xFFFFFFFE, ur_ring_sz = 0, ur_sqes_sz = 128\<rparr>"

definition eager_enter :: kernel_enter where
  "eager_enter fd n mc fl m =
     (let c = min n (um_sq_tail m - um_sq_head m) in (Inr c, m\<lparr>um_sq_head := um_sq_head m + c\<rparr>))"

lemma sq_inv_ring2: "sq_inv 1 ring2" "sq_queue ring2 = []"
  by (simp_all add: sq_inv_def sq_shape_def ring2_def upt_rec sq_queue_def)

lemma kernel_ok_eager: "kernel_ok eager_enter"
  by (auto simp: kernel_ok_def eager_enter_def Let_def cq_window_def)

section \<open>Properties\<close>

text \<open>
  C37. Submissions are neither lost nor overwritten. In a ring with \<open>2^k\<close> entries whose positions
  are in order, across the wrap-around of the 32-bit counters: \<open>get_sqe\<close> gives \<open>None\<close> exactly when
  the kernel has a full ring still to consume; otherwise it lends a cleared entry, and whatever is
  written to it, the kernel finds the entries it had before, unchanged and in order, followed by
  the new one.
\<close>

theorem uring_get_sqe_appends:
  assumes "sq_inv k u"
  shows "(length (sq_queue u) = 2 ^ k \<longrightarrow> (\<exists>u'. get_sqe u = Inr (None, u') \<and> sq_queue u' = sq_queue u)) \<and>
    (length (sq_queue u) \<noteq> 2 ^ k \<longrightarrow> (\<exists>i u'. get_sqe u = Inr (Some i, u') \<and>
       (\<forall>f. sq_inv k (sqe_write i f u') \<and> sq_queue (sqe_write i f u') = sq_queue u @ [f sqe_default])))"
  using sq.get_full[OF assms] sq.get_room[OF assms] sq.bound[OF assms] by fastforce

theorem uring_get_sqe_appends_witness:
  "\<exists>i u'. get_sqe ring2 = Inr (Some i, u') \<and> sq_queue (sqe_write i (prep_close 7) u') = [prep_close 7 sqe_default]"
  using uring_get_sqe_appends[OF sq_inv_ring2(1)] sq_inv_ring2(2) by fastforce

text \<open>
  \<open>for_each_cqe\<close> terminates and is the fold of its closure over the completion queue: every
  completion posted before the call is handled once, in the order the kernel posted them, and the
  queue is empty afterwards.
\<close>

theorem uring_for_each_cqe_fold:
  assumes "cq_shape j u"
  shows "\<exists>u'. for_each_cqe f s u = Inr (fold f (cq_queue u) s, u') \<and> cq_queue u' = [] \<and>
    um_cq_tail (ur_shm u') = um_cq_tail (ur_shm u)"
  using cqe_loop_fold[OF assms, of f "um_cq_head (ur_shm u)" "um_cq_tail (ur_shm u)" s]
  by (auto simp: for_each_cqe_def Let_def cq_queue_def)

theorem uring_for_each_cqe_fold_witness:
  "\<exists>u'. for_each_cqe (\<lambda>c rs. rs @ [cqe_res c]) [] ring2 = Inr ([10, 20], u') \<and> cq_queue u' = []"
proof -
  have "cq_shape 1 ring2" by (simp add: cq_shape_def ring2_def)
  moreover have "(4294967295 :: nat) mod Suc (Suc 0) = 1" "(4294967296 :: nat) mod Suc (Suc 0) = 0"
    unfolding numeral_2_eq_2[symmetric] by simp_all
  then have "map cqe_res (cq_queue ring2) = [10, 20]" by (simp add: cq_queue_def ring2_def window_def upt_rec)
  moreover have "fold (\<lambda>c rs. rs @ [cqe_res c]) cs rs = rs @ map cqe_res cs" for cs rs
    by (induction cs arbitrary: rs) auto
  ultimately show ?thesis using uring_for_each_cqe_fold[of 1 ring2 "\<lambda>c rs. rs @ [cqe_res c]" "[]"] by auto
qed

text \<open>
  Submitting hands entries over in order and loses none. With a kernel that does what
  \<open>io_uring_enter\<close> is documented to do, \<open>submit\<close> and \<open>submit_and_wait\<close> keep the ring well formed; when
  they return \<open>Ok(n)\<close> the first \<open>n\<close> entries have left the queue, when they fail the queue is as
  before, so that the next call submits it again; completions already posted stay in front.
\<close>

theorem uring_submit_hands_over:
  assumes "kernel_ok enter" "sq_inv k u"
    and "uring_submit enter u = (r, u') \<or> submit_and_wait enter mc u = (r, u')"
  shows "sq_inv k u' \<and> sq_queue u' = (case r of Inl _ \<Rightarrow> sq_queue u | Inr ret \<Rightarrow> drop (unat ret) (sq_queue u)) \<and>
    (\<exists>new. cq_queue u' = cq_queue u @ new)"
proof -
  have "u' = u \<and> r = Inr 0 \<or> (\<exists>n mc fl r' m. enter (ur_fd u) n mc fl ((ur_shm u)\<lparr>um_sq_tail := ur_sq_tail_local u\<rparr>) = (r', m) \<and>
     r = (case r' of Inl errno \<Rightarrow> Inl (IoError (OsError errno)) | Inr ret \<Rightarrow> Inr ret) \<and>
     u' = (case r' of Inl _ \<Rightarrow> u\<lparr>ur_shm := m\<rparr> | Inr _ \<Rightarrow> u\<lparr>ur_shm := m, ur_sq_head_cache := um_sq_head m\<rparr>))"
    using assms(3) unfolding uring_submit_def submit_and_wait_def
    by (auto simp: Let_def split: if_splits prod.splits sum.splits) blast+
  then show ?thesis
  proof
    assume "u' = u \<and> r = Inr 0"
    then show ?thesis using assms(2) by simp
  next
    assume "\<exists>n mc fl r' m. enter (ur_fd u) n mc fl ((ur_shm u)\<lparr>um_sq_tail := ur_sq_tail_local u\<rparr>) = (r', m) \<and>
     r = (case r' of Inl errno \<Rightarrow> Inl (IoError (OsError errno)) | Inr ret \<Rightarrow> Inr ret) \<and>
     u' = (case r' of Inl _ \<Rightarrow> u\<lparr>ur_shm := m\<rparr> | Inr _ \<Rightarrow> u\<lparr>ur_shm := m, ur_sq_head_cache := um_sq_head m\<rparr>)"
    then obtain n mc fl r' m where e: "enter (ur_fd u) n mc fl ((ur_shm u)\<lparr>um_sq_tail := ur_sq_tail_local u\<rparr>) = (r', m)"
      "r = (case r' of Inl errno \<Rightarrow> Inl (IoError (OsError errno)) | Inr ret \<Rightarrow> Inr ret)"
      "u' = (case r' of Inl _ \<Rightarrow> u\<lparr>ur_shm := m\<rparr> | Inr _ \<Rightarrow> u\<lparr>ur_shm := m, ur_sq_head_cache := um_sq_head m\<rparr>)" by blast
    show ?thesis using kernel_enter_queues[OF assms(1,2) e(1,3)] e(2) by (cases r') auto
  qed
qed

theorem uring_submit_hands_over_witness:
  "\<exists>i u r u'. get_sqe ring2 = Inr (Some i, u) \<and> uring_submit eager_enter (sqe_write i (prep_close 7) u) = (Inr r, u') \<and>
     sq_queue u' = drop (unat r) [prep_close 7 sqe_default]"
proof -
  have room: "length (sq_queue ring2) < 2 ^ 1" using sq_inv_ring2(2) by simp
  obtain i u where u: "get_sqe ring2 = Inr (Some i, u)" "sq_inv 1 (sqe_write i (prep_close 7) u)"
    "sq_queue (sqe_write i (prep_close 7) u) = [prep_close 7 sqe_default]"
    using get_sqe_room[OF sq_inv_ring2(1) room] sq_inv_ring2(2) by (metis append_Nil)
  have "\<exists>r u'. uring_submit eager_enter v = (Inr r, u')" for v
    by (cases "ur_sq_tail_local v = ur_sq_head_cache v") (simp_all add: uring_submit_def eager_enter_def Let_def)
  then obtain r u' where s: "uring_submit eager_enter (sqe_write i (prep_close 7) u) = (Inr r, u')" by blast
  show ?thesis using uring_submit_hands_over[OF kernel_ok_eager u(2) disjI1[OF s]] u s by auto
qed

text \<open>
  Setting up a ring either succeeds with exactly the resources that dropping the ring
  releases, an empty submission queue of the kernel's size and an index array that maps every slot
  to itself, or fails with an I/O error and holds no descriptor and no mapping.
\<close>

theorem uring_new_releases:
  "case uring_new sa n of
     (held, Inr u) \<Rightarrow> held = uring_drop u \<and> ur_sq_tail_local u = 0 \<and> ur_sq_head_cache u = 0 \<and>
       um_sq_array (ur_shm u) = map of_nat [0..<unat (ur_sq_entries u)]
   | (held, Inl (IoError e)) \<Rightarrow> held = []
   | (held, Inl f) \<Rightarrow> f = Undefined"
  by (auto simp: uring_new_def uring_drop_def Let_def split: sum.splits option.splits prod.splits)

end
