(* ===== verification/Server.thy ===== *)
theory Server
  imports Engine_Store Mpmc_Queue Buf_Ring Uring
begin

text \<open>
  The network server, \<^verbatim>\<open>src/uring-engine/src/main.rs\<close>: what one worker sets up, and one round of its
  loop: submit and wait, take up to sixteen writes another core has sent, handle every
  completion, publish the recycled buffers.

  The worker owns its rings, its buffers and its storage engine; the queues between the cores and
  the counters are shared, and one step of the model is the whole handling of one completion or
  one inbound task. Descriptors closed directly with \<open>libc::close\<close> are collected in the
  state. The epoch registration of the thread has no effect on the data and is left out.
\<close>

section \<open>State\<close>

definition BUF_RING_ENTRIES :: u32 where "BUF_RING_ENTRIES = 4096"
definition BUF_SIZE :: nat where "BUF_SIZE = 2048"
definition BUFFER_GROUP_ID :: u16 where "BUFFER_GROUP_ID = 0"

datatype inter_core_task = ReplicateWrite u64 u64

record worker_stats =
  rx_bytes :: u64
  tx_bytes :: u64
  completed_requests :: u64

definition worker_stats_new :: worker_stats where
  "worker_stats_new = \<lparr>rx_bytes = 0, tx_bytes = 0, completed_requests = 0\<rparr>"

record worker =
  wk_core :: nat
  wk_ring :: uring
  wk_buf :: buf_ring
  wk_db :: engine
  wk_seq :: u64
  wk_listen :: i32
  wk_stats :: worker_stats
  wk_queues :: "inter_core_task mpmc list"
  wk_closed :: "i32 list"

text \<open>
  The answers of the world a worker runs in: the checksum, what the operating system says to the write with
  a given sequence number, to a sync and to mapping a table, whether the processor has AVX2, the
  flags of \<open>libc\<close>, and how often a compare-exchange fails spuriously.
\<close>

record server_env =
  se_crc :: "bytes \<Rightarrow> u32"
  se_write :: "u64 \<Rightarrow> write_answers"
  se_sync :: "nat option"
  se_avx2 :: bool
  se_mmap :: "path \<Rightarrow> nat option"
  se_cloexec :: u32
  se_nosignal :: u32
  se_spurious :: nat

section \<open>Operations\<close>

text \<open>\<open>?\<close> and the sequencing of fallible calls.\<close>

definition and_then :: "'a result \<Rightarrow> ('a \<Rightarrow> 'b result) \<Rightarrow> 'b result" where
  "and_then r f = (case r of Inl e \<Rightarrow> Inl e | Inr x \<Rightarrow> f x)"

lemma and_then_simps [simp]: "and_then (Inr x) f = f x" "and_then (Inl e) f = Inl e"
  by (simp_all add: and_then_def)

lemma and_then_eq_Inr [simp]: "and_then r f = Inr y \<longleftrightarrow> (\<exists>x. r = Inr x \<and> f x = Inr y)"
  by (cases r) auto

text \<open>\<open>if let Some(sqe) = ring.get_sqe() { prep(sqe) }\<close>, and whether there was an entry.\<close>

definition try_sqe :: "(io_uring_sqe \<Rightarrow> io_uring_sqe) \<Rightarrow> worker \<Rightarrow> (bool \<times> worker) result" where
  "try_sqe prep w =
     and_then (get_sqe (wk_ring w)) (\<lambda>(i, ring).
       case i of
         None \<Rightarrow> Inr (False, w\<lparr>wk_ring := ring\<rparr>)
       | Some i \<Rightarrow> Inr (True, w\<lparr>wk_ring := sqe_write i prep ring\<rparr>))"

text \<open>\<open>ACCEPT\<close>: a receive for the new connection, and a new accept when this one has ended.\<close>

definition handle_accept :: "server_env \<Rightarrow> i32 \<Rightarrow> u32 \<Rightarrow> worker \<Rightarrow> worker result" where
  "handle_accept se res flags w =
     and_then
       (if sint res \<ge> 0
        then and_then (try_sqe (prep_recv_multishot res BUFFER_GROUP_ID) w) (\<lambda>(got, w).
               Inr (if got then w else w\<lparr>wk_closed := wk_closed w @ [res]\<rparr>))
        else Inr w)
       (\<lambda>w. if flags AND IORING_CQE_F_MORE = 0
            then and_then (try_sqe (prep_accept_multishot (se_cloexec se) (wk_listen w)) w) (\<lambda>(_, w). Inr w)
            else Inr w)"

text \<open>Closing a connection through the ring, or directly when the ring is full.\<close>

definition close_fd :: "i32 \<Rightarrow> worker \<Rightarrow> worker result" where
  "close_fd fd w =
     and_then (try_sqe (prep_close fd) w) (\<lambda>(got, w).
       Inr (if got then w else w\<lparr>wk_closed := wk_closed w @ [fd]\<rparr>))"

definition db_put :: "server_env \<Rightarrow> u64 \<Rightarrow> u64 \<Rightarrow> worker \<Rightarrow> ((wal_error + unit) \<times> worker) result" where
  "db_put se key val w =
     and_then (engine_put (se_crc se) (se_write se (wk_seq w)) (to_be_bytes key) (to_be_bytes val) (wk_seq w) (wk_db w))
       (\<lambda>(r, db). Inr (r, w\<lparr>wk_db := db\<rparr>))"

text \<open>\<open>if let Err(_) = put { sync().ok(); }\<close>.\<close>

definition sync_on_error :: "server_env \<Rightarrow> wal_error + unit \<Rightarrow> worker \<Rightarrow> worker result" where
  "sync_on_error se r w =
     (case r of
        Inl _ \<Rightarrow> (case engine_sync (se_sync se) (wk_db w) of
                     Inl (IoError _) \<Rightarrow> Inr w
                   | Inl f \<Rightarrow> Inl f
                   | Inr _ \<Rightarrow> Inr w)
      | Inr _ \<Rightarrow> Inr w)"

text \<open>A put command: write, sync when the write failed, next sequence number, replicate to the next core.\<close>

definition handle_put :: "server_env \<Rightarrow> u64 \<Rightarrow> u64 \<Rightarrow> worker \<Rightarrow> worker result" where
  "handle_put se key val w =
     and_then (db_put se key val w) (\<lambda>(r, w).
     and_then (sync_on_error se r w) (\<lambda>w.
     let w = w\<lparr>wk_seq := wk_seq w + 1\<rparr> in
     if wk_queues w = [] then Inl Panic
     else let target_core = (wk_core w + 1) mod length (wk_queues w) in
       and_then (mpmc_push (se_spurious se) (ReplicateWrite key val) (wk_queues w ! target_core)) (\<lambda>(_, q).
         Inr (w\<lparr>wk_queues := (wk_queues w)[target_core := q]\<rparr>))))"

definition buf_off :: "worker \<Rightarrow> u16 \<Rightarrow> nat" where
  "buf_off w bid = unat bid * br_size (wk_buf w)"

text \<open>A get command: the value goes over the request in its buffer and is sent from there.\<close>

definition handle_get :: "server_env \<Rightarrow> i32 \<Rightarrow> u16 \<Rightarrow> u64 \<Rightarrow> worker \<Rightarrow> worker result" where
  "handle_get se fd bid key w =
     and_then (engine_get (se_avx2 se) (se_mmap se) (wk_db w) (to_be_bytes key)) (\<lambda>r.
     case r of
       Some (Some v_bytes, _) \<Rightarrow>
         if length v_bytes = 8
         then let val = (from_be_bytes v_bytes :: u64); buf = wk_buf w in
           if buf_off w bid + 8 \<le> length (br_storage buf)
           then and_then (try_sqe (prep_send (se_nosignal se) fd (get_buffer_ptr buf bid) 8)
                  (w\<lparr>wk_buf := buf\<lparr>br_storage := copy_into (br_storage buf) (buf_off w bid) (to_be_bytes val)\<rparr>\<rparr>)) (\<lambda>(_, w).
                Inr w)
           else Inl Undefined
         else Inr w
     | _ \<Rightarrow> Inr w)"

text \<open>The command in a buffer, and whether there was one.\<close>

definition handle_request :: "server_env \<Rightarrow> i32 \<Rightarrow> u16 \<Rightarrow> u32 \<Rightarrow> worker \<Rightarrow> (bool \<times> worker) result" where
  "handle_request se fd bid bytes_read w =
     (let storage = br_storage (wk_buf w); off = buf_off w bid in
      if bytes_read \<ge> 9
      then and_then (slice_raw storage off 1) (\<lambda>cmd.
           and_then (slice_raw storage (off + 1) 8) (\<lambda>key_bytes.
           let key = from_be_bytes key_bytes in
           if cmd ! 0 = 1 \<and> bytes_read \<ge> 17
           then and_then (slice_raw storage (off + 9) 8) (\<lambda>val_bytes.
                and_then (handle_put se key (from_be_bytes val_bytes) w) (\<lambda>w. Inr (True, w)))
           else if cmd ! 0 = 2
           then and_then (handle_get se fd bid key w) (\<lambda>w. Inr (True, w))
           else Inr (False, w)))
      else Inr (False, w))"

text \<open>\<open>RECV\<close>, and whether a buffer was recycled.\<close>

definition handle_recv :: "server_env \<Rightarrow> i32 \<Rightarrow> i32 \<Rightarrow> u32 \<Rightarrow> worker \<Rightarrow> (bool \<times> worker) result" where
  "handle_recv se fd res flags w =
     (if sint res \<le> 0
      then if res = - 105
           then and_then (try_sqe (prep_recv_multishot fd BUFFER_GROUP_ID) w) (\<lambda>(_, w). Inr (False, w))
           else and_then (close_fd fd w) (\<lambda>w. Inr (False, w))
      else if flags AND IORING_CQE_F_BUFFER \<noteq> 0
      then let bid = ucast (drop_bit IORING_CQE_BUFFER_SHIFT flags) in
        and_then (handle_request se fd bid res w) (\<lambda>(parsed_ok, w).
        and_then (if parsed_ok then Inr w
                  else and_then (try_sqe (prep_send (se_nosignal se) fd (get_buffer_ptr (wk_buf w) bid) res) w) (\<lambda>(_, w). Inr w)) (\<lambda>w.
        let st = wk_stats w;
            w = w\<lparr>wk_stats := st\<lparr>rx_bytes := rx_bytes st + ucast res, completed_requests := completed_requests st + 1\<rparr>\<rparr> in
        and_then (buf_recycle bid (wk_buf w)) (\<lambda>buf. Inr (True, w\<lparr>wk_buf := buf\<rparr>))))
      else Inr (False, w))"

definition handle_send :: "i32 \<Rightarrow> i32 \<Rightarrow> worker \<Rightarrow> worker result" where
  "handle_send fd res w = (if sint res < 0 then close_fd fd w else Inr w)"

text \<open>The match on the operation; \<open>unreachable!()\<close> is a panic.\<close>

definition handle_cqe :: "server_env \<Rightarrow> io_uring_cqe \<Rightarrow> worker \<Rightarrow> (bool \<times> worker) result" where
  "handle_cqe se cqe w =
     (let fd = decode_fd (cqe_user_data cqe); opc = decode_op (cqe_user_data cqe) in
      if opc = IORING_OP_ACCEPT then and_then (handle_accept se (cqe_res cqe) (cqe_flags cqe) w) (\<lambda>w. Inr (False, w))
      else if opc = IORING_OP_RECV then handle_recv se fd (cqe_res cqe) (cqe_flags cqe) w
      else if opc = IORING_OP_SEND then and_then (handle_send fd (cqe_res cqe) w) (\<lambda>w. Inr (False, w))
      else if opc = IORING_OP_CLOSE then Inr (False, w)
      else Inl Panic)"

text \<open>The loop over the inbound queue, at most sixteen tasks a round.\<close>

fun drain_inbound :: "server_env \<Rightarrow> nat \<Rightarrow> worker \<Rightarrow> worker result" where
  "drain_inbound se 0 w = Inr w"
| "drain_inbound se (Suc n) w =
     (if \<not> wk_core w < length (wk_queues w) then Inl Panic
      else case mpmc_pop (se_spurious se) (wk_queues w ! wk_core w) of
        Inl f \<Rightarrow> Inl f
      | Inr (Inr (ReplicateWrite key val), q) \<Rightarrow>
          (case db_put se key val (w\<lparr>wk_queues := (wk_queues w)[wk_core w := q]\<rparr>) of
             Inl f \<Rightarrow> Inl f
           | Inr (_, w) \<Rightarrow> drain_inbound se n (w\<lparr>wk_seq := wk_seq w + 1\<rparr>))
      | Inr (Inl Empty, q) \<Rightarrow> Inr (w\<lparr>wk_queues := (wk_queues w)[wk_core w := q]\<rparr>)
      | Inr (Inl Full, _) \<Rightarrow> Inl Panic)"

section \<open>What handling a completion leaves alone\<close>

lemma get_sqe_cq:
  "get_sqe u = Inr (i, u') \<Longrightarrow> um_cq_head (ur_shm u') = um_cq_head (ur_shm u) \<and> um_cq_tail (ur_shm u') = um_cq_tail (ur_shm u) \<and>
     um_cqes (ur_shm u') = um_cqes (ur_shm u) \<and> ur_cq_mask u' = ur_cq_mask u"
  by (auto simp: get_sqe_def Let_def split: if_splits)

text \<open>
  The completion queue, which worker this is, and the number of queues; and besides them the
  counters and the buffer ring up to the contents of the buffers.
\<close>

definition frame_of :: "worker \<Rightarrow> (u32 \<times> u32 \<times> io_uring_cqe list \<times> u32) \<times> nat \<times> i32 \<times> nat" where
  "frame_of w = ((um_cq_head (ur_shm (wk_ring w)), um_cq_tail (ur_shm (wk_ring w)), um_cqes (ur_shm (wk_ring w)), ur_cq_mask (wk_ring w)),
     wk_core w, wk_listen w, length (wk_queues w))"

definition keeps :: "worker \<Rightarrow> worker \<Rightarrow> bool" where
  "keeps w w' \<longleftrightarrow> frame_of w' = frame_of w \<and> wk_stats w' = wk_stats w \<and>
     (\<exists>s. length s = length (br_storage (wk_buf w)) \<and> wk_buf w' = (wk_buf w)\<lparr>br_storage := s\<rparr>)"

lemma keeps_same: "frame_of w' = frame_of w \<Longrightarrow> wk_stats w' = wk_stats w \<Longrightarrow> wk_buf w' = wk_buf w \<Longrightarrow> keeps w w'"
  by (auto simp: keeps_def intro!: exI[of _ "br_storage (wk_buf w)"])

lemma keeps_refl [simp]: "keeps w w"
  by (rule keeps_same) simp_all

lemma keeps_trans: "keeps w w' \<Longrightarrow> keeps w' w'' \<Longrightarrow> keeps w w''"
  by (auto simp: keeps_def)

lemma try_sqe_keeps:
  assumes "try_sqe prep w = Inr (got, w')"
  shows "keeps w w'"
proof -
  from assms obtain i ring where "get_sqe (wk_ring w) = Inr (i, ring)"
    "w' = w\<lparr>wk_ring := ring\<rparr> \<or> (\<exists>j. w' = w\<lparr>wk_ring := sqe_write j prep ring\<rparr>)"
    by (auto simp: try_sqe_def split: option.splits)
  then show ?thesis using get_sqe_cq[of "wk_ring w" i ring] by (auto simp: frame_of_def sqe_write_def intro!: keeps_same)
qed

lemma keeps_closed [simp]: "keeps w (w'\<lparr>wk_closed := c\<rparr>) = keeps w w'"
  by (simp add: keeps_def frame_of_def)

lemma close_fd_keeps: "close_fd fd w = Inr w' \<Longrightarrow> keeps w w'"
  by (auto simp: close_fd_def dest!: try_sqe_keeps split: if_splits)

lemma handle_accept_keeps: "handle_accept se res flags w = Inr w' \<Longrightarrow> keeps w w'"
proof -
  assume "handle_accept se res flags w = Inr w'"
  then obtain w1 where
    one: "(if sint res \<ge> 0
        then and_then (try_sqe (prep_recv_multishot res BUFFER_GROUP_ID) w) (\<lambda>(got, w).
               Inr (if got then w else w\<lparr>wk_closed := wk_closed w @ [res]\<rparr>))
        else Inr w) = Inr w1"
    and two: "(if flags AND IORING_CQE_F_MORE = 0
            then and_then (try_sqe (prep_accept_multishot (se_cloexec se) (wk_listen w1)) w1) (\<lambda>(_, w). Inr w)
            else Inr w1) = Inr w'"
    unfolding handle_accept_def and_then_eq_Inr by blast
  have "keeps w w1" using one by (auto dest!: try_sqe_keeps split: if_splits)
  moreover have "keeps w1 w'" using two by (auto dest!: try_sqe_keeps split: if_splits)
  ultimately show "keeps w w'" by (rule keeps_trans)
qed

lemma db_put_keeps: "db_put se key val w = Inr (r, w') \<Longrightarrow> keeps w w' \<and> wk_ring w' = wk_ring w"
  by (auto simp: db_put_def frame_of_def intro!: keeps_same)

lemma sync_on_error_same: "sync_on_error se r w = Inr w' \<Longrightarrow> w' = w"
  by (auto simp: sync_on_error_def split: sum.splits failure.splits)

lemma handle_put_keeps:
  assumes "handle_put se key val w = Inr w'"
  shows "keeps w w' \<and> wk_ring w' = wk_ring w"
proof -
  from assms obtain r w1 q t where p: "db_put se key val w = Inr (r, w1)"
    and w': "w' = w1\<lparr>wk_seq := wk_seq w1 + 1, wk_queues := (wk_queues w1)[t := q]\<rparr>"
    by (auto simp: handle_put_def Let_def dest!: sync_on_error_same split: if_splits)
  then have "keeps w1 w'" by (auto simp: frame_of_def intro!: keeps_same)
  then show ?thesis using db_put_keeps[OF p] w' by (auto intro: keeps_trans)
qed

lemma handle_get_keeps:
  assumes "handle_get se fd bid key w = Inr w'"
  shows "keeps w w'"
proof -
  let ?v = "\<lambda>s. w\<lparr>wk_buf := (wk_buf w)\<lparr>br_storage := s\<rparr>\<rparr>"
  from assms have "w' = w \<or> (\<exists>s prep got. length s = length (br_storage (wk_buf w)) \<and> try_sqe prep (?v s) = Inr (got, w'))"
    by (auto simp: handle_get_def Let_def split: option.splits if_splits) blast
  then show ?thesis
  proof
    assume "\<exists>s prep got. length s = length (br_storage (wk_buf w)) \<and> try_sqe prep (?v s) = Inr (got, w')"
    then obtain s prep got where s: "length s = length (br_storage (wk_buf w))" "try_sqe prep (?v s) = Inr (got, w')" by blast
    have "keeps w (?v s)" using s(1) by (auto simp: keeps_def frame_of_def)
    then show ?thesis using try_sqe_keeps[OF s(2)] by (auto intro: keeps_trans)
  qed simp
qed

lemma handle_request_keeps: "handle_request se fd bid n w = Inr (ok, w') \<Longrightarrow> keeps w w'"
  by (auto simp: handle_request_def Let_def dest!: handle_put_keeps handle_get_keeps split: if_splits)

text \<open>A receive with a buffer recycles it, counts one request and its bytes; everything else recycles nothing.\<close>

lemma handle_recv_cases:
  assumes "handle_recv se fd res flags w = Inr (recycled, w')"
  shows "recycled = (sint res > 0 \<and> flags AND IORING_CQE_F_BUFFER \<noteq> 0)"
    and "\<not> recycled \<Longrightarrow> keeps w w'"
    and "recycled \<Longrightarrow> \<exists>w1 buf. keeps w w1 \<and> buf_recycle (ucast (drop_bit IORING_CQE_BUFFER_SHIFT flags)) (wk_buf w1) = Inr buf \<and>
      w' = w1\<lparr>wk_stats := (wk_stats w)\<lparr>rx_bytes := rx_bytes (wk_stats w) + ucast res,
                                    completed_requests := completed_requests (wk_stats w) + 1\<rparr>, wk_buf := buf\<rparr>"
proof -
  show "recycled = (sint res > 0 \<and> flags AND IORING_CQE_F_BUFFER \<noteq> 0)"
    using assms by (auto simp: handle_recv_def Let_def split: if_splits)
  show "keeps w w'" if "\<not> recycled"
    using assms that by (auto simp: handle_recv_def Let_def dest!: try_sqe_keeps close_fd_keeps split: if_splits)
  assume r: recycled
  let ?bid = "ucast (drop_bit IORING_CQE_BUFFER_SHIFT flags)"
  from assms r obtain ok w0 w1 buf where q: "handle_request se fd ?bid res w = Inr (ok, w0)"
    and e: "w1 = w0 \<or> (\<exists>prep got. try_sqe prep w0 = Inr (got, w1))" and b: "buf_recycle ?bid (wk_buf w1) = Inr buf"
    and w': "w' = w1\<lparr>wk_stats := (wk_stats w1)\<lparr>rx_bytes := rx_bytes (wk_stats w1) + ucast res,
                                    completed_requests := completed_requests (wk_stats w1) + 1\<rparr>, wk_buf := buf\<rparr>"
    by (auto simp: handle_recv_def Let_def split: if_splits) blast+
  have k: "keeps w w1" using handle_request_keeps[OF q] e by (auto dest!: try_sqe_keeps intro: keeps_trans)
  then have "wk_stats w1 = wk_stats w" by (simp add: keeps_def)
  with k b w' show "\<exists>w1 buf. keeps w w1 \<and> buf_recycle ?bid (wk_buf w1) = Inr buf \<and>
      w' = w1\<lparr>wk_stats := (wk_stats w)\<lparr>rx_bytes := rx_bytes (wk_stats w) + ucast res,
                                    completed_requests := completed_requests (wk_stats w) + 1\<rparr>, wk_buf := buf\<rparr>" by auto
qed

lemma handle_send_keeps: "handle_send fd res w = Inr w' \<Longrightarrow> keeps w w'"
  by (auto simp: handle_send_def dest!: close_fd_keeps split: if_splits)

lemma handle_cqe_frame:
  assumes "handle_cqe se cqe w = Inr (r, w')"
  shows "frame_of w' = frame_of w"
proof -
  have recv: "frame_of w' = frame_of w" if "handle_recv se fd res fl w = Inr (r, w')" for fd res fl
  proof (cases r)
    case True
    then show ?thesis using handle_recv_cases(3)[OF that] by (auto simp: keeps_def frame_of_def)
  next
    case False
    then show ?thesis using handle_recv_cases(2)[OF that] by (simp add: keeps_def)
  qed
  from assms consider fd res fl where "handle_recv se fd res fl w = Inr (r, w')" | "keeps w w'"
    unfolding handle_cqe_def Let_def
    by (auto dest: handle_accept_keeps handle_send_keeps split: if_split_asm)
  then show ?thesis by cases (use recv in \<open>auto simp: keeps_def\<close>)
qed

section \<open>The round\<close>

text \<open>\<open>while let Some(cqe) = ring.peek_cqe()\<close>, and whether a buffer was recycled.\<close>

function drain_cq :: "server_env \<Rightarrow> bool \<Rightarrow> worker \<Rightarrow> (bool \<times> worker) result" where
  "drain_cq se recycled_any w =
     (case peek_cqe (wk_ring w) of
        Inl f \<Rightarrow> Inl f
      | Inr None \<Rightarrow> Inr (recycled_any, w)
      | Inr (Some cqe) \<Rightarrow>
          (case handle_cqe se cqe (w\<lparr>wk_ring := advance_cq 1 (wk_ring w)\<rparr>) of
             Inl f \<Rightarrow> Inl f
           | Inr (recycled, w) \<Rightarrow> drain_cq se (recycled_any \<or> recycled) w))"
  by pat_completeness auto
termination
proof (relation "measure (\<lambda>(se, r, w). unat (um_cq_tail (ur_shm (wk_ring w)) - um_cq_head (ur_shm (wk_ring w))))", goal_cases)
  case (2 se r w o' cqe p rec w')
  then have f: "frame_of w' = frame_of (w\<lparr>wk_ring := advance_cq 1 (wk_ring w)\<rparr>)" using handle_cqe_frame by auto
  have "um_cq_tail (ur_shm (wk_ring w)) \<noteq> um_cq_head (ur_shm (wk_ring w))"
    using 2 by (auto simp: peek_cqe_def Let_def split: if_splits)
  from unat_dist_head[OF this] f show ?case by (simp add: frame_of_def advance_cq_def)
qed simp

declare drain_cq.simps [simp del]

text \<open>
  One round of the loop. While the worker waits, the kernel fills buffers: \<open>deliver\<close> is what it does to
  their contents.
\<close>

definition worker_round :: "server_env \<Rightarrow> kernel_enter \<Rightarrow> (bytes \<Rightarrow> bytes) \<Rightarrow> worker \<Rightarrow> worker result" where
  "worker_round se enter deliver w =
     (case submit_and_wait enter 1 (wk_ring w) of
        (Inl f, _) \<Rightarrow> Inl f
      | (Inr _, ring) \<Rightarrow>
          and_then (drain_inbound se 16
                      (w\<lparr>wk_ring := ring, wk_buf := (wk_buf w)\<lparr>br_storage := deliver (br_storage (wk_buf w))\<rparr>\<rparr>)) (\<lambda>w.
          and_then (drain_cq se False w) (\<lambda>(recycled_any, w).
            if recycled_any then and_then (buf_flush (wk_buf w)) (\<lambda>buf. Inr (w\<lparr>wk_buf := buf\<rparr>)) else Inr w)))"

section \<open>Set-up\<close>

text \<open>
  \<open>create_reuseport_listener\<close>, with the descriptors open when it returns: the answers to \<open>socket\<close>, to
  \<open>bind\<close> and to \<open>listen\<close>. The results of \<open>setsockopt\<close> are ignored by the code.
\<close>

definition create_reuseport_listener :: "nat + i32 \<Rightarrow> nat option \<Rightarrow> nat option \<Rightarrow> i32 list \<times> i32 result" where
  "create_reuseport_listener sock bind_err listen_err =
     (case sock of
        Inl errno \<Rightarrow> ([], Inl (IoError (OsError errno)))
      | Inr fd \<Rightarrow>
          (case bind_err of
             Some errno \<Rightarrow> ([], Inl (IoError (OsError errno)))
           | None \<Rightarrow> (case listen_err of
               Some errno \<Rightarrow> ([], Inl (IoError (OsError errno)))
             | None \<Rightarrow> ([fd], Inr fd))))"

record start_answers =
  st_pin :: "nat \<Rightarrow> nat"
  st_uring :: setup_answers
  st_buf :: buf_answers
  st_mkdir :: "io_kind option"
  st_wal :: "nat option"
  st_rng :: u32
  st_socket :: "nat + i32"
  st_bind :: "nat option"
  st_listen :: "nat option"

text \<open>\<open>pthread_setaffinity_np\<close> returns its error number.\<close>

definition pin_current_thread_to_core :: "(nat \<Rightarrow> nat) \<Rightarrow> nat \<Rightarrow> unit result" where
  "pin_current_thread_to_core setaffinity core_id =
     (let ret = setaffinity core_id in if ret \<noteq> 0 then Inl (IoError (OsError ret)) else Inr ())"

text \<open>What \<open>run_worker\<close> does before its loop.\<close>

definition worker_start ::
  "start_answers \<Rightarrow> server_env \<Rightarrow> kernel_enter \<Rightarrow> disk \<Rightarrow> nat \<Rightarrow> worker_stats list \<Rightarrow> inter_core_task mpmc list \<Rightarrow> path \<Rightarrow> worker result" where
  "worker_start st se enter disk core_id stats queues core_db_dir =
     and_then (pin_current_thread_to_core (st_pin st) core_id) (\<lambda>_.
          and_then (snd (uring_new (st_uring st) 1024)) (\<lambda>ring.
          and_then (snd (buf_ring_new (st_buf st) (ur_fd ring) BUFFER_GROUP_ID BUF_RING_ENTRIES BUF_SIZE)) (\<lambda>buf.
          and_then (engine_open core_db_dir (st_mkdir st) (st_wal st) (st_rng st) disk) (\<lambda>db.
          and_then (snd (create_reuseport_listener (st_socket st) (st_bind st) (st_listen st))) (\<lambda>listen_fd.
          and_then (get_sqe ring) (\<lambda>(i, ring).
            case i of
              None \<Rightarrow> Inl Panic
            | Some i \<Rightarrow>
                (case uring_submit enter (sqe_write i (prep_accept_multishot (se_cloexec se) listen_fd) ring) of
                   (Inl f, _) \<Rightarrow> Inl f
                 | (Inr _, ring) \<Rightarrow>
                     if core_id < length stats \<and> core_id < length queues
                     then Inr \<lparr>wk_core = core_id, wk_ring = ring, wk_buf = buf, wk_db = db, wk_seq = 1, wk_listen = listen_fd,
                               wk_stats = stats ! core_id, wk_queues = queues, wk_closed = []\<rparr>
                     else Inl Panic)))))))"

text \<open>The queues and counters that \<open>main\<close> makes, one of each per core.\<close>

definition main_queues :: "nat \<Rightarrow> inter_core_task mpmc list result" where
  "main_queues num_cores =
     (if num_cores = 0 then Inr []
      else and_then (mpmc_new 2048) (\<lambda>q. Inr (replicate num_cores q)))"

definition main_stats :: "nat \<Rightarrow> worker_stats list" where
  "main_stats num_cores = replicate num_cores worker_stats_new"

text \<open>
  One tick of the monitor thread of \<open>main\<close>, given the totals of the last tick: the requests and
  received bytes it reports, if any, and the totals for the next.
\<close>

definition monitor_tick :: "worker_stats list \<Rightarrow> u64 \<times> u64 \<Rightarrow> (u64 \<times> u64 \<times> u64) option \<times> u64 \<times> u64" where
  "monitor_tick stats totals =
     (let (last_reqs, last_rx) = totals;
          total_reqs = fold (\<lambda>s acc. acc + completed_requests s) stats 0;
          total_rx = fold (\<lambda>s acc. acc + rx_bytes s) stats 0;
          delta_reqs = (if total_reqs \<ge> last_reqs then total_reqs - last_reqs else 0);
          delta_rx = (if total_rx \<ge> last_rx then total_rx - last_rx else 0)
      in (if delta_reqs > 0 then Some (delta_reqs, delta_rx, total_reqs) else None, total_reqs, total_rx))"

section \<open>Workers in good order\<close>

text \<open>
  A submission ring of \<open>2^k\<close> entries and a buffer ring of \<open>2^b\<close>, an engine whose calls return,
  queues that are in order, and buffers with room for the longest command.
\<close>

definition queue_ok :: "inter_core_task mpmc \<Rightarrow> bool" where
  "queue_ok q \<longleftrightarrow> (\<exists>n xs. ring_repr n q xs)"

definition worker_ok :: "nat \<Rightarrow> nat \<Rightarrow> worker \<Rightarrow> bool" where
  "worker_ok k b w \<longleftrightarrow> sq_inv k (wk_ring w) \<and> buf_shape b (wk_buf w) \<and> live_engine (wk_db w) \<and>
     wk_core w < length (wk_queues w) \<and> (\<forall>q\<in>set (wk_queues w). queue_ok q) \<and>
     length (br_storage (wk_buf w)) = 2 ^ b * br_size (wk_buf w) \<and> 17 \<le> br_size (wk_buf w)"

text \<open>A world in which a new log can always be opened and tables can be mapped.\<close>

definition env_ok :: "server_env \<Rightarrow> bool" where
  "env_ok se \<longleftrightarrow> (\<forall>s. ro_open (wa_rotation (se_write se s)) = None) \<and> se_mmap se = (\<lambda>_. None)"

lemma push_total: "queue_ok q \<Longrightarrow> \<exists>r q'. mpmc_push n x q = Inr (r, q') \<and> queue_ok q'"
proof -
  assume "queue_ok q"
  then obtain m xs where r: "ring_repr m q xs" by (auto simp: queue_ok_def)
  then show ?thesis using ring.push_room[OF r, of n x] ring.push_full[OF r, of n x]
    unfolding queue_ok_def by (cases "length xs < 2 ^ m") blast+
qed

lemma pop_total: "queue_ok q \<Longrightarrow> (\<exists>x q'. mpmc_pop n q = Inr (Inr x, q') \<and> queue_ok q') \<or> mpmc_pop n q = Inr (Inl Empty, q)"
proof -
  assume "queue_ok q"
  then obtain m xs where r: "ring_repr m q xs" by (auto simp: queue_ok_def)
  then show ?thesis using ring.pop_some[of m q] ring.pop_none[of m q n]
    unfolding queue_ok_def by (cases xs) blast+
qed

lemma worker_ok_update [simp]:
  "worker_ok k b (w\<lparr>wk_closed := c\<rparr>) = worker_ok k b w" "worker_ok k b (w\<lparr>wk_stats := st\<rparr>) = worker_ok k b w"
  "worker_ok k b (w\<lparr>wk_seq := s\<rparr>) = worker_ok k b w"
  by (simp_all add: worker_ok_def)

lemma try_sqe_ok:
  assumes "worker_ok k b w"
  obtains got u where "try_sqe prep w = Inr (got, w\<lparr>wk_ring := u\<rparr>)" "worker_ok k b (w\<lparr>wk_ring := u\<rparr>)"
    "got \<longleftrightarrow> length (sq_queue (wk_ring w)) < 2 ^ k"
    "sq_queue u = (if got then sq_queue (wk_ring w) @ [prep sqe_default] else sq_queue (wk_ring w))"
proof -
  have inv: "sq_inv k (wk_ring w)" using assms by (simp add: worker_ok_def)
  have ok: "worker_ok k b (w\<lparr>wk_ring := u\<rparr>)" if "sq_inv k u" for u using assms that by (simp add: worker_ok_def)
  show thesis
  proof (cases "length (sq_queue (wk_ring w)) = 2 ^ k")
    case True
    then obtain u where "get_sqe (wk_ring w) = Inr (None, u)" "sq_inv k u" "sq_queue u = sq_queue (wk_ring w)"
      using sq.get_full[OF inv] by blast
    then show ?thesis using that[of False u] ok True by (simp add: try_sqe_def)
  next
    case False
    then have l: "length (sq_queue (wk_ring w)) < 2 ^ k" using sq.bound[OF inv] by simp
    then obtain i u where "get_sqe (wk_ring w) = Inr (Some i, u)" "sq_inv k (sqe_write i prep u)"
      "sq_queue (sqe_write i prep u) = sq_queue (wk_ring w) @ [prep sqe_default]"
      using sq.get_room[OF inv] by blast
    then show ?thesis using that[of True "sqe_write i prep u"] ok l by (simp add: try_sqe_def)
  qed
qed

lemma close_fd_ok:
  assumes "worker_ok k b w"
  obtains w' where "close_fd fd w = Inr w'" "worker_ok k b w'"
proof -
  obtain got u where "try_sqe (prep_close fd) w = Inr (got, w\<lparr>wk_ring := u\<rparr>)" "worker_ok k b (w\<lparr>wk_ring := u\<rparr>)"
    by (rule try_sqe_ok[OF assms])
  then show thesis using that by (cases got) (simp_all add: close_fd_def)
qed

lemma handle_send_ok:
  assumes "worker_ok k b w"
  obtains w' where "handle_send fd res w = Inr w'" "worker_ok k b w'"
proof (cases "sint res < 0")
  case True
  then show thesis using close_fd_ok[OF assms, of fd] that by (metis handle_send_def)
qed (use assms that in \<open>simp add: handle_send_def\<close>)

lemma handle_accept_ok:
  assumes "worker_ok k b w"
  obtains w' where "handle_accept se res flags w = Inr w'" "worker_ok k b w'"
proof -
  obtain got u where u: "try_sqe (prep_recv_multishot res BUFFER_GROUP_ID) w = Inr (got, w\<lparr>wk_ring := u\<rparr>)"
    "worker_ok k b (w\<lparr>wk_ring := u\<rparr>)" by (rule try_sqe_ok[OF assms])
  obtain w1 where w1: "(if sint res \<ge> 0
        then and_then (try_sqe (prep_recv_multishot res BUFFER_GROUP_ID) w) (\<lambda>(got, w).
               Inr (if got then w else w\<lparr>wk_closed := wk_closed w @ [res]\<rparr>))
        else Inr w) = Inr w1" "worker_ok k b w1"
  proof (cases "sint res \<ge> 0")
    case True
    then show ?thesis using that u by (cases got) simp_all
  qed (use that assms in simp)
  obtain got' u' where "try_sqe (prep_accept_multishot (se_cloexec se) (wk_listen w1)) w1 = Inr (got', w1\<lparr>wk_ring := u'\<rparr>)"
    "worker_ok k b (w1\<lparr>wk_ring := u'\<rparr>)" by (rule try_sqe_ok[OF w1(2)])
  then show thesis using that w1(2) unfolding handle_accept_def w1(1)
    by (cases "flags AND IORING_CQE_F_MORE = 0") simp_all
qed

lemma to_be_bytes_nonempty [simp]: "to_be_bytes (k :: u64) \<noteq> []"
proof
  assume "to_be_bytes k = []"
  then have "length (to_be_bytes k) = 0" by simp
  then show False by simp
qed

lemma db_put_ok:
  assumes "worker_ok k b w" "env_ok se"
  obtains r w' where "db_put se key val w = Inr (r, w')" "worker_ok k b w'"
proof -
  have "live_engine (wk_db w)" "ro_open (wa_rotation (se_write se (wk_seq w))) = None"
    using assms by (auto simp: worker_ok_def env_ok_def)
  from store.put_returns[OF this, of "se_crc se" "to_be_bytes key" "to_be_bytes val" "wk_seq w"] obtain r db where
    "engine_put (se_crc se) (se_write se (wk_seq w)) (to_be_bytes key) (to_be_bytes val) (wk_seq w) (wk_db w) = Inr (r, db)"
    "live_engine db" by blast
  then show thesis using that[of r "w\<lparr>wk_db := db\<rparr>"] assms(1) by (simp add: db_put_def worker_ok_def)
qed

lemma sync_on_error_ok: "sync_on_error se r w = Inr w"
  by (auto simp: sync_on_error_def engine_sync_def wal_sync_def split: sum.splits option.splits)

lemma worker_ok_queue:
  assumes "worker_ok k b w" "queue_ok q"
  shows "worker_ok k b (w\<lparr>wk_queues := (wk_queues w)[t := q]\<rparr>)"
proof -
  have "set ((wk_queues w)[t := q]) \<subseteq> insert q (set (wk_queues w))" by (rule set_update_subset_insert)
  then show ?thesis using assms by (auto simp: worker_ok_def)
qed

lemma handle_put_ok:
  assumes "worker_ok k b w" "env_ok se"
  obtains w' where "handle_put se key val w = Inr w'" "worker_ok k b w'"
proof -
  obtain r w1 where w1: "db_put se key val w = Inr (r, w1)" "worker_ok k b w1" by (rule db_put_ok[OF assms])
  let ?t = "(wk_core w1 + 1) mod length (wk_queues w1)" and ?w = "w1\<lparr>wk_seq := wk_seq w1 + 1\<rparr>"
  have q: "wk_queues w1 \<noteq> []" using w1(2) by (auto simp: worker_ok_def)
  then have "?t < length (wk_queues w1)" by (intro mod_less_divisor) simp
  then have "queue_ok (wk_queues w1 ! ?t)" using w1(2) by (simp add: worker_ok_def)
  from push_total[OF this, of "se_spurious se" "ReplicateWrite key val"] obtain x q' where
    p: "mpmc_push (se_spurious se) (ReplicateWrite key val) (wk_queues w1 ! ?t) = Inr (x, q')" "queue_ok q'" by blast
  have "worker_ok k b ?w" using w1(2) by simp
  from worker_ok_queue[OF this p(2), of ?t]
  show thesis using that[of "?w\<lparr>wk_queues := (wk_queues w1)[?t := q']\<rparr>"] w1(1) p(1) q
    by (simp add: handle_put_def Let_def sync_on_error_ok)
qed

lemma buf_room:
  assumes "worker_ok k b w" "unat bid < 2 ^ b" "n \<le> 17"
  shows "buf_off w bid + n \<le> length (br_storage (wk_buf w))"
proof -
  have "Suc (unat bid) * br_size (wk_buf w) \<le> 2 ^ b * br_size (wk_buf w)"
    using assms(2) by (intro mult_le_mono1) simp
  then show ?thesis using assms(1,3) by (simp add: worker_ok_def buf_off_def)
qed

lemma handle_get_ok:
  assumes "worker_ok k b w" "env_ok se" "unat bid < 2 ^ b"
  obtains w' where "handle_get se fd bid key w = Inr w'" "worker_ok k b w'"
proof -
  obtain r where r: "engine_get (se_avx2 se) (se_mmap se) (wk_db w) (to_be_bytes key) = Inr r"
    using store.get_returns[of "wk_db w" "to_be_bytes key" "se_avx2 se"] assms(1,2) by (auto simp: worker_ok_def env_ok_def)
  have room: "buf_off w bid + 8 \<le> length (br_storage (wk_buf w))" by (rule buf_room[OF assms(1,3)]) simp
  let ?w = "\<lambda>v. w\<lparr>wk_buf := (wk_buf w)\<lparr>br_storage := copy_into (br_storage (wk_buf w)) (buf_off w bid) (to_be_bytes (v :: u64))\<rparr>\<rparr>"
  have ok: "worker_ok k b (?w v)" for v using assms(1) room by (simp add: worker_ok_def buf_shape_def)
  show thesis
  proof (cases "\<exists>v s. r = Some (Some v, s) \<and> length v = 8")
    case True
    then obtain v s where v: "r = Some (Some v, s)" "length v = 8" by blast
    obtain got u where "try_sqe (prep_send (se_nosignal se) fd (get_buffer_ptr (wk_buf w) bid) 8) (?w (from_be_bytes v)) =
        Inr (got, ?w (from_be_bytes v)\<lparr>wk_ring := u\<rparr>)" "worker_ok k b (?w (from_be_bytes v)\<lparr>wk_ring := u\<rparr>)"
      by (rule try_sqe_ok[OF ok])
    then show ?thesis using that v r room by (simp add: handle_get_def Let_def)
  next
    case False
    then have "handle_get se fd bid key w = Inr w" using r by (auto simp: handle_get_def split: option.splits)
    then show ?thesis using that assms(1) by blast
  qed
qed

lemma handle_request_ok:
  assumes "worker_ok k b w" "env_ok se" "unat bid < 2 ^ b"
  obtains ok w' where "handle_request se fd bid n w = Inr (ok, w')" "worker_ok k b w'"
proof -
  let ?st = "br_storage (wk_buf w)" and ?off = "buf_off w bid"
  have room: "?off + m \<le> length ?st" if "m \<le> 17" for m using that by (rule buf_room[OF assms(1,3)])
  define cmd where "cmd = subslice ?st ?off (?off + 1)"
  define key :: u64 where "key = from_be_bytes (subslice ?st (?off + 1) (?off + 9))"
  define val :: u64 where "val = from_be_bytes (subslice ?st (?off + 9) (?off + 17))"
  obtain w1 where p: "handle_put se key val w = Inr w1" "worker_ok k b w1" by (rule handle_put_ok[OF assms(1,2)])
  obtain w2 where g: "handle_get se fd bid key w = Inr w2" "worker_ok k b w2" by (rule handle_get_ok[OF assms])
  have "slice_raw ?st ?off 1 = Inr cmd" "slice_raw ?st (?off + 1) 8 = Inr (subslice ?st (?off + 1) (?off + 9))"
    "slice_raw ?st (?off + 9) 8 = Inr (subslice ?st (?off + 9) (?off + 17))"
    using room[of 1] room[of 9] room[of 17] by (simp_all add: slice_raw_def cmd_def add.commute)
  then have "handle_request se fd bid n w =
      (if 9 \<le> n \<and> cmd ! 0 = 1 \<and> 17 \<le> n then Inr (True, w1)
       else if 9 \<le> n \<and> cmd ! 0 = 2 then Inr (True, w2) else Inr (False, w))"
    using p(1)[unfolded key_def val_def] g(1)[unfolded key_def] by (simp add: handle_request_def Let_def)
  then show thesis using that p(2) g(2) assms(1) by (auto split: if_splits)
qed

text \<open>Which completions carry a buffer, and which one.\<close>

definition cqe_has_buffer :: "io_uring_cqe \<Rightarrow> bool" where
  "cqe_has_buffer c \<longleftrightarrow> decode_op (cqe_user_data c) = IORING_OP_RECV \<and> sint (cqe_res c) > 0 \<and>
     cqe_flags c AND IORING_CQE_F_BUFFER \<noteq> 0"

definition cqe_bid :: "io_uring_cqe \<Rightarrow> u16" where
  "cqe_bid c = ucast (drop_bit IORING_CQE_BUFFER_SHIFT (cqe_flags c))"

text \<open>
  A completion the kernel can post: of one of the four operations the worker submits, with a
  buffer of the ring if it has one.
\<close>

definition cqe_ok :: "nat \<Rightarrow> io_uring_cqe \<Rightarrow> bool" where
  "cqe_ok b c \<longleftrightarrow> decode_op (cqe_user_data c) \<in> {IORING_OP_ACCEPT, IORING_OP_CLOSE, IORING_OP_SEND, IORING_OP_RECV} \<and>
     (cqe_has_buffer c \<longrightarrow> unat (cqe_bid c) < 2 ^ b)"

lemma worker_ok_buf:
  "worker_ok k b w \<Longrightarrow> buf_shape b br \<Longrightarrow> br_storage br = br_storage (wk_buf w) \<Longrightarrow> br_size br = br_size (wk_buf w) \<Longrightarrow>
   worker_ok k b (w\<lparr>wk_buf := br\<rparr>)"
  by (simp add: worker_ok_def)

lemma keeps_filled: "keeps w w' \<Longrightarrow> filled head (wk_buf w') = filled head (wk_buf w) \<and> br_tail (wk_buf w') = br_tail (wk_buf w)"
  by (auto simp: keeps_def filled_def)

lemma handle_recv_ok:
  assumes "worker_ok k b w" "env_ok se" and bid: "unat (ucast (drop_bit IORING_CQE_BUFFER_SHIFT flags) :: u16) < 2 ^ b"
    and room: "unat (br_tail (wk_buf w) - head) < 2 ^ b"
    and carries: "sint res > 0" "flags AND IORING_CQE_F_BUFFER \<noteq> 0"
  obtains w' where "handle_recv se fd res flags w = Inr (True, w')" "worker_ok k b w'"
    "map ub_bid (filled head (wk_buf w')) = map ub_bid (filled head (wk_buf w)) @ [ucast (drop_bit IORING_CQE_BUFFER_SHIFT flags)]"
    "br_tail (wk_buf w') = br_tail (wk_buf w) + 1"
    "completed_requests (wk_stats w') = completed_requests (wk_stats w) + 1"
    "rx_bytes (wk_stats w') = rx_bytes (wk_stats w) + ucast res"
proof -
  let ?bid = "ucast (drop_bit IORING_CQE_BUFFER_SHIFT flags) :: u16"
  obtain ok w1 where q: "handle_request se fd ?bid res w = Inr (ok, w1)" "worker_ok k b w1"
    by (rule handle_request_ok[OF assms(1,2) bid])
  obtain got u where e: "try_sqe (prep_send (se_nosignal se) fd (get_buffer_ptr (wk_buf w1) ?bid) res) w1 = Inr (got, w1\<lparr>wk_ring := u\<rparr>)"
    "worker_ok k b (w1\<lparr>wk_ring := u\<rparr>)" by (rule try_sqe_ok[OF q(2)])
  define w2 where "w2 = (if ok then w1 else w1\<lparr>wk_ring := u\<rparr>)"
  have w2: "worker_ok k b w2" "keeps w w2" using q(2) e handle_request_keeps[OF q(1)] try_sqe_keeps[OF e(1)]
    by (auto simp: w2_def intro: keeps_trans)
  have f: "filled head (wk_buf w2) = filled head (wk_buf w)" "br_tail (wk_buf w2) = br_tail (wk_buf w)" "wk_stats w2 = wk_stats w"
    using keeps_filled[OF w2(2), of head] w2(2)[unfolded keeps_def] by simp_all
  have sh: "buf_shape b (wk_buf w2)" using w2(1) by (simp add: worker_ok_def)
  have r2: "unat (br_tail (wk_buf w2) - head) < 2 ^ b" using room f(2) by simp
  obtain br where br: "buf_recycle ?bid (wk_buf w2) = Inr br" "buf_shape b br" "br_tail br = br_tail (wk_buf w2) + 1"
    "map ub_bid (filled head br) = map ub_bid (filled head (wk_buf w2)) @ [?bid]"
    "br_storage br = br_storage (wk_buf w2)" "br_size br = br_size (wk_buf w2)"
    by (rule buf_recycle_filled[OF sh r2, of ?bid]) auto
  let ?st = "(wk_stats w2)\<lparr>rx_bytes := rx_bytes (wk_stats w2) + ucast res, completed_requests := completed_requests (wk_stats w2) + 1\<rparr>"
  have step: "(if ok then Inr w1 else and_then (try_sqe (prep_send (se_nosignal se) fd (get_buffer_ptr (wk_buf w1) ?bid) res) w1) (\<lambda>(_, w). Inr w)) = Inr w2"
    using e(1) by (simp add: w2_def)
  have "worker_ok k b (w2\<lparr>wk_stats := ?st\<rparr>)" using w2(1) by simp
  from worker_ok_buf[OF this br(2)] br(5,6) have "worker_ok k b (w2\<lparr>wk_stats := ?st, wk_buf := br\<rparr>)" by simp
  then show thesis
    using that[of "w2\<lparr>wk_stats := ?st, wk_buf := br\<rparr>"] carries q(1) step br(1,3,4) f
    by (simp add: handle_recv_def Let_def)
qed

lemma handle_cqe_plain:
  assumes "worker_ok k b w" "cqe_ok b c" and False: "\<not> cqe_has_buffer c"
  obtains w' where "handle_cqe se c w = Inr (False, w')" "worker_ok k b w'" "keeps w w'"
proof -
  have a: "\<exists>w'. handle_accept se (cqe_res c) (cqe_flags c) w = Inr w' \<and> worker_ok k b w'"
    by (rule handle_accept_ok[OF assms(1)]) blast
  have s: "\<exists>w'. handle_send (decode_fd (cqe_user_data c)) (cqe_res c) w = Inr w' \<and> worker_ok k b w'"
    by (rule handle_send_ok[OF assms(1)]) blast
  have cl: "\<exists>w'. close_fd (decode_fd (cqe_user_data c)) w = Inr w' \<and> worker_ok k b w'"
    by (rule close_fd_ok[OF assms(1)]) blast
  have re: "\<exists>got w'. try_sqe (prep_recv_multishot (decode_fd (cqe_user_data c)) BUFFER_GROUP_ID) w = Inr (got, w') \<and> worker_ok k b w'"
    by (rule try_sqe_ok[OF assms(1), of "prep_recv_multishot (decode_fd (cqe_user_data c)) BUFFER_GROUP_ID"]) blast
  have r: "\<exists>w'. handle_recv se (decode_fd (cqe_user_data c)) (cqe_res c) (cqe_flags c) w = Inr (False, w') \<and> worker_ok k b w'"
    if "decode_op (cqe_user_data c) = IORING_OP_RECV"
  proof -
    have n: "sint (cqe_res c) \<le> 0 \<or> cqe_flags c AND IORING_CQE_F_BUFFER = 0" using False that by (auto simp: cqe_has_buffer_def)
    show ?thesis using n cl re assms(1) by (auto simp: handle_recv_def)
  qed
  have "\<exists>w'. handle_cqe se c w = Inr (False, w') \<and> worker_ok k b w' \<and> keeps w w'"
  proof (cases "decode_op (cqe_user_data c) = IORING_OP_RECV")
    case True
    from r[OF True] obtain w' where w': "handle_recv se (decode_fd (cqe_user_data c)) (cqe_res c) (cqe_flags c) w = Inr (False, w')"
      "worker_ok k b w'" by blast
    have "handle_cqe se c w = Inr (False, w')" using w'(1) True by (simp add: handle_cqe_def opcode_defs)
    then show ?thesis using w' handle_recv_cases(2)[OF w'(1)] by blast
  next
    case other: False
    consider "decode_op (cqe_user_data c) = IORING_OP_ACCEPT" | "decode_op (cqe_user_data c) = IORING_OP_SEND"
      | "decode_op (cqe_user_data c) = IORING_OP_CLOSE" using assms(2) other by (auto simp: cqe_ok_def)
    then show ?thesis
    proof cases
      case 1
      then show ?thesis using a handle_accept_keeps by (fastforce simp: handle_cqe_def)
    next
      case 2
      then show ?thesis using s handle_send_keeps by (fastforce simp: handle_cqe_def opcode_defs)
    next
      case 3
      then show ?thesis using assms(1) by (simp add: handle_cqe_def opcode_defs)
    qed
  qed
  then show thesis using that by blast
qed

lemma handle_cqe_ok:
  assumes "worker_ok k b w" "env_ok se" "cqe_ok b c"
    and room: "cqe_has_buffer c \<Longrightarrow> unat (br_tail (wk_buf w) - head) < 2 ^ b"
  obtains w' where "handle_cqe se c w = Inr (cqe_has_buffer c, w')" "worker_ok k b w'" "frame_of w' = frame_of w"
    "map ub_bid (filled head (wk_buf w')) = map ub_bid (filled head (wk_buf w)) @ (if cqe_has_buffer c then [cqe_bid c] else [])"
    "br_tail (wk_buf w') = br_tail (wk_buf w) + (if cqe_has_buffer c then 1 else 0)"
    "completed_requests (wk_stats w') = completed_requests (wk_stats w) + (if cqe_has_buffer c then 1 else 0)"
    "rx_bytes (wk_stats w') = rx_bytes (wk_stats w) + (if cqe_has_buffer c then ucast (cqe_res c) else 0)"
proof (cases "cqe_has_buffer c")
  case True
  have o: "decode_op (cqe_user_data c) = IORING_OP_RECV" and cr: "sint (cqe_res c) > 0" "cqe_flags c AND IORING_CQE_F_BUFFER \<noteq> 0"
    using True by (auto simp: cqe_has_buffer_def)
  have bid: "unat (ucast (drop_bit IORING_CQE_BUFFER_SHIFT (cqe_flags c)) :: u16) < 2 ^ b"
    using assms(3) True by (simp add: cqe_ok_def cqe_bid_def)
  obtain w' where w': "handle_recv se (decode_fd (cqe_user_data c)) (cqe_res c) (cqe_flags c) w = Inr (True, w')" "worker_ok k b w'"
    "map ub_bid (filled head (wk_buf w')) = map ub_bid (filled head (wk_buf w)) @ [cqe_bid c]"
    "br_tail (wk_buf w') = br_tail (wk_buf w) + 1" "completed_requests (wk_stats w') = completed_requests (wk_stats w) + 1"
    "rx_bytes (wk_stats w') = rx_bytes (wk_stats w) + ucast (cqe_res c)"
    unfolding cqe_bid_def by (rule handle_recv_ok[OF assms(1,2) bid room[OF True] cr])
  have h: "handle_cqe se c w = Inr (True, w')" using w'(1) o by (simp add: handle_cqe_def opcode_defs)
  then show thesis using that[of w'] w' True handle_cqe_frame[OF h] by simp
next
  case False
  obtain w' where w': "handle_cqe se c w = Inr (False, w')" "worker_ok k b w'" "keeps w w'"
    by (rule handle_cqe_plain[OF assms(1,3) False])
  then show thesis using that[of w'] False keeps_filled[OF w'(3)] handle_cqe_frame[OF w'(1)] by (simp add: keeps_def)
qed

section \<open>Draining the completions\<close>

definition carried :: "io_uring_cqe list \<Rightarrow> u16 list" where
  "carried cs = map cqe_bid (filter cqe_has_buffer cs)"

definition received :: "io_uring_cqe list \<Rightarrow> u64" where
  "received cs = sum_list (map (\<lambda>c. ucast (cqe_res c)) (filter cqe_has_buffer cs))"

lemma carried_simps [simp]:
  "carried [] = []" "carried (c # cs) = (if cqe_has_buffer c then cqe_bid c # carried cs else carried cs)"
  "received [] = 0" "received (c # cs) = (if cqe_has_buffer c then ucast (cqe_res c) + received cs else received cs)"
  by (simp_all add: carried_def received_def)

lemma worker_ok_advance:
  "worker_ok k b w \<Longrightarrow> worker_ok k b (w\<lparr>wk_ring := advance_cq n (wk_ring w)\<rparr>)"
  by (simp add: worker_ok_def advance_cq_def sq_inv_def sq_shape_def)

lemma frame_cq: "frame_of w' = frame_of w \<Longrightarrow> cq_queue (wk_ring w') = cq_queue (wk_ring w) \<and> cq_shape j (wk_ring w') = cq_shape j (wk_ring w)"
  by (simp add: frame_of_def cq_queue_def cq_shape_def)

lemma drain_cq_ok:
  assumes "worker_ok k b w" "env_ok se" "cq_shape j (wk_ring w)" "\<forall>c\<in>set (cq_queue (wk_ring w)). cqe_ok b c"
    and "unat (br_tail (wk_buf w) - head) + length (carried (cq_queue (wk_ring w))) \<le> 2 ^ b"
  shows "\<exists>w'. drain_cq se r w = Inr (r \<or> carried (cq_queue (wk_ring w)) \<noteq> [], w') \<and> worker_ok k b w' \<and>
    cq_queue (wk_ring w') = [] \<and>
    map ub_bid (filled head (wk_buf w')) = map ub_bid (filled head (wk_buf w)) @ carried (cq_queue (wk_ring w)) \<and>
    completed_requests (wk_stats w') = completed_requests (wk_stats w) + of_nat (length (carried (cq_queue (wk_ring w)))) \<and>
    rx_bytes (wk_stats w') = rx_bytes (wk_stats w) + received (cq_queue (wk_ring w))"
  using assms
proof (induction "length (cq_queue (wk_ring w))" arbitrary: w r)
  case 0
  then have "cq_queue (wk_ring w) = []" by simp
  then show ?case using 0 peek_cqe_queue[OF 0(4)] by (simp add: drain_cq.simps)
next
  case (Suc n)
  then obtain c cs where q: "cq_queue (wk_ring w) = c # cs" by (cases "cq_queue (wk_ring w)") auto
  let ?w = "w\<lparr>wk_ring := advance_cq 1 (wk_ring w)\<rparr>"
  have ok: "worker_ok k b ?w" using Suc.prems(1) by (rule worker_ok_advance)
  have peek: "peek_cqe (wk_ring w) = Inr (Some c)" using peek_cqe_queue[OF Suc.prems(3)] q by simp
  have adv: "cq_queue (wk_ring ?w) = cs" "cq_shape j (wk_ring ?w)"
    using advance_cq_queue[OF Suc.prems(3)] q Suc.prems(3) by (auto simp: cq_shape_def advance_cq_def)
  have c: "cqe_ok b c" "\<And>c. c \<in> set cs \<Longrightarrow> cqe_ok b c" using Suc.prems(4) q by auto
  have room: "unat (br_tail (wk_buf ?w) - head) < 2 ^ b" if "cqe_has_buffer c" using Suc.prems(5) q that by simp
  obtain w' where w': "handle_cqe se c ?w = Inr (cqe_has_buffer c, w')" "worker_ok k b w'" "frame_of w' = frame_of ?w"
    "map ub_bid (filled head (wk_buf w')) = map ub_bid (filled head (wk_buf ?w)) @ (if cqe_has_buffer c then [cqe_bid c] else [])"
    "br_tail (wk_buf w') = br_tail (wk_buf ?w) + (if cqe_has_buffer c then 1 else 0)"
    "completed_requests (wk_stats w') = completed_requests (wk_stats ?w) + (if cqe_has_buffer c then 1 else 0)"
    "rx_bytes (wk_stats w') = rx_bytes (wk_stats ?w) + (if cqe_has_buffer c then ucast (cqe_res c) else 0)"
    by (rule handle_cqe_ok[OF ok Suc.prems(2) c(1) room])
  have cs: "cq_queue (wk_ring w') = cs" "cq_shape j (wk_ring w')" using frame_cq[OF w'(3)] adv by auto
  have "b \<le> 15" using Suc.prems(1) by (simp add: worker_ok_def buf_shape_def)
  then have "(2::nat) ^ b \<le> 32768" using power_increasing[of b 15 "2::nat"] by simp
  then have "unat (br_tail (wk_buf w') - head) = unat (br_tail (wk_buf w) - head) + (if cqe_has_buffer c then 1 else 0)"
    using room by (auto simp: w'(5) intro!: unat_dist_Suc)
  then have room': "unat (br_tail (wk_buf w') - head) + length (carried (cq_queue (wk_ring w'))) \<le> 2 ^ b"
    using Suc.prems(5) q cs(1) by (simp split: if_splits)
  have n: "n = length (cq_queue (wk_ring w'))" using Suc.hyps(2) q cs(1) by simp
  have "drain_cq se r w = drain_cq se (r \<or> cqe_has_buffer c) w'" using peek w'(1) by (simp add: drain_cq.simps[of se r w])
  then show ?case
    using Suc.hyps(1)[OF n w'(2) Suc.prems(2) cs(2) _ room', of "r \<or> cqe_has_buffer c"] c(2) cs(1) q w'(4,6,7)
    by (auto simp: add.assoc)
qed

end
