(* ===== verification/Server_Props.thy ===== *)
theory Server_Props
  imports Server
begin

text \<open>
  What the server does for its clients and for the other cores: commands, replies, replication,
  and a whole round of a worker.
\<close>

section \<open>Replication\<close>

text \<open>The writes a worker applies for inbound tasks, with the sequence numbers it gives them.\<close>

fun inbound_writes :: "server_env \<Rightarrow> u64 \<Rightarrow> inter_core_task list \<Rightarrow> (write_answers \<times> bytes \<times> bytes \<times> u64) list" where
  "inbound_writes se s [] = []"
| "inbound_writes se s (ReplicateWrite key val # ts) =
     (se_write se s, to_be_bytes key, to_be_bytes val, s) # inbound_writes se (s + 1) ts"

lemma drain_inbound_spec:
  assumes "worker_ok k b w" "env_ok se" "ring_repr m (wk_queues w ! wk_core w) ts"
  shows "\<exists>w'. drain_inbound se n w = Inr w' \<and> worker_ok k b w' \<and> keeps w w' \<and> wk_ring w' = wk_ring w \<and>
    ring_repr m (wk_queues w' ! wk_core w) (drop n ts) \<and>
    (\<forall>i. i \<noteq> wk_core w \<longrightarrow> wk_queues w' ! i = wk_queues w ! i) \<and>
    wk_seq w' = wk_seq w + of_nat (min n (length ts)) \<and>
    put_run (engine_put (se_crc se)) (inbound_writes se (wk_seq w) (take n ts)) (wk_db w) = Inr (wk_db w')"
  using assms(1,3)
proof (induction n arbitrary: w ts)
  case 0
  then show ?case by simp
next
  case (Suc n)
  let ?q = "wk_queues w ! wk_core w"
  have core: "wk_core w < length (wk_queues w)" using Suc.prems(1) by (simp add: worker_ok_def)
  show ?case
  proof (cases ts)
    case Nil
    then have "mpmc_pop (se_spurious se) ?q = Inr (Inl Empty, ?q)" using ring.pop_none Suc.prems(2) by blast
    then show ?thesis using Suc.prems core Nil by simp
  next
    case (Cons t ts')
    obtain key val where t: "t = ReplicateWrite key val" by (cases t)
    obtain q' where q': "mpmc_pop (se_spurious se) ?q = Inr (Inr t, q')" "ring_repr m q' ts'"
      using ring.pop_some[of m ?q t ts' "se_spurious se"] Suc.prems(2) Cons by blast
    let ?w = "w\<lparr>wk_queues := (wk_queues w)[wk_core w := q']\<rparr>"
    have ok: "worker_ok k b ?w" using q'(2) by (intro worker_ok_queue Suc.prems) (auto simp: queue_ok_def)
    obtain r w1 where w1: "db_put se key val ?w = Inr (r, w1)" "worker_ok k b w1" by (rule db_put_ok[OF ok assms(2)])
    let ?w1 = "w1\<lparr>wk_seq := wk_seq w1 + 1\<rparr>"
    have same: "wk_queues w1 = (wk_queues w)[wk_core w := q']" "wk_core w1 = wk_core w" "wk_seq w1 = wk_seq w"
      and put: "engine_put (se_crc se) (se_write se (wk_seq w)) (to_be_bytes key) (to_be_bytes val) (wk_seq w) (wk_db w) = Inr (r, wk_db w1)"
      using w1(1) by (auto simp: db_put_def)
    have keep: "keeps w ?w1" "wk_ring ?w1 = wk_ring w"
    proof -
      have "keeps w ?w" by (rule keeps_same) (simp_all add: frame_of_def)
      moreover have "keeps w1 ?w1" by (rule keeps_same) (simp_all add: frame_of_def)
      ultimately show "keeps w ?w1" "wk_ring ?w1 = wk_ring w" using db_put_keeps[OF w1(1)] by (auto intro: keeps_trans)
    qed
    have "worker_ok k b ?w1" "ring_repr m (wk_queues ?w1 ! wk_core ?w1) ts'" using w1(2) q'(2) core same by simp_all
    from Suc.IH[OF this] obtain w' where IH: "drain_inbound se n ?w1 = Inr w'" "worker_ok k b w'" "keeps ?w1 w'" "wk_ring w' = wk_ring ?w1"
      "ring_repr m (wk_queues w' ! wk_core ?w1) (drop n ts')" "\<forall>i. i \<noteq> wk_core ?w1 \<longrightarrow> wk_queues w' ! i = wk_queues ?w1 ! i"
      "wk_seq w' = wk_seq ?w1 + of_nat (min n (length ts'))"
      "put_run (engine_put (se_crc se)) (inbound_writes se (wk_seq ?w1) (take n ts')) (wk_db ?w1) = Inr (wk_db w')" by blast
    have "drain_inbound se (Suc n) w = Inr w'" using core q'(1) w1(1) IH(1) t by simp
    then show ?thesis
      using IH(2-) keep keeps_trans[OF keep(1) IH(3)] same Cons t put by (simp add: min_def)
  qed
qed

text \<open>The queue a put is replicated to, and what it holds afterwards.\<close>

lemma handle_put_spec:
  assumes "worker_ok k b w" "env_ok se"
    and "ring_repr m (wk_queues w ! ((wk_core w + 1) mod length (wk_queues w))) ts"
  shows "\<exists>r w'. handle_put se key val w = Inr w' \<and> worker_ok k b w' \<and>
    engine_put (se_crc se) (se_write se (wk_seq w)) (to_be_bytes key) (to_be_bytes val) (wk_seq w) (wk_db w) = Inr (r, wk_db w') \<and>
    wk_seq w' = wk_seq w + 1 \<and>
    ring_repr m (wk_queues w' ! ((wk_core w + 1) mod length (wk_queues w)))
      (if length ts < 2 ^ m then ts @ [ReplicateWrite key val] else ts) \<and>
    (\<forall>i. i \<noteq> (wk_core w + 1) mod length (wk_queues w) \<longrightarrow> wk_queues w' ! i = wk_queues w ! i)"
proof -
  let ?t = "(wk_core w + 1) mod length (wk_queues w)"
  obtain r w1 where w1: "db_put se key val w = Inr (r, w1)" "worker_ok k b w1" by (rule db_put_ok[OF assms(1,2)])
  have same: "wk_queues w1 = wk_queues w" "wk_core w1 = wk_core w" "wk_seq w1 = wk_seq w"
    and put: "engine_put (se_crc se) (se_write se (wk_seq w)) (to_be_bytes key) (to_be_bytes val) (wk_seq w) (wk_db w) = Inr (r, wk_db w1)"
    using w1(1) by (auto simp: db_put_def)
  have q: "wk_queues w \<noteq> []" using assms(1) by (auto simp: worker_ok_def)
  then have t: "?t < length (wk_queues w)" by (intro mod_less_divisor) simp
  obtain x q' where p: "mpmc_push (se_spurious se) (ReplicateWrite key val) (wk_queues w ! ?t) = Inr (x, q')"
    "ring_repr m q' (if length ts < 2 ^ m then ts @ [ReplicateWrite key val] else ts)"
    using ring.push_room[OF assms(3), of "se_spurious se" "ReplicateWrite key val"]
      ring.push_full[OF assms(3), of "se_spurious se" "ReplicateWrite key val"] assms(3) by (cases "length ts < 2 ^ m") auto
  let ?w = "w1\<lparr>wk_seq := wk_seq w + 1, wk_queues := (wk_queues w)[?t := q']\<rparr>"
  have "handle_put se key val w = Inr ?w" using w1(1) p(1) q same by (simp add: handle_put_def Let_def sync_on_error_ok)
  moreover have "worker_ok k b ?w"
    using worker_ok_queue[of k b "w1\<lparr>wk_seq := wk_seq w + 1\<rparr>" q' ?t] w1(2) p(2) same by (auto simp: queue_ok_def)
  ultimately show ?thesis using put p(2) t by (intro exI[of _ r] exI[of _ ?w]) (simp add: same)
qed

section \<open>Commands\<close>

text \<open>The bytes of a put and of a get command in a buffer.\<close>

definition put_command :: "worker \<Rightarrow> u16 \<Rightarrow> u64 \<Rightarrow> u64 \<Rightarrow> bool" where
  "put_command w bid key val \<longleftrightarrow>
     subslice (br_storage (wk_buf w)) (buf_off w bid) (buf_off w bid + 17) = 1 # to_be_bytes key @ to_be_bytes val"

definition get_command :: "worker \<Rightarrow> u16 \<Rightarrow> u64 \<Rightarrow> bool" where
  "get_command w bid key \<longleftrightarrow>
     subslice (br_storage (wk_buf w)) (buf_off w bid) (buf_off w bid + 9) = 2 # to_be_bytes key"

lemma subslice_parts:
  assumes "subslice xs a b = ys" "a + c \<le> b"
  shows "subslice xs a (a + c) = take c ys"
  using assms by (auto simp: subslice_def min_def)

lemma subslice_mid:
  assumes "subslice xs a (a + n) = ys" "c + d \<le> n"
  shows "subslice xs (a + c) (a + c + d) = take d (drop c ys)"
proof -
  have "take d (drop c (subslice xs a (a + n))) = subslice xs (a + c) (a + c + d)"
    using assms(2) by (simp add: subslice_def drop_take add.commute)
  then show ?thesis using assms(1) by simp
qed

lemma put_command_request:
  assumes "worker_ok k b w" "unat bid < 2 ^ b" "put_command w bid key val" "17 \<le> n"
  shows "handle_request se fd bid n w = and_then (handle_put se key val w) (\<lambda>w. Inr (True, w))"
proof -
  let ?st = "br_storage (wk_buf w)" and ?o = "buf_off w bid"
  have room: "?o + m \<le> length ?st" if "m \<le> 17" for m using that by (rule buf_room[OF assms(1,2)])
  note c = assms(3)[unfolded put_command_def]
  have "slice_raw ?st ?o 1 = Inr [1]" using room[of 1] subslice_mid[OF c, of 0 1] by (simp add: slice_raw_def)
  moreover have "slice_raw ?st (?o + 1) 8 = Inr (to_be_bytes key)"
    using room[of 9] subslice_mid[OF c, of 1 8] by (simp add: slice_raw_def)
  moreover have "slice_raw ?st (?o + 9) 8 = Inr (to_be_bytes val)"
    using room[of 17] subslice_mid[OF c, of 9 8] by (simp add: slice_raw_def)
  moreover have "9 \<le> n" using assms(4) by (auto simp: word_le_nat_alt)
  ultimately show ?thesis using assms(4) by (simp add: handle_request_def Let_def)
qed

lemma get_command_request:
  assumes "worker_ok k b w" "unat bid < 2 ^ b" "get_command w bid key" "9 \<le> n"
  shows "handle_request se fd bid n w = and_then (handle_get se fd bid key w) (\<lambda>w. Inr (True, w))"
proof -
  let ?st = "br_storage (wk_buf w)" and ?o = "buf_off w bid"
  have room: "?o + m \<le> length ?st" if "m \<le> 17" for m using that by (rule buf_room[OF assms(1,2)])
  note c = assms(3)[unfolded get_command_def]
  have "slice_raw ?st ?o 1 = Inr [2]" using room[of 1] subslice_mid[OF c, of 0 1] by (simp add: slice_raw_def)
  moreover have "slice_raw ?st (?o + 1) 8 = Inr (to_be_bytes key)"
    using room[of 9] subslice_mid[OF c, of 1 8] by (simp add: slice_raw_def)
  ultimately show ?thesis using assms(4) by (simp add: handle_request_def Let_def)
qed

lemma handle_get_hit:
  assumes "worker_ok k b w" "unat bid < 2 ^ b" "length (sq_queue (wk_ring w)) < 2 ^ k"
    and "engine_get (se_avx2 se) (se_mmap se) (wk_db w) (to_be_bytes key) = Inr (Some (Some (to_be_bytes val), s))"
  shows "\<exists>w'. handle_get se fd bid key w = Inr w' \<and>
    sq_queue (wk_ring w') = sq_queue (wk_ring w) @ [prep_send (se_nosignal se) fd (get_buffer_ptr (wk_buf w) bid) 8 sqe_default] \<and>
    subslice (br_storage (wk_buf w')) (buf_off w bid) (buf_off w bid + 8) = to_be_bytes (val :: u64)"
proof -
  have room: "buf_off w bid + 8 \<le> length (br_storage (wk_buf w))" by (rule buf_room[OF assms(1,2)]) simp
  let ?w = "w\<lparr>wk_buf := (wk_buf w)\<lparr>br_storage := copy_into (br_storage (wk_buf w)) (buf_off w bid) (to_be_bytes val)\<rparr>\<rparr>"
  have ok: "worker_ok k b ?w" using assms(1) room by (simp add: worker_ok_def buf_shape_def)
  obtain got u where u: "try_sqe (prep_send (se_nosignal se) fd (get_buffer_ptr (wk_buf w) bid) 8) ?w = Inr (got, ?w\<lparr>wk_ring := u\<rparr>)"
    "got \<longleftrightarrow> length (sq_queue (wk_ring ?w)) < 2 ^ k"
    "sq_queue u = (if got then sq_queue (wk_ring ?w) @ [prep_send (se_nosignal se) fd (get_buffer_ptr (wk_buf w) bid) 8 sqe_default] else sq_queue (wk_ring ?w))"
    by (rule try_sqe_ok[OF ok])
  have "handle_get se fd bid key w = Inr (?w\<lparr>wk_ring := u\<rparr>)"
    using assms(4) u(1) room by (simp add: handle_get_def Let_def)
  then show ?thesis using u(2,3) assms(3) room subslice_copy_into_same[of "buf_off w bid" "to_be_bytes val" "br_storage (wk_buf w)"] by simp
qed

section \<open>A round\<close>

lemma worker_ok_world:
  assumes "worker_ok k b w" "sq_inv k u" "length st = length (br_storage (wk_buf w))"
  shows "worker_ok k b (w\<lparr>wk_ring := u, wk_buf := (wk_buf w)\<lparr>br_storage := st\<rparr>\<rparr>)"
  using assms by (simp add: worker_ok_def buf_shape_def)

lemma worker_round_spec:
  assumes "worker_ok k b w" "env_ok se" "kernel_ok enter" "cq_shape j (wk_ring w)"
    and "\<And>st. length (deliver st) = length st"
    and "submit_and_wait enter 1 (wk_ring w) = (Inr ret, ring)"
    and "\<forall>c\<in>set (cq_queue ring). cqe_ok b c"
    and "unat (br_tail (wk_buf w) - head) + length (carried (cq_queue ring)) \<le> 2 ^ b"
  shows "\<exists>w'. worker_round se enter deliver w = Inr w' \<and> worker_ok k b w' \<and> cq_queue (wk_ring w') = [] \<and>
    map ub_bid (filled head (wk_buf w')) = map ub_bid (filled head (wk_buf w)) @ carried (cq_queue ring) \<and>
    (carried (cq_queue ring) \<noteq> [] \<longrightarrow> published (wk_buf w') = br_tail (wk_buf w')) \<and>
    completed_requests (wk_stats w') = completed_requests (wk_stats w) + of_nat (length (carried (cq_queue ring))) \<and>
    rx_bytes (wk_stats w') = rx_bytes (wk_stats w) + received (cq_queue ring)"
proof -
  let ?w = "w\<lparr>wk_ring := ring, wk_buf := (wk_buf w)\<lparr>br_storage := deliver (br_storage (wk_buf w))\<rparr>\<rparr>"
  let ?cs = "cq_queue ring"
  have sq: "sq_inv k (wk_ring w)" using assms(1) by (simp add: worker_ok_def)
  obtain m where m: "enter (ur_fd (wk_ring w)) (ur_sq_tail_local (wk_ring w) - ur_sq_head_cache (wk_ring w)) 1 IORING_ENTER_GETEVENTS
      ((ur_shm (wk_ring w))\<lparr>um_sq_tail := ur_sq_tail_local (wk_ring w)\<rparr>) = (Inr ret, m)"
    "ring = (wk_ring w)\<lparr>ur_shm := m, ur_sq_head_cache := um_sq_head m\<rparr>"
    using assms(6) by (auto simp: submit_and_wait_def Let_def split: prod.splits sum.splits)
  have ring: "sq_inv k ring" "cq_shape j ring"
    using kernel_enter_queues[OF assms(3) sq m(1), of ring j] m(2) assms(4) by simp_all
  have ok: "worker_ok k b ?w" using assms(1) ring(1) assms(5) by (rule worker_ok_world)
  then have "queue_ok (wk_queues ?w ! wk_core ?w)" by (simp add: worker_ok_def)
  then obtain n ts where q: "ring_repr n (wk_queues ?w ! wk_core ?w) ts" by (auto simp: queue_ok_def)
  obtain w1 where w1: "drain_inbound se 16 ?w = Inr w1" "worker_ok k b w1" "keeps ?w w1" "wk_ring w1 = ring"
    using drain_inbound_spec[OF ok assms(2) q, of 16] by auto
  have f: "filled head (wk_buf w1) = filled head (wk_buf w)" "br_tail (wk_buf w1) = br_tail (wk_buf w)" "wk_stats w1 = wk_stats w"
  proof -
    have "filled head (wk_buf ?w) = filled head (wk_buf w)" by (simp add: filled_def)
    then show "filled head (wk_buf w1) = filled head (wk_buf w)" "br_tail (wk_buf w1) = br_tail (wk_buf w)" "wk_stats w1 = wk_stats w"
      using keeps_filled[OF w1(3), of head] w1(3)[unfolded keeps_def] by simp_all
  qed
  obtain w2 where w2: "drain_cq se False w1 = Inr (?cs \<noteq> [] \<and> carried ?cs \<noteq> [], w2)" "worker_ok k b w2" "cq_queue (wk_ring w2) = []"
    "map ub_bid (filled head (wk_buf w2)) = map ub_bid (filled head (wk_buf w)) @ carried ?cs"
    "completed_requests (wk_stats w2) = completed_requests (wk_stats w) + of_nat (length (carried ?cs))"
    "rx_bytes (wk_stats w2) = rx_bytes (wk_stats w) + received ?cs"
    using drain_cq_ok[OF w1(2) assms(2), of j head False] ring(2) assms(7,8) w1(4) f by (cases ?cs) auto
  have sh: "buf_shape b (wk_buf w2)" using w2(2) by (simp add: worker_ok_def)
  obtain br where br: "buf_flush (wk_buf w2) = Inr br" "buf_shape b br" "published br = br_tail (wk_buf w2)"
    "br = (wk_buf w2)\<lparr>br_ring := br_ring br\<rparr>"
    "map (\<lambda>e. (ub_bid e, ub_addr e, ub_len e)) (br_ring br) = map (\<lambda>e. (ub_bid e, ub_addr e, ub_len e)) (br_ring (wk_buf w2))"
    by (rule buf_flush_ok[OF sh])
  have same: "br_tail br = br_tail (wk_buf w2)" "br_storage br = br_storage (wk_buf w2)" "br_size br = br_size (wk_buf w2)"
    using arg_cong[OF br(4), of br_tail] arg_cong[OF br(4), of br_storage] arg_cong[OF br(4), of br_size] by simp_all
  have ne: "br_ring (wk_buf w2) \<noteq> []" using sh by (auto simp: buf_shape_def)
  have "map ub_bid (filled head br) = map ub_bid (filled head (wk_buf w2))"
    using arg_cong[OF filled_cong[OF br(5) same(1) ne, of head], of "map fst"] by (simp add: comp_def)
  moreover have "worker_ok k b (w2\<lparr>wk_buf := br\<rparr>)" using w2(2) br(2) same(2,3) by (rule worker_ok_buf)
  moreover have "worker_round se enter deliver w = Inr (if carried ?cs \<noteq> [] then w2\<lparr>wk_buf := br\<rparr> else w2)"
    using assms(6) w1(1) w2(1) br(1) by (auto simp: worker_round_def)
  ultimately show ?thesis using w2 br(3) same(1) by (cases "carried ?cs = []") auto
qed

section \<open>Examples\<close>

text \<open>
  A worker alone on its core, with one buffer that it holds, one completion to handle, and an engine and a
  queue that are filled in.
\<close>

definition demo_env :: server_env where
  "demo_env = \<lparr>se_crc = \<lambda>_. 9, se_write = \<lambda>_. calm, se_sync = None, se_avx2 = True, se_mmap = \<lambda>_. None,
     se_cloexec = 0x80000, se_nosignal = 0x4000, se_spurious = 0\<rparr>"

definition demo_cqe :: io_uring_cqe where
  "demo_cqe = \<lparr>cqe_user_data = encode_user_data 5 IORING_OP_RECV, cqe_res = 17, cqe_flags = 1\<rparr>"

definition demo_worker :: "bytes \<Rightarrow> engine \<Rightarrow> inter_core_task mpmc \<Rightarrow> worker" where
  "demo_worker st db q =
     \<lparr>wk_core = 0,
      wk_ring = ring2\<lparr>ur_shm := (ur_shm ring2)\<lparr>um_cq_head := 0, um_cq_tail := 1, um_cqes := [demo_cqe, demo_cqe]\<rparr>\<rparr>,
      wk_buf = \<lparr>br_bgid = 0, br_entries = 1, br_mask = 0, br_tail = 0,
                br_ring = [\<lparr>ub_addr = 8192, ub_len = 17, ub_bid = 0, ub_resv = 0\<rparr>],
                br_ring_ptr = 4096, br_storage = st, br_storage_ptr = 8192, br_size = 17\<rparr>,
      wk_db = db, wk_seq = 1, wk_listen = 4, wk_stats = worker_stats_new, wk_queues = [q], wk_closed = []\<rparr>"

lemma demo_ok:
  assumes "live_engine db" "queue_ok q" "length st = 17"
  shows "worker_ok 1 0 (demo_worker st db q)" "sq_queue (wk_ring (demo_worker st db q)) = []"
    "cq_shape 1 (wk_ring (demo_worker st db q))" "cq_queue (wk_ring (demo_worker st db q)) = [demo_cqe]"
proof -
  let ?u = "ring2\<lparr>ur_shm := (ur_shm ring2)\<lparr>um_cq_head := 0, um_cq_tail := 1, um_cqes := [demo_cqe, demo_cqe]\<rparr>\<rparr>"
  have u: "sq_inv 1 ?u" "sq_queue ?u = []" using sq_inv_ring2 by (simp_all add: sq_inv_def sq_shape_def sq_queue_def)
  then show "worker_ok 1 0 (demo_worker st db q)" "sq_queue (wk_ring (demo_worker st db q)) = []"
    using assms by (simp_all add: worker_ok_def demo_worker_def buf_shape_def)
  show "cq_shape 1 (wk_ring (demo_worker st db q))" "cq_queue (wk_ring (demo_worker st db q)) = [demo_cqe]"
    by (simp_all add: demo_worker_def cq_shape_def cq_queue_def ring2_def window_def)
qed

lemma demo_env_ok: "env_ok demo_env"
  by (simp add: env_ok_def demo_env_def calm_def)

lemma demo_queue: "\<exists>m q. mpmc_new 2 = Inr q \<and> ring_repr m q ([] :: inter_core_task list)"
proof -
  have "is_power_of_two (2 :: u64)" using is_power_of_two_pow[of 1, where 'a = 64] by simp
  then show ?thesis using ring_new[of 2] by (metis order_refl)
qed

text \<open>The engine of an empty directory, and its first put of a key and a value of eight bytes.\<close>

lemma demo_engine:
  "\<exists>e e'. engine_open ''db'' None None 0xDEADBEEF Map.empty = Inr e \<and> engine_ok (\<lambda>_. []) [] [] e \<and> live_engine e \<and>
     engine_put (\<lambda>_. 9) calm (to_be_bytes (key :: u64)) (to_be_bytes (val :: u64)) 1 e = Inr (Inr (), e')"
  using engine_first_put_any[of "to_be_bytes key" "to_be_bytes val" 1] open_live by (fastforce simp: engine_put_def)

section \<open>Properties\<close>



text \<open>
  A put is replicated one hop. It gets the next local sequence number, goes to the
  worker's own store and to the end of the queue of the next core, cyclically, when that queue has
  room; a full queue drops the replica without an error. No other queue changes.
\<close>

theorem server_put_replicates:
  assumes "worker_ok k b w" "env_ok se"
    and "ring_repr m (wk_queues w ! ((wk_core w + 1) mod length (wk_queues w))) ts"
  shows "\<exists>r w'. handle_put se key val w = Inr w' \<and> worker_ok k b w' \<and>
    engine_put (se_crc se) (se_write se (wk_seq w)) (to_be_bytes key) (to_be_bytes val) (wk_seq w) (wk_db w) = Inr (r, wk_db w') \<and>
    wk_seq w' = wk_seq w + 1 \<and>
    ring_repr m (wk_queues w' ! ((wk_core w + 1) mod length (wk_queues w)))
      (if length ts < 2 ^ m then ts @ [ReplicateWrite key val] else ts) \<and>
    (\<forall>i. i \<noteq> (wk_core w + 1) mod length (wk_queues w) \<longrightarrow> wk_queues w' ! i = wk_queues w ! i)"
  using assms by (rule handle_put_spec)

theorem server_put_replicates_witness:
  "\<exists>m q w w'. mpmc_new 2 = Inr q \<and> wk_queues w = [q] \<and> handle_put demo_env 7 9 w = Inr w' \<and> wk_seq w' = 2 \<and>
     ring_repr m (wk_queues w' ! 0) [ReplicateWrite 7 9]"
proof -
  obtain e where e: "live_engine e" using demo_engine by blast
  obtain m q where q: "mpmc_new 2 = Inr q" "ring_repr m q ([] :: inter_core_task list)" using demo_queue by blast
  let ?w = "demo_worker (replicate 17 0) e q"
  have "worker_ok 1 0 ?w" using e q(2) by (intro demo_ok) (auto simp: queue_ok_def)
  from server_put_replicates[OF this demo_env_ok, of m "[]" 7 9] q(2) obtain w' where
    "handle_put demo_env 7 9 ?w = Inr w'" "wk_seq w' = 2" "ring_repr m (wk_queues w' ! 0) [ReplicateWrite 7 9]"
    by (auto simp: demo_worker_def)
  then show ?thesis using q(1) by (intro exI[of _ m] exI[of _ q] exI[of _ ?w] exI[of _ w']) (simp add: demo_worker_def)
qed

text \<open>
  Inbound replicas are applied in order, at most sixteen a round, and go no further: a worker
  takes the first sixteen tasks from its own queue, applies each to its own store under the next
  local sequence numbers, leaves the rest in the queue, and leaves every other queue alone, so that a
  write reaches the core that took it and the next one, and no third.
\<close>

theorem server_inbound_applied:
  assumes "worker_ok k b w" "env_ok se" "ring_repr m (wk_queues w ! wk_core w) ts"
  shows "\<exists>w'. drain_inbound se 16 w = Inr w' \<and> worker_ok k b w' \<and>
    ring_repr m (wk_queues w' ! wk_core w) (drop 16 ts) \<and>
    (\<forall>i. i \<noteq> wk_core w \<longrightarrow> wk_queues w' ! i = wk_queues w ! i) \<and>
    wk_seq w' = wk_seq w + of_nat (min 16 (length ts)) \<and>
    put_run (engine_put (se_crc se)) (inbound_writes se (wk_seq w) (take 16 ts)) (wk_db w) = Inr (wk_db w')"
  using drain_inbound_spec[OF assms, of 16] by blast

theorem server_inbound_applied_witness:
  "\<exists>m w w'. ring_repr m (wk_queues w ! 0) [ReplicateWrite 7 9] \<and> drain_inbound demo_env 16 w = Inr w' \<and>
     ring_repr m (wk_queues w' ! 0) [] \<and>
     put_run (engine_put (\<lambda>_. 9)) [(calm, to_be_bytes (7 :: u64), to_be_bytes (9 :: u64), 2)] (wk_db w) = Inr (wk_db w')"
proof -
  obtain e where e: "live_engine e" using demo_engine by blast
  obtain m q where q: "mpmc_new 2 = Inr q" "ring_repr m q ([] :: inter_core_task list)" using demo_queue by blast
  let ?w = "demo_worker (replicate 17 0) e q"
  have ok: "worker_ok 1 0 ?w" using e q(2) by (intro demo_ok) (auto simp: queue_ok_def)
  obtain w1 where w1: "handle_put demo_env 7 9 ?w = Inr w1" "worker_ok 1 0 w1" "wk_seq w1 = 2" "ring_repr m (wk_queues w1 ! 0) [ReplicateWrite 7 9]"
    using handle_put_spec[OF ok demo_env_ok, of m "[]" 7 9] q(2) by (auto simp: demo_worker_def)
  have "wk_core w1 = 0" using handle_put_keeps[OF w1(1)] by (simp add: keeps_def frame_of_def demo_worker_def)
  then show ?thesis
    using server_inbound_applied[OF w1(2) demo_env_ok, of m "[ReplicateWrite 7 9]"] w1(3,4) by (auto simp: demo_env_def)
qed



text \<open>
  A reply is sent from a buffer that has already been given back. A request too short to be a
  command is echoed: the entry for the send is queued with the address of the request's buffer, and
  before it is submitted the same buffer is the last of the buffer ring, where the kernel may
  fill it with the next message of any connection.
\<close>

theorem server_echo_buffer_given_back:
  assumes "worker_ok k b w" "env_ok se" "length (sq_queue (wk_ring w)) < 2 ^ k"
    and "unat (br_tail (wk_buf w) - head) < 2 ^ b" "sint res > 0" "res < 9"
    and "flags AND IORING_CQE_F_BUFFER \<noteq> 0" "unat (ucast (drop_bit 16 flags) :: u16) < 2 ^ b"
  shows "\<exists>w' e s. handle_recv se fd res flags w = Inr (True, w') \<and>
    sq_queue (wk_ring w') = sq_queue (wk_ring w) @ [s] \<and> sqe_opcode s = IORING_OP_SEND \<and> sqe_len s = res \<and>
    filled head (wk_buf w') = filled head (wk_buf w) @ [e] \<and> sqe_addr s = ub_addr e"
proof -
  let ?bid = "ucast (drop_bit 16 flags) :: u16"
  let ?s = "prep_send (se_nosignal se) fd (get_buffer_ptr (wk_buf w) ?bid) res"
  have "\<not> 9 \<le> res" using assms(6) by simp
  then have req: "handle_request se fd ?bid res w = Inr (False, w)" by (simp only: handle_request_def Let_def if_False)
  obtain got u where u: "try_sqe ?s w = Inr (got, w\<lparr>wk_ring := u\<rparr>)" "got \<longleftrightarrow> length (sq_queue (wk_ring w)) < 2 ^ k"
    "sq_queue u = (if got then sq_queue (wk_ring w) @ [?s sqe_default] else sq_queue (wk_ring w))"
    by (rule try_sqe_ok[OF assms(1), of ?s])
  have sh: "buf_shape b (wk_buf w)" using assms(1) by (simp add: worker_ok_def)
  obtain br where br: "buf_recycle ?bid (wk_buf w) = Inr br"
    "filled head br = filled head (wk_buf w) @ [\<lparr>ub_addr = get_buffer_ptr (wk_buf w) ?bid, ub_len = of_nat (br_size (wk_buf w)), ub_bid = ?bid, ub_resv = 0\<rparr>]"
    by (rule buf_recycle_filled[OF sh assms(4), of ?bid]) blast
  have "\<not> sint res \<le> 0" using assms(5) by simp
  then have "handle_recv se fd res flags w = Inr (True, w\<lparr>wk_ring := u, wk_stats := (wk_stats w)\<lparr>rx_bytes := rx_bytes (wk_stats w) + ucast res,
      completed_requests := completed_requests (wk_stats w) + 1\<rparr>, wk_buf := br\<rparr>)"
    using assms(7) req u(1) br(1) by (simp add: handle_recv_def Let_def IORING_CQE_BUFFER_SHIFT_def)
  then show ?thesis using u(2,3) assms(3) br(2) by (auto simp: prep_send_def)
qed

theorem server_echo_buffer_given_back_witness:
  "\<exists>w w' e s. handle_recv demo_env 5 3 1 w = Inr (True, w') \<and> sq_queue (wk_ring w') = [s] \<and> filled 0 (wk_buf w') = [e] \<and>
     sqe_addr s = ub_addr e"
proof -
  obtain e where e: "live_engine e" using demo_engine by blast
  obtain m q where q: "ring_repr m q ([] :: inter_core_task list)" using demo_queue by blast
  let ?w = "demo_worker (replicate 17 0) e q"
  have l: "length (replicate 17 (0 :: byte)) = 17" by simp
  have qo: "queue_ok q" using q by (auto simp: queue_ok_def)
  note w = demo_ok[OF e qo l]
  have "length (sq_queue (wk_ring ?w)) < 2 ^ 1" "unat (br_tail (wk_buf ?w) - 0) < 2 ^ 0" "filled 0 (wk_buf ?w) = []"
    using w(2) by (simp_all add: demo_worker_def filled_def)
  then show ?thesis
    using server_echo_buffer_given_back[OF w(1) demo_env_ok, of 0 3 1 5] w(2) by (auto simp: IORING_CQE_F_BUFFER_def)
qed

end
