(* ===== verification/Server_Start.thy ===== *)
theory Server_Start
  imports Server_Props
begin

text \<open>
  Starting a worker (\<^verbatim>\<open>src/uring-engine/src/main.rs\<close>): when every call of the set-up succeeds and the kernel
  lays out its rings as documented, \<open>run_worker\<close> reaches its loop with a worker in good order.
\<close>

section \<open>What the kernel documents\<close>

text \<open>
  After \<open>io_uring_setup\<close>: the numbers of entries are powers of two, all in one mapping, and the mapping
  holds the sizes, the masks and empty queues at the offsets given.
\<close>

definition setup_ok :: "nat \<Rightarrow> nat \<Rightarrow> setup_answers \<Rightarrow> bool" where
  "setup_ok k j sa \<longleftrightarrow> k \<le> 15 \<and> j < 32 \<and>
     (\<forall>n p fd p'. sa_setup sa n p = Inr (fd, p') \<longrightarrow> (let
        sq = up_sq_off p'; cq = up_cq_off p';
        ring_sz = max (unat (so_array sq) + 2 ^ k * 4) (unat (co_cqes cq) + 2 ^ j * 16);
        at = (\<lambda>off. ring_u32 (map (sa_ring sa) [0..<ring_sz]) (unat off))
      in up_sq_entries p' = 2 ^ k \<and> up_cq_entries p' = 2 ^ j \<and> up_features p' AND IORING_FEAT_SINGLE_MMAP \<noteq> 0 \<and>
         list_all (\<lambda>off. unat off + 4 \<le> ring_sz)
           [so_head sq, so_tail sq, so_ring_mask sq, so_ring_entries sq, co_head cq, co_tail cq, co_ring_mask cq, co_ring_entries cq] \<and>
         at (so_head sq) = 0 \<and> at (so_tail sq) = 0 \<and> at (so_ring_mask sq) = 2 ^ k - 1 \<and> at (so_ring_entries sq) = 2 ^ k \<and>
         at (co_head cq) = 0 \<and> at (co_tail cq) = 0 \<and> at (co_ring_mask cq) = 2 ^ j - 1 \<and> at (co_ring_entries cq) = 2 ^ j))"

text \<open>Every call succeeds.\<close>

definition start_smooth :: "start_answers \<Rightarrow> bool" where
  "start_smooth st \<longleftrightarrow> (\<forall>core. st_pin st core = 0) \<and> (\<forall>n p. \<exists>r. sa_setup (st_uring st) n p = Inr r) \<and>
     sa_mmap_ring (st_uring st) = None \<and> sa_mmap_sqes (st_uring st) = None \<and>
     ba_ring (st_buf st) \<noteq> None \<and> ba_storage (st_buf st) \<noteq> None \<and> (\<forall>fd op reg n. ba_register (st_buf st) fd op reg n = None) \<and>
     st_mkdir st = None \<and> st_wal st = None \<and> (\<exists>fd. st_socket st = Inr fd) \<and> st_bind st = None \<and> st_listen st = None"

definition enter_smooth :: "kernel_enter \<Rightarrow> bool" where
  "enter_smooth enter \<longleftrightarrow> (\<forall>fd n mc fl m. \<exists>r m'. enter fd n mc fl m = (Inr r, m'))"

section \<open>The parts\<close>

lemma uring_new_ok:
  assumes "setup_ok k j sa" "sa_setup sa n (params_default\<lparr>up_flags := IORING_SETUP_SINGLE_ISSUER OR IORING_SETUP_CLAMP\<rparr>) = Inr r"
    and "sa_mmap_ring sa = None" "sa_mmap_sqes sa = None"
  obtains u where "snd (uring_new sa n) = Inr u" "sq_inv k u" "sq_queue u = []" "cq_shape j u" "cq_queue u = []"
proof -
  let ?p = "params_default\<lparr>up_flags := IORING_SETUP_SINGLE_ISSUER OR IORING_SETUP_CLAMP\<rparr>"
  obtain fd p where p: "sa_setup sa n ?p = Inr (fd, p)" using assms(2) by (cases r) simp
  have kj: "k \<le> 15" "j < 32" using assms(1) by (auto simp: setup_ok_def)
  have u: "unat (2 ^ k :: u32) = 2 ^ k" "unat (2 ^ j :: u32) = 2 ^ j" using kj by (simp_all add: unat_two_power)
  let ?sz = "max (unat (so_array (up_sq_off p)) + 2 ^ k * 4) (unat (co_cqes (up_cq_off p)) + 2 ^ j * 16)"
  let ?at = "\<lambda>off. ring_u32 (map (sa_ring sa) [0..<?sz]) (unat off)"
  have s: "up_sq_entries p = 2 ^ k" "up_cq_entries p = 2 ^ j" "up_features p AND IORING_FEAT_SINGLE_MMAP \<noteq> 0"
    "list_all (\<lambda>off. unat off + 4 \<le> ?sz)
       [so_head (up_sq_off p), so_tail (up_sq_off p), so_ring_mask (up_sq_off p), so_ring_entries (up_sq_off p),
        co_head (up_cq_off p), co_tail (up_cq_off p), co_ring_mask (up_cq_off p), co_ring_entries (up_cq_off p)]"
    "?at (so_head (up_sq_off p)) = 0" "?at (so_ring_mask (up_sq_off p)) = 2 ^ k - 1" "?at (so_ring_entries (up_sq_off p)) = 2 ^ k"
    "?at (co_head (up_cq_off p)) = 0" "?at (co_tail (up_cq_off p)) = 0" "?at (co_ring_mask (up_cq_off p)) = 2 ^ j - 1"
    "?at (co_ring_entries (up_cq_off p)) = 2 ^ j"
    using assms(1) p unfolding setup_ok_def Let_def by blast+
  have m: "min (2 ^ j) ((?sz - unat (co_cqes (up_cq_off p))) div 16) = (2 ^ j :: nat)"
  proof -
    have "2 ^ j * 16 \<le> ?sz - unat (co_cqes (up_cq_off p))" by linarith
    then have "2 ^ j \<le> (?sz - unat (co_cqes (up_cq_off p))) div 16" by (simp add: less_eq_div_iff_mult_less_eq)
    then show ?thesis by simp
  qed
  have room: "unat (so_array (up_sq_off p)) + 2 ^ k * 4 \<le> ?sz" by simp
  obtain w where w: "snd (uring_new sa n) = Inr w" "ur_sq_mask w = 2 ^ k - 1" "ur_sq_entries w = 2 ^ k"
    "length (um_sqes (ur_shm w)) = 2 ^ k" "um_sq_array (ur_shm w) = map of_nat [0..<2 ^ k]" "um_sq_head (ur_shm w) = 0"
    "ur_sq_tail_local w = 0" "ur_sq_head_cache w = 0" "ur_cq_mask w = 2 ^ j - 1" "length (um_cqes (ur_shm w)) = 2 ^ j"
    "um_cq_head (ur_shm w) = 0" "um_cq_tail (ur_shm w) = 0"
    using p assms(3,4) s u m room by (simp add: uring_new_def Let_def)
  show thesis
    by (rule that[OF w(1)]) (use w kj in \<open>simp_all add: sq_inv_def sq_shape_def sq_queue_def cq_shape_def cq_queue_def\<close>)
qed

lemma worker_buffers_ok:
  assumes "ba_ring ba \<noteq> None" "ba_storage ba \<noteq> None" "\<forall>fd op reg n. ba_register ba fd op reg n = None"
  obtains br where "snd (buf_ring_new ba fd bgid BUF_RING_ENTRIES BUF_SIZE) = Inr br" "buf_shape 12 br"
    "br_size br = 2048" "length (br_storage br) = 2 ^ 12 * 2048" "published br = br_tail br" "br_tail br = 4096"
proof -
  let ?bids = "map of_nat [0..<4096] :: u16 list"
  obtain r s where rs: "ba_ring ba = Some r" "ba_storage ba = Some s" using assms(1,2) by blast
  let ?b = "\<lparr>br_bgid = bgid, br_entries = 4096, br_mask = 4095, br_tail = 0,
      br_ring = replicate 4096 \<lparr>ub_addr = 0, ub_len = 0, ub_bid = 0, ub_resv = 0\<rparr>,
      br_ring_ptr = r, br_storage = replicate 8388608 0, br_storage_ptr = s, br_size = 2048\<rparr>"
  have p: "is_power_of_two (4096 :: u32)" using is_power_of_two_pow[of 12, where 'a = 32] by simp
  have n: "snd (buf_ring_new ba fd bgid BUF_RING_ENTRIES BUF_SIZE) = (case buf_add_all ?bids ?b of Inl f \<Rightarrow> Inl f | Inr br \<Rightarrow> buf_flush br)"
    using rs assms(3) p by (simp add: buf_ring_new_def BUF_RING_ENTRIES_def BUF_SIZE_def layout_ok_def Let_def)
  have sh: "buf_shape 12 ?b" by (simp add: buf_shape_def)
  have "unat (br_tail ?b - 0) + length ?bids \<le> 2 ^ 12" by simp
  from buf_add_all_filled[OF sh this] obtain b1 where b1: "buf_add_all ?bids ?b = Inr b1" "buf_shape 12 b1"
    "br_tail b1 = 4096" "br_size b1 = 2048" "br_storage b1 = replicate 8388608 0" by auto
  obtain b2 where b2: "buf_flush b1 = Inr b2" "buf_shape 12 b2" "published b2 = br_tail b1" "b2 = b1\<lparr>br_ring := br_ring b2\<rparr>"
    by (rule buf_flush_ok[OF b1(2)])
  have f: "br_tail b2 = br_tail b1" "br_size b2 = br_size b1" "br_storage b2 = br_storage b1"
    using arg_cong[OF b2(4), of br_tail] arg_cong[OF b2(4), of br_size] arg_cong[OF b2(4), of br_storage] by simp_all
  show thesis by (rule that[of b2]) (use n b1 b2(1,2,3) f in simp_all)
qed

lemma main_queues_ok:
  assumes "0 < n"
  obtains qs where "main_queues n = Inr qs" "length qs = n" "\<forall>q\<in>set qs. queue_ok q"
proof -
  have "is_power_of_two (2048 :: u64)" using is_power_of_two_pow[of 11, where 'a = 64] by simp
  moreover have "(2 :: u64) \<le> 2048" by simp
  ultimately obtain k q where "mpmc_new 2048 = Inr q" "ring_repr k q ([] :: inter_core_task list)"
    using ring_new[of 2048] by metis
  then show thesis using that[of "replicate n q"] assms by (auto simp: main_queues_def queue_ok_def)
qed

lemma engine_open_ok:
  assumes "CHR 0x00 \<notin> set db_dir"
  obtains e where "engine_open db_dir None None rng disk = Inr e" "live_engine e"
proof -
  have "CHR 0x00 \<notin> set (path_join db_dir ''active.wal'')" using assms by (simp add: path_join_def)
  then have "\<exists>w. wal_open (path_bytes (path_join db_dir ''active.wal'')) (Inr bs) = Inr w" for bs
    by (simp add: wal_open_def path_bytes_nul aligned_new_staging)
  then obtain w where "wal_open (path_bytes (path_join db_dir ''active.wal''))
      (Inr (case disk (path_join db_dir ''active.wal'') of None \<Rightarrow> [] | Some bs \<Rightarrow> bs)) = Inr w" by blast
  then have "\<exists>e. engine_open db_dir None None rng disk = Inr e" by (simp add: engine_open_def Let_def)
  then show thesis using that open_live by blast
qed

lemma first_submission:
  assumes "sq_inv k u" "sq_queue u = []" "cq_shape j u" "kernel_ok enter"
  obtains i u1 where "get_sqe u = Inr (Some i, u1)"
    "(\<exists>errno u2. uring_submit enter (sqe_write i f u1) = (Inl (IoError (OsError errno)), u2) \<and> \<not> enter_smooth enter) \<or>
     (\<exists>ret u2. uring_submit enter (sqe_write i f u1) = (Inr ret, u2) \<and> sq_inv k u2 \<and> sq_queue u2 = drop (unat ret) [f sqe_default] \<and> cq_shape j u2)"
proof -
  have "length (sq_queue u) < 2 ^ k" using assms(2) by simp
  from get_sqe_room[OF assms(1) this] obtain i u1 where u1: "get_sqe u = Inr (Some i, u1)"
    "sq_queue (sqe_write i f u1) = [f sqe_default]" "sq_inv k (sqe_write i f u1)"
    "um_cqes (ur_shm u1) = um_cqes (ur_shm u)" "ur_cq_mask u1 = ur_cq_mask u" using assms(2) by (metis append_Nil)
  let ?u1 = "sqe_write i f u1"
  have cq1: "cq_shape j ?u1" using assms(3) u1(4,5) by (simp add: cq_shape_def sqe_write_def)
  have to: "ur_sq_tail_local ?u1 \<noteq> ur_sq_head_cache ?u1"
  proof
    assume "ur_sq_tail_local ?u1 = ur_sq_head_cache ?u1"
    then have "length (sq_queue ?u1) \<le> 0" using u1(3) unfolding length_sq_queue sq_inv_def by simp
    then show False using u1(2) by simp
  qed
  obtain r m where en: "enter (ur_fd ?u1) (ur_sq_tail_local ?u1 - ur_sq_head_cache ?u1) 0 0
      ((ur_shm ?u1)\<lparr>um_sq_tail := ur_sq_tail_local ?u1\<rparr>) = (r, m)" by fastforce
  show thesis
  proof (cases r)
    case (Inl errno)
    then have "\<not> enter_smooth enter" using en by (auto simp: enter_smooth_def) (metis Pair_inject sum.distinct(1))
    then show ?thesis using that[OF u1(1)] to en Inl by (simp add: uring_submit_def)
  next
    case (Inr ret)
    define u2 where "u2 = ?u1\<lparr>ur_shm := m, ur_sq_head_cache := um_sq_head m\<rparr>"
    have su: "uring_submit enter ?u1 = (Inr ret, u2)" using to en Inr by (simp add: uring_submit_def u2_def)
    have "sq_inv k u2 \<and> sq_queue u2 = drop (unat ret) [f sqe_default] \<and> cq_shape j u2"
      using kernel_enter_queues[OF assms(4) u1(3) en, of u2 j] u1(2) cq1 Inr by (simp add: u2_def)
    then show ?thesis using that[OF u1(1)] su by blast
  qed
qed

section \<open>Property\<close>

text \<open>
  C25. A worker starts well formed: on any number of cores, when no call of the set-up fails, the
  kernel lays out the rings as documented and the directory name has no nul, \<open>run_worker\<close> reaches its loop.
  Its rings, buffers, queues and engine are then in the good order in which a round of the loop is shown to return;
  the kernel sees all 4096 buffers, no completion is waiting that the kernel has not posted in the meantime, and
  nothing but the accept has been queued.
\<close>

theorem server_start_ok:
  assumes "start_smooth st" "setup_ok k j (st_uring st)" "kernel_ok enter" "enter_smooth enter"
    and "core < n" "CHR 0x00 \<notin> set dir"
  shows "\<exists>qs w listen_fd ret. main_queues n = Inr qs \<and> worker_start st se enter disk core (main_stats n) qs dir = Inr w \<and>
    worker_ok k 12 w \<and> cq_shape j (wk_ring w) \<and> br_tail (wk_buf w) = 4096 \<and> published (wk_buf w) = 4096 \<and>
    sq_queue (wk_ring w) = drop ret [prep_accept_multishot (se_cloexec se) listen_fd sqe_default]"
proof -
  note st = assms(1)[unfolded start_smooth_def]
  obtain r where r: "sa_setup (st_uring st) 1024 (params_default\<lparr>up_flags := IORING_SETUP_SINGLE_ISSUER OR IORING_SETUP_CLAMP\<rparr>) = Inr r"
    using st by blast
  obtain u where u: "snd (uring_new (st_uring st) 1024) = Inr u" "sq_inv k u" "sq_queue u = []" "cq_shape j u"
    by (rule uring_new_ok[OF assms(2) r]) (use st in auto)
  obtain br where br: "snd (buf_ring_new (st_buf st) (ur_fd u) BUFFER_GROUP_ID BUF_RING_ENTRIES BUF_SIZE) = Inr br" "buf_shape 12 br"
    "br_size br = 2048" "length (br_storage br) = 2 ^ 12 * 2048" "published br = br_tail br" "br_tail br = 4096"
    by (rule worker_buffers_ok[of "st_buf st" "ur_fd u" BUFFER_GROUP_ID]) (use st in auto)
  obtain qs where qs: "main_queues n = Inr qs" "length qs = n" "\<forall>q\<in>set qs. queue_ok q"
    by (rule main_queues_ok[of n]) (use assms(5) in auto)
  obtain e where e: "engine_open dir None None (st_rng st) disk = Inr e" "live_engine e" by (rule engine_open_ok[OF assms(6)])
  obtain fd where fd: "st_socket st = Inr fd" using st by blast
  let ?f = "prep_accept_multishot (se_cloexec se) fd"
  obtain i u1 where g: "get_sqe u = Inr (Some i, u1)"
    and sub: "(\<exists>errno u2. uring_submit enter (sqe_write i ?f u1) = (Inl (IoError (OsError errno)), u2) \<and> \<not> enter_smooth enter) \<or>
      (\<exists>ret u2. uring_submit enter (sqe_write i ?f u1) = (Inr ret, u2) \<and> sq_inv k u2 \<and> sq_queue u2 = drop (unat ret) [?f sqe_default] \<and> cq_shape j u2)"
    by (rule first_submission[OF u(2-4) assms(3)])
  obtain ret u2 where su: "uring_submit enter (sqe_write i ?f u1) = (Inr ret, u2)"
    and u2: "sq_inv k u2" "sq_queue u2 = drop (unat ret) [?f sqe_default]" "cq_shape j u2" using sub assms(4) by blast
  let ?w = "\<lparr>wk_core = core, wk_ring = u2, wk_buf = br, wk_db = e, wk_seq = 1, wk_listen = fd,
     wk_stats = main_stats n ! core, wk_queues = qs, wk_closed = []\<rparr>"
  have "worker_start st se enter disk core (main_stats n) qs dir = Inr ?w"
    using st u(1) br(1) e(1) fd g su qs(2) assms(5)
    by (simp add: worker_start_def pin_current_thread_to_core_def create_reuseport_listener_def main_stats_def)
  moreover have "worker_ok k 12 ?w" using u2 br e(2) qs assms(5) by (simp add: worker_ok_def)
  ultimately show ?thesis using qs(1) u2(2,3) br(5,6)
    by (intro exI[of _ qs] exI[of _ ?w] exI[of _ fd] exI[of _ "unat ret"]) simp
qed

text \<open>A kernel that gives two submission and four completion entries.\<close>

definition demo_start :: start_answers where
  "demo_start = \<lparr>st_pin = (\<lambda>_. 0),
     st_uring = \<lparr>sa_setup = (\<lambda>n p. Inr (3, p\<lparr>up_sq_entries := 2, up_cq_entries := 4, up_features := 1,
         up_sq_off := \<lparr>so_head = 0, so_tail = 4, so_ring_mask = 8, so_ring_entries = 12, so_flags = 0, so_dropped = 0,
                       so_array = 48, so_resv1 = 0, so_user_addr = 0\<rparr>,
         up_cq_off := \<lparr>co_head = 16, co_tail = 20, co_ring_mask = 24, co_ring_entries = 28, co_overflow = 0, co_cqes = 64,
                       co_flags = 0, co_resv1 = 0, co_user_addr = 0\<rparr>\<rparr>)),
       sa_mmap_ring = None, sa_mmap_sqes = None,
       sa_ring = (\<lambda>i. if i = 8 then 1 else if i = 12 then 2 else if i = 24 then 3 else if i = 28 then 4 else 0),
       sa_sqes = (\<lambda>_. sqe_default)\<rparr>,
     st_buf = \<lparr>ba_ring = Some 4096, ba_storage = Some 0x100000, ba_register = \<lambda>_ _ _ _. None\<rparr>,
     st_mkdir = None, st_wal = None, st_rng = 0xDEADBEEF, st_socket = Inr 4, st_bind = None, st_listen = None\<rparr>"

lemma ring_u32_map:
  assumes "off + 4 \<le> n"
  shows "ring_u32 (map f [0..<n]) off = from_le_bytes [f off, f (off + 1), f (off + 2), f (off + 3)]"
proof -
  have "subslice (map f [0..<n]) off (off + 4) = map f [off..<off + 4]"
    using assms by (simp add: subslice_def take_map drop_map take_upt)
  also have "[off..<off + 4] = [off, off + 1, off + 2, off + 3]" by (simp add: numeral_eq_Suc upt_conv_Cons)
  finally show ?thesis by (simp add: ring_u32_def)
qed

lemma demo_setup_ok: "setup_ok 1 2 (st_uring demo_start)"
proof -
  have u: "from_le_bytes [b, 0, 0, 0] = (ucast b :: u32)" for b :: byte by simp
  show ?thesis by (simp add: setup_ok_def demo_start_def Let_def ring_u32_map u IORING_FEAT_SINGLE_MMAP_def del: upt_rec_numeral)
qed

theorem server_start_ok_witness:
  "\<exists>qs w. main_queues 2 = Inr qs \<and> worker_start demo_start demo_env eager_enter Map.empty 1 (main_stats 2) qs ''db'' = Inr w \<and>
     worker_ok 1 12 w \<and> published (wk_buf w) = 4096"
proof -
  have "start_smooth demo_start" "enter_smooth eager_enter"
    by (auto simp: start_smooth_def demo_start_def enter_smooth_def eager_enter_def Let_def)
  from server_start_ok[OF this(1) demo_setup_ok kernel_ok_eager this(2), of 1 2 "''db''" demo_env Map.empty] show ?thesis by auto
qed

end
