(* ===== verification/Cluster.thy ===== *)
theory Cluster
  imports Server_Start
begin

text \<open>
  All cores of the server together (\<^verbatim>\<open>src/uring-engine/src/main.rs\<close>): \<open>main\<close> makes the queues and starts one worker per
  core, and the workers run at the same time. A step of a worker is the wait, the handling of one inbound task or
  the handling of one completion; each of them uses a shared queue at most once, and the calls on the queues are
  those whose interleavings \<open>Mpmc_Concurrent\<close> treats. Between any two steps the kernel may post completions
  and fill buffers. The flush threads of the engines are left to \<open>Engine\<close> and \<open>Engine_Flush\<close>.

  The log of a cluster records the puts its cores have served, with the answer of the next core's queue, and the replicas they have applied.
\<close>

section \<open>The steps of a worker\<close>

datatype worker_pc = Waiting | Inbound nat | Completions bool

text \<open>One pass of \<open>for _ in 0..16\<close>, with \<open>n\<close> passes left after it.\<close>

definition inbound_pass :: "server_env \<Rightarrow> nat \<Rightarrow> worker \<Rightarrow> (worker_pc \<times> worker) result" where
  "inbound_pass se n w =
     (if \<not> wk_core w < length (wk_queues w) then Inl Panic
      else case mpmc_pop (se_spurious se) (wk_queues w ! wk_core w) of
        Inl f \<Rightarrow> Inl f
      | Inr (Inr (ReplicateWrite key val), q) \<Rightarrow>
          and_then (db_put se key val (w\<lparr>wk_queues := (wk_queues w)[wk_core w := q]\<rparr>)) (\<lambda>(_, w).
            Inr (Inbound n, w\<lparr>wk_seq := wk_seq w + 1\<rparr>))
      | Inr (Inl Empty, q) \<Rightarrow> Inr (Completions False, w\<lparr>wk_queues := (wk_queues w)[wk_core w := q]\<rparr>)
      | Inr (Inl Full, _) \<Rightarrow> Inl Panic)"

text \<open>One pass of \<open>while let Some(cqe) = ring.peek_cqe()\<close>, and the end of the round after the last.\<close>

definition completion_pass :: "server_env \<Rightarrow> bool \<Rightarrow> worker \<Rightarrow> (worker_pc \<times> worker) result" where
  "completion_pass se recycled_any w =
     (case peek_cqe (wk_ring w) of
        Inl f \<Rightarrow> Inl f
      | Inr None \<Rightarrow>
          if recycled_any then and_then (buf_flush (wk_buf w)) (\<lambda>buf. Inr (Waiting, w\<lparr>wk_buf := buf\<rparr>)) else Inr (Waiting, w)
      | Inr (Some cqe) \<Rightarrow>
          and_then (handle_cqe se cqe (w\<lparr>wk_ring := advance_cq 1 (wk_ring w)\<rparr>)) (\<lambda>(recycled, w).
            Inr (Completions (recycled_any \<or> recycled), w)))"

fun worker_step :: "server_env \<Rightarrow> kernel_enter \<Rightarrow> worker_pc \<Rightarrow> worker \<Rightarrow> (worker_pc \<times> worker) result" where
  "worker_step se enter Waiting w =
     (case submit_and_wait enter 1 (wk_ring w) of
        (Inl f, _) \<Rightarrow> Inl f
      | (Inr _, ring) \<Rightarrow> Inr (Inbound 16, w\<lparr>wk_ring := ring\<rparr>))"
| "worker_step se enter (Inbound 0) w = Inr (Completions False, w)"
| "worker_step se enter (Inbound (Suc n)) w = inbound_pass se n w"
| "worker_step se enter (Completions recycled_any) w = completion_pass se recycled_any w"

section \<open>The cluster\<close>

datatype core_run = Unstarted | Running worker_pc worker | Ended failure

datatype cluster_event = Served nat u64 u64 bool | Applied nat u64 u64

record cluster =
  cl_queues :: "inter_core_task mpmc list"
  cl_cores :: "core_run list"
  cl_log :: "cluster_event list"

text \<open>
  \<open>main\<close> up to the threads: the answers to \<open>exists\<close> and \<open>create_dir_all\<close>, and what \<open>remove_dir_all\<close>, whose result is ignored,
  leaves of the files.
\<close>

record main_answers =
  ma_exists :: bool
  ma_remove :: "disk \<Rightarrow> disk"
  ma_create :: "io_kind option"

definition core_db_dir :: "path \<Rightarrow> nat \<Rightarrow> path" where
  "core_db_dir db_root core_id = path_join db_root (''core_'' @ digits core_id)"

definition main_start :: "main_answers \<Rightarrow> nat \<Rightarrow> disk \<Rightarrow> (disk \<times> cluster) result" where
  "main_start ma num_cores disk =
     and_then (main_queues num_cores) (\<lambda>queues.
       let disk = (if ma_exists ma then ma_remove ma disk else disk) in
       case ma_create ma of
         Some e \<Rightarrow> Inl (IoError e)
       | None \<Rightarrow> Inr (disk, \<lparr>cl_queues = queues, cl_cores = replicate num_cores Unstarted, cl_log = []\<rparr>))"

text \<open>
  \<open>handle.join().unwrap()\<close> for one handle after the other: a worker that ended with an error has printed it, one that panicked
  makes \<open>main\<close> panic, one that runs is waited for.
\<close>

fun main_join :: "core_run list \<Rightarrow> unit result option" where
  "main_join [] = Some (Inr ())"
| "main_join (Ended (IoError _) # cs) = main_join cs"
| "main_join (Ended f # cs) = Some (Inl f)"
| "main_join (_ # cs) = None"

text \<open>The thread of a core, up to its loop.\<close>

definition core_start :: "start_answers \<Rightarrow> server_env \<Rightarrow> kernel_enter \<Rightarrow> path \<Rightarrow> disk \<Rightarrow> nat \<Rightarrow> cluster \<Rightarrow> cluster" where
  "core_start st se enter db_root disk i s =
     s\<lparr>cl_cores := (cl_cores s)[i :=
        (case worker_start st se enter disk i (main_stats (length (cl_cores s))) (cl_queues s) (core_db_dir db_root i) of
           Inl f \<Rightarrow> Ended f
         | Inr w \<Rightarrow> Running Waiting w)]\<rparr>"

text \<open>The put command a completion carries.\<close>

definition put_of :: "io_uring_cqe \<Rightarrow> worker \<Rightarrow> (u64 \<times> u64) option" where
  "put_of c w =
     (let storage = br_storage (wk_buf w); off = buf_off w (cqe_bid c) in
      if cqe_has_buffer c \<and> 17 \<le> cqe_res c \<and> storage ! off = 1
      then Some (from_be_bytes (subslice storage (off + 1) (off + 9)), from_be_bytes (subslice storage (off + 9) (off + 17)))
      else None)"

definition core_event :: "server_env \<Rightarrow> worker_pc \<Rightarrow> worker \<Rightarrow> cluster_event list" where
  "core_event se pc w =
     (case pc of
        Inbound (Suc n) \<Rightarrow>
          (case mpmc_pop (se_spurious se) (wk_queues w ! wk_core w) of
             Inr (Inr (ReplicateWrite key val), _) \<Rightarrow> [Applied (wk_core w) key val]
           | _ \<Rightarrow> [])
      | Completions _ \<Rightarrow>
          (case peek_cqe (wk_ring w) of
             Inr (Some c) \<Rightarrow>
               (case put_of c w of
                  None \<Rightarrow> []
                | Some (key, val) \<Rightarrow>
                    [Served (wk_core w) key val
                       (case mpmc_push (se_spurious se) (ReplicateWrite key val)
                               (wk_queues w ! ((wk_core w + 1) mod length (wk_queues w))) of
                          Inr (Inr _, _) \<Rightarrow> True | _ \<Rightarrow> False)])
           | _ \<Rightarrow> [])
      | _ \<Rightarrow> [])"

text \<open>A step of a core works on the shared queues; a worker that fails is gone, and what it did to them in that step with it.\<close>

definition core_runs :: "server_env \<Rightarrow> kernel_enter \<Rightarrow> nat \<Rightarrow> worker_pc \<Rightarrow> worker \<Rightarrow> cluster \<Rightarrow> cluster" where
  "core_runs se enter i pc w s =
     (let w = w\<lparr>wk_queues := cl_queues s\<rparr> in
      case worker_step se enter pc w of
        Inl f \<Rightarrow> s\<lparr>cl_cores := (cl_cores s)[i := Ended f]\<rparr>
      | Inr (pc', w') \<Rightarrow> s\<lparr>cl_cores := (cl_cores s)[i := Running pc' w'], cl_queues := wk_queues w', cl_log := cl_log s @ core_event se pc w\<rparr>)"

text \<open>
  What the kernel may do at any time: append completions it can post, and fill buffers.
\<close>

definition kernel_posts :: "nat \<Rightarrow> uring \<Rightarrow> uring \<Rightarrow> bool" where
  "kernel_posts b u u' \<longleftrightarrow> (let m = ur_shm u; m' = ur_shm u' in
     u' = u\<lparr>ur_shm := m'\<rparr> \<and> um_sq_head m' = um_sq_head m \<and> um_sq_tail m' = um_sq_tail m \<and> um_sqes m' = um_sqes m \<and>
     um_sq_array m' = um_sq_array m \<and> um_cq_head m' = um_cq_head m \<and> length (um_cqes m') = length (um_cqes m) \<and>
     (\<exists>new. cq_window m' = cq_window m @ new \<and> (\<forall>c\<in>set new. cqe_ok b c)))"

definition posted_ok :: "core_run \<Rightarrow> bool" where
  "posted_ok cr \<longleftrightarrow> (\<forall>pc w. cr = Running pc w \<longrightarrow> (\<forall>c\<in>set (cq_queue (wk_ring w)). cqe_ok 12 c))"

inductive cluster_step ::
  "(nat \<Rightarrow> start_answers) \<Rightarrow> (nat \<Rightarrow> server_env) \<Rightarrow> path \<Rightarrow> disk \<Rightarrow> cluster \<Rightarrow> cluster \<Rightarrow> bool" for sts se db_root disk where
  core_starts: "i < length (cl_cores s) \<Longrightarrow> cl_cores s ! i = Unstarted \<Longrightarrow> kernel_ok enter \<Longrightarrow>
    s' = core_start (sts i) (se i) enter db_root disk i s \<Longrightarrow> posted_ok (cl_cores s' ! i) \<Longrightarrow> cluster_step sts se db_root disk s s'"
| core_steps: "i < length (cl_cores s) \<Longrightarrow> cl_cores s ! i = Running pc w \<Longrightarrow> kernel_ok enter \<Longrightarrow>
    s' = core_runs (se i) enter i pc w s \<Longrightarrow> posted_ok (cl_cores s' ! i) \<Longrightarrow> cluster_step sts se db_root disk s s'"
| kernel_works: "i < length (cl_cores s) \<Longrightarrow> cl_cores s ! i = Running pc w \<Longrightarrow> kernel_posts 12 (wk_ring w) u \<Longrightarrow>
    length st = length (br_storage (wk_buf w)) \<Longrightarrow>
    s' = s\<lparr>cl_cores := (cl_cores s)[i := Running pc (w\<lparr>wk_ring := u, wk_buf := (wk_buf w)\<lparr>br_storage := st\<rparr>\<rparr>)]\<rparr> \<Longrightarrow>
    cluster_step sts se db_root disk s s'"

inductive cluster_reach ::
  "(nat \<Rightarrow> start_answers) \<Rightarrow> (nat \<Rightarrow> server_env) \<Rightarrow> path \<Rightarrow> nat \<Rightarrow> disk \<Rightarrow> cluster \<Rightarrow> bool" for sts se db_root n disk where
  cluster_init: "main_start ma n disk0 = Inr (disk, s) \<Longrightarrow> cluster_reach sts se db_root n disk s"
| cluster_more: "cluster_reach sts se db_root n disk s \<Longrightarrow> cluster_step sts se db_root disk s s' \<Longrightarrow> cluster_reach sts se db_root n disk s'"

section \<open>What handling a completion stores\<close>

definition stored :: "worker \<Rightarrow> inter_core_task mpmc list \<times> engine \<times> u64" where
  "stored w = (wk_queues w, wk_db w, wk_seq w)"

lemma stored_update [simp]:
  "stored (w\<lparr>wk_ring := u\<rparr>) = stored w" "stored (w\<lparr>wk_buf := b\<rparr>) = stored w" "stored (w\<lparr>wk_stats := st\<rparr>) = stored w" "stored (w\<lparr>wk_closed := c\<rparr>) = stored w"
  by (simp_all add: stored_def)

lemma try_sqe_stored: "try_sqe prep w = Inr (got, w') \<Longrightarrow> stored w' = stored w"
  by (auto simp: try_sqe_def split: option.splits)

lemma close_fd_stored: "close_fd fd w = Inr w' \<Longrightarrow> stored w' = stored w"
  by (auto simp: close_fd_def dest!: try_sqe_stored split: if_splits)

lemma handle_accept_stored: "handle_accept se res flags w = Inr w' \<Longrightarrow> stored w' = stored w"
  by (auto simp: handle_accept_def dest!: try_sqe_stored split: if_splits)

lemma handle_send_stored: "handle_send fd res w = Inr w' \<Longrightarrow> stored w' = stored w"
  by (auto simp: handle_send_def dest!: close_fd_stored split: if_splits)

lemma handle_get_stored: "handle_get se fd bid key w = Inr w' \<Longrightarrow> stored w' = stored w"
proof -
  assume "handle_get se fd bid key w = Inr w'"
  then have "w' = w \<or> (\<exists>br prep got. try_sqe prep (w\<lparr>wk_buf := br\<rparr>) = Inr (got, w'))"
    by (auto simp: handle_get_def Let_def split: option.splits if_splits) blast
  then show "stored w' = stored w" by (auto dest!: try_sqe_stored)
qed

lemma handle_recv_stored:
  assumes "handle_recv se fd res flags w = Inr (r, w')"
  shows "if r then \<exists>ok w1. handle_request se fd (ucast (drop_bit IORING_CQE_BUFFER_SHIFT flags)) res w = Inr (ok, w1) \<and> stored w' = stored w1
         else stored w' = stored w"
  using assms
  by (auto simp: handle_recv_def Let_def dest!: try_sqe_stored close_fd_stored split: if_splits)

lemma handle_request_stored:
  assumes "worker_ok k b w" "unat bid < 2 ^ b" "handle_request se fd bid n w = Inr (ok, w')"
  defines "st \<equiv> br_storage (wk_buf w)" and "off \<equiv> buf_off w bid"
  shows "if 17 \<le> n \<and> st ! off = 1
         then handle_put se (from_be_bytes (subslice st (off + 1) (off + 9))) (from_be_bytes (subslice st (off + 9) (off + 17))) w = Inr w'
         else stored w' = stored w"
proof -
  have room: "off + m \<le> length st" if "m \<le> 17" for m unfolding st_def off_def using that by (rule buf_room[OF assms(1,2)])
  have cmd: "subslice st off (off + 1) ! 0 = st ! off" using room[of 1] by (simp add: subslice_def)
  have "slice_raw st off 1 = Inr (subslice st off (off + 1))" "slice_raw st (off + 1) 8 = Inr (subslice st (off + 1) (off + 9))"
    "slice_raw st (off + 9) 8 = Inr (subslice st (off + 9) (off + 17))"
    using room[of 1] room[of 9] room[of 17] by (simp_all add: slice_raw_def add.commute)
  moreover have "9 \<le> n" if "17 \<le> n" using that by (simp add: word_le_nat_alt)
  ultimately show ?thesis using assms(3) cmd
    by (auto simp: handle_request_def Let_def st_def[symmetric] off_def[symmetric] dest!: handle_get_stored split: if_splits)
qed

lemma handle_cqe_stored:
  assumes "worker_ok k b w" "cqe_ok b c" "handle_cqe se c w = Inr (r, w')"
  shows "case put_of c w of None \<Rightarrow> stored w' = stored w | Some (key, val) \<Rightarrow> \<exists>w1. handle_put se key val w = Inr w1 \<and> stored w' = stored w1"
proof (cases "cqe_has_buffer c")
  case True
  let ?bid = "ucast (drop_bit IORING_CQE_BUFFER_SHIFT (cqe_flags c)) :: u16"
  have o: "decode_op (cqe_user_data c) = IORING_OP_RECV" using True by (simp add: cqe_has_buffer_def)
  then have h: "handle_recv se (decode_fd (cqe_user_data c)) (cqe_res c) (cqe_flags c) w = Inr (r, w')"
    using assms(3) by (simp add: handle_cqe_def opcode_defs)
  have "r" using handle_recv_cases(1)[OF h] True by (simp add: cqe_has_buffer_def)
  with handle_recv_stored[OF h] obtain ok w1 where
    q: "handle_request se (decode_fd (cqe_user_data c)) ?bid (cqe_res c) w = Inr (ok, w1)" "stored w' = stored w1" by auto
  have "unat ?bid < 2 ^ b" using assms(2) True by (simp add: cqe_ok_def cqe_bid_def)
  from handle_request_stored[OF assms(1) this q(1)] q(2) True show ?thesis by (auto simp: put_of_def Let_def cqe_bid_def split: if_splits)
next
  case False
  have "stored w' = stored w" if "handle_recv se fd (cqe_res c) (cqe_flags c) w = Inr (r, w')" "decode_op (cqe_user_data c) = IORING_OP_RECV" for fd
    using handle_recv_stored[OF that(1)] handle_recv_cases(1)[OF that(1)] False that(2) by (auto simp: cqe_has_buffer_def)
  then have "stored w' = stored w" using assms(3)
    by (auto simp: handle_cqe_def Let_def dest: handle_accept_stored handle_send_stored split: if_splits)
  then show ?thesis using False by (simp add: put_of_def)
qed

section \<open>Histories\<close>

text \<open>What was sent to a core and accepted by its queue, what the core has applied of it, and all its writes.\<close>

fun sent :: "nat \<Rightarrow> nat \<Rightarrow> cluster_event list \<Rightarrow> inter_core_task list" where
  "sent n i [] = []"
| "sent n i (Served c key val accepted # es) =
     (if accepted \<and> (c + 1) mod n = i then ReplicateWrite key val # sent n i es else sent n i es)"
| "sent n i (Applied c key val # es) = sent n i es"

fun applied :: "nat \<Rightarrow> cluster_event list \<Rightarrow> inter_core_task list" where
  "applied i [] = []"
| "applied i (Served c key val accepted # es) = applied i es"
| "applied i (Applied c key val # es) = (if c = i then ReplicateWrite key val # applied i es else applied i es)"

fun writes_at :: "nat \<Rightarrow> cluster_event list \<Rightarrow> inter_core_task list" where
  "writes_at i [] = []"
| "writes_at i (Served c key val accepted # es) = (if c = i then ReplicateWrite key val # writes_at i es else writes_at i es)"
| "writes_at i (Applied c key val # es) = (if c = i then ReplicateWrite key val # writes_at i es else writes_at i es)"

lemma sent_append [simp]: "sent n i (xs @ ys) = sent n i xs @ sent n i ys"
  by (induction n i xs rule: sent.induct) simp_all

lemma applied_append [simp]: "applied i (xs @ ys) = applied i xs @ applied i ys"
  by (induction i xs rule: applied.induct) simp_all

lemma writes_at_append [simp]: "writes_at i (xs @ ys) = writes_at i xs @ writes_at i ys"
  by (induction i xs rule: writes_at.induct) simp_all

lemma inbound_writes_append: "inbound_writes se s (xs @ ys) = inbound_writes se s xs @ inbound_writes se (s + of_nat (length xs)) ys"
  by (induction se s xs rule: inbound_writes.induct) (simp_all add: ac_simps)

lemma put_run_append: "put_run put (xs @ ys) e = and_then (put_run put xs e) (put_run put ys)"
  by (induction put xs e rule: put_run.induct) (auto split: sum.splits prod.splits)

section \<open>What a step does\<close>

text \<open>
  The effect of a step with the given events: the queues hold what they held, without what was applied and with what was accepted;
  the engine has taken the writes, under the next sequence numbers; a put is refused by a full queue only.
\<close>

definition effect :: "nat \<Rightarrow> nat \<Rightarrow> nat \<Rightarrow> (nat \<Rightarrow> inter_core_task list) \<Rightarrow> server_env \<Rightarrow> cluster_event list \<Rightarrow> worker \<Rightarrow> worker \<Rightarrow> bool" where
  "effect k b m ts se ev w w' \<longleftrightarrow> (let n = length (wk_queues w); i = wk_core w in
     worker_ok k b w' \<and> wk_core w' = i \<and> length (wk_queues w') = n \<and> length ev \<le> 1 \<and>
     (\<forall>d<n. \<exists>ts'. ring_repr m (wk_queues w' ! d) ts' \<and> ts d @ sent n d ev = applied d ev @ ts') \<and>
     put_run (engine_put (se_crc se)) (inbound_writes se (wk_seq w) (writes_at i ev)) (wk_db w) = Inr (wk_db w') \<and>
     wk_seq w' = wk_seq w + of_nat (length (writes_at i ev)) \<and> (\<forall>d. d \<noteq> i \<longrightarrow> writes_at d ev = []) \<and>
     (\<forall>c key val. Served c key val False \<in> set ev \<longrightarrow> 2 ^ m \<le> length (ts ((c + 1) mod n))))"

definition queues_hold :: "nat \<Rightarrow> (nat \<Rightarrow> inter_core_task list) \<Rightarrow> worker \<Rightarrow> bool" where
  "queues_hold m ts w \<longleftrightarrow> (\<forall>d<length (wk_queues w). ring_repr m (wk_queues w ! d) (ts d))"

lemma effect_none:
  assumes "worker_ok k b w'" "queues_hold m ts w" "stored w' = stored w" "wk_core w' = wk_core w"
  shows "effect k b m ts se [] w w'"
  using assms by (simp add: effect_def queues_hold_def stored_def)

lemma inbound_pass_ok:
  assumes "worker_ok k b w" "env_ok se" "queues_hold m ts w"
  shows "\<exists>pc w'. inbound_pass se n w = Inr (pc, w') \<and> effect k b m ts se (core_event se (Inbound (Suc n)) w) w w' \<and> wk_ring w' = wk_ring w"
proof -
  let ?i = "wk_core w" and ?q = "wk_queues w ! wk_core w"
  have core: "?i < length (wk_queues w)" using assms(1) by (simp add: worker_ok_def)
  then have rep: "ring_repr m ?q (ts ?i)" using assms(3) by (simp add: queues_hold_def)
  show ?thesis
  proof (cases "ts ?i")
    case Nil
    then have p: "mpmc_pop (se_spurious se) ?q = Inr (Inl Empty, ?q)" using ring.pop_none rep by metis
    have "effect k b m ts se [] w w" using assms(1,3) by (intro effect_none) simp_all
    then show ?thesis using p core by (simp add: inbound_pass_def core_event_def)
  next
    case (Cons t ts')
    obtain key val where t: "t = ReplicateWrite key val" by (cases t)
    obtain q' where q': "mpmc_pop (se_spurious se) ?q = Inr (Inr t, q')" "ring_repr m q' ts'"
      using ring.pop_some[of m ?q t ts' "se_spurious se"] rep Cons by auto
    let ?w = "w\<lparr>wk_queues := (wk_queues w)[?i := q']\<rparr>"
    have ok: "worker_ok k b ?w" using q'(2) by (intro worker_ok_queue assms) (auto simp: queue_ok_def)
    obtain r w1 where w1: "db_put se key val ?w = Inr (r, w1)" "worker_ok k b w1" by (rule db_put_ok[OF ok assms(2)])
    let ?w1 = "w1\<lparr>wk_seq := wk_seq w1 + 1\<rparr>"
    have f: "wk_queues w1 = (wk_queues w)[?i := q']" "wk_core w1 = ?i" "wk_seq w1 = wk_seq w" "wk_ring w1 = wk_ring w"
      and put: "engine_put (se_crc se) (se_write se (wk_seq w)) (to_be_bytes key) (to_be_bytes val) (wk_seq w) (wk_db w) = Inr (r, wk_db w1)"
      using w1(1) by (auto simp: db_put_def)
    have ev: "core_event se (Inbound (Suc n)) w = [Applied ?i key val]" using q'(1) t by (simp add: core_event_def)
    have "effect k b m ts se [Applied ?i key val] w ?w1"
      using w1(2) f put assms(3) q'(2) core Cons t by (auto simp: effect_def queues_hold_def nth_list_update)
    then show ?thesis using q'(1) w1(1) core t f(4) by (auto simp: inbound_pass_def ev)
  qed
qed

lemma put_effect:
  assumes "worker_ok k b w" "env_ok se" "queues_hold m ts w" "handle_put se key val w = Inr w1" "stored w' = stored w1"
    and "worker_ok k b w'" "wk_core w' = wk_core w" "length (wk_queues w') = length (wk_queues w)"
    and ac: "accepted = (case mpmc_push (se_spurious se) (ReplicateWrite key val) (wk_queues w ! ((wk_core w + 1) mod length (wk_queues w))) of
        Inr (Inr _, _) \<Rightarrow> True | _ \<Rightarrow> False)"
  shows "effect k b m ts se [Served (wk_core w) key val accepted] w w'"
proof -
  let ?n = "length (wk_queues w)" and ?t = "(wk_core w + 1) mod length (wk_queues w)"
  have "wk_queues w \<noteq> []" using assms(1) by (auto simp: worker_ok_def)
  then have t: "?t < ?n" by (intro mod_less_divisor) simp
  then have r: "ring_repr m (wk_queues w ! ?t) (ts ?t)" using assms(3) by (simp add: queues_hold_def)
  have a: "accepted = (length (ts ?t) < 2 ^ m)"
    using ring.push_room[OF r, of "se_spurious se" "ReplicateWrite key val"] ring.push_full[OF r, of "se_spurious se" "ReplicateWrite key val"] ac
    by (cases "length (ts ?t) < 2 ^ m") auto
  from handle_put_spec[OF assms(1,2) r, of key val] assms(4) obtain x where
    p: "engine_put (se_crc se) (se_write se (wk_seq w)) (to_be_bytes key) (to_be_bytes val) (wk_seq w) (wk_db w) = Inr (x, wk_db w1)"
    "wk_seq w1 = wk_seq w + 1" "ring_repr m (wk_queues w1 ! ?t) (if accepted then ts ?t @ [ReplicateWrite key val] else ts ?t)"
    "\<forall>d. d \<noteq> ?t \<longrightarrow> wk_queues w1 ! d = wk_queues w ! d" by (auto simp: a)
  have q: "\<exists>ts'. ring_repr m (wk_queues w1 ! d) ts' \<and> ts d @ sent ?n d [Served (wk_core w) key val accepted] = ts'" if "d < ?n" for d
    using p(3,4) assms(3) that by (cases "d = ?t") (auto simp: queues_hold_def)
  then show ?thesis using assms(5-8) p(1,2) a by (auto simp: effect_def Let_def stored_def)
qed

lemma completion_pass_ok:
  assumes "worker_ok k b w" "env_ok se" "queues_hold m ts w" "cq_shape j (wk_ring w)" "\<forall>c\<in>set (cq_queue (wk_ring w)). cqe_ok b c"
  shows "\<exists>pc w'. completion_pass se r w = Inr (pc, w') \<and> effect k b m ts se (core_event se (Completions r) w) w w' \<and> cq_shape j (wk_ring w') \<and>
    set (cq_queue (wk_ring w')) \<subseteq> set (cq_queue (wk_ring w))"
proof (cases "cq_queue (wk_ring w)")
  case Nil
  then have p: "peek_cqe (wk_ring w) = Inr None" using peek_cqe_queue[OF assms(4)] by simp
  have "buf_shape b (wk_buf w)" using assms(1) by (simp add: worker_ok_def)
  then obtain br where br: "buf_flush (wk_buf w) = Inr br" "buf_shape b br" "br = (wk_buf w)\<lparr>br_ring := br_ring br\<rparr>"
    by (rule buf_flush_ok)
  have "br_storage br = br_storage (wk_buf w)" "br_size br = br_size (wk_buf w)"
    using arg_cong[OF br(3), of br_storage] arg_cong[OF br(3), of br_size] by simp_all
  then have ok: "worker_ok k b (w\<lparr>wk_buf := br\<rparr>)" by (rule worker_ok_buf[OF assms(1) br(2)])
  have "effect k b m ts se [] w (w\<lparr>wk_buf := br\<rparr>)" "effect k b m ts se [] w w"
    using ok assms(1,3) by (auto intro!: effect_none)
  then show ?thesis using p br(1) assms(4) by (simp add: completion_pass_def core_event_def)
next
  case (Cons c cs)
  let ?w = "w\<lparr>wk_ring := advance_cq 1 (wk_ring w)\<rparr>"
  have p: "peek_cqe (wk_ring w) = Inr (Some c)" using peek_cqe_queue[OF assms(4)] Cons by simp
  have ok: "worker_ok k b ?w" using assms(1) by (rule worker_ok_advance)
  have c: "cqe_ok b c" using assms(5) Cons by simp
  obtain w' where w': "handle_cqe se c ?w = Inr (cqe_has_buffer c, w')" "worker_ok k b w'" "frame_of w' = frame_of ?w"
    by (rule handle_cqe_ok[OF ok assms(2) c, of "br_tail (wk_buf ?w)"]) simp_all
  have f: "wk_core w' = wk_core w" "length (wk_queues w') = length (wk_queues w)" using w'(3) by (simp_all add: frame_of_def)
  have cq: "cq_shape j (wk_ring w')" using frame_cq[OF w'(3), of j] assms(4) by (simp add: cq_shape_def advance_cq_def)
  have left: "cq_queue (wk_ring w') = cs" using frame_cq[OF w'(3), of j] advance_cq_queue[OF assms(4)] Cons by simp
  have same: "put_of c ?w = put_of c w" by (simp add: put_of_def buf_off_def)
  have q: "queues_hold m ts ?w" using assms(3) by (simp add: queues_hold_def)
  have ev: "effect k b m ts se ev w v \<longleftrightarrow> effect k b m ts se ev ?w v" for ev v by (simp add: effect_def)
  have "effect k b m ts se (core_event se (Completions r) w) w w'"
  proof (cases "put_of c w")
    case None
    then have "effect k b m ts se [] ?w w'" using handle_cqe_stored[OF ok c w'(1)] same w'(2) q f by (intro effect_none) simp_all
    then show ?thesis using None p ev by (simp add: core_event_def)
  next
    case (Some kv)
    obtain key val where kv: "kv = (key, val)" by (cases kv)
    obtain w1 where w1: "handle_put se key val ?w = Inr w1" "stored w' = stored w1"
      using handle_cqe_stored[OF ok c w'(1)] same Some kv by auto
    from put_effect[OF ok assms(2) q w1 w'(2) _ _ refl] f show ?thesis using Some kv p ev by (simp add: core_event_def)
  qed
  then show ?thesis using p w'(1) cq left Cons by (auto simp: completion_pass_def)
qed

lemma worker_step_ok:
  assumes "worker_ok k b w" "env_ok se" "queues_hold m ts w" "cq_shape j (wk_ring w)" "\<forall>c\<in>set (cq_queue (wk_ring w)). cqe_ok b c"
    and "kernel_ok enter"
  shows "(pc = Waiting \<and> (\<exists>e. worker_step se enter pc w = Inl (IoError e))) \<or>
    (\<exists>pc' w'. worker_step se enter pc w = Inr (pc', w') \<and> effect k b m ts se (core_event se pc w) w w' \<and> cq_shape j (wk_ring w') \<and>
       (pc \<noteq> Waiting \<longrightarrow> set (cq_queue (wk_ring w')) \<subseteq> set (cq_queue (wk_ring w))))"
proof (cases pc)
  case Waiting
  have sq: "sq_inv k (wk_ring w)" using assms(1) by (simp add: worker_ok_def)
  obtain r m' where e: "enter (ur_fd (wk_ring w)) (ur_sq_tail_local (wk_ring w) - ur_sq_head_cache (wk_ring w)) 1 IORING_ENTER_GETEVENTS
      ((ur_shm (wk_ring w))\<lparr>um_sq_tail := ur_sq_tail_local (wk_ring w)\<rparr>) = (r, m')" by fastforce
  show ?thesis
  proof (cases r)
    case (Inl errno)
    then show ?thesis using e Waiting by (simp add: submit_and_wait_def Let_def)
  next
    case (Inr ret)
    let ?u = "(wk_ring w)\<lparr>ur_shm := m', ur_sq_head_cache := um_sq_head m'\<rparr>"
    have u: "sq_inv k ?u" "cq_shape j ?u" using kernel_enter_queues[OF assms(6) sq e, of ?u j] Inr assms(4) by simp_all
    have "worker_ok k b (w\<lparr>wk_ring := ?u\<rparr>)" using assms(1) u(1) by (simp add: worker_ok_def)
    then have "effect k b m ts se [] w (w\<lparr>wk_ring := ?u\<rparr>)" using assms(3) by (intro effect_none) simp_all
    then show ?thesis using e Inr Waiting u(2) by (simp add: submit_and_wait_def Let_def core_event_def)
  qed
next
  case (Inbound n)
  show ?thesis
  proof (cases n)
    case 0
    then show ?thesis using Inbound assms(1,3,4) by (auto simp: core_event_def intro!: effect_none)
  next
    case (Suc n')
    then show ?thesis using Inbound inbound_pass_ok[OF assms(1-3), of n'] assms(4) by fastforce
  qed
next
  case (Completions r)
  then show ?thesis using completion_pass_ok[OF assms(1-5), of r] by auto
qed

section \<open>Starting a core\<close>

text \<open>Every call of the set-up succeeds or ends the worker with an error it returns.\<close>

definition io_fails :: "'a result \<Rightarrow> bool" where
  "io_fails r \<longleftrightarrow> (\<exists>e. r = Inl (IoError e))"

lemma io_fails_simps [simp]: "io_fails (Inl (IoError e))" "\<not> io_fails (Inr x)"
  by (simp_all add: io_fails_def)

lemma and_then_fails: "io_fails r \<Longrightarrow> io_fails (and_then r f)"
  by (auto simp: io_fails_def)

lemma uring_new_total:
  assumes "setup_ok k j sa"
  shows "io_fails (snd (uring_new sa n)) \<or> (\<exists>u. snd (uring_new sa n) = Inr u \<and> sq_inv k u \<and> sq_queue u = [] \<and> cq_shape j u)"
proof -
  let ?p = "params_default\<lparr>up_flags := IORING_SETUP_SINGLE_ISSUER OR IORING_SETUP_CLAMP\<rparr>"
  consider e where "sa_setup sa n ?p = Inl e" | r e where "sa_setup sa n ?p = Inr r" "sa_mmap_ring sa = Some e \<or> sa_mmap_sqes sa = Some e"
    | r where "sa_setup sa n ?p = Inr r" "sa_mmap_ring sa = None" "sa_mmap_sqes sa = None"
    by (metis option.exhaust sum.exhaust)
  then show ?thesis
  proof cases
    case 3
    show ?thesis by (rule uring_new_ok[OF assms 3]) blast
  qed (auto simp: uring_new_def Let_def split: option.splits)
qed

lemma worker_buffers_total:
  "io_fails (snd (buf_ring_new ba fd bgid BUF_RING_ENTRIES BUF_SIZE)) \<or>
   (\<exists>br. snd (buf_ring_new ba fd bgid BUF_RING_ENTRIES BUF_SIZE) = Inr br \<and> buf_shape 12 br \<and> br_size br = 2048 \<and>
      length (br_storage br) = 2 ^ 12 * 2048)"
proof (cases "io_fails (snd (buf_ring_new ba fd bgid BUF_RING_ENTRIES BUF_SIZE))")
  case False
  have p: "is_power_of_two (4096 :: u32)" using is_power_of_two_pow[of 12, where 'a = 32] by simp
  let ?ba = "ba\<lparr>ba_register := \<lambda>_ _ _ _. None\<rparr>"
  have ne: "ba_ring ?ba \<noteq> None" "ba_storage ?ba \<noteq> None" "\<forall>fd op reg n. ba_register ?ba fd op reg n = None"
    and same: "snd (buf_ring_new ?ba fd bgid BUF_RING_ENTRIES BUF_SIZE) = snd (buf_ring_new ba fd bgid BUF_RING_ENTRIES BUF_SIZE)"
    using False p by (auto simp: buf_ring_new_def BUF_RING_ENTRIES_def BUF_SIZE_def layout_ok_def Let_def split: option.splits)
  obtain br where "snd (buf_ring_new ?ba fd bgid BUF_RING_ENTRIES BUF_SIZE) = Inr br" "buf_shape 12 br" "br_size br = 2048"
    "length (br_storage br) = 2 ^ 12 * 2048" by (rule worker_buffers_ok[OF ne])
  then show ?thesis unfolding same by blast
qed simp

lemma engine_open_total:
  assumes "CHR 0x00 \<notin> set dir"
  shows "io_fails (engine_open dir mkdir os rng disk) \<or> (\<exists>e. engine_open dir mkdir os rng disk = Inr e \<and> live_engine e)"
proof (cases "mkdir = None \<and> os = None")
  case True
  then show ?thesis using engine_open_ok[OF assms, of rng disk] by metis
next
  case False
  have "CHR 0x00 \<notin> set (path_join dir ''active.wal'')" using assms by (simp add: path_join_def)
  then show ?thesis using False by (auto simp: engine_open_def Let_def wal_open_def path_bytes_nul split: option.splits)
qed

lemma listener_total: "io_fails (snd (create_reuseport_listener a b c)) \<or> (\<exists>fd. snd (create_reuseport_listener a b c) = Inr fd)"
  by (simp add: create_reuseport_listener_def split: sum.splits option.splits)

lemma worker_start_total:
  assumes "setup_ok k j (st_uring st)" "kernel_ok enter" "core < length stats" "core < length qs" "\<forall>q\<in>set qs. queue_ok q" "CHR 0x00 \<notin> set dir"
  shows "io_fails (worker_start st se enter disk core stats qs dir) \<or>
    (\<exists>w. worker_start st se enter disk core stats qs dir = Inr w \<and> worker_ok k 12 w \<and> cq_shape j (wk_ring w) \<and> wk_core w = core \<and>
       wk_queues w = qs \<and> wk_seq w = 1 \<and> engine_open dir (st_mkdir st) (st_wal st) (st_rng st) disk = Inr (wk_db w))"
proof (cases "io_fails (worker_start st se enter disk core stats qs dir)")
  case no: False
  have pin: "pin_current_thread_to_core (st_pin st) core = Inr ()"
    using no by (auto simp: worker_start_def pin_current_thread_to_core_def Let_def split: if_splits)
  obtain u where u: "snd (uring_new (st_uring st) 1024) = Inr u" "sq_inv k u" "sq_queue u = []" "cq_shape j u"
    using uring_new_total[OF assms(1), of 1024] no and_then_fails by (fastforce simp: worker_start_def pin)
  obtain br where br: "snd (buf_ring_new (st_buf st) (ur_fd u) BUFFER_GROUP_ID BUF_RING_ENTRIES BUF_SIZE) = Inr br" "buf_shape 12 br"
    "br_size br = 2048" "length (br_storage br) = 2 ^ 12 * 2048"
    using worker_buffers_total[of "st_buf st" "ur_fd u" BUFFER_GROUP_ID] no and_then_fails by (fastforce simp: worker_start_def pin u(1))
  obtain e where e: "engine_open dir (st_mkdir st) (st_wal st) (st_rng st) disk = Inr e" "live_engine e"
    using engine_open_total[OF assms(6), of "st_mkdir st" "st_wal st" "st_rng st" disk] no and_then_fails
    by (fastforce simp: worker_start_def pin u(1) br(1))
  obtain fd where fd: "snd (create_reuseport_listener (st_socket st) (st_bind st) (st_listen st)) = Inr fd"
    using listener_total[of "st_socket st" "st_bind st" "st_listen st"] no and_then_fails
    by (fastforce simp: worker_start_def pin u(1) br(1) e(1))
  let ?f = "prep_accept_multishot (se_cloexec se) fd"
  obtain i u1 where g: "get_sqe u = Inr (Some i, u1)"
    and sub: "(\<exists>errno u2. uring_submit enter (sqe_write i ?f u1) = (Inl (IoError (OsError errno)), u2) \<and> \<not> enter_smooth enter) \<or>
      (\<exists>ret u2. uring_submit enter (sqe_write i ?f u1) = (Inr ret, u2) \<and> sq_inv k u2 \<and> sq_queue u2 = drop (unat ret) [?f sqe_default] \<and> cq_shape j u2)"
    by (rule first_submission[OF u(2-4) assms(2)])
  obtain ret u2 where su: "uring_submit enter (sqe_write i ?f u1) = (Inr ret, u2)" and u2: "sq_inv k u2" "cq_shape j u2"
    using sub no by (auto simp: worker_start_def pin u(1) br(1) e(1) fd g)
  let ?w = "\<lparr>wk_core = core, wk_ring = u2, wk_buf = br, wk_db = e, wk_seq = 1, wk_listen = fd,
     wk_stats = stats ! core, wk_queues = qs, wk_closed = []\<rparr>"
  have "worker_start st se enter disk core stats qs dir = Inr ?w"
    using pin u(1) br(1) e(1) fd g su assms(3,4) by (simp add: worker_start_def)
  moreover have "worker_ok k 12 ?w" using u2(1) br e(2) assms(4,5) by (simp add: worker_ok_def)
  ultimately show ?thesis using u2(2) e(1) by (intro disjI2 exI[of _ ?w]) simp
qed simp

section \<open>The invariant\<close>

definition core_inv :: "nat \<Rightarrow> nat \<Rightarrow> start_answers \<Rightarrow> server_env \<Rightarrow> path \<Rightarrow> disk \<Rightarrow> cluster \<Rightarrow> nat \<Rightarrow> core_run \<Rightarrow> bool" where
  "core_inv k j st se db_root disk s i cr \<longleftrightarrow>
     (case cr of
        Unstarted \<Rightarrow> writes_at i (cl_log s) = []
      | Running pc w \<Rightarrow> wk_core w = i \<and> worker_ok k 12 (w\<lparr>wk_queues := cl_queues s\<rparr>) \<and> cq_shape j (wk_ring w) \<and> posted_ok cr \<and>
          wk_seq w = 1 + of_nat (length (writes_at i (cl_log s))) \<and>
          (\<exists>db. engine_open (core_db_dir db_root i) (st_mkdir st) (st_wal st) (st_rng st) disk = Inr db \<and>
             put_run (engine_put (se_crc se)) (inbound_writes se 1 (writes_at i (cl_log s))) db = Inr (wk_db w))
      | Ended f \<Rightarrow> \<exists>e. f = IoError e)"

definition pending :: "nat \<Rightarrow> cluster \<Rightarrow> (nat \<Rightarrow> inter_core_task list) \<Rightarrow> bool" where
  "pending n s ts \<longleftrightarrow> (\<forall>d<n. ring_repr 11 (cl_queues s ! d) (ts d) \<and> sent n d (cl_log s) = applied d (cl_log s) @ ts d)"

text \<open>A replica is dropped only when 2048 others wait in the queue.\<close>

definition drops_full :: "nat \<Rightarrow> cluster_event list \<Rightarrow> bool" where
  "drops_full n log \<longleftrightarrow> (\<forall>xs c key val ys. log = xs @ Served c key val False # ys \<longrightarrow>
     length (applied ((c + 1) mod n) xs) + 2048 \<le> length (sent n ((c + 1) mod n) xs))"

definition cluster_inv ::
  "nat \<Rightarrow> nat \<Rightarrow> (nat \<Rightarrow> start_answers) \<Rightarrow> (nat \<Rightarrow> server_env) \<Rightarrow> path \<Rightarrow> nat \<Rightarrow> disk \<Rightarrow> cluster \<Rightarrow> bool" where
  "cluster_inv k j sts se db_root n disk s \<longleftrightarrow> length (cl_queues s) = n \<and> length (cl_cores s) = n \<and> (\<exists>ts. pending n s ts) \<and>
     (\<forall>i<n. core_inv k j (sts i) (se i) db_root disk s i (cl_cores s ! i)) \<and> drops_full n (cl_log s)"

lemma pending_queues_ok: "pending n s ts \<Longrightarrow> length (cl_queues s) = n \<Longrightarrow> \<forall>q\<in>set (cl_queues s). queue_ok q"
  by (metis in_set_conv_nth pending_def queue_ok_def)

lemma worker_ok_queues:
  "worker_ok k b (w\<lparr>wk_queues := qs\<rparr>) \<Longrightarrow> length qs' = length qs \<Longrightarrow> \<forall>q\<in>set qs'. queue_ok q \<Longrightarrow> worker_ok k b (w\<lparr>wk_queues := qs'\<rparr>)"
  by (simp add: worker_ok_def)

lemma core_inv_other:
  assumes "core_inv k j st se db_root disk s i cr" "length (cl_queues s') = length (cl_queues s)" "\<forall>q\<in>set (cl_queues s'). queue_ok q"
    and "writes_at i (cl_log s') = writes_at i (cl_log s)"
  shows "core_inv k j st se db_root disk s' i cr"
  using assms worker_ok_queues[of k 12 "cl_queues s" _ "cl_queues s'"] by (auto simp: core_inv_def split: core_run.splits)

lemma drops_full_more:
  assumes "drops_full n log" "length ev \<le> 1"
    and "\<And>c key val. Served c key val False \<in> set ev \<Longrightarrow> length (applied ((c + 1) mod n) log) + 2048 \<le> length (sent n ((c + 1) mod n) log)"
  shows "drops_full n (log @ ev)"
proof (cases ev)
  case (Cons e es)
  then have "ev = [e]" using assms(2) by simp
  show ?thesis unfolding drops_full_def
  proof (intro allI impI)
    fix xs c key val ys
    assume eq: "log @ ev = xs @ Served c key val False # ys"
    show "length (applied ((c + 1) mod n) xs) + 2048 \<le> length (sent n ((c + 1) mod n) xs)"
    proof (cases ys rule: rev_cases)
      case Nil
      then show ?thesis using eq \<open>ev = [e]\<close> assms(3)[of c key val] by simp
    next
      case (snoc ys' y)
      then have "log = xs @ Served c key val False # ys'" using eq \<open>ev = [e]\<close> by simp
      then show ?thesis using assms(1) unfolding drops_full_def by blast
    qed
  qed
qed (use assms(1) in simp)

lemma main_queues_hold:
  assumes "main_queues n = Inr qs"
  shows "length qs = n" "\<forall>d<n. ring_repr 11 (qs ! d) []"
proof -
  have "is_power_of_two (2048 :: u64)" using is_power_of_two_pow[of 11, where 'a = 64] by simp
  moreover have "(2 :: u64) \<le> 2048" by simp
  ultimately obtain k q where q: "unat (2048 :: u64) = 2 ^ k" "mpmc_new 2048 = Inr q" "ring_repr k q ([] :: inter_core_task list)"
    using ring_new[of 2048] by metis
  have "(2 :: nat) ^ k = 2 ^ 11" using q(1) by simp
  then have "k = 11" by (rule power_inject_exp[THEN iffD1, rotated]) simp
  then show "length qs = n" "\<forall>d<n. ring_repr 11 (qs ! d) []" using assms q(2,3) by (auto simp: main_queues_def split: if_splits)
qed

lemma main_start_inv:
  assumes "main_start ma n disk0 = Inr (disk, s)"
  shows "cluster_inv k j sts se db_root n disk s"
proof -
  from assms obtain qs where q: "main_queues n = Inr qs" and s: "s = \<lparr>cl_queues = qs, cl_cores = replicate n Unstarted, cl_log = []\<rparr>"
    by (auto simp: main_start_def Let_def split: option.splits)
  have "pending n s (\<lambda>_. [])" using main_queues_hold[OF q] by (simp add: pending_def s)
  then show ?thesis using main_queues_hold[OF q] by (auto simp: cluster_inv_def core_inv_def drops_full_def s)
qed

lemma cluster_invD:
  assumes "cluster_inv k j sts se db_root n disk s"
  obtains ts where "length (cl_queues s) = n" "length (cl_cores s) = n" "pending n s ts" "\<forall>q\<in>set (cl_queues s). queue_ok q"
    "\<And>i. i < n \<Longrightarrow> core_inv k j (sts i) (se i) db_root disk s i (cl_cores s ! i)" "drops_full n (cl_log s)"
  using assms pending_queues_ok unfolding cluster_inv_def by blast

text \<open>Changing one core and nothing that is shared.\<close>

lemma cluster_inv_core:
  assumes "cluster_inv k j sts se db_root n disk s" "core_inv k j (sts i) (se i) db_root disk s i cr"
  shows "cluster_inv k j sts se db_root n disk (s\<lparr>cl_cores := (cl_cores s)[i := cr]\<rparr>)"
proof -
  have "core_inv k j st e db_root disk (s\<lparr>cl_cores := cs\<rparr>) d c = core_inv k j st e db_root disk s d c" for st e cs d c
    by (simp add: core_inv_def cong: core_run.case_cong)
  moreover have "core_inv k j (sts d) (se d) db_root disk s d ((cl_cores s)[i := cr] ! d)" if "d < n" for d
    using assms that by (cases "d = i") (auto simp: cluster_inv_def)
  ultimately show ?thesis using assms(1) by (auto simp: cluster_inv_def pending_def)
qed

lemma core_db_dir_no_nul: "CHR 0x00 \<notin> set db_root \<Longrightarrow> CHR 0x00 \<notin> set (core_db_dir db_root i)"
  using digits_no_nul[of i] by (simp add: core_db_dir_def path_join_def)

lemma core_start_inv:
  assumes "cluster_inv k j sts se db_root n disk s" "i < n" "cl_cores s ! i = Unstarted" "kernel_ok enter" "setup_ok k j (st_uring (sts i))"
    and "CHR 0x00 \<notin> set db_root" "posted_ok (cl_cores (core_start (sts i) (se i) enter db_root disk i s) ! i)"
  shows "cluster_inv k j sts se db_root n disk (core_start (sts i) (se i) enter db_root disk i s)"
proof -
  obtain ts where inv: "length (cl_queues s) = n" "length (cl_cores s) = n" "\<forall>q\<in>set (cl_queues s). queue_ok q"
    "core_inv k j (sts i) (se i) db_root disk s i (cl_cores s ! i)" using assms(2) by (rule_tac cluster_invD[OF assms(1)]) blast
  let ?r = "worker_start (sts i) (se i) enter disk i (main_stats (length (cl_cores s))) (cl_queues s) (core_db_dir db_root i)"
  have "i < length (main_stats (length (cl_cores s)))" using assms(2) inv(2) by (simp add: main_stats_def)
  moreover have "i < length (cl_queues s)" using assms(2) inv(1) by simp
  ultimately have t: "io_fails ?r \<or> (\<exists>w. ?r = Inr w \<and> worker_ok k 12 w \<and> cq_shape j (wk_ring w) \<and> wk_core w = i \<and> wk_queues w = cl_queues s \<and>
      wk_seq w = 1 \<and> engine_open (core_db_dir db_root i) (st_mkdir (sts i)) (st_wal (sts i)) (st_rng (sts i)) disk = Inr (wk_db w))"
    by (rule worker_start_total[OF assms(5,4) _ _ inv(3) core_db_dir_no_nul[OF assms(6)]])
  have log: "writes_at i (cl_log s) = []" using inv(4) assms(3) by (simp add: core_inv_def)
  have p: "posted_ok (case ?r of Inl f \<Rightarrow> Ended f | Inr w \<Rightarrow> Running Waiting w)"
    using assms(2,7) inv(2) by (simp add: core_start_def)
  have "core_inv k j (sts i) (se i) db_root disk s i (case ?r of Inl f \<Rightarrow> Ended f | Inr w \<Rightarrow> Running Waiting w)"
    using t
  proof
    assume "\<exists>w. ?r = Inr w \<and> worker_ok k 12 w \<and> cq_shape j (wk_ring w) \<and> wk_core w = i \<and> wk_queues w = cl_queues s \<and>
      wk_seq w = 1 \<and> engine_open (core_db_dir db_root i) (st_mkdir (sts i)) (st_wal (sts i)) (st_rng (sts i)) disk = Inr (wk_db w)"
    then obtain w where w: "?r = Inr w" "worker_ok k 12 w" "cq_shape j (wk_ring w)" "wk_core w = i" "wk_queues w = cl_queues s"
      "wk_seq w = 1" "engine_open (core_db_dir db_root i) (st_mkdir (sts i)) (st_wal (sts i)) (st_rng (sts i)) disk = Inr (wk_db w)" by blast
    have "worker_ok k 12 (w\<lparr>wk_queues := cl_queues s\<rparr>)" using w(2,5) by (simp add: worker_ok_def)
    then show ?thesis using w p log by (simp add: core_inv_def)
  qed (auto simp: io_fails_def core_inv_def)
  then show ?thesis unfolding core_start_def by (rule cluster_inv_core[OF assms(1)])
qed

lemma effect_inv:
  assumes inv: "cluster_inv k j sts se db_root n disk s" and i: "i < n" "cl_cores s ! i = Running pc w"
    and ts: "pending n s ts" and ef: "effect k 12 11 ts (se i) ev (w\<lparr>wk_queues := cl_queues s\<rparr>) w'"
    and w': "cq_shape j (wk_ring w')" "posted_ok (Running pc' w')"
  shows "cluster_inv k j sts se db_root n disk (s\<lparr>cl_cores := (cl_cores s)[i := Running pc' w'], cl_queues := wk_queues w', cl_log := cl_log s @ ev\<rparr>)"
    (is "cluster_inv _ _ _ _ _ _ _ ?s")
proof -
  have n: "length (cl_queues s) = n" "length (cl_cores s) = n" "drops_full n (cl_log s)"
    and cores: "\<And>i. i < n \<Longrightarrow> core_inv k j (sts i) (se i) db_root disk s i (cl_cores s ! i)" using inv by (simp_all add: cluster_inv_def)
  have c: "wk_core w = i" "wk_seq w = 1 + of_nat (length (writes_at i (cl_log s)))" using cores[OF i(1)] i(2) by (simp_all add: core_inv_def)
  obtain db where db: "engine_open (core_db_dir db_root i) (st_mkdir (sts i)) (st_wal (sts i)) (st_rng (sts i)) disk = Inr db"
    "put_run (engine_put (se_crc (se i))) (inbound_writes (se i) 1 (writes_at i (cl_log s))) db = Inr (wk_db w)"
    using cores[OF i(1)] i(2) by (auto simp: core_inv_def)
  have ef: "worker_ok k 12 w'" "wk_core w' = i" "length (wk_queues w') = n" "length ev \<le> 1"
    "\<forall>d<n. \<exists>ts'. ring_repr 11 (wk_queues w' ! d) ts' \<and> ts d @ sent n d ev = applied d ev @ ts'"
    "put_run (engine_put (se_crc (se i))) (inbound_writes (se i) (wk_seq w) (writes_at i ev)) (wk_db w) = Inr (wk_db w')"
    "wk_seq w' = wk_seq w + of_nat (length (writes_at i ev))" "\<forall>d. d \<noteq> i \<longrightarrow> writes_at d ev = []"
    "\<forall>c key val. Served c key val False \<in> set ev \<longrightarrow> 2 ^ 11 \<le> length (ts ((c + 1) mod n))"
    using ef n(1) c(1) by (simp_all add: effect_def Let_def)
  from ef(5) obtain ts' where "\<forall>d<n. ring_repr 11 (wk_queues w' ! d) (ts' d) \<and> ts d @ sent n d ev = applied d ev @ ts' d" by metis
  then have pend: "pending n ?s ts'" using ts by (auto simp: pending_def)
  then have qok: "\<forall>q\<in>set (cl_queues ?s). queue_ok q" using ef(3) by (intro pending_queues_ok) simp_all
  have "0 < n" using i(1) by simp
  then have drops: "drops_full n (cl_log ?s)" using drops_full_more[OF n(3) ef(4)] ef(9) ts by (fastforce simp: pending_def)
  have "worker_ok k 12 (w'\<lparr>wk_queues := cl_queues ?s\<rparr>)" using ef(1) by (simp add: worker_ok_def)
  moreover have "put_run (engine_put (se_crc (se i))) (inbound_writes (se i) 1 (writes_at i (cl_log ?s))) db = Inr (wk_db w')"
    using db(2) ef(6) c(2) by (simp add: inbound_writes_append put_run_append)
  ultimately have own: "core_inv k j (sts i) (se i) db_root disk ?s i (Running pc' w')"
    using ef(2,7) c(2) db(1) w' by (simp add: core_inv_def add.assoc)
  have "core_inv k j (sts d) (se d) db_root disk ?s d (cl_cores ?s ! d)" if "d < n" for d
  proof (cases "d = i")
    case False
    have "core_inv k j (sts d) (se d) db_root disk ?s d (cl_cores s ! d)"
      by (rule core_inv_other[OF cores[OF that] _ qok]) (use False ef(3,8) n(1) in simp_all)
    then show ?thesis using False by simp
  qed (use own i(1) n(2) in simp)
  then show ?thesis unfolding cluster_inv_def using ef(3) n(2) pend drops by auto
qed

lemma core_runs_inv:
  assumes "cluster_inv k j sts se db_root n disk s" "i < n" "cl_cores s ! i = Running pc w" "kernel_ok enter" "env_ok (se i)"
    and "posted_ok (cl_cores (core_runs (se i) enter i pc w s) ! i)"
  shows "cluster_inv k j sts se db_root n disk (core_runs (se i) enter i pc w s)"
proof -
  obtain ts where n: "length (cl_queues s) = n" "length (cl_cores s) = n" "pending n s ts"
    and c: "core_inv k j (sts i) (se i) db_root disk s i (Running pc w)" using assms(1-3) unfolding cluster_inv_def by metis
  let ?w = "w\<lparr>wk_queues := cl_queues s\<rparr>"
  have w: "worker_ok k 12 ?w" "cq_shape j (wk_ring ?w)" "\<forall>c\<in>set (cq_queue (wk_ring ?w)). cqe_ok 12 c" "queues_hold 11 ts ?w"
    using c n(1,3) by (auto simp: core_inv_def posted_ok_def queues_hold_def pending_def)
  consider e where "worker_step (se i) enter pc ?w = Inl (IoError e)"
    | pc' w' where "worker_step (se i) enter pc ?w = Inr (pc', w')" "effect k 12 11 ts (se i) (core_event (se i) pc ?w) ?w w'" "cq_shape j (wk_ring w')"
    using worker_step_ok[OF w(1) assms(5) w(4,2,3) assms(4), of pc] by blast
  then show ?thesis
  proof cases
    case 1
    have "core_inv k j (sts i) (se i) db_root disk s i (Ended (IoError e))" by (simp add: core_inv_def)
    from cluster_inv_core[OF assms(1) this] show ?thesis using 1 by (simp add: core_runs_def)
  next
    case 2
    then have r: "core_runs (se i) enter i pc w s =
        s\<lparr>cl_cores := (cl_cores s)[i := Running pc' w'], cl_queues := wk_queues w', cl_log := cl_log s @ core_event (se i) pc ?w\<rparr>"
      by (simp add: core_runs_def)
    have "posted_ok (Running pc' w')" using assms(2,6) n(2) by (simp add: r)
    from effect_inv[OF assms(1-3) n(3) 2(2,3) this] show ?thesis unfolding r .
  qed
qed

lemma kernel_works_inv:
  assumes "cluster_inv k j sts se db_root n disk s" "i < n" "cl_cores s ! i = Running pc w" "kernel_posts 12 (wk_ring w) u"
    and "length st = length (br_storage (wk_buf w))"
  shows "cluster_inv k j sts se db_root n disk
    (s\<lparr>cl_cores := (cl_cores s)[i := Running pc (w\<lparr>wk_ring := u, wk_buf := (wk_buf w)\<lparr>br_storage := st\<rparr>\<rparr>)]\<rparr>)"
proof (rule cluster_inv_core[OF assms(1)])
  have c: "core_inv k j (sts i) (se i) db_root disk s i (Running pc w)"
    using cluster_invD[OF assms(1)] assms(2,3) by metis
  let ?w = "w\<lparr>wk_queues := cl_queues s\<rparr>"
  have ok: "worker_ok k 12 ?w" "cq_shape j (wk_ring w)" using c by (simp_all add: core_inv_def)
  have "sq_inv k (wk_ring w)" using ok(1) by (simp add: worker_ok_def)
  from sq_unmoved(1)[OF this, of "ur_shm u"] assms(4) have u: "sq_inv k u" by (simp add: kernel_posts_def Let_def)
  have "worker_ok k 12 (?w\<lparr>wk_ring := u, wk_buf := (wk_buf ?w)\<lparr>br_storage := st\<rparr>\<rparr>)"
    by (rule worker_ok_world[OF ok(1) u]) (simp add: assms(5))
  then have "worker_ok k 12 (w\<lparr>wk_ring := u, wk_buf := (wk_buf w)\<lparr>br_storage := st\<rparr>, wk_queues := cl_queues s\<rparr>)" by (simp add: worker_ok_def)
  moreover have "cq_shape j u"
  proof -
    have "ur_cq_mask (u\<lparr>ur_shm := x\<rparr>) = ur_cq_mask u" for x by simp
    then have "ur_cq_mask u = ur_cq_mask (wk_ring w)" "length (um_cqes (ur_shm u)) = length (um_cqes (ur_shm (wk_ring w)))"
      using assms(4) by (simp_all add: kernel_posts_def Let_def) (metis uring.select_convs(5) uring.surjective uring.update_convs(2))
    then show ?thesis using ok(2) cq_shape_cong by blast
  qed
  moreover have "posted_ok (Running pc (w\<lparr>wk_ring := u, wk_buf := (wk_buf w)\<lparr>br_storage := st\<rparr>\<rparr>))"
    using c assms(4) by (auto simp: core_inv_def posted_ok_def kernel_posts_def Let_def cq_queue_window)
  ultimately show "core_inv k j (sts i) (se i) db_root disk s i (Running pc (w\<lparr>wk_ring := u, wk_buf := (wk_buf w)\<lparr>br_storage := st\<rparr>\<rparr>))"
    using c by (simp add: core_inv_def)
qed

lemma cluster_reach_inv:
  assumes "cluster_reach sts se db_root n disk s" "\<And>i. setup_ok k j (st_uring (sts i))" "\<And>i. env_ok (se i)" "CHR 0x00 \<notin> set db_root"
  shows "cluster_inv k j sts se db_root n disk s"
  using assms(1)
proof induction
  case (cluster_more s s')
  have n: "length (cl_cores s) = n" using cluster_more.IH by (simp add: cluster_inv_def)
  from cluster_more.hyps(2) show ?case
  proof cases
    case (core_starts i enter)
    then show ?thesis using core_start_inv[OF cluster_more.IH, of i enter] assms(2,4) n by simp
  next
    case (core_steps i pc w enter)
    then show ?thesis using core_runs_inv[OF cluster_more.IH, of i pc w enter] assms(3) n by simp
  next
    case (kernel_works i pc w u st)
    then show ?thesis using kernel_works_inv[OF cluster_more.IH, of i pc w u st] n by simp
  qed
qed (rule main_start_inv)

text \<open>Between two waits nothing stops a core.\<close>

lemma busy_core_steps:
  assumes "cluster_reach sts se db_root n disk s" "\<And>i. setup_ok k j (st_uring (sts i))" "\<And>i. env_ok (se i)" "CHR 0x00 \<notin> set db_root"
    and "i < n" "cl_cores s ! i = Running pc w" "pc \<noteq> Waiting"
  obtains s' pc' w' where "cluster_reach sts se db_root n disk s'" "worker_step (se i) eager_enter pc (w\<lparr>wk_queues := cl_queues s\<rparr>) = Inr (pc', w')"
    "s' = s\<lparr>cl_cores := (cl_cores s)[i := Running pc' w'], cl_queues := wk_queues w',
            cl_log := cl_log s @ core_event (se i) pc (w\<lparr>wk_queues := cl_queues s\<rparr>)\<rparr>"
proof -
  have inv: "cluster_inv k j sts se db_root n disk s" using assms(1-4) by (rule cluster_reach_inv)
  then obtain ts where n: "length (cl_queues s) = n" "length (cl_cores s) = n" "pending n s ts"
    and c: "core_inv k j (sts i) (se i) db_root disk s i (Running pc w)" using assms(5,6) unfolding cluster_inv_def by metis
  let ?w = "w\<lparr>wk_queues := cl_queues s\<rparr>"
  have w: "worker_ok k 12 ?w" "cq_shape j (wk_ring ?w)" "\<forall>c\<in>set (cq_queue (wk_ring ?w)). cqe_ok 12 c" "queues_hold 11 ts ?w"
    using c n(1,3) by (auto simp: core_inv_def posted_ok_def queues_hold_def pending_def)
  from worker_step_ok[OF w(1) assms(3) w(4,2,3) kernel_ok_eager, of pc] assms(7) obtain pc' w' where
    st: "worker_step (se i) eager_enter pc ?w = Inr (pc', w')" "set (cq_queue (wk_ring w')) \<subseteq> set (cq_queue (wk_ring ?w))" by blast
  let ?s = "s\<lparr>cl_cores := (cl_cores s)[i := Running pc' w'], cl_queues := wk_queues w', cl_log := cl_log s @ core_event (se i) pc ?w\<rparr>"
  have r: "core_runs (se i) eager_enter i pc w s = ?s" using st(1) by (simp add: core_runs_def)
  have "posted_ok (cl_cores ?s ! i)" using st(2) w(3) assms(5) n(2) by (auto simp: posted_ok_def)
  then have "cluster_step sts se db_root disk s ?s"
    using core_steps[where se = se, OF _ assms(6) kernel_ok_eager r[symmetric]] assms(5) n(2) by blast
  then show thesis using that[OF cluster_more[OF assms(1)] st(1) refl] by blast
qed

section \<open>Steps and rounds\<close>

definition runs_to :: "server_env \<Rightarrow> kernel_enter \<Rightarrow> worker_pc \<times> worker \<Rightarrow> worker_pc \<times> worker \<Rightarrow> bool" where
  "runs_to se enter = (\<lambda>(pc, w) c. worker_step se enter pc w = Inr c)\<^sup>*\<^sup>*"

lemma runs_to_step: "worker_step se enter pc w = Inr c \<Longrightarrow> runs_to se enter c d \<Longrightarrow> runs_to se enter (pc, w) d"
  unfolding runs_to_def by (rule converse_rtranclp_into_rtranclp) simp_all

lemma runs_to_refl [simp]: "runs_to se enter c c"
  by (simp add: runs_to_def)

lemma runs_to_trans: "runs_to se enter c d \<Longrightarrow> runs_to se enter d e \<Longrightarrow> runs_to se enter c e"
  unfolding runs_to_def by (rule rtranclp_trans)

lemma drain_inbound_steps: "drain_inbound se n w = Inr w' \<Longrightarrow> runs_to se enter (Inbound n, w) (Completions False, w')"
proof (induction se n w rule: drain_inbound.induct)
  case (1 se w)
  then show ?case by (auto intro: runs_to_step)
next
  case (2 se n w)
  show ?case
  proof (cases "worker_step se enter (Inbound (Suc n)) w")
    case (Inl f)
    then show ?thesis using "2.prems"
      by (auto simp: inbound_pass_def split: if_splits sum.splits prod.splits queue_error.splits inter_core_task.splits)
  next
    case (Inr c)
    have "runs_to se enter c (Completions False, w')"
      using "2.prems" "2.IH" Inr
      by (auto simp: inbound_pass_def split: if_splits sum.splits prod.splits queue_error.splits inter_core_task.splits)
    then show ?thesis using Inr by (rule runs_to_step[rotated])
  qed
qed

lemma drain_cq_steps:
  "drain_cq se r w = Inr (r', w') \<Longrightarrow> runs_to se enter (Completions r, w) (Completions r', w') \<and> peek_cqe (wk_ring w') = Inr None"
proof (induction se r w rule: drain_cq.induct)
  case (1 se r w)
  show ?case
  proof (cases "peek_cqe (wk_ring w)")
    case (Inr o')
    show ?thesis
    proof (cases o')
      case None
      then show ?thesis using "1.prems" Inr by (simp add: drain_cq.simps[of se r w])
    next
      case (Some cqe)
      then obtain rec w1 where h: "handle_cqe se cqe (w\<lparr>wk_ring := advance_cq 1 (wk_ring w)\<rparr>) = Inr (rec, w1)"
        and d: "drain_cq se (r \<or> rec) w1 = Inr (r', w')"
        using "1.prems" Inr by (auto simp: drain_cq.simps[of se r w] split: sum.splits)
      have "worker_step se enter (Completions r) w = Inr (Completions (r \<or> rec), w1)"
        using Inr Some h by (simp add: completion_pass_def)
      then show ?thesis using "1.IH"[OF Inr Some h refl d] by (auto intro: runs_to_step)
    qed
  qed (use "1.prems" in \<open>simp add: drain_cq.simps[of se r w]\<close>)
qed

section \<open>Properties\<close>

text \<open>
  A round of a worker that returns is a run of its steps that is not interrupted, from the end of the wait to the next wait.
\<close>

theorem round_by_steps:
  assumes "worker_round se enter deliver w = Inr w'"
  shows "\<exists>ret ring. submit_and_wait enter 1 (wk_ring w) = (Inr ret, ring) \<and>
    runs_to se enter (Inbound 16, w\<lparr>wk_ring := ring, wk_buf := (wk_buf w)\<lparr>br_storage := deliver (br_storage (wk_buf w))\<rparr>\<rparr>) (Waiting, w')"
proof -
  from assms obtain ret ring where s: "submit_and_wait enter 1 (wk_ring w) = (Inr ret, ring)"
    by (auto simp: worker_round_def split: prod.splits sum.splits)
  let ?w = "w\<lparr>wk_ring := ring, wk_buf := (wk_buf w)\<lparr>br_storage := deliver (br_storage (wk_buf w))\<rparr>\<rparr>"
  from assms s obtain w1 r w2 where d: "drain_inbound se 16 ?w = Inr w1" "drain_cq se False w1 = Inr (r, w2)"
    and e: "(if r then and_then (buf_flush (wk_buf w2)) (\<lambda>buf. Inr (w2\<lparr>wk_buf := buf\<rparr>)) else Inr w2) = Inr w'"
    by (auto simp: worker_round_def)
  have "worker_step se enter (Completions r) w2 = Inr (Waiting, w')"
    using e drain_cq_steps[OF d(2)] by (auto simp: completion_pass_def split: if_splits)
  then have "runs_to se enter (Completions r, w2) (Waiting, w')" by (auto intro: runs_to_step)
  then show ?thesis
    using s runs_to_trans[OF drain_inbound_steps[OF d(1)]] runs_to_trans[of se enter "(Completions False, w1)"] drain_cq_steps[OF d(2)] by blast
qed

lemma main_join_ok: "\<forall>f. Ended f \<in> set cs \<longrightarrow> (\<exists>e. f = IoError e) \<Longrightarrow> main_join cs = None \<or> main_join cs = Some (Inr ())"
  by (induction cs rule: main_join.induct) auto


text \<open>
  C21. Replication between the cores is first in, first out and loses nothing silently but what a full queue refuses. In every reachable state
  the writes the queue of a core has accepted are those the core has applied, in order, followed by those waiting in the queue;
  a replica was refused only while at least 2048 accepted ones were waiting; and the store of a running core is the store it opened
  after exactly the puts it has served and the replicas it has applied, in the order of these events, under the
  sequence numbers 1, 2, and so on.
\<close>

theorem cluster_replicates:
  assumes "cluster_reach sts se db_root n disk s" "\<And>i. setup_ok k j (st_uring (sts i))" "\<And>i. env_ok (se i)" "CHR 0x00 \<notin> set db_root"
  shows "(\<forall>d<n. \<exists>ts. ring_repr 11 (cl_queues s ! d) ts \<and> sent n d (cl_log s) = applied d (cl_log s) @ ts) \<and>
    (\<forall>xs c key val ys. cl_log s = xs @ Served c key val False # ys \<longrightarrow>
       length (applied ((c + 1) mod n) xs) + 2048 \<le> length (sent n ((c + 1) mod n) xs)) \<and>
    (\<forall>i<n. \<forall>pc w. cl_cores s ! i = Running pc w \<longrightarrow> wk_seq w = 1 + of_nat (length (writes_at i (cl_log s))) \<and>
       (\<exists>db. engine_open (core_db_dir db_root i) (st_mkdir (sts i)) (st_wal (sts i)) (st_rng (sts i)) disk = Inr db \<and>
          put_run (engine_put (se_crc (se i))) (inbound_writes (se i) 1 (writes_at i (cl_log s))) db = Inr (wk_db w)))"
proof -
  have inv: "cluster_inv k j sts se db_root n disk s" using assms by (rule cluster_reach_inv)
  then have "\<forall>d<n. \<exists>ts. ring_repr 11 (cl_queues s ! d) ts \<and> sent n d (cl_log s) = applied d (cl_log s) @ ts"
    by (auto simp: cluster_inv_def pending_def)
  moreover have "wk_seq w = 1 + of_nat (length (writes_at i (cl_log s))) \<and>
       (\<exists>db. engine_open (core_db_dir db_root i) (st_mkdir (sts i)) (st_wal (sts i)) (st_rng (sts i)) disk = Inr db \<and>
          put_run (engine_put (se_crc (se i))) (inbound_writes (se i) 1 (writes_at i (cl_log s))) db = Inr (wk_db w))"
    if "i < n" "cl_cores s ! i = Running pc w" for i pc w
    using inv that unfolding cluster_inv_def core_inv_def by fastforce
  ultimately show ?thesis using inv unfolding cluster_inv_def drops_full_def by blast
qed

section \<open>A run\<close>

text \<open>Two cores on a kernel that consumes every submission: core 0 is sent a put, and core 1 applies its replica.\<close>

lemma demo_start_quiet:
  assumes "worker_start demo_start se eager_enter disk core stats qs dir = Inr w"
  shows "cq_queue (wk_ring w) = []"
proof -
  obtain u where u: "snd (uring_new (st_uring demo_start) 1024) = Inr u" "cq_queue u = []"
    by (rule uring_new_ok[OF demo_setup_ok, of 1024]) (auto simp: demo_start_def)
  from assms u(1) obtain fd io u1 br db where "get_sqe u = Inr (io, u1)"
    "(case io of
        None \<Rightarrow> Inl Panic
      | Some i \<Rightarrow>
          (case uring_submit eager_enter (sqe_write i (prep_accept_multishot (se_cloexec se) fd) u1) of
             (Inl f, _) \<Rightarrow> Inl f
           | (Inr _, ring) \<Rightarrow>
               if core < length stats \<and> core < length qs
               then Inr \<lparr>wk_core = core, wk_ring = ring, wk_buf = br, wk_db = db, wk_seq = 1, wk_listen = fd,
                         wk_stats = stats ! core, wk_queues = qs, wk_closed = []\<rparr>
               else Inl Panic)) = Inr w"
    by (auto simp: worker_start_def)
  then obtain i f x where g: "get_sqe u = Inr (Some i, u1)" "uring_submit eager_enter (sqe_write i f u1) = (Inr x, wk_ring w)"
    by (auto split: option.splits prod.splits sum.splits if_splits)
  have "cq_window (ur_shm (wk_ring w)) = cq_window (ur_shm (sqe_write i f u1))"
    using arg_cong[OF g(2), of "\<lambda>p. cq_window (ur_shm (snd p))"] by (auto simp: uring_submit_def eager_enter_def Let_def cq_window_def split: if_splits)
  also have "\<dots> = cq_window (ur_shm u)" using get_sqe_cq[OF g(1)] by (simp add: cq_window_def sqe_write_def)
  finally show ?thesis using u(2) by (simp add: cq_queue_window)
qed

lemma demo_starts: "start_smooth demo_start" "enter_smooth eager_enter"
  by (auto simp: start_smooth_def demo_start_def enter_smooth_def eager_enter_def Let_def)

definition demo_main :: main_answers where
  "demo_main = \<lparr>ma_exists = False, ma_remove = (\<lambda>d. d), ma_create = None\<rparr>"

definition demo_reach :: "cluster \<Rightarrow> bool" where
  "demo_reach = cluster_reach (\<lambda>_. demo_start) (\<lambda>_. demo_env) ''db'' 2 Map.empty"

lemma demo_worker_start:
  assumes "core < 2"
  obtains qs w where "main_queues 2 = Inr qs" "cq_queue (wk_ring w) = []"
    "worker_start demo_start demo_env eager_enter Map.empty core (main_stats 2) qs (core_db_dir ''db'' core) = Inr w"
proof -
  have "CHR 0x00 \<notin> set (core_db_dir ''db'' core)" by (rule core_db_dir_no_nul) simp
  from server_start_ok[OF demo_starts(1) demo_setup_ok kernel_ok_eager demo_starts(2) assms this, of demo_env Map.empty]
  show thesis using that demo_start_quiet by blast
qed

lemma demo_two_cores:
  "\<exists>s w0 w1. demo_reach s \<and> cl_cores s = [Running Waiting w0, Running Waiting w1] \<and> cl_log s = [] \<and>
     cq_queue (wk_ring w0) = [] \<and> cq_queue (wk_ring w1) = []"
proof -
  obtain qs w0 where a: "main_queues 2 = Inr qs" "cq_queue (wk_ring w0) = []"
    "worker_start demo_start demo_env eager_enter Map.empty 0 (main_stats 2) qs (core_db_dir ''db'' 0) = Inr w0" by (rule demo_worker_start[of 0]) simp
  obtain qs1 w1 where b1: "main_queues 2 = Inr qs1" "cq_queue (wk_ring w1) = []"
    "worker_start demo_start demo_env eager_enter Map.empty 1 (main_stats 2) qs1 (core_db_dir ''db'' 1) = Inr w1" by (rule demo_worker_start[of 1]) simp
  have b: "worker_start demo_start demo_env eager_enter Map.empty (Suc 0) (main_stats 2) qs (core_db_dir ''db'' (Suc 0)) = Inr w1"
    using a(1) b1(1,3) by simp
  let ?s = "\<lambda>cs. \<lparr>cl_queues = qs, cl_cores = cs, cl_log = []\<rparr>"
  have "main_start demo_main 2 Map.empty = Inr (Map.empty, ?s [Unstarted, Unstarted])"
    using a(1) by (simp add: main_start_def demo_main_def numeral_2_eq_2)
  then have r0: "demo_reach (?s [Unstarted, Unstarted])" unfolding demo_reach_def by (rule cluster_init)
  have c0: "?s [Running Waiting w0, Unstarted] = core_start demo_start demo_env eager_enter ''db'' Map.empty 0 (?s [Unstarted, Unstarted])"
    using a(3) by (simp add: core_start_def numeral_2_eq_2)
  have "cluster_step (\<lambda>_. demo_start) (\<lambda>_. demo_env) ''db'' Map.empty (?s [Unstarted, Unstarted]) (?s [Running Waiting w0, Unstarted])"
    by (rule core_starts[OF _ _ kernel_ok_eager c0]) (simp_all add: posted_ok_def a(2))
  then have r1: "demo_reach (?s [Running Waiting w0, Unstarted])" using r0 unfolding demo_reach_def by (rule cluster_more[rotated])
  have c1: "?s [Running Waiting w0, Running Waiting w1] = core_start demo_start demo_env eager_enter ''db'' Map.empty 1 (?s [Running Waiting w0, Unstarted])"
    using b by (simp add: core_start_def numeral_2_eq_2)
  have "cluster_step (\<lambda>_. demo_start) (\<lambda>_. demo_env) ''db'' Map.empty (?s [Running Waiting w0, Unstarted]) (?s [Running Waiting w0, Running Waiting w1])"
    by (rule core_starts[OF _ _ kernel_ok_eager c1]) (simp_all add: posted_ok_def b1(2))
  then have "demo_reach (?s [Running Waiting w0, Running Waiting w1])" using r1 unfolding demo_reach_def by (rule cluster_more[rotated])
  then show ?thesis using a(2) b1(2) by (intro exI[of _ "?s [Running Waiting w0, Running Waiting w1]"]) simp
qed

lemma kernel_can_post:
  assumes "cq_shape j u" "cq_queue u = []" "cqe_ok b c"
  obtains u' where "kernel_posts b u u'" "cq_queue u' = [c]"
proof -
  let ?m = "ur_shm u"
  let ?u = "u\<lparr>ur_shm := ?m\<lparr>um_cqes := (um_cqes ?m)[unat (um_cq_head ?m) mod 2 ^ j := c], um_cq_tail := um_cq_head ?m + 1\<rparr>\<rparr>"
  have l: "length (um_cqes ?m) = 2 ^ j" using assms(1) by (simp add: cq_shape_def)
  then have q: "cq_queue ?u = [c]" by (simp add: cq_queue_def window_def)
  then have "kernel_posts b u ?u" using assms(2,3) by (simp add: kernel_posts_def Let_def cq_queue_window)
  then show thesis using q that by blast
qed

lemma demo_waits:
  assumes "demo_reach s" "i < length (cl_cores s)" "cl_cores s ! i = Running Waiting w"
  obtains s' ring where "demo_reach s'" "cq_queue ring = cq_queue (wk_ring w)"
    "s' = s\<lparr>cl_cores := (cl_cores s)[i := Running (Inbound 16) (w\<lparr>wk_queues := cl_queues s, wk_ring := ring\<rparr>)]\<rparr>"
proof -
  let ?w = "w\<lparr>wk_queues := cl_queues s\<rparr>"
  obtain ret ring where e: "submit_and_wait eager_enter 1 (wk_ring w) = (Inr ret, ring)" "cq_queue ring = cq_queue (wk_ring w)"
    by (auto simp: submit_and_wait_def eager_enter_def Let_def cq_queue_def)
  let ?s = "s\<lparr>cl_cores := (cl_cores s)[i := Running (Inbound 16) (?w\<lparr>wk_ring := ring\<rparr>)]\<rparr>"
  have r: "?s = core_runs demo_env eager_enter i Waiting w s" using e(1) by (simp add: core_runs_def core_event_def)
  have "cluster_inv 1 2 (\<lambda>_. demo_start) (\<lambda>_. demo_env) ''db'' 2 Map.empty s"
    using cluster_reach_inv[OF assms(1)[unfolded demo_reach_def] demo_setup_ok demo_env_ok] by simp
  then have "posted_ok (cl_cores s ! i)" using assms(2,3) by (auto simp: cluster_inv_def core_inv_def)
  then have "posted_ok (cl_cores ?s ! i)" using assms(2,3) e(2) by (simp add: posted_ok_def)
  then have "cluster_step (\<lambda>_. demo_start) (\<lambda>_. demo_env) ''db'' Map.empty s ?s"
    using core_steps[where se = "\<lambda>_. demo_env", OF assms(2,3) kernel_ok_eager r] by simp
  then show thesis using that[OF _ e(2) refl] cluster_more assms(1) unfolding demo_reach_def by blast
qed

lemma demo_inv: "demo_reach s \<Longrightarrow> cluster_inv 1 2 (\<lambda>_. demo_start) (\<lambda>_. demo_env) ''db'' 2 Map.empty s"
  using cluster_reach_inv[of "\<lambda>_. demo_start" "\<lambda>_. demo_env" "''db''" 2 Map.empty s 1 2] demo_setup_ok demo_env_ok by (simp add: demo_reach_def)

lemma demo_busy:
  assumes "demo_reach s" "i < 2" "cl_cores s ! i = Running pc w" "pc \<noteq> Waiting"
  obtains s' pc' w' where "demo_reach s'" "worker_step demo_env eager_enter pc (w\<lparr>wk_queues := cl_queues s\<rparr>) = Inr (pc', w')"
    "s' = s\<lparr>cl_cores := (cl_cores s)[i := Running pc' w'], cl_queues := wk_queues w',
            cl_log := cl_log s @ core_event demo_env pc (w\<lparr>wk_queues := cl_queues s\<rparr>)\<rparr>"
  using busy_core_steps[of "\<lambda>_. demo_start" "\<lambda>_. demo_env" "''db''" 2 Map.empty s 1 2 i pc w] assms demo_setup_ok demo_env_ok
  unfolding demo_reach_def by auto

lemma demo_core:
  assumes "demo_reach s" "i < 2" "cl_cores s ! i = Running pc w"
  shows "wk_core w = i" "length (cl_queues s) = 2" "cq_shape 2 (wk_ring w)" "17 \<le> length (br_storage (wk_buf w))"
    "ring_repr 11 (cl_queues s ! i) (drop (length (applied i (cl_log s))) (sent 2 i (cl_log s)))"
proof -
  have inv: "cluster_inv 1 2 (\<lambda>_. demo_start) (\<lambda>_. demo_env) ''db'' 2 Map.empty s" using assms(1) by (rule demo_inv)
  then obtain ts where n: "length (cl_queues s) = 2" "pending 2 s ts"
    and c: "core_inv 1 2 demo_start demo_env ''db'' Map.empty s i (Running pc w)" using assms(2,3) unfolding cluster_inv_def by metis
  show "wk_core w = i" "length (cl_queues s) = 2" "cq_shape 2 (wk_ring w)" using c n(1) by (simp_all add: core_inv_def)
  have "length (br_storage (wk_buf w)) = 2 ^ 12 * br_size (wk_buf w)" "17 \<le> br_size (wk_buf w)"
    using c by (simp_all add: core_inv_def worker_ok_def)
  then show "17 \<le> length (br_storage (wk_buf w))" by simp
  have "ring_repr 11 (cl_queues s ! i) (ts i)" "sent 2 i (cl_log s) = applied i (cl_log s) @ ts i" using n(2) assms(2) by (simp_all add: pending_def)
  then show "ring_repr 11 (cl_queues s ! i) (drop (length (applied i (cl_log s))) (sent 2 i (cl_log s)))" by simp
qed

lemma demo_arrives:
  assumes "demo_reach s" "i < 2" "cl_cores s ! i = Running pc w" "cq_queue (wk_ring w) = []"
  obtains s' v where "demo_reach s'" "s' = s\<lparr>cl_cores := (cl_cores s)[i := Running pc v]\<rparr>" "cq_queue (wk_ring v) = [demo_cqe]"
    "put_command v 0 7 9" "17 \<le> length (br_storage (wk_buf v))"
proof -
  note c = demo_core[OF assms(1-3)]
  let ?rest = "drop 17 (br_storage (wk_buf w))"
  let ?st = "1 # to_be_bytes (7 :: u64) @ to_be_bytes (9 :: u64) @ ?rest"
  have "cqe_ok 12 demo_cqe"
    by (simp add: cqe_ok_def cqe_has_buffer_def demo_cqe_def cqe_bid_def IORING_CQE_BUFFER_SHIFT_def)
  from kernel_can_post[OF c(3) assms(4) this] obtain u where u: "kernel_posts 12 (wk_ring w) u" "cq_queue u = [demo_cqe]" by blast
  let ?v = "w\<lparr>wk_ring := u, wk_buf := (wk_buf w)\<lparr>br_storage := ?st\<rparr>\<rparr>"
  have l: "length ?st = length (br_storage (wk_buf w))" using c(4) by simp
  have n: "i < length (cl_cores s)" using demo_inv[OF assms(1)] assms(2) by (simp add: cluster_inv_def)
  have "demo_reach (s\<lparr>cl_cores := (cl_cores s)[i := Running pc ?v]\<rparr>)"
    using cluster_more[OF assms(1)[unfolded demo_reach_def] kernel_works[OF n assms(3) u(1) l refl]] by (simp add: demo_reach_def)
  moreover have "put_command ?v 0 7 9" by (simp add: put_command_def buf_off_def subslice_def)
  ultimately show thesis using that[OF _ refl, of ?v] u(2) l c(4) by simp
qed

lemma put_command_of:
  assumes "put_command w 0 key val" "17 \<le> length (br_storage (wk_buf w))"
  shows "put_of demo_cqe w = Some (key, val)"
proof -
  let ?st = "br_storage (wk_buf w)"
  have t: "take 17 ?st = 1 # to_be_bytes key @ to_be_bytes val" using assms(1) by (simp add: put_command_def buf_off_def subslice_def)
  have "?st ! 0 = 1" using arg_cong[OF t, of "\<lambda>xs. xs ! 0"] by simp
  moreover have "subslice ?st 1 9 = to_be_bytes key" "subslice ?st 9 17 = to_be_bytes val"
    using arg_cong[OF t, of "\<lambda>xs. subslice xs 1 9"] arg_cong[OF t, of "\<lambda>xs. subslice xs 9 17"] by (simp_all add: subslice_def drop_take)
  ultimately show ?thesis
    by (simp add: put_of_def Let_def buf_off_def cqe_has_buffer_def demo_cqe_def cqe_bid_def IORING_CQE_BUFFER_SHIFT_def IORING_CQE_F_BUFFER_def)
qed

lemma demo_received:
  "\<exists>s v w1. demo_reach s \<and> cl_cores s = [Running (Inbound 16) v, Running Waiting w1] \<and> cl_log s = [] \<and> cq_queue (wk_ring v) = [demo_cqe] \<and>
     put_command v 0 7 9 \<and> 17 \<le> length (br_storage (wk_buf v))"
proof -
  obtain s0 w0 w1 where r0: "demo_reach s0" and s0: "cl_cores s0 = [Running Waiting w0, Running Waiting w1]" "cl_log s0 = []"
    and q: "cq_queue (wk_ring w0) = []" using demo_two_cores by blast
  obtain s1 v where r1: "demo_reach s1" and s1: "s1 = s0\<lparr>cl_cores := [Running Waiting v, Running Waiting w1]\<rparr>"
    and v: "cq_queue (wk_ring v) = [demo_cqe]" "put_command v 0 7 9" "17 \<le> length (br_storage (wk_buf v))"
    using demo_arrives[OF r0, of 0 Waiting w0] s0(1) q by auto
  obtain s2 ring where r2: "demo_reach s2" and ring: "cq_queue ring = [demo_cqe]" and
    s2: "s2 = s1\<lparr>cl_cores := [Running (Inbound 16) (v\<lparr>wk_queues := cl_queues s1, wk_ring := ring\<rparr>), Running Waiting w1]\<rparr>"
    using demo_waits[OF r1, of 0 v] s1 v(1) by auto
  have "put_command (v\<lparr>wk_queues := cl_queues s1, wk_ring := ring\<rparr>) 0 7 9" using v(2) by (simp add: put_command_def buf_off_def)
  then show ?thesis using r2 v(3) ring s0(2)
    by (intro exI[of _ s2] exI[of _ "v\<lparr>wk_queues := cl_queues s1, wk_ring := ring\<rparr>"] exI[of _ w1]) (simp add: s2 s1)
qed

lemma demo_served:
  "\<exists>s w0 w1. demo_reach s \<and> cl_log s = [Served 0 7 9 True] \<and> cl_cores s = [Running (Completions True) w0, Running Waiting w1]"
proof -
  obtain s2 v w1 where r2: "demo_reach s2" and s2: "cl_cores s2 = [Running (Inbound 16) v, Running Waiting w1]" "cl_log s2 = []"
    and v: "cq_queue (wk_ring v) = [demo_cqe]" "put_command v 0 7 9" "17 \<le> length (br_storage (wk_buf v))" using demo_received by blast
  let ?v2 = "v\<lparr>wk_queues := cl_queues s2\<rparr>"
  have c2: "cl_cores s2 ! 0 = Running (Inbound 16) v" using s2 by simp
  note k2 = demo_core[OF r2 _ c2]
  have p2: "mpmc_pop (se_spurious demo_env) (cl_queues s2 ! 0) = Inr (Inl Empty, cl_queues s2 ! 0)"
    using k2(5) s2(2) by (intro ring.pop_none) simp
  have i2: "worker_step demo_env eager_enter (Inbound 16) ?v2 = Inr (Completions False, ?v2)"
    using k2(1,2) p2 by (simp add: numeral_eq_Suc inbound_pass_def)
  have e2: "core_event demo_env (Inbound 16) ?v2 = []" using k2(1) p2 by (simp add: numeral_eq_Suc core_event_def)
  obtain s3 pc3 w3 where r3: "demo_reach s3" and t3: "worker_step demo_env eager_enter (Inbound 16) ?v2 = Inr (pc3, w3)"
    and s3': "s3 = s2\<lparr>cl_cores := (cl_cores s2)[0 := Running pc3 w3], cl_queues := wk_queues w3, cl_log := cl_log s2 @ core_event demo_env (Inbound 16) ?v2\<rparr>"
    by (rule demo_busy[OF r2 _ c2]) simp_all
  have "pc3 = Completions False" "w3 = ?v2" using t3 i2 by simp_all
  then have s3: "s3 = s2\<lparr>cl_cores := [Running (Completions False) ?v2, Running Waiting w1]\<rparr>" unfolding s3' e2 by (simp add: s2)
  have c3: "cl_cores s3 ! 0 = Running (Completions False) ?v2" "cl_cores s3 ! 1 = Running Waiting w1" "cl_log s3 = []" "cl_queues s3 = cl_queues s2"
    using s3 s2 by simp_all
  note k3 = demo_core[OF r3 _ c3(1)] demo_core(5)[OF r3 _ c3(2)]
  have peek: "peek_cqe (wk_ring v) = Inr (Some demo_cqe)" using peek_cqe_queue[of 2 "wk_ring v"] k2(3) v(1) by simp
  have put: "put_of demo_cqe ?v2 = Some (7, 9)" using v(2,3) by (intro put_command_of) (simp_all add: put_command_def buf_off_def)
  obtain q' where q': "mpmc_push (se_spurious demo_env) (ReplicateWrite 7 9) (cl_queues s2 ! 1) = Inr (Inr (), q')"
    using ring.push_room[of 11 "cl_queues s2 ! 1" "[]" "se_spurious demo_env" "ReplicateWrite 7 9"] k3(6) c3(3,4) by auto
  have e3: "core_event demo_env (Completions False) (?v2\<lparr>wk_queues := cl_queues s3\<rparr>) = [Served 0 7 9 True]"
    using peek put q' k3(1,2) c3(4) by (simp add: core_event_def)
  obtain s4 pc w where r4: "demo_reach s4" and t4: "worker_step demo_env eager_enter (Completions False) (?v2\<lparr>wk_queues := cl_queues s3\<rparr>) = Inr (pc, w)"
    and s4: "s4 = s3\<lparr>cl_cores := (cl_cores s3)[0 := Running pc w], cl_queues := wk_queues w,
      cl_log := cl_log s3 @ core_event demo_env (Completions False) (?v2\<lparr>wk_queues := cl_queues s3\<rparr>)\<rparr>"
    by (rule demo_busy[OF r3 _ c3(1)]) simp_all
  have "pc = Completions True"
    using t4 peek by (auto simp: completion_pass_def demo_cqe_def handle_cqe_def IORING_CQE_F_BUFFER_def opcode_defs dest: handle_recv_cases(1))
  then have "cl_cores s4 = [Running (Completions True) w, Running Waiting w1]" "cl_log s4 = [Served 0 7 9 True]"
    unfolding s4 e3 c3(3) by (simp_all add: s3)
  then show ?thesis using r4 by blast
qed

lemma demo_run:
  "\<exists>s w0 w1. demo_reach s \<and> cl_log s = [Served 0 7 9 True, Applied 1 7 9] \<and> cl_cores s = [Running (Completions True) w0, Running (Inbound 15) w1]"
proof -
  obtain s4 w w1 where r4: "demo_reach s4" and s4: "cl_cores s4 = [Running (Completions True) w, Running Waiting w1]" "cl_log s4 = [Served 0 7 9 True]"
    using demo_served by blast
  obtain s5 ring5 where r5: "demo_reach s5"
    and s5': "s5 = s4\<lparr>cl_cores := (cl_cores s4)[1 := Running (Inbound 16) (w1\<lparr>wk_queues := cl_queues s4, wk_ring := ring5\<rparr>)]\<rparr>"
    by (rule demo_waits[OF r4, of 1 w1]) (simp_all add: s4)
  define v5 where "v5 = w1\<lparr>wk_queues := cl_queues s4, wk_ring := ring5\<rparr>"
  have s5: "cl_cores s5 = [Running (Completions True) w, Running (Inbound 16) v5]" "cl_log s5 = [Served 0 7 9 True]"
    by (simp_all add: s5' s4 v5_def)
  have c5: "cl_cores s5 ! 1 = Running (Inbound 16) v5" using s5 by simp
  note k5 = demo_core[OF r5 _ c5]
  obtain q5 where q5: "mpmc_pop (se_spurious demo_env) (cl_queues s5 ! 1) = Inr (Inr (ReplicateWrite 7 9), q5)"
    using ring.pop_some[of 11 "cl_queues s5 ! 1" "ReplicateWrite 7 9" "[]" "se_spurious demo_env"] k5(5) s5(2) by auto
  have e5: "core_event demo_env (Inbound 16) (v5\<lparr>wk_queues := cl_queues s5\<rparr>) = [Applied 1 7 9]"
    using q5 k5(1) by (simp add: numeral_eq_Suc core_event_def)
  obtain s6 pc6 w6 where r6: "demo_reach s6" and t6: "worker_step demo_env eager_enter (Inbound 16) (v5\<lparr>wk_queues := cl_queues s5\<rparr>) = Inr (pc6, w6)"
    and s6': "s6 = s5\<lparr>cl_cores := (cl_cores s5)[1 := Running pc6 w6], cl_queues := wk_queues w6,
      cl_log := cl_log s5 @ core_event demo_env (Inbound 16) (v5\<lparr>wk_queues := cl_queues s5\<rparr>)\<rparr>"
    by (rule demo_busy[OF r5 _ c5]) simp_all
  have s6: "cl_cores s6 = [Running (Completions True) w, Running pc6 w6]" "cl_log s6 = [Served 0 7 9 True, Applied 1 7 9]"
    unfolding s6' e5 by (simp_all add: s5)
  have "pc6 = Inbound 15" using t6 q5 k5(1,2) by (auto simp: numeral_eq_Suc inbound_pass_def)
  then show ?thesis using r6 s6 by blast
qed


text \<open>The store of core 1 holds the replica of the put that core 0 has served.\<close>

theorem cluster_replicates_witness:
  "\<exists>s w1 db. demo_reach s \<and> cl_log s = [Served 0 7 9 True, Applied 1 7 9] \<and> cl_cores s ! 1 = Running (Inbound 15) w1 \<and> wk_seq w1 = 2 \<and>
     engine_open (core_db_dir ''db'' 1) None None 0xDEADBEEF Map.empty = Inr db \<and>
     put_run (engine_put (\<lambda>_. 9)) [(calm, to_be_bytes (7 :: u64), to_be_bytes (9 :: u64), 1)] db = Inr (wk_db w1)"
proof -
  obtain s w0 w1 where r: "demo_reach s" and s: "cl_cores s = [Running (Completions True) w0, Running (Inbound 15) w1]"
    "cl_log s = [Served 0 7 9 True, Applied 1 7 9]" using demo_run by blast
  have "\<forall>i<2. \<forall>pc w. cl_cores s ! i = Running pc w \<longrightarrow> wk_seq w = 1 + of_nat (length (writes_at i (cl_log s))) \<and>
       (\<exists>db. engine_open (core_db_dir ''db'' i) (st_mkdir demo_start) (st_wal demo_start) (st_rng demo_start) Map.empty = Inr db \<and>
          put_run (engine_put (se_crc demo_env)) (inbound_writes demo_env 1 (writes_at i (cl_log s))) db = Inr (wk_db w))"
    using cluster_replicates[OF r[unfolded demo_reach_def] demo_setup_ok demo_env_ok] by simp
  from this[rule_format, of 1 "Inbound 15" w1] show ?thesis using r s by (auto simp: demo_start_def demo_env_def)
qed

end
