(* ===== verification/Clients.thy ===== *)
theory Clients
  imports Server_Props
begin

text \<open>
  The programs that talk to the server: the load generator \<^verbatim>\<open>src/uring-engine/src/bin/load_gen.rs\<close>, the echo
  benchmark \<^verbatim>\<open>src/uring-engine/src/bin/bench.rs\<close> and the baseline server
  \<^verbatim>\<open>src/uring-engine/src/bin/tokio_server.rs\<close>, as far as they send, count and echo bytes, and what the server
  makes of what they send. Connecting, sleeping and printing are left out; how each call on a socket ends is
  an argument.
\<close>

section \<open>The load generator\<close>

definition pipeline_depth :: nat where "pipeline_depth = 16"

definition load_cmd :: "nat \<Rightarrow> nat \<Rightarrow> bytes" where
  "load_cmd t i = (let key = of_nat (t * 10000000 + i) :: u64; val = key * 2 in
     [1] @ to_be_bytes key @ to_be_bytes val)"

definition batch_buf :: "nat \<Rightarrow> bytes" where
  "batch_buf t = concat (map (load_cmd t) [0..<pipeline_depth])"

text \<open>One pass over the streams, with how each \<open>write_all\<close> ends: the streams still alive and the operations counted.\<close>

fun send_all :: "bool list \<Rightarrow> nat \<times> u64 \<Rightarrow> nat \<times> u64" where
  "send_all [] (active_streams, ops) = (active_streams, ops)"
| "send_all (ok # oks) (active_streams, ops) =
     send_all oks (if ok then (active_streams + 1, ops + of_nat pipeline_depth) else (active_streams, ops))"

text \<open>The loop of a thread, one list of answers per pass while it is told to run.\<close>

fun load_loop :: "bool list list \<Rightarrow> u64 \<Rightarrow> u64" where
  "load_loop [] ops = ops"
| "load_loop (oks # rounds) ops =
     (let (active_streams, ops) = send_all oks (0, ops) in
      if active_streams = 0 then ops else load_loop rounds ops)"

section \<open>The echo benchmark and the baseline server\<close>

definition PAYLOAD :: bytes where
  "PAYLOAD = map (\<lambda>c. of_nat (of_char c)) ''PING_PAYLOAD_32_BYTES_RECORD_OK!''"

text \<open>The loop of a connection while it is told to run: how \<open>write_all\<close> and \<open>read_exact\<close> end.\<close>

fun bench_loop :: "(bool \<times> bool) list \<Rightarrow> u64 \<Rightarrow> u64" where
  "bench_loop [] ops = ops"
| "bench_loop ((write_ok, read_ok) # rounds) ops =
     (if \<not> write_ok then ops else if \<not> read_ok then ops else bench_loop rounds (ops + 1))"

text \<open>
  A connection of the baseline server: each \<open>read\<close> fails or gives some bytes, none at the end of the stream,
  and each \<open>write_all\<close> succeeds or not. The result is what it has written.
\<close>

fun tokio_conn :: "((unit + bytes) \<times> bool) list \<Rightarrow> bytes" where
  "tokio_conn [] = []"
| "tokio_conn ((Inl _, _) # rest) = []"
| "tokio_conn ((Inr bs, write_ok) # rest) =
     (if bs = [] then [] else if \<not> write_ok then [] else bs @ tokio_conn rest)"

section \<open>What the server makes of it\<close>

lemma send_all_count: "send_all oks (a, ops) = (a + length (filter id oks), ops + of_nat (16 * length (filter id oks)))"
  by (induction oks arbitrary: a ops) (simp_all add: pipeline_depth_def algebra_simps)

lemma length_load_cmd [simp]: "length (load_cmd t i) = 17"
  by (simp add: load_cmd_def Let_def)

lemma batch_first: "batch_buf t = load_cmd t 0 @ concat (map (load_cmd t) [1..<pipeline_depth])"
  by (simp add: batch_buf_def pipeline_depth_def upt_conv_Cons del: upt_rec_numeral)

lemma length_batch: "length (batch_buf t) = 272"
  by (simp add: batch_buf_def pipeline_depth_def length_concat comp_def sum_list_triv del: upt_rec_numeral)

lemma batch_put_command:
  assumes "subslice (br_storage (wk_buf w)) (buf_off w bid) (buf_off w bid + 272) = batch_buf t"
  shows "put_command w bid (of_nat (t * 10000000)) (of_nat (t * 10000000) * 2)"
proof -
  have "subslice (br_storage (wk_buf w)) (buf_off w bid) (buf_off w bid + 17) = take 17 (batch_buf t)"
    using subslice_parts[OF assms, of 17] by simp
  also have "\<dots> = load_cmd t 0" by (simp add: batch_first)
  finally show ?thesis by (simp add: put_command_def load_cmd_def Let_def)
qed

lemma echo_request:
  assumes "worker_ok k b w" "unat bid < 2 ^ b" "9 \<le> n"
    and "br_storage (wk_buf w) ! buf_off w bid \<notin> {1, 2}"
  shows "handle_request se fd bid n w = Inr (False, w)"
proof -
  let ?st = "br_storage (wk_buf w)" and ?o = "buf_off w bid"
  have room: "?o + m \<le> length ?st" if "m \<le> 17" for m using that by (rule buf_room[OF assms(1,2)])
  have "slice_raw ?st ?o 1 = Inr [?st ! ?o]" using room[of 1] by (simp add: slice_raw_def subslice_def take_Suc_conv_app_nth)
  moreover obtain ks where "slice_raw ?st (?o + 1) 8 = Inr ks" using room[of 9] by (simp add: slice_raw_def)
  ultimately show ?thesis using assms(3,4) by (simp add: handle_request_def Let_def)
qed

text \<open>A worker with one buffer of any size.\<close>

definition big_worker :: "bytes \<Rightarrow> engine \<Rightarrow> inter_core_task mpmc \<Rightarrow> worker" where
  "big_worker st db q = (let w = demo_worker st db q in w\<lparr>wk_buf := (wk_buf w)\<lparr>br_size := length st\<rparr>\<rparr>)"

lemma big_worker_example:
  assumes "17 \<le> length st"
  obtains db q where "worker_ok 1 0 (big_worker st db q)" "sq_queue (wk_ring (big_worker st db q)) = []"
proof -
  obtain db where e: "live_engine db" using demo_engine by blast
  obtain m q where "ring_repr m q ([] :: inter_core_task list)" using demo_queue by blast
  then have q: "queue_ok q" by (auto simp: queue_ok_def)
  let ?w = "demo_worker (replicate 17 0) db q"
  have "worker_ok 1 0 ?w" "sq_queue (wk_ring ?w) = []" using demo_ok[OF e q] by simp_all
  then have "worker_ok 1 0 (big_worker st db q)" "sq_queue (wk_ring (big_worker st db q)) = []"
    using assms by (simp_all add: worker_ok_def big_worker_def demo_worker_def buf_shape_def)
  then show thesis by (rule that)
qed

section \<open>Properties\<close>

text \<open>
  One write in sixteen is carried out: when a batch of the load generator arrives in one receive, the
  server executes its first command, under one sequence number, and drops the other fifteen, while
  the load generator counts sixteen operations for every batch it has sent.
\<close>

theorem batch_executes_first:
  assumes "worker_ok k b w" "env_ok se" "unat bid < 2 ^ b"
    and "subslice (br_storage (wk_buf w)) (buf_off w bid) (buf_off w bid + 272) = batch_buf t"
  shows "(\<exists>r w'. handle_request se fd bid 272 w = Inr (True, w') \<and> wk_seq w' = wk_seq w + 1 \<and>
      engine_put (se_crc se) (se_write se (wk_seq w)) (to_be_bytes (of_nat (t * 10000000) :: u64))
        (to_be_bytes (of_nat (t * 10000000) * 2 :: u64)) (wk_seq w) (wk_db w) = Inr (r, wk_db w')) \<and>
    length (batch_buf t) = 272 \<and> send_all oks (0, ops) = (length (filter id oks), ops + of_nat (16 * length (filter id oks)))"
proof -
  let ?t = "(wk_core w + 1) mod length (wk_queues w)"
  note p = batch_put_command[OF assms(4)]
  have "wk_queues w \<noteq> []" using assms(1) by (auto simp: worker_ok_def)
  then have "?t < length (wk_queues w)" by (intro mod_less_divisor) simp
  then have "queue_ok (wk_queues w ! ?t)" using assms(1) by (simp add: worker_ok_def)
  then obtain m ts where q: "ring_repr m (wk_queues w ! ?t) ts" by (auto simp: queue_ok_def)
  have "handle_request se fd bid 272 w =
      and_then (handle_put se (of_nat (t * 10000000)) (of_nat (t * 10000000) * 2) w) (\<lambda>w. Inr (True, w))"
    by (rule put_command_request[OF assms(1,3) p]) simp
  with handle_put_spec[OF assms(1,2) q, of "of_nat (t * 10000000)" "of_nat (t * 10000000) * 2"] show ?thesis
    by (auto simp: length_batch send_all_count)
qed

theorem batch_executes_first_witness:
  "\<exists>w w'. subslice (br_storage (wk_buf w)) 0 272 = batch_buf 3 \<and> handle_request demo_env 5 0 272 w = Inr (True, w') \<and>
     wk_seq w' = wk_seq w + 1 \<and> send_all [True] (0, 0) = (1, 16)"
proof -
  let ?st = "batch_buf 3"
  have l: "17 \<le> length ?st" by (simp add: length_batch)
  obtain db q where w: "worker_ok 1 0 (big_worker ?st db q)" by (rule big_worker_example[OF l])
  let ?w = "big_worker ?st db q"
  have c: "subslice (br_storage (wk_buf ?w)) (buf_off ?w 0) (buf_off ?w 0 + 272) = ?st"
    by (simp add: big_worker_def demo_worker_def buf_off_def subslice_def length_batch)
  from batch_executes_first[OF w demo_env_ok _ c, of 5 "[True]" 0] c show ?thesis
    by (fastforce simp: buf_off_def)
qed

text \<open>
  The benchmark is answered by its own bytes: a received payload of the echo benchmark is no command, so the
  server queues a send of the same 32 bytes from the buffer they arrived in, to the same connection, and leaves its store
  alone; the baseline server writes the same bytes.
\<close>

theorem bench_payload_echoed:
  assumes "worker_ok k b w" "unat bid < 2 ^ b" "length (sq_queue (wk_ring w)) < 2 ^ k"
    and "subslice (br_storage (wk_buf w)) (buf_off w bid) (buf_off w bid + 32) = PAYLOAD"
    and "flags AND IORING_CQE_F_BUFFER \<noteq> 0" "bid = ucast (drop_bit IORING_CQE_BUFFER_SHIFT flags)"
    and "unat (br_tail (wk_buf w) - head) < 2 ^ b"
  shows "(\<exists>w'. handle_recv se fd 32 flags w = Inr (True, w') \<and> wk_db w' = wk_db w \<and> br_storage (wk_buf w') = br_storage (wk_buf w) \<and>
      sq_queue (wk_ring w') = sq_queue (wk_ring w) @ [prep_send (se_nosignal se) fd (get_buffer_ptr (wk_buf w) bid) 32 sqe_default]) \<and>
    tokio_conn [(Inr PAYLOAD, True)] = PAYLOAD"
proof -
  have l: "length PAYLOAD = 32" "PAYLOAD ! 0 = 0x50" by (simp_all add: PAYLOAD_def)
  have "br_storage (wk_buf w) ! buf_off w bid = PAYLOAD ! 0"
    using arg_cong[OF assms(4), of "\<lambda>bs. bs ! 0"] buf_room[OF assms(1,2), of 1] by (simp add: subslice_def)
  then have r: "handle_request se fd bid 32 w = Inr (False, w)" using l(2) by (intro echo_request[OF assms(1,2)]) simp_all
  obtain got u where u: "try_sqe (prep_send (se_nosignal se) fd (get_buffer_ptr (wk_buf w) bid) 32) w = Inr (got, w\<lparr>wk_ring := u\<rparr>)"
    "got \<longleftrightarrow> length (sq_queue (wk_ring w)) < 2 ^ k"
    "sq_queue u = (if got then sq_queue (wk_ring w) @ [prep_send (se_nosignal se) fd (get_buffer_ptr (wk_buf w) bid) 32 sqe_default] else sq_queue (wk_ring w))"
    by (rule try_sqe_ok[OF assms(1)])
  have sh: "buf_shape b (wk_buf w)" using assms(1) by (simp add: worker_ok_def)
  obtain br where br: "buf_recycle bid (wk_buf w) = Inr br" "br_storage br = br_storage (wk_buf w)"
    by (rule buf_recycle_filled[OF sh assms(7), of bid])
  have "\<exists>w'. handle_recv se fd 32 flags w = Inr (True, w') \<and> wk_db w' = wk_db w \<and> br_storage (wk_buf w') = br_storage (wk_buf w) \<and>
      sq_queue (wk_ring w') = sq_queue (wk_ring w) @ [prep_send (se_nosignal se) fd (get_buffer_ptr (wk_buf w) bid) 32 sqe_default]"
    using r u assms(3,5) br by (simp add: handle_recv_def Let_def flip: assms(6))
  moreover have "PAYLOAD \<noteq> []" using l(1) by auto
  ultimately show ?thesis by simp
qed

theorem bench_payload_echoed_witness:
  "\<exists>w w'. handle_recv demo_env 5 32 1 w = Inr (True, w') \<and> sq_queue (wk_ring w) = [] \<and>
     sq_queue (wk_ring w') = [prep_send 0x4000 5 8192 32 sqe_default]"
proof -
  have l: "17 \<le> length PAYLOAD" by (simp add: PAYLOAD_def)
  obtain db q where w: "worker_ok 1 0 (big_worker PAYLOAD db q)" "sq_queue (wk_ring (big_worker PAYLOAD db q)) = []"
    by (rule big_worker_example[OF l])
  let ?w = "big_worker PAYLOAD db q"
  have c: "subslice (br_storage (wk_buf ?w)) (buf_off ?w 0) (buf_off ?w 0 + 32) = PAYLOAD"
    by (simp add: big_worker_def demo_worker_def buf_off_def subslice_def PAYLOAD_def)
  have f: "(1 :: u32) AND IORING_CQE_F_BUFFER \<noteq> 0" "(0 :: u16) = ucast (drop_bit IORING_CQE_BUFFER_SHIFT (1 :: u32))"
    by (simp_all add: IORING_CQE_F_BUFFER_def IORING_CQE_BUFFER_SHIFT_def)
  have t: "unat (br_tail (wk_buf ?w) - 0) < 2 ^ 0" "get_buffer_ptr (wk_buf ?w) 0 = 8192" "se_nosignal demo_env = 0x4000"
    by (simp_all add: big_worker_def demo_worker_def get_buffer_ptr_def demo_env_def)
  from bench_payload_echoed[OF w(1) _ _ c f t(1), of demo_env 5] w(2) t(2,3) show ?thesis by (auto simp del: power_0)
qed

end
