(* ===== verification/Engine_Benchmark.thy ===== *)
theory Engine_Benchmark
  imports Compaction Skiplist
begin

text \<open>
  The benchmark of \<^verbatim>\<open>src/tier3_storage/src/bin/engine_benchmark.rs\<close>, which puts the parts together without the engine:
  it fills a skip list, writes tables of level 0 with the table writer and hands each to the compactor, then opens the tables of level 1 and looks every key up.
  \<open>engine_benchmark\<close> is \<open>main\<close> with the two constants as arguments; its report holds the numbers that are printed,
  except the times and the rates computed from them. The constants of the source are far below the limits of its 32-bit counters, which are numbers here.

  Shown is that the three phases return and that no key is lost on the way through the levels. The lemmas on the compactor are those of \<open>Compaction\<close>.
\<close>

section \<open>Numbers with leading zeros\<close>

text \<open>\<open>format!("{:0w}", n)\<close>, and \<open>into_bytes\<close> of an ASCII string.\<close>

definition padded :: "nat \<Rightarrow> nat \<Rightarrow> string" where
  "padded w n = (let ds = digits n in replicate (w - length ds) CHR ''0'' @ ds)"

definition ascii_bytes :: "string \<Rightarrow> bytes" where
  "ascii_bytes = map (\<lambda>c. of_nat (of_char c))"

definition digit :: "char \<Rightarrow> nat" where
  "digit c = of_char c - 48"

fun decimal :: "string \<Rightarrow> nat" where
  "decimal [] = 0"
| "decimal (c # cs) = digit c * 10 ^ length cs + decimal cs"

definition is_digit :: "char \<Rightarrow> bool" where
  "is_digit c \<longleftrightarrow> 48 \<le> (of_char c :: nat) \<and> (of_char c :: nat) < 58"

lemma of_char_digit [simp]: "n < 10 \<Longrightarrow> (of_char (char_of (48 + n) :: char) :: nat) = 48 + n"
  by (simp add: of_char_of)

lemma is_digit_char [simp]: "(n :: nat) < 10 \<Longrightarrow> is_digit (char_of (48 + n))" "is_digit CHR ''0''"
  by (simp_all add: is_digit_def)

lemma is_digitD: "is_digit c \<Longrightarrow> (of_char c :: nat) = 48 + digit c \<and> digit c < 10"
  by (auto simp: is_digit_def digit_def)

lemma decimal_snoc: "decimal (cs @ [c]) = 10 * decimal cs + digit c"
  by (induction cs) simp_all

lemma digits_facts: "decimal (digits n) = n" "list_all is_digit (digits n)" "n < 10 ^ w \<Longrightarrow> 0 < w \<Longrightarrow> length (digits n) \<le> w" "digits n \<noteq> []"
proof -
  show "decimal (digits n) = n"
    by (induction n rule: digits.induct, subst digits.simps) (simp add: decimal_snoc digit_def)
  show "list_all is_digit (digits n)"
    by (induction n rule: digits.induct, subst digits.simps) simp
  show "n < 10 ^ w \<Longrightarrow> 0 < w \<Longrightarrow> length (digits n) \<le> w"
  proof (induction n arbitrary: w rule: digits.induct)
    case (1 n)
    show ?case
    proof (cases "n < 10")
      case True
      then show ?thesis using "1.prems" by (subst digits.simps) simp
    next
      case False
      obtain v where w: "w = Suc v" using "1.prems"(2) by (cases w) auto
      then have "n div 10 < 10 ^ v" "0 < v" using "1.prems"(1) False by (auto simp: less_mult_imp_div_less intro: gr0I)
      then show ?thesis using "1.IH"[OF False, of v] False w by (subst digits.simps) simp
    qed
  qed
  show "digits n \<noteq> []" by (subst digits.simps) simp
qed

lemma decimal_padded: "decimal (padded w n) = n"
proof -
  have "decimal (replicate k CHR ''0'' @ cs) = decimal cs" for k cs by (induction k) (simp_all add: digit_def)
  then show ?thesis by (simp add: padded_def Let_def digits_facts(1))
qed

lemma padded_inj: "padded w n = padded w m \<longleftrightarrow> n = m"
  by (metis decimal_padded)

lemma length_padded: "n < 10 ^ w \<Longrightarrow> 0 < w \<Longrightarrow> length (padded w n) = w"
  using digits_facts(3)[of n w] by (simp add: padded_def Let_def)

lemma padded_digits: "list_all is_digit (padded w n)"
  using digits_facts(2)[of n] by (auto simp: padded_def Let_def list_all_iff)

lemma decimal_less: "list_all is_digit cs \<Longrightarrow> decimal cs < 10 ^ length cs"
proof (induction cs)
  case (Cons c cs)
  then have "digit c \<le> 9" using is_digitD[of c] by simp
  then have "digit c * 10 ^ length cs \<le> 9 * 10 ^ length cs" by (rule mult_le_mono1)
  moreover have "decimal cs < 10 ^ length cs" using Cons by simp
  ultimately have "digit c * 10 ^ length cs + decimal cs < 9 * 10 ^ length cs + 10 ^ length cs" by (rule add_le_less_mono)
  then show ?case by simp
qed simp

text \<open>Of two strings of digits of the same length the one with the smaller number comes first.\<close>

lemma digits_order:
  "length cs = length ds \<Longrightarrow> list_all is_digit cs \<Longrightarrow> list_all is_digit ds \<Longrightarrow> decimal cs < decimal ds \<Longrightarrow> ascii_bytes cs < ascii_bytes ds"
proof (induction cs ds rule: list_induct2)
  case (Cons c cs d ds)
  have b: "decimal cs < 10 ^ length ds" "decimal ds < 10 ^ length ds" using decimal_less[of cs] decimal_less[of ds] Cons.prems Cons.hyps by auto
  have byte: "(of_nat (of_char c) :: byte) < of_nat (of_char d)" if "digit c < digit d"
  proof -
    have "(of_char c :: nat) < of_char d" "(of_char d :: nat) < 2 ^ 8" using that Cons.prems is_digitD[of c] is_digitD[of d] by auto
    then show ?thesis by (simp add: word_of_nat_less_iff take_bit_nat_eq_self)
  qed
  show ?case
  proof (cases "digit c = digit d")
    case True
    then have "(of_char c :: nat) = of_char d" using Cons.prems is_digitD[of c] is_digitD[of d] by simp
    then show ?thesis using Cons.IH Cons.prems True Cons.hyps by (simp add: ascii_bytes_def)
  next
    case False
    have "digit c < digit d"
    proof (rule ccontr)
      assume "\<not> digit c < digit d"
      then have "Suc (digit d) * 10 ^ length ds \<le> digit c * 10 ^ length ds" using False by (intro mult_le_mono1) simp
      then show False using Cons.prems(3) b Cons.hyps by simp
    qed
    then show ?thesis using byte by (simp add: ascii_bytes_def)
  qed
qed simp

lemma padded_order:
  assumes "i < j" "j < 10 ^ w" "0 < w"
  shows "ascii_bytes (padded w i) < ascii_bytes (padded w j)"
proof (rule digits_order)
  show "length (padded w i) = length (padded w j)" using assms by (simp add: length_padded)
qed (use assms in \<open>simp_all add: padded_digits decimal_padded\<close>)


section \<open>The program\<close>

text \<open>The answers of the system: to the creation of table \<open>t\<close> and the writes to it, to the compaction after it, and to \<open>mmap\<close>.\<close>

record bench_answers =
  ba_create :: "nat \<Rightarrow> io_kind option"
  ba_writes :: "nat \<Rightarrow> io_kind option list"
  ba_merge_create :: "nat \<Rightarrow> io_kind option"
  ba_merge_writes :: "nat \<Rightarrow> io_kind option list"
  ba_mmap :: "path \<Rightarrow> nat option"

definition total_operations :: nat where
  "total_operations = 400000"

definition keys_per_sstable :: nat where
  "keys_per_sstable = 10000"

definition bench_entry :: "nat \<Rightarrow> entry" where
  "bench_entry i = (ascii_bytes (''k_'' @ padded 8 i), Some (ascii_bytes (''v_'' @ padded 8 i)), of_nat i)"

text \<open>Phase 1: the memtable; \<open>weak i\<close> tells whether the weak compare-exchange of insert \<open>i\<close> succeeds.\<close>

definition bench_fill :: "(nat \<Rightarrow> bool) \<Rightarrow> u32 \<Rightarrow> nat \<Rightarrow> (skiplist \<times> u32) result" where
  "bench_fill weak rng ops = insert_all sl_insert (map (\<lambda>i. (weak i, bench_entry i)) [0..<ops]) rng skiplist_new"

text \<open>Phase 2: the tables of level 0, each followed by a call of the compactor. Every \<open>unwrap\<close> is a panic.\<close>

definition l0_path :: "path \<Rightarrow> nat \<Rightarrow> path" where
  "l0_path db_path t = path_join db_path (padded 6 t @ ''_L0.sst'')"

definition bench_table :: "bench_answers \<Rightarrow> path \<Rightarrow> nat \<Rightarrow> nat \<Rightarrow> u64 \<times> disk \<times> compactor \<Rightarrow> (u64 \<times> disk \<times> compactor) result" where
  "bench_table ba db_path keys_per t st = (case st of (total_bytes_written, disk, c) \<Rightarrow>
     let sst_path = l0_path db_path t; start_k = t * keys_per; end_k = start_k + keys_per in
     case sst_write (ba_create ba t) (ba_writes ba t) (map bench_entry [start_k..<end_k]) of
       Inl _ \<Rightarrow> Inl Panic
     | Inr (written_bytes, file) \<Rightarrow> (let disk = disk(sst_path \<mapsto> file) in
         case sst_open (open_file disk sst_path) (ba_mmap ba sst_path) of
           Inl _ \<Rightarrow> Inl Panic
         | Inr reader \<Rightarrow>
             (case sst_get_first_key reader of
                Inl f \<Rightarrow> Inl f
              | Inr None \<Rightarrow> Inl Panic
              | Inr (Some smallest) \<Rightarrow>
                  (case sst_get_last_key reader of
                     None \<Rightarrow> Inl Panic
                   | Some largest \<Rightarrow>
                       (case maybe_schedule_compaction (ba_mmap ba) (ba_merge_create ba t) (ba_merge_writes ba t) disk
                               (add_l0_table sst_path smallest largest c) of
                          Inl f \<Rightarrow> Inl f
                        | Inr (_, c, disk) \<Rightarrow> Inr (total_bytes_written + written_bytes, disk, c))))))"

fun bench_tables :: "bench_answers \<Rightarrow> path \<Rightarrow> nat \<Rightarrow> nat list \<Rightarrow> u64 \<times> disk \<times> compactor \<Rightarrow> (u64 \<times> disk \<times> compactor) result" where
  "bench_tables ba db_path keys_per [] st = Inr st"
| "bench_tables ba db_path keys_per (t # ts) st =
     (case bench_table ba db_path keys_per t st of Inl f \<Rightarrow> Inl f | Inr st \<Rightarrow> bench_tables ba db_path keys_per ts st)"

text \<open>Phase 3: readers of level 1, and a lookup of every key in one reader after the other.\<close>

fun bench_readers :: "bench_answers \<Rightarrow> disk \<Rightarrow> table_metadata list \<Rightarrow> sst_reader list result" where
  "bench_readers ba disk [] = Inr []"
| "bench_readers ba disk (m # ms) =
     (case sst_open (open_file disk (tm_path m)) (ba_mmap ba (tm_path m)) of
        Inl _ \<Rightarrow> Inl Panic
      | Inr r \<Rightarrow> (case bench_readers ba disk ms of Inl f \<Rightarrow> Inl f | Inr rs \<Rightarrow> Inr (r # rs)))"

fun bench_hit :: "bool \<Rightarrow> sst_reader list \<Rightarrow> bytes \<Rightarrow> nat result" where
  "bench_hit avx2 [] key = Inr 0"
| "bench_hit avx2 (r # rs) key =
     (case sst_get avx2 r key of Inl f \<Rightarrow> Inl f | Inr (Some _) \<Rightarrow> Inr 1 | Inr None \<Rightarrow> bench_hit avx2 rs key)"

fun bench_reads :: "bool \<Rightarrow> sst_reader list \<Rightarrow> nat list \<Rightarrow> nat \<Rightarrow> nat result" where
  "bench_reads avx2 rs [] hits = Inr hits"
| "bench_reads avx2 rs (i # is) hits =
     (case bench_hit avx2 rs (fst (bench_entry i)) of Inl f \<Rightarrow> Inl f | Inr h \<Rightarrow> bench_reads avx2 rs is (hits + h))"

text \<open>What is printed: the tables of both levels, the hits, and the bytes written and stored for the amplification.\<close>

record bench_report =
  rp_l1_tables :: nat
  rp_l0_tables :: nat
  rp_hits :: nat
  rp_bytes_written :: u64
  rp_logical_size :: nat

definition engine_benchmark :: "bench_answers \<Rightarrow> bool \<Rightarrow> (nat \<Rightarrow> bool) \<Rightarrow> u32 \<Rightarrow> path \<Rightarrow> nat \<Rightarrow> nat \<Rightarrow> bench_report result" where
  "engine_benchmark ba avx2 weak rng db_path ops keys_per =
     (case bench_fill weak rng ops of
        Inl f \<Rightarrow> Inl f
      | Inr _ \<Rightarrow>
          (case bench_tables ba db_path keys_per [0..<ops div keys_per] (0, Map.empty, compactor_new db_path 1) of
             Inl f \<Rightarrow> Inl f
           | Inr (total_bytes_written, disk, c) \<Rightarrow>
               (case bench_readers ba disk (cp_l1 c) of
                  Inl f \<Rightarrow> Inl f
                | Inr readers \<Rightarrow>
                    (case bench_reads avx2 readers [0..<ops] 0 of
                       Inl f \<Rightarrow> Inl f
                     | Inr hits \<Rightarrow> Inr \<lparr>rp_l1_tables = length (cp_l1 c), rp_l0_tables = length (cp_l0 c), rp_hits = hits,
                         rp_bytes_written = total_bytes_written, rp_logical_size = ops * (10 + 10)\<rparr>))))"


section \<open>Keys and names\<close>

lemma ascii_append: "ascii_bytes (xs @ ys) = ascii_bytes xs @ ascii_bytes ys"
  by (simp add: ascii_bytes_def)

lemma length_ascii [simp]: "length (ascii_bytes xs) = length xs"
  by (simp add: ascii_bytes_def)

lemma prefix_less: "xs < ys \<Longrightarrow> zs @ xs < zs @ ys" for xs ys zs :: bytes
  by (induction zs) simp_all

lemma bench_key_order: "i < j \<Longrightarrow> j < 10 ^ 8 \<Longrightarrow> fst (bench_entry i) < fst (bench_entry j)"
  using prefix_less[OF padded_order[of i j 8], of "ascii_bytes ''k_''"] by (simp only: bench_entry_def fst_conv ascii_append)

lemma bench_key_inj: "i < 10 ^ 8 \<Longrightarrow> j < 10 ^ 8 \<Longrightarrow> fst (bench_entry i) = fst (bench_entry j) \<longleftrightarrow> i = j"
  using bench_key_order[of i j] bench_key_order[of j i] by (cases i j rule: linorder_cases) auto

lemma bench_keys_sorted: "n \<le> 10 ^ 8 \<Longrightarrow> sorted_wrt (<) (map fst (map bench_entry [m..<n]))"
  unfolding map_map sorted_wrt_map by (rule sorted_wrt_mono_rel[OF _ sorted_wrt_upt]) (auto intro!: bench_key_order)

lemma bench_entry_size: "i < 10 ^ 8 \<Longrightarrow> length (enc_entry (bench_entry i)) = 36 \<and> entry_ok (bench_entry i)"
  using length_padded[of i 8] by (simp add: bench_entry_def length_enc_entry entry_ok_def)

lemma bench_block_size: "n \<le> 10 ^ 8 \<Longrightarrow> length (enc_block (map bench_entry [m..<n])) = 36 * (n - m)"
proof (induction n)
  case (Suc n)
  then show ?case using bench_entry_size[of n] by (cases "m \<le> n") (auto simp: enc_block_def Suc_diff_le)
qed (simp add: enc_block_def)

lemma bench_one_value: "set es \<subseteq> bench_entry ` {..<10 ^ 8} \<Longrightarrow> one_value es"
  unfolding one_value_def
proof (intro ballI impI)
  fix e e'
  assume es: "set es \<subseteq> bench_entry ` {..<10 ^ 8}" and e: "e \<in> set es" "e' \<in> set es" "fst e = fst e'"
  obtain i where i: "i < 10 ^ 8" "e = bench_entry i" using subsetD[OF es e(1)] by blast
  obtain j where j: "j < 10 ^ 8" "e' = bench_entry j" using subsetD[OF es e(2)] by blast
  show "e = e'" using bench_key_inj[OF i(1) j(1)] e(3) i(2) j(2) by simp
qed

lemma path_join_inj: "path_join d a = path_join d b \<longleftrightarrow> a = b"
  by (simp add: path_join_def)

lemma l0_path_inj: "l0_path db t = l0_path db u \<longleftrightarrow> t = u"
  by (simp add: l0_path_def path_join_inj padded_inj)

lemma l1_path_padded: "l1_path db i = path_join db (padded 6 (unat i) @ ''_L1.sst'')"
  by (simp add: l1_path_def padded_def Let_def)

lemma l1_path_inj: "l1_path db i = l1_path db j \<longleftrightarrow> i = j"
proof -
  have "l1_path db i = l1_path db j \<longleftrightarrow> unat i = unat j" by (simp add: l1_path_padded path_join_inj padded_inj)
  then show ?thesis using word_unat_eq_iff[of i j] by blast
qed

lemma l0_l1_path: "l0_path db t \<noteq> l1_path db i"
  by (simp add: l0_path_def l1_path_padded path_join_inj append_eq_append_conv)


section \<open>The phases\<close>

text \<open>A table added to level 0.\<close>

lemma add_l0_levels_ok:
  assumes ok: "levels_ok disk ent c" and fresh: "disk p = None" and t: "table_of es f"
    and es: "es \<noteq> []" "sorted_wrt (<) (map fst es)"
    and fits: "entries_fit (es @ versions ent (cp_l0 c @ cp_l1 c))" "one_value (es @ versions ent (cp_l0 c @ cp_l1 c))"
  defines "c' \<equiv> add_l0_table p (fst (hd es)) (fst (last es)) c"
  shows "levels_ok (disk(p \<mapsto> f)) (ent(p := es)) c'" "mset (versions (ent(p := es)) (cp_l0 c' @ cp_l1 c')) = mset (es @ versions ent (cp_l0 c @ cp_l1 c))"
proof -
  let ?ent = "ent(p := es)" and ?m = "\<lparr>tm_id = cp_next_sst_id c, tm_path = p, smallest_key = fst (hd es), largest_key = fst (last es)\<rparr>"
  have old: "tm_path m \<noteq> p" if "m \<in> set (cp_l0 c @ cp_l1 c)" for m
    using ok fresh that unfolding levels_ok_def table_holds_def by (metis option.distinct(1))
  have same: "versions ?ent ms = versions ent ms" if "set ms \<subseteq> set (cp_l0 c @ cp_l1 c)" for ms
    using that old by (intro versions_cong) auto
  have levels: "cp_l0 c' = cp_l0 c @ [?m]" "cp_l1 c' = cp_l1 c" by (simp_all add: c'_def add_l0_table_def)
  show v: "mset (versions ?ent (cp_l0 c' @ cp_l1 c')) = mset (es @ versions ent (cp_l0 c @ cp_l1 c))"
    using same[of "cp_l0 c"] same[of "cp_l1 c"] by (simp add: levels)
  have holds: "table_holds (disk(p \<mapsto> f)) m (?ent (tm_path m))" if "m \<in> set (cp_l0 c' @ cp_l1 c')" for m
  proof (cases "m = ?m")
    case False
    then have "m \<in> set (cp_l0 c @ cp_l1 c)" using that by (auto simp: levels)
    then show ?thesis using ok old[of m] by (auto simp: levels_ok_def table_holds_def)
  qed (use t es in \<open>simp add: table_holds_def\<close>)
  have l0: "?ent (tm_path m) \<noteq> [] \<and> sorted_wrt version_le (?ent (tm_path m))" if "m \<in> set (cp_l0 c')" for m
    using that ok old[of m] es strict_keys_version by (auto simp: levels levels_ok_def)
  have l1: "sorted_wrt (<) (map fst (?ent (tm_path m)))" if "m \<in> set (cp_l1 c')" for m
    using that ok old[of m] by (auto simp: levels levels_ok_def)
  have "sorted_wrt (before ent) (cp_l1 c)" using ok by (simp add: levels_ok_def)
  then have bef: "sorted_wrt (before ?ent) (cp_l1 c')"
    unfolding levels by (rule sorted_wrt_mono_rel[rotated]) (use old in \<open>auto simp: before_def\<close>)
  have dist: "distinct (map tm_path (cp_l0 c' @ cp_l1 c'))" using ok old by (auto simp: levels levels_ok_def)
  have "entries_fit (versions ?ent (cp_l0 c' @ cp_l1 c'))" by (rule entries_fit_mono[OF fits(1)]) (simp only: v)
  moreover have "one_value (versions ?ent (cp_l0 c' @ cp_l1 c'))" using one_value_mono[OF fits(2)] mset_eq_setD[OF v] by blast
  ultimately show "levels_ok (disk(p \<mapsto> f)) ?ent c'" using holds l0 l1 bef dist by (simp add: levels_ok_def)
qed

text \<open>After \<open>t\<close> tables the levels hold exactly the first \<open>t * keys_per\<close> entries.\<close>

definition bench_inv :: "path \<Rightarrow> nat \<Rightarrow> nat \<Rightarrow> disk \<Rightarrow> compactor \<Rightarrow> (path \<Rightarrow> entry list) \<Rightarrow> bool" where
  "bench_inv db keys_per t disk c ent \<longleftrightarrow> levels_ok disk ent c \<and> length (cp_l0 c) = t mod 4 \<and> cp_db_dir c = db \<and>
     set (versions ent (cp_l0 c @ cp_l1 c)) = bench_entry ` {..<t * keys_per} \<and>
     length (enc_block (versions ent (cp_l0 c @ cp_l1 c))) \<le> 36 * (t * keys_per) \<and> unat (cp_next_sst_id c) \<le> 1 + 2 * t \<and>
     (\<forall>u\<ge>t. disk (l0_path db u) = None) \<and> (\<forall>i. cp_next_sst_id c \<le> i \<longrightarrow> disk (l1_path db i) = None)"

definition bench_smooth :: "bench_answers \<Rightarrow> bool" where
  "bench_smooth ba \<longleftrightarrow> (\<forall>t. ba_create ba t = None \<and> no_faults (ba_writes ba t) \<and> ba_merge_create ba t = None \<and> no_faults (ba_merge_writes ba t)) \<and>
     ba_mmap ba = (\<lambda>_. None)"

text \<open>A compaction keeps every entry: each key has one version, and none is a tombstone.\<close>

lemma compacted_entries:
  assumes V: "set V = bench_entry ` {..<n}" "n \<le> 10 ^ 8" and sub: "set V' \<subseteq> set V"
    and view: "\<And>key. merged_view True (newest V' key) = merged_view True (newest V key)"
  shows "set V' = bench_entry ` {..<n}"
proof
  show "set V' \<subseteq> bench_entry ` {..<n}" using sub V(1) by simp
  show "bench_entry ` {..<n} \<subseteq> set V'"
  proof
    fix e
    assume "e \<in> bench_entry ` {..<n}"
    then obtain i where i: "i < n" "e = bench_entry i" by blast
    have "fst e \<in> fst ` set V" using V(1) i by auto
    then obtain v s where n: "newest V (fst e) = Some (v, s)" using newest_None[of V "fst e"] by (cases "newest V (fst e)") auto
    obtain j where "j < n" "(fst e, v, s) = bench_entry j" using newest_Some(1)[OF n] V(1) by auto
    then have "v \<noteq> None" by (auto simp: bench_entry_def)
    then have "newest V' (fst e) \<noteq> None" using view[of "fst e"] n by (auto simp: merged_view_def split: option.splits)
    then obtain e' where e': "e' \<in> set V'" "fst e' = fst e" using newest_None[of V' "fst e"] by auto
    then obtain k where k: "k < n" "e' = bench_entry k" using sub V(1) by blast
    have "k < 10 ^ 8" "i < 10 ^ 8" using k(1) i(1) V(2) by simp_all
    then show "e \<in> set V'" using bench_key_inj[of k i] e' k(2) i(2) by simp
  qed
qed

lemma bench_invD:
  assumes "bench_inv db K t disk c ent"
  shows "levels_ok disk ent c" "length (cp_l0 c) = t mod 4" "cp_db_dir c = db"
    "set (versions ent (cp_l0 c @ cp_l1 c)) = bench_entry ` {..<t * K}" "length (enc_block (versions ent (cp_l0 c @ cp_l1 c))) \<le> 36 * (t * K)"
    "unat (cp_next_sst_id c) \<le> 1 + 2 * t" "t \<le> u \<Longrightarrow> disk (l0_path db u) = None" "cp_next_sst_id c \<le> i \<Longrightarrow> disk (l1_path db i) = None"
  using assms unfolding bench_inv_def by (elim conjE, simp only: simp_thms, simp)+

text \<open>The entries of a new table, and all entries with them.\<close>

lemma bench_new_entries:
  assumes inv: "bench_inv db K t disk c ent" and K: "Suc t * K \<le> 10 ^ 8"
  defines "es \<equiv> map bench_entry [t * K..<t * K + K]" and "V \<equiv> versions ent (cp_l0 c @ cp_l1 c)"
  shows "set (es @ V) = bench_entry ` {..<Suc t * K}" "length (enc_block (es @ V)) \<le> 36 * (Suc t * K)"
    "entries_fit (es @ V)" "one_value (es @ V)"
proof -
  have b: "t * K + K \<le> 10 ^ 8" using K by simp
  have "{..<Suc t * K} = {t * K..<t * K + K} \<union> {..<t * K}" by auto
  then show all: "set (es @ V) = bench_entry ` {..<Suc t * K}"
    unfolding set_append V_def bench_invD(4)[OF inv] es_def set_map set_upt image_Un[symmetric] by simp
  have "length (enc_block es) = 36 * K" using bench_block_size[OF b, of "t * K"] by (simp add: es_def)
  then show size: "length (enc_block (es @ V)) \<le> 36 * (Suc t * K)"
    using bench_invD(5)[OF inv, folded V_def] by (simp add: enc_block_def)
  have ok: "entry_ok e" if e: "e \<in> set (es @ V)" for e
  proof -
    obtain i where "i < Suc t * K" "e = bench_entry i" using e unfolding all by auto
    then show ?thesis using bench_entry_size[of i] K by simp
  qed
  have "36 * (Suc t * K) < 2 ^ 61" using K by simp
  then show "entries_fit (es @ V)" using size ok unfolding entries_fit_def list_all_iff by (meson le_less_trans)
  show "one_value (es @ V)" using all K by (intro bench_one_value) auto
qed


lemma table_count:
  assumes "0 < K" "Suc t * K \<le> n"
  shows "t \<le> n"
proof -
  have "t * 1 \<le> Suc t * K" using assms(1) by (intro mult_le_mono) simp_all
  then show ?thesis using assms(2) by linarith
qed

text \<open>The state when the table is written and registered, before the compactor is called.\<close>

lemma bench_added:
  assumes inv: "bench_inv db K t disk c ent" and K: "0 < K" "Suc t * K \<le> 10 ^ 8"
    and f: "table_of (map bench_entry [t * K..<t * K + K]) f"
  defines "es \<equiv> map bench_entry [t * K..<t * K + K]" and "p \<equiv> l0_path db t"
  defines "c' \<equiv> add_l0_table p (fst (hd es)) (fst (last es)) c" and "ent' \<equiv> ent(p := es)" and "disk' \<equiv> disk(p \<mapsto> f)"
  shows "levels_ok disk' ent' c'" "length (cp_l0 c') = Suc (t mod 4)" "cp_db_dir c' = db"
    "set (versions ent' (cp_l0 c' @ cp_l1 c')) = bench_entry ` {..<Suc t * K}"
    "length (enc_block (versions ent' (cp_l0 c' @ cp_l1 c'))) \<le> 36 * (Suc t * K)"
    "unat (cp_next_sst_id c') \<le> 2 + 2 * t" "Suc t \<le> u \<Longrightarrow> disk' (l0_path db u) = None" "cp_next_sst_id c' \<le> i \<Longrightarrow> disk' (l1_path db i) = None"
proof -
  note new = bench_new_entries[OF inv K(2), folded es_def]
  have es: "es \<noteq> []" "sorted_wrt (<) (map fst es)" using K bench_keys_sorted[of "t * K + K" "t * K"] by (simp_all add: es_def)
  note add = add_l0_levels_ok[OF bench_invD(1)[OF inv] _ f[folded es_def] es new(3,4), of p, folded c'_def ent'_def disk'_def]
  have fresh: "disk p = None" using bench_invD(7)[OF inv, of t] by (simp add: p_def)
  show "levels_ok disk' ent' c'" by (rule add(1)[OF fresh])
  have v: "mset (versions ent' (cp_l0 c' @ cp_l1 c')) = mset (es @ versions ent (cp_l0 c @ cp_l1 c))" by (rule add(2)[OF fresh])
  show "set (versions ent' (cp_l0 c' @ cp_l1 c')) = bench_entry ` {..<Suc t * K}" unfolding mset_eq_setD[OF v] by (rule new(1))
  show "length (enc_block (versions ent' (cp_l0 c' @ cp_l1 c'))) \<le> 36 * (Suc t * K)" using new(2) unfolding length_enc_block_sum v .
  show "length (cp_l0 c') = Suc (t mod 4)" "cp_db_dir c' = db" using bench_invD(2,3)[OF inv] by (simp_all add: c'_def add_l0_table_def)
  have t: "t \<le> 10 ^ 8" by (rule table_count[OF K])
  have id: "unat (cp_next_sst_id c) \<le> 1 + 2 * t" "unat (cp_next_sst_id c) < 2 ^ 64 - 1" using bench_invD(6)[OF inv] t by simp_all
  then have "unat (cp_next_sst_id c + 1) = Suc (unat (cp_next_sst_id c))" by (simp add: unat_word_ariths)
  then show "unat (cp_next_sst_id c') \<le> 2 + 2 * t" using id(1) by (simp add: c'_def add_l0_table_def)
  show "disk' (l0_path db u) = None" if "Suc t \<le> u" using bench_invD(7)[OF inv, of u] that by (simp add: disk'_def p_def l0_path_inj)
  show "disk' (l1_path db i) = None" if "cp_next_sst_id c' \<le> i"
  proof -
    have "cp_next_sst_id c \<le> i" using that id(2) \<open>unat (cp_next_sst_id c + 1) = _\<close> by (simp add: c'_def add_l0_table_def word_le_nat_alt)
    then show ?thesis using bench_invD(8)[OF inv, of i] l0_l1_path[of db t i] by (simp add: disk'_def p_def)
  qed
qed


lemma bench_compact:
  assumes ok: "levels_ok disk ent c" and l0: "length (cp_l0 c) = Suc (t mod 4)" and db: "cp_db_dir c = db"
    and V: "set (versions ent (cp_l0 c @ cp_l1 c)) = bench_entry ` {..<Suc t * K}"
      "length (enc_block (versions ent (cp_l0 c @ cp_l1 c))) \<le> 36 * (Suc t * K)" "Suc t * K \<le> 10 ^ 8"
    and id: "unat (cp_next_sst_id c) \<le> 2 + 2 * t" "t \<le> 10 ^ 8"
    and free: "\<And>u. Suc t \<le> u \<Longrightarrow> disk (l0_path db u) = None" "\<And>i. cp_next_sst_id c \<le> i \<Longrightarrow> disk (l1_path db i) = None"
    and io: "no_faults io"
  shows "\<exists>r c' disk' ent'. maybe_schedule_compaction (\<lambda>_. None) None io disk c = Inr (r, c', disk') \<and> bench_inv db K (Suc t) disk' c' ent'"
proof (cases "t mod 4 = 3")
  case False
  then have m: "Suc t mod 4 = Suc (t mod 4)" "t mod 4 < 3" by (auto simp: mod_Suc)
  have "maybe_schedule_compaction (\<lambda>_. None) None io disk c = Inr (None, c, disk)"
    using l0 m(2) by (simp add: maybe_schedule_compaction_def L0_TRIGGER_COUNT_def)
  moreover have "bench_inv db K (Suc t) disk c ent" unfolding bench_inv_def
    using ok l0 m(1) db V(1,2) id(1) free by (simp del: versions_simps mult_Suc)
  ultimately show ?thesis by blast
next
  case True
  have trig: "L0_TRIGGER_COUNT \<le> length (cp_l0 c)" using l0 True by (simp add: L0_TRIGGER_COUNT_def)
  have fresh: "disk (l1_path (cp_db_dir c) (cp_next_sst_id c)) = None" using free(2) db by simp
  obtain c' disk' ent' where r: "maybe_schedule_compaction (\<lambda>_. None) None io disk c = Inr (Some (), c', disk')"
    "cp_l0 c' = []" "levels_ok disk' ent' c'" "cp_db_dir c' = cp_db_dir c" "cp_next_sst_id c' = cp_next_sst_id c + 1"
    "\<And>key. merged_view True (newest (versions ent' (cp_l1 c')) key) = merged_view True (newest (versions ent (cp_l0 c @ cp_l1 c)) key)"
    "set (versions ent' (cp_l1 c')) \<subseteq> set (versions ent (cp_l0 c @ cp_l1 c))"
    "length (enc_block (versions ent' (cp_l1 c'))) \<le> length (enc_block (versions ent (cp_l0 c @ cp_l1 c)))"
    "\<And>p. p \<noteq> l1_path (cp_db_dir c) (cp_next_sst_id c) \<Longrightarrow> disk p = None \<Longrightarrow> disk' p = None"
    by (rule compaction_result[OF ok trig fresh io]) blast
  have e: "set (versions ent' (cp_l1 c')) = bench_entry ` {..<Suc t * K}" by (rule compacted_entries[OF V(1,3) r(7,6)])
  have "unat (cp_next_sst_id c) < 2 ^ 64 - 1" using id by simp
  then have id': "unat (cp_next_sst_id c + 1) = Suc (unat (cp_next_sst_id c))" by (simp add: unat_word_ariths)
  have "disk' (l0_path db u) = None" if "Suc t \<le> u" for u
    using r(9)[of "l0_path db u"] free(1)[OF that] l0_l1_path[of db u] db by simp
  moreover have "disk' (l1_path db i) = None" if "cp_next_sst_id c' \<le> i" for i
  proof -
    have "cp_next_sst_id c \<le> i" "cp_next_sst_id c \<noteq> i" using that id' unfolding r(5) word_le_nat_alt by auto
    then show ?thesis using r(9)[of "l1_path db i"] free(2)[of i] db by (simp add: l1_path_inj)
  qed
  ultimately have "bench_inv db K (Suc t) disk' c' ent'" unfolding bench_inv_def
    using r(2-5) e order_trans[OF r(8) V(2)] True db id(1) id' by (simp add: mod_Suc del: mult_Suc)
  then show ?thesis using r(1) by blast
qed

lemma bench_table_ok:
  assumes inv: "bench_inv db K t disk c ent" and K: "0 < K" "Suc t * K \<le> 10 ^ 8" and ba: "bench_smooth ba"
  shows "\<exists>b disk' c' ent'. bench_table ba db K t (n, disk, c) = Inr (b, disk', c') \<and> bench_inv db K (Suc t) disk' c' ent'"
proof -
  let ?es = "map bench_entry [t * K..<t * K + K]" and ?p = "l0_path db t"
  have io: "ba_create ba t = None" "no_faults (ba_writes ba t)" "ba_merge_create ba t = None" "no_faults (ba_merge_writes ba t)" "ba_mmap ba = (\<lambda>_. None)"
    using ba by (simp_all add: bench_smooth_def)
  obtain m f where w: "sst_write None (ba_writes ba t) ?es = Inr (m, f)" using sst_write_ok[OF io(2)] by blast
  have "mset ?es \<subseteq># mset (?es @ versions ent (cp_l0 c @ cp_l1 c))" by simp
  then have "entries_fit ?es" using entries_fit_mono[OF bench_new_entries(3)[OF inv K(2)]] by blast
  then have f: "table_of ?es f" using table_of_write[OF w] by blast
  obtain r where r: "sst_open (Inr f) None = Inr r" "sst_get_first_key r = Inr (if ?es = [] then None else Some (fst (hd ?es)))"
    "sst_get_last_key r = (if ?es = [] then None else Some (fst (last ?es)))" using table_of_open[OF f] by metis
  have "?es \<noteq> []" using K(1) by simp
  have t: "t \<le> 10 ^ 8" by (rule table_count[OF K])
  let ?c = "add_l0_table ?p (fst (hd ?es)) (fst (last ?es)) c"
  note added = bench_added[OF inv K f]
  obtain a c' disk' ent' where c: "maybe_schedule_compaction (\<lambda>_. None) None (ba_merge_writes ba t) (disk(?p \<mapsto> f)) ?c = Inr (a, c', disk')"
    "bench_inv db K (Suc t) disk' c' ent'"
    using bench_compact[OF added(1-5) K(2) added(6) t added(7,8) io(4)] by blast
  have "bench_table ba db K t (n, disk, c) = Inr (n + m, disk', c')"
    using w r \<open>?es \<noteq> []\<close> c(1) io unfolding bench_table_def Let_def by (simp add: open_file_def)
  then show ?thesis using c(2) by blast
qed


lemma bench_tables_ok:
  assumes "bench_inv db K t disk c ent" "0 < K" "(t + n) * K \<le> 10 ^ 8" "bench_smooth ba"
  shows "\<exists>b disk' c' ent'. bench_tables ba db K [t..<t + n] (a, disk, c) = Inr (b, disk', c') \<and> bench_inv db K (t + n) disk' c' ent'"
  using assms(1,3)
proof (induction n arbitrary: t disk c ent a)
  case (Suc n)
  have "Suc t * K \<le> (t + Suc n) * K" by (rule mult_le_mono1) simp
  then have "Suc t * K \<le> 10 ^ 8" using Suc.prems(2) by linarith
  from bench_table_ok[OF Suc.prems(1) assms(2) this assms(4), of a] obtain b disk' c' ent' where
    s: "bench_table ba db K t (a, disk, c) = Inr (b, disk', c')" "bench_inv db K (Suc t) disk' c' ent'" by blast
  have "(Suc t + n) * K \<le> 10 ^ 8" using Suc.prems(2) by simp
  from Suc.IH[OF s(2) this, of b] s(1) show ?case by (simp add: upt_conv_Cons del: upt_Suc mult_Suc)
qed auto

lemma bench_start: "bench_inv db K 0 Map.empty (compactor_new db 1) (\<lambda>_. [])"
  by (simp add: bench_inv_def levels_ok_def compactor_new_def entries_fit_def one_value_def enc_block_def)

lemma bench_readers_ok:
  assumes "\<forall>m\<in>set ms. table_holds disk m (ent (tm_path m)) \<and> sorted_wrt (<) (map fst (ent (tm_path m)))" "ba_mmap ba = (\<lambda>_. None)"
  shows "\<exists>rs. bench_readers ba disk ms = Inr rs \<and>
    (\<forall>avx2 key. bench_hit avx2 rs key = Inr (if key \<in> fst ` set (versions ent ms) then 1 else 0))"
  using assms(1)
proof (induction ms)
  case (Cons m ms)
  then obtain rs where rs: "bench_readers ba disk ms = Inr rs"
    "\<And>avx2 key. bench_hit avx2 rs key = Inr (if key \<in> fst ` set (versions ent ms) then 1 else 0)" by auto
  obtain f where f: "disk (tm_path m) = Some f" "table_of (ent (tm_path m)) f" using Cons.prems by (auto simp: table_holds_def)
  obtain r where r: "sst_open (Inr f) None = Inr r" using table_of_open[OF f(2)] by metis
  have get: "sst_get avx2 r key = Inr (map_of (ent (tm_path m)) key)" for avx2 key
    using table_of_open[OF f(2), of avx2 key] r Cons.prems by (metis list.set_intros(1) sum.inject(2))
  have "bench_hit avx2 (r # rs) key = Inr (if key \<in> fst ` set (versions ent (m # ms)) then 1 else 0)" for avx2 key
    using rs(2)[of avx2 key] map_of_eq_None_iff[of "ent (tm_path m)" key] by (auto simp: get split: option.split)
  moreover have "bench_readers ba disk (m # ms) = Inr (r # rs)" using rs(1) f(1) r assms(2) by (simp add: open_file_def)
  ultimately show ?case by blast
qed simp

lemma bench_reads_all:
  assumes "\<And>i. i \<in> set is \<Longrightarrow> bench_hit avx2 rs (fst (bench_entry i)) = Inr 1"
  shows "bench_reads avx2 rs is hits = Inr (hits + length is)"
  using assms by (induction "is" arbitrary: hits) simp_all

section \<open>Properties\<close>

text \<open>
  C40. The benchmark finds every key: with a file system that works, any number of tables that is a multiple of four, and keys of at most
  eight digits, all phases return, level 0 ends up empty after the last of its compactions, and the lookups through the tables of level 1 hit for every one of
  the operations.
\<close>

theorem benchmark_finds_all:
  assumes "bench_smooth ba" "0 < K" "4 dvd n" "n * K \<le> 10 ^ 8"
  shows "\<exists>report. engine_benchmark ba avx2 weak rng db (n * K) K = Inr report \<and> rp_hits report = n * K \<and> rp_l0_tables report = 0"
proof -
  obtain mem rng' where fill: "bench_fill weak rng (n * K) = Inr (mem, rng')"
    using mt.ins_all_ok[OF sl_repr_new, where ws = "map (\<lambda>i. (weak i, bench_entry i)) [0..<n * K]" and g = rng] unfolding bench_fill_def by blast
  have "(0 + n) * K \<le> 10 ^ 8" using assms(4) by simp
  from bench_tables_ok[OF bench_start assms(2) this assms(1), of db 0] obtain b disk c ent where
    t: "bench_tables ba db K [0..<n] (0, Map.empty, compactor_new db 1) = Inr (b, disk, c)" and inv: "bench_inv db K n disk c ent" by auto
  have l0: "cp_l0 c = []" using bench_invD(2)[OF inv] assms(3) by simp
  have "\<forall>m\<in>set (cp_l1 c). table_holds disk m (ent (tm_path m)) \<and> sorted_wrt (<) (map fst (ent (tm_path m)))"
    using bench_invD(1)[OF inv] by (simp add: levels_ok_def)
  moreover have "ba_mmap ba = (\<lambda>_. None)" using assms(1) by (simp add: bench_smooth_def)
  ultimately obtain rs where rs: "bench_readers ba disk (cp_l1 c) = Inr rs"
    "\<And>key. bench_hit avx2 rs key = Inr (if key \<in> fst ` set (versions ent (cp_l1 c)) then 1 else 0)" using bench_readers_ok by blast
  have "bench_hit avx2 rs (fst (bench_entry i)) = Inr 1" if "i \<in> set [0..<n * K]" for i
    using that bench_invD(4)[OF inv] by (simp add: rs(2) l0)
  from bench_reads_all[of "[0..<n * K]" avx2 rs 0, OF this] have "bench_reads avx2 rs [0..<n * K] 0 = Inr (n * K)" by simp
  then show ?thesis using fill t rs(1) l0 assms(2) by (simp add: engine_benchmark_def)
qed

text \<open>The run of the source: forty tables of ten thousand keys.\<close>

theorem benchmark_finds_all_witness:
  "\<exists>report. engine_benchmark \<lparr>ba_create = (\<lambda>_. None), ba_writes = (\<lambda>_. []), ba_merge_create = (\<lambda>_. None), ba_merge_writes = (\<lambda>_. []), ba_mmap = (\<lambda>_. None)\<rparr>
     True (\<lambda>_. True) 0xDEADBEEF ''db'' total_operations keys_per_sstable = Inr report \<and> rp_hits report = 400000 \<and> rp_l0_tables report = 0"
proof -
  let ?ba = "\<lparr>ba_create = (\<lambda>_. None), ba_writes = (\<lambda>_. []), ba_merge_create = (\<lambda>_. None), ba_merge_writes = (\<lambda>_. []), ba_mmap = (\<lambda>_. None)\<rparr>"
  have "bench_smooth ?ba" by (simp add: bench_smooth_def no_faults_def)
  moreover have "0 < keys_per_sstable" "4 dvd (40 :: nat)" "40 * keys_per_sstable \<le> 10 ^ 8" by (simp_all add: keys_per_sstable_def)
  ultimately show ?thesis using benchmark_finds_all[of ?ba keys_per_sstable 40 True "\<lambda>_. True" "0xDEADBEEF" "''db''"]
    by (simp add: keys_per_sstable_def total_operations_def)
qed

end
