(* ===== verification/Spec2Isabelle.thy ===== *)
theory Spec2Isabelle
  imports Durability Mpmc_Unpadded Ebr_Liveness Ebr_Fine Conc_Map_Fine Cluster Clients Engine_Benchmark
begin

text \<open>
  \<^bold>\<open>The program.\<close> lsm-engine is a storage system of three parts.
  \<^item> \<^verbatim>\<open>src/tier3_storage\<close>, a log-structured merge tree: a write goes to a checksummed log and to a skip list
    in memory; a full skip list is frozen and a flush worker writes it to a sorted table on disk with a Bloom
    filter; tables of level 0 are merged into level 1 by the compactor; a lookup asks the two memtables, then
    level 0 from the newest table on, then level 1.
  \<^item> \<^verbatim>\<open>src/tier2_concurrency\<close>, lock-free structures: a bounded queue for many producers and consumers, epoch based
    reclamation of memory, and a hash map that uses it.
  \<^item> \<^verbatim>\<open>src/uring-engine\<close>, a server: one worker per core with an io_uring instance and a ring of receive buffers
    reads commands from the network, calls an engine of its own and passes every put to the next core over the
    bounded queues; load generators and a baseline server beside it.

  \<^bold>\<open>Conventions.\<close> The theory \<open>Prelude\<close> holds what the components share. Integers of the source that can wrap
  (sequence numbers, ring positions, hashes, offsets read from a file) are words of their width; lengths and
  positions of things in memory are natural numbers, and a cast to a narrower type or a wrap at 64 bits is written
  out where the source has it. Arithmetic is that of a release build, where it wraps. A call that does not return a
  value has a failure: \<open>IoError\<close> (an \<open>io::Error\<close> passed to the caller), \<open>Panic\<close> (a failed check of the language, \<open>unwrap\<close>, \<open>expect\<close>), \<open>Undefined\<close> (a raw slice or
  pointer outside its allocation) or \<open>Diverges\<close>; the \<open>WalError\<close> values of the source are ordinary results inside it
  (\<open>Inr (Inl e)\<close>). \<open>and_then\<close> runs one call after another. Everything the program does not decide is an argument:
  the checksum of crc32fast, the hasher, whether the processor has AVX2, random bits, spurious failures of a weak
  compare-exchange, and the answers of the operating system to each call (\<open>write_answers\<close>, \<open>flush_answers\<close>,
  \<open>server_env\<close>, \<open>setup_answers\<close>, \<open>buf_answers\<close>, \<open>start_answers\<close>, \<open>bench_answers\<close>). Where a property needs the kernel to behave, its hypothesis says so by name:
  \<open>kernel_ok\<close> for completions, \<open>setup_ok\<close> for the set-up of a ring, \<open>env_ok\<close> for the environment of a worker; each
  is satisfied by a concrete instance in a witness.

  \<^bold>\<open>Storage\<close>, in the order of the source.
  \<^item> \<open>Wal_Record\<close> (\<^verbatim>\<open>wal/record.rs\<close>): \<open>encode_record\<close> and \<open>decode_record\<close> with every error. Encoding and decoding
    are inverse, and a change the checksum sees is refused.
  \<^item> \<open>Wal_Writer\<close> (\<^verbatim>\<open>wal/aligned_buffer.rs\<close>, \<^verbatim>\<open>wal/writer.rs\<close>): the staging buffer and the append path; the record
    \<open>wal_writer\<close> has the fields of the struct and the contents of the file. Whatever the kernel answers, the writer
    stays well formed, and a failed append does not move the logical end.
  \<^item> \<open>Wal_Recovery\<close> (\<^verbatim>\<open>wal/recovery.rs\<close>): the scanner. What was appended is replayed; on any file only checksummed
    records with increasing numbers are replayed; a log cut anywhere or damaged in a record gives the records before
    that place. The exception, a record that ends on a sector boundary, has a theorem of its own.
  \<^item> \<open>Bloom\<close> (\<^verbatim>\<open>bloom/filter.rs\<close>): no key is missed, and the AVX2 test, written out by lanes, is the scalar test.
  \<^item> \<open>Block\<close>, \<open>Footer\<close>, \<open>SSTable_Writer\<close>, \<open>SSTable_Reader\<close>, \<open>SSTable_Streaming\<close> (\<^verbatim>\<open>sstable/*.rs\<close>): a table is a
    byte list. What the writer produced is read back by point lookups and by streaming, and the two parsers of the
    index agree; files of arbitrary bytes are covered by what \<open>open\<close> checks.
  \<^item> \<open>Merge\<close>, \<open>Compaction\<close> (\<^verbatim>\<open>compaction/*.rs\<close>): the heap of the k-way merge is a list with the contract of
    \<open>BinaryHeap\<close>; the merge ends and writes the newest version of each key; a compaction keeps every answer of the
    two levels.
  \<^item> \<open>Skiplist\<close> (\<^verbatim>\<open>memtable/skiplist.rs\<close>): nodes in a store addressed by number, towers of links. Inserts end and keep
    the list, lookups and the iterator are correct for it, and \<open>drop\<close> frees each node once. The walk functions
    carry a bound: a walk visits a node at most once per level, and the lemmas show that the number of nodes is enough.
  \<^item> \<open>Memtable_Manager\<close> (\<^verbatim>\<open>memtable/manager.rs\<close>) and \<open>Engine\<close> (\<^verbatim>\<open>engine.rs\<close>): writes, freezes, lookups, flushes and
    their errors, and the step relation in which calls and the worker alternate. A write is read back, also when it
    freezes the memtable. \<open>Engine_Flush\<close> shows that a flush keeps every answer, \<open>Durability\<close> that the log of an
    engine holds exactly the writes it acknowledged, \<open>Engine_Store\<close> that calls on an engine always return.
  \<^item> \<open>Engine_Benchmark\<close> (\<^verbatim>\<open>bin/engine_benchmark.rs\<close>): the driver that runs skip list, table writer, compactor and reader one after
    the other, with the numbers it reports. Every key it writes is found again after all compactions.

  \<^bold>\<open>Concurrency.\<close>
  \<^item> \<open>Mpmc_Queue\<close>, \<open>Mpmc_Concurrent\<close>, \<open>Mpmc_Progress\<close>, \<open>Mpmc_Unpadded\<close> (\<^verbatim>\<open>queue.rs\<close>): every access to shared memory in
    push and pop is one step (\<open>push_step\<close>, \<open>pop_step\<close>). One thread alone refines the bounded list; any number of
    threads, in any interleaving, pop what was pushed, in order and once; a thread left alone for six steps
    finishes, wherever the others stopped; the unpadded twin does the same step by step. The safety theorem bounds
    the number of pushes by \<open>2 ^ 64\<close> less the capacity, where the positions would wrap, and the capacity is a power of two.
  \<^item> \<open>Ebr\<close>, \<open>Ebr_Liveness\<close>, \<open>Ebr_Fine\<close> (\<^verbatim>\<open>ebr.rs\<close>): in the first two each operation is one step, in the third each load and store is. What a pinned thread can have seen is not freed by
    \<open>flush\<close> or \<open>defer\<close>, except the object just passed to a \<open>defer\<close> that finds its bag full; every object is freed at most once; when no thread is pinned three
    flushes free everything. With single accesses interleaved the grace period holds as long as no thread is stopped for
    two moves of the epoch inside a pin, or for one inside an advance, and two schedules show what happens otherwise;
    calls that are not interrupted do the same in both models.
  \<^item> \<open>Conc_Map\<close>, \<open>Conc_Map_Fine\<close> (\<^verbatim>\<open>map.rs\<close>): open addressing with tombstones, in the first theory each operation one
    step on reachable tables, in the second each load and compare-exchange. Under any interleaving an entry is in one slot of the table
    or was handed to the collector once; a call that loses a race can report a miss or a full table that no single state justifies;
    calls that are not interrupted do the same in both models.

  \<^bold>\<open>Server.\<close>
  \<^item> \<open>Uring_Op\<close>, \<open>Uring\<close>, \<open>Buf_Ring\<close> (\<^verbatim>\<open>op.rs\<close>, \<^verbatim>\<open>sys.rs\<close>, \<^verbatim>\<open>uring.rs\<close>, \<^verbatim>\<open>buf_ring.rs\<close>): entries, both queues with
    their wrapping positions and masks, set-up with its error paths, submission, completion, and the ring of
    receive buffers with its tail in the reserved field of entry 0. The buffers are conserved between the ring, the
    kernel and the worker. Rings have at most \<open>2 ^ 15\<close> entries, so that a tail of 16 bits tells full from empty.
  \<^item> \<open>Server\<close>, \<open>Server_Props\<close>, \<open>Server_Start\<close> (\<^verbatim>\<open>main.rs\<close>): the set-up of a worker and one round of its loop. A
    worker whose set-up calls succeed reaches its loop well formed; a round returns well formed whatever arrives; puts
    are answered by later gets and handed to the next core.
  \<^item> \<open>Cluster\<close> (\<^verbatim>\<open>main.rs\<close>): \<open>main\<close> and all its workers, whose steps interleave with each other and with the kernel. No worker
    panics, and \<open>main\<close> does not when it joins them; replicas travel between the cores in order, none is lost but by a full queue,
    and the store of every core is what its own puts and its replicas make of the store it opened. Uninterrupted steps make up a round.
  \<^item> \<open>Clients\<close> (\<^verbatim>\<open>bin/load_gen.rs\<close>, \<^verbatim>\<open>bin/bench.rs\<close>, \<^verbatim>\<open>bin/tokio_server.rs\<close>): the bytes the clients send, and what the
    server makes of them.
  \<^item> This theory: puts that came over the network survive a crash. A put takes 37 bytes of the log (16 of the
    header of a record, 21 of the payload), which is where the condition on sector boundaries comes from.

  \<^bold>\<open>Interfaces.\<close> Where a component relies on another, or several have the same contract, the contract is a locale and
  the model's definitions are its interpretation: \<open>slice_search\<close> (binary search), \<open>record_codec\<close> (entries of
  a block), \<open>membership_filter\<close> (Bloom filter, with and without AVX2), \<open>entry_source\<close> (streamed tables and the
  iterator of the skip list), \<open>merge_queue\<close> (the heap), \<open>memtable\<close> (the skip list), \<open>total_store\<close> (the engine),
  \<open>bounded_queue\<close> (the ring of \<open>queue.rs\<close>), \<open>bounded_progress\<close> (a thread running alone), \<open>submission_queue\<close> (the
  submission side of io_uring).

  \<^bold>\<open>Bounds and fuel.\<close> Loops whose end is not evident take a bound and answer \<open>Diverges\<close> when it is used up: the walks
  of the skip list (the number of nodes), \<open>drain\<close> of an iterator (one more than its entries), a queue call
  of one thread and the emptying of a queue on drop. For each a lemma shows that the bound the definitions use is
  enough, so that results are total statements. The merge and \<open>next_kv\<close> have termination proofs and need no bound.

  \<^bold>\<open>Granularity.\<close> The queue, the reclamation and the hash map are interleaved access by access, with sequentially consistent memory;
  weaker orderings of the source are not distinguished. The engine is interleaved call by call with its flush worker, the cores of the server by
  single inbound tasks and completions, each of which uses a shared queue at most once; the skip list has one writer, which is how the engine uses it.

  \<^bold>\<open>Not modelled.\<close> The raw system calls at the end of \<^verbatim>\<open>sys.rs\<close> and all of \<^verbatim>\<open>sync.rs\<close> (they hand their arguments
  on); addresses the allocator returns, alignment apart from the sizes; the mapping of files into memory (a mapped file is
  its contents); printing; sleeping and clocks in \<^verbatim>\<open>main.rs\<close>, threads and clocks in the clients, so that
  rates are not claimed; module lists, the build script, tests and benches. Progress under arbitrary scheduling (lock-freedom) is not claimed, only
  progress of a thread that runs alone.
\<close>

section \<open>From the network to the log\<close>

text \<open>Put commands served one after the other, and the writes they make under the worker's sequence numbers.\<close>

fun serve_puts :: "server_env \<Rightarrow> (u64 \<times> u64) list \<Rightarrow> worker \<Rightarrow> worker result" where
  "serve_puts se [] w = Inr w"
| "serve_puts se ((key, val) # kvs) w = and_then (handle_put se key val w) (serve_puts se kvs)"

fun put_writes :: "server_env \<Rightarrow> u64 \<Rightarrow> (u64 \<times> u64) list \<Rightarrow> (write_answers \<times> entry) list" where
  "put_writes se s [] = []"
| "put_writes se s ((key, val) # kvs) =
     (se_write se s, to_be_bytes key, Some (to_be_bytes val), s) # put_writes se (s + 1) kvs"

lemma handle_put_write:
  assumes "worker_ok k b w" "env_ok se"
  obtains r w' where "handle_put se key val w = Inr w'" "worker_ok k b w'" "wk_seq w' = wk_seq w + 1"
    "write_internal (se_crc se) (se_write se (wk_seq w)) (to_be_bytes key) (Some (to_be_bytes val)) (wk_seq w) (wk_db w) = Inr (r, wk_db w')"
proof -
  let ?t = "(wk_core w + 1) mod length (wk_queues w)"
  have "wk_queues w \<noteq> []" using assms(1) by (auto simp: worker_ok_def)
  then have "?t < length (wk_queues w)" by (intro mod_less_divisor) simp
  then have "queue_ok (wk_queues w ! ?t)" using assms(1) by (simp add: worker_ok_def)
  then obtain m ts where "ring_repr m (wk_queues w ! ?t) ts" by (auto simp: queue_ok_def)
  from handle_put_spec[OF assms this, of key val] show thesis using that by (auto simp: engine_put_def)
qed

lemma serve_puts_run:
  assumes "worker_ok k b w" "env_ok se" "write_run (se_crc se) (put_writes se (wk_seq w) kvs) (wk_db w) = Inr (Inr (), db)"
  shows "\<exists>w'. serve_puts se kvs w = Inr w' \<and> worker_ok k b w' \<and> wk_db w' = db"
  using assms(1,3)
proof (induction kvs arbitrary: w)
  case (Cons kv kvs)
  obtain key val where kv: "kv = (key, val)" by (cases kv)
  obtain r w1 where w1: "handle_put se key val w = Inr w1" "worker_ok k b w1" "wk_seq w1 = wk_seq w + 1"
    "write_internal (se_crc se) (se_write se (wk_seq w)) (to_be_bytes key) (Some (to_be_bytes val)) (wk_seq w) (wk_db w) = Inr (r, wk_db w1)"
    by (rule handle_put_write[OF Cons.prems(1) assms(2)])
  then have "write_run (se_crc se) (put_writes se (wk_seq w1) kvs) (wk_db w1) = Inr (Inr (), db)"
    using Cons.prems(2) kv by (simp split: sum.splits)
  from Cons.IH[OF w1(2) this] w1(1) kv show ?case by simp
qed simp

lemma length_put_writes: "length (put_writes se s kvs) = length kvs"
  by (induction se s kvs rule: put_writes.induct) simp_all

lemma put_writes_payloads:
  "map (\<lambda>(_, key, val, _). Some (key, val)) (put_writes se s kvs) = map (\<lambda>(key, val). Some (to_be_bytes key, Some (to_be_bytes val))) kvs"
  by (induction se s kvs rule: put_writes.induct) simp_all

text \<open>Every command takes 37 bytes of the log.\<close>

lemma ends_put_writes: "ends n (map snd (wal_ops (put_writes se s kvs))) = map (\<lambda>i. n + 37 * Suc i) [0..<length kvs]"
proof (induction se s kvs arbitrary: n rule: put_writes.induct)
  case (2 se s key val kvs)
  have "length (log_payload (to_be_bytes key) (Some (to_be_bytes val))) = 21" by (simp add: log_payload_def)
  then show ?case using "2.IH"[of "n + 37"]
    by (simp add: wal_ops_def HEADER_SIZE_def upt_conv_Cons map_Suc_upt[symmetric] comp_def ac_simps del: upt_Suc)
qed (simp add: wal_ops_def)



end
